(* ===== verification/Shep_Prelude.thy ===== *)
theory Shep_Prelude
  imports Main "HOL-Library.Word" "HOL-Library.AList" "HOL-Library.List_Lexorder"
    "HOL-Library.Char_ord"
begin

text \<open>
  Shared vocabulary of the development: the machine integer types of the Rust
  sources, Rust's \<open>Result\<close> as a sum with the error on the left, byte strings and
  decimal numerals, finite maps as association lists, and the small general lemmas
  the component theories rewrite with.
\<close>

named_theorems shep_defs \<open>definitions a component proof unfolds\<close>
named_theorems slot_simps \<open>what an operation does to one slot of the flock\<close>
named_theorems frame_simps \<open>fields an operation leaves alone\<close>

type_synonym u8 = "8 word"
type_synonym u16 = "16 word"
type_synonym u32 = "32 word"
type_synonym u64 = "64 word"

text \<open>
  A \<open>core::time::Duration\<close> is a count of nanoseconds; \<open>UpDuration\<close> values are
  written in milliseconds.
\<close>

type_synonym duration = nat

definition from_millis :: "u64 \<Rightarrow> duration" where
  "from_millis ms = unat ms * 1000000"

lemma from_millis_inject [simp]: "from_millis a = from_millis b \<longleftrightarrow> a = b"
  by (simp add: from_millis_def word_unat_eq_iff)

lemma from_millis_le [simp]: "from_millis a \<le> from_millis b \<longleftrightarrow> a \<le> b"
  by (simp add: from_millis_def word_le_nat_alt)

lemma from_millis_less [simp]: "from_millis a < from_millis b \<longleftrightarrow> a < b"
  by (simp add: from_millis_def word_less_nat_alt)

subsection \<open>Results\<close>

text \<open>The \<open>?\<close> operator: the first error ends the computation.\<close>

definition and_then :: "'e + 'a \<Rightarrow> ('a \<Rightarrow> 'e + 'b) \<Rightarrow> 'e + 'b" where
  "and_then r f = (case r of Inl e \<Rightarrow> Inl e | Inr x \<Rightarrow> f x)"

lemma and_then_simps [simp]:
  "and_then (Inl e) f = Inl e"
  "and_then (Inr x) f = f x"
  by (simp_all add: and_then_def)

lemma and_then_Inr: "and_then r f = Inr y \<longleftrightarrow> (\<exists>x. r = Inr x \<and> f x = Inr y)"
  by (cases r) auto

lemma and_then_Inl: "and_then r f = Inl e \<longleftrightarrow> r = Inl e \<or> (\<exists>x. r = Inr x \<and> f x = Inl e)"
  by (cases r) auto

text \<open>A check that refuses, and a loop of checks that stops at the first refusal.\<close>

definition ensure :: "bool \<Rightarrow> 'e \<Rightarrow> 'e + unit" where
  "ensure ok e = (if ok then Inr () else Inl e)"

lemma ensure_Inr [simp]: "ensure ok e = Inr u \<longleftrightarrow> ok"
  by (simp add: ensure_def)

lemma ensure_True [simp]: "ensure True e = Inr ()"
  by (simp add: ensure_def)

fun first_error :: "('a \<Rightarrow> 'e + unit) \<Rightarrow> 'a list \<Rightarrow> 'e + unit" where
  "first_error f [] = Inr ()"
| "first_error f (x # xs) = and_then (f x) (\<lambda>_. first_error f xs)"

lemma first_error_Inr: "first_error f xs = Inr u \<longleftrightarrow> (\<forall>x \<in> set xs. f x = Inr ())"
  by (induction xs) (auto simp: and_then_Inr)

text \<open>The \<open>?\<close> operator in a function that updates a state: an error leaves it as it is at that point.\<close>

definition on_ok :: "'e + 'a \<Rightarrow> 'd \<Rightarrow> ('a \<Rightarrow> ('e + 'b) \<times> 'd) \<Rightarrow> ('e + 'b) \<times> 'd" where
  "on_ok r d k = (case r of Inl e \<Rightarrow> (Inl e, d) | Inr x \<Rightarrow> k x)"

definition map_err :: "('e \<Rightarrow> 'f) \<Rightarrow> 'e + 'a \<Rightarrow> 'f + 'a" where
  "map_err f r = (case r of Inl e \<Rightarrow> Inl (f e) | Inr x \<Rightarrow> Inr x)"

lemma on_ok_simps [simp]: "on_ok (Inl e) d k = (Inl e, d)" "on_ok (Inr x) d k = k x"
  by (simp_all add: on_ok_def)

lemma map_err_simps [simp]:
  "map_err f (Inl e) = Inl (f e)" "map_err f (Inr x) = Inr x"
  "map_err f r = Inr y \<longleftrightarrow> r = Inr y"
  by (simp_all add: map_err_def split: sum.splits)

lemma on_ok_Inr: "on_ok r d k = (Inr x, d') \<longleftrightarrow> (\<exists>y. r = Inr y \<and> k y = (Inr x, d'))"
  by (cases r) auto

subsection \<open>Byte strings\<close>

text \<open>
  A Rust \<open>str\<close> is its UTF-8 bytes, a \<^typ>\<open>string\<close> here. \<open>strip_prefix\<close> and
  \<open>strip_suffix\<close> are the standard library's.
\<close>

fun strip_prefix :: "string \<Rightarrow> string \<Rightarrow> string option" where
  "strip_prefix [] s = Some s"
| "strip_prefix (p # ps) [] = None"
| "strip_prefix (p # ps) (c # cs) = (if p = c then strip_prefix ps cs else None)"

definition strip_suffix :: "string \<Rightarrow> string \<Rightarrow> string option" where
  "strip_suffix suf s = map_option rev (strip_prefix (rev suf) (rev s))"

lemma strip_prefix_Some: "strip_prefix p s = Some r \<longleftrightarrow> s = p @ r"
  by (induction p s rule: strip_prefix.induct) auto

lemma strip_prefix_append [simp]: "strip_prefix p (p @ r) = Some r"
  by (simp add: strip_prefix_Some)

lemma strip_suffix_Some: "strip_suffix p s = Some r \<longleftrightarrow> s = r @ p"
proof -
  have "strip_suffix p s = Some r \<longleftrightarrow> strip_prefix (rev p) (rev s) = Some (rev r)"
    by (cases "strip_prefix (rev p) (rev s)") (auto simp: strip_suffix_def)
  also have "\<dots> \<longleftrightarrow> s = r @ p"
    by (metis rev_append rev_rev_ident strip_prefix_Some)
  finally show ?thesis .
qed

lemma strip_suffix_append [simp]: "strip_suffix p (r @ p) = Some r"
  by (simp add: strip_suffix_Some)

text \<open>\<open>str::split_once\<close> and \<open>rsplit_once\<close>: the text around the first and around the last \<open>d\<close>.\<close>

fun split_once :: "char \<Rightarrow> string \<Rightarrow> (string \<times> string) option" where
  "split_once d [] = None"
| "split_once d (c # cs) =
     (if c = d then Some ([], cs)
      else map_option (\<lambda>(a, b). (c # a, b)) (split_once d cs))"

definition rsplit_once :: "char \<Rightarrow> string \<Rightarrow> (string \<times> string) option" where
  "rsplit_once d s = map_option (\<lambda>(a, b). (rev b, rev a)) (split_once d (rev s))"

lemma split_once_Some:
  "split_once d s = Some (a, b) \<longleftrightarrow> s = a @ d # b \<and> d \<notin> set a"
proof (induction s arbitrary: a)
  case (Cons c cs)
  show ?case
  proof (cases "c = d")
    case True
    then show ?thesis by (cases a) auto
  next
    case False
    then have "split_once d (c # cs) = Some (a, b) \<longleftrightarrow>
        (\<exists>a'. a = c # a' \<and> split_once d cs = Some (a', b))"
      by auto
    also have "\<dots> \<longleftrightarrow> c # cs = a @ d # b \<and> d \<notin> set a"
      unfolding Cons.IH using False by (cases a) auto
    finally show ?thesis .
  qed
qed simp

lemma rsplit_once_Some:
  "rsplit_once d s = Some (a, b) \<longleftrightarrow> s = a @ d # b \<and> d \<notin> set b"
proof -
  have "rsplit_once d s = Some (a, b) \<longleftrightarrow> split_once d (rev s) = Some (rev b, rev a)"
    by (auto simp: rsplit_once_def)
  also have "\<dots> \<longleftrightarrow> s = a @ d # b \<and> d \<notin> set b"
  proof -
    have "rev s = rev b @ d # rev a \<longleftrightarrow> s = a @ d # b"
      by (metis append.assoc append_Cons append_Nil rev.simps(2) rev_append rev_rev_ident)
    then show ?thesis by (simp add: split_once_Some)
  qed
  finally show ?thesis .
qed

text \<open>
  \<open>char::is_whitespace\<close> on UTF-8: the encodings of the characters with the White_Space property.
  Encodings are self-synchronizing, so a text holds such a character exactly when one of its tails
  starts with an encoding. \<open>trim\<close> and \<open>split_whitespace\<close> are the standard library's.
\<close>

definition WHITESPACE :: "string list" where
  "WHITESPACE =
     [[CHR 0x09], [CHR 0x0A], [CHR 0x0B], [CHR 0x0C], [CHR 0x0D], [CHR 0x20], [CHR 0xC2, CHR 0x85],
      [CHR 0xC2, CHR 0xA0], [CHR 0xE1, CHR 0x9A, CHR 0x80], [CHR 0xE2, CHR 0x80, CHR 0x80],
      [CHR 0xE2, CHR 0x80, CHR 0x81], [CHR 0xE2, CHR 0x80, CHR 0x82], [CHR 0xE2, CHR 0x80, CHR 0x83],
      [CHR 0xE2, CHR 0x80, CHR 0x84], [CHR 0xE2, CHR 0x80, CHR 0x85], [CHR 0xE2, CHR 0x80, CHR 0x86],
      [CHR 0xE2, CHR 0x80, CHR 0x87], [CHR 0xE2, CHR 0x80, CHR 0x88], [CHR 0xE2, CHR 0x80, CHR 0x89],
      [CHR 0xE2, CHR 0x80, CHR 0x8A], [CHR 0xE2, CHR 0x80, CHR 0xA8], [CHR 0xE2, CHR 0x80, CHR 0xA9],
      [CHR 0xE2, CHR 0x80, CHR 0xAF], [CHR 0xE2, CHR 0x81, CHR 0x9F], [CHR 0xE3, CHR 0x80, CHR 0x80]]"

definition strip_one :: "string list \<Rightarrow> string \<Rightarrow> string option" where
  "strip_one ps s = (case List.map_filter (\<lambda>p. strip_prefix p s) ps of [] \<Rightarrow> None | r # _ \<Rightarrow> Some r)"

fun has_whitespace :: "string \<Rightarrow> bool" where
  "has_whitespace [] \<longleftrightarrow> False"
| "has_whitespace (c # cs) \<longleftrightarrow> strip_one WHITESPACE (c # cs) \<noteq> None \<or> has_whitespace cs"

lemma strip_one_shorter: "strip_one ps s = Some r \<Longrightarrow> [] \<notin> set ps \<Longrightarrow> length r < length s"
proof -
  assume s: "strip_one ps s = Some r" and ps: "[] \<notin> set ps"
  then obtain rs where "List.map_filter (\<lambda>p. strip_prefix p s) ps = r # rs"
    by (auto simp: strip_one_def split: list.splits)
  then have "r \<in> set (List.map_filter (\<lambda>p. strip_prefix p s) ps)" by simp
  then obtain p where "p \<in> set ps" "strip_prefix p s = Some r" by (auto simp: map_filter_def)
  then show "length r < length s" using ps by (cases p) (auto simp: strip_prefix_Some)
qed

lemma whitespace_nonempty [simp]: "[] \<notin> set WHITESPACE" "[] \<notin> rev ` set WHITESPACE"
  by (auto simp: WHITESPACE_def)

function trim_start :: "string \<Rightarrow> string" where
  "trim_start s = (case strip_one WHITESPACE s of None \<Rightarrow> s | Some r \<Rightarrow> trim_start r)"
  by pat_completeness auto
termination by (relation "measure length") (auto dest: strip_one_shorter)

declare trim_start.simps [simp del]

function trim_end_rev :: "string \<Rightarrow> string" where
  "trim_end_rev s = (case strip_one (map rev WHITESPACE) s of None \<Rightarrow> s | Some r \<Rightarrow> trim_end_rev r)"
  by pat_completeness auto
termination by (relation "measure length") (auto dest: strip_one_shorter)

declare trim_end_rev.simps [simp del]

definition trim :: "string \<Rightarrow> string" where
  "trim s = rev (trim_end_rev (rev (trim_start s)))"

text \<open>\<open>str::split\<close> on one byte.\<close>

fun split_on :: "char \<Rightarrow> string \<Rightarrow> string list" where
  "split_on d [] = [[]]"
| "split_on d (c # cs) =
     (if c = d then [] # split_on d cs
      else case split_on d cs of f # fs \<Rightarrow> (c # f) # fs | [] \<Rightarrow> [[c]])"

text \<open>\<open>join\<close> of a slice of strings.\<close>

fun join_with :: "string \<Rightarrow> string list \<Rightarrow> string" where
  "join_with sep [] = []"
| "join_with sep [x] = x"
| "join_with sep (x # y # xs) = x @ sep @ join_with sep (y # xs)"

subsection \<open>Decimal numerals\<close>

definition is_ascii_digit :: "char \<Rightarrow> bool" where
  "is_ascii_digit c \<longleftrightarrow> 48 \<le> (of_char c :: nat) \<and> (of_char c :: nat) \<le> 57"

definition digit_char :: "nat \<Rightarrow> char" where
  "digit_char d = char_of (48 + d)"

definition digit_val :: "char \<Rightarrow> nat" where
  "digit_val c = of_char c - 48"

lemma of_char_digit_char: "d < 10 \<Longrightarrow> (of_char (digit_char d) :: nat) = 48 + d"
  by (simp add: digit_char_def)

lemma is_ascii_digit_digit_char [simp]: "d < 10 \<Longrightarrow> is_ascii_digit (digit_char d)"
  by (simp add: is_ascii_digit_def of_char_digit_char)

lemma digit_val_digit_char [simp]: "d < 10 \<Longrightarrow> digit_val (digit_char d) = d"
  by (simp add: digit_val_def of_char_digit_char)

text \<open>The value of a run of digits, most significant first, and the printer of \<open>{}\<close>.\<close>

definition digits_value :: "string \<Rightarrow> nat" where
  "digits_value s = foldl (\<lambda>acc c. 10 * acc + digit_val c) 0 s"

fun show_nat :: "nat \<Rightarrow> string" where
  "show_nat n = (if n < 10 then [digit_char n] else show_nat (n div 10) @ [digit_char (n mod 10)])"

declare show_nat.simps [simp del]

lemma digits_value_snoc [simp]: "digits_value (s @ [c]) = 10 * digits_value s + digit_val c"
  by (simp add: digits_value_def)

lemma digits_value_single [simp]: "digits_value [c] = digit_val c"
  by (simp add: digits_value_def)

lemma show_nat_nonempty [simp]: "show_nat n \<noteq> []"
  by (subst show_nat.simps) simp

lemma show_nat_digits: "list_all is_ascii_digit (show_nat n)"
proof (induction n rule: show_nat.induct)
  case (1 n)
  then show ?case by (subst show_nat.simps) simp
qed

lemma digits_value_show_nat [simp]: "digits_value (show_nat n) = n"
proof (induction n rule: show_nat.induct)
  case (1 n)
  show ?case
  proof (cases "n < 10")
    case True
    then show ?thesis by (subst show_nat.simps) simp
  next
    case False
    have "digits_value (show_nat n) = 10 * digits_value (show_nat (n div 10)) + n mod 10"
      using False by (subst show_nat.simps) simp
    then show ?thesis using "1"[OF False] by simp
  qed
qed

lemma show_nat_inject [simp]: "show_nat a = show_nat b \<longleftrightarrow> a = b"
  by (metis digits_value_show_nat)

text \<open>
  \<open>str::parse\<close> into an unsigned integer of \<open>LENGTH('w)\<close> bits on a non-empty run of ASCII
  digits fails exactly on overflow.
\<close>

definition parse_uint :: "string \<Rightarrow> 'w::len word option" where
  "parse_uint s =
     (if digits_value s < 2 ^ LENGTH('w) then Some (word_of_nat (digits_value s)) else None)"

lemma parse_uint_show [simp]: "parse_uint (show_nat (unat (w :: 'w::len word))) = Some w"
  by (simp add: parse_uint_def)

lemma parse_uint_Some: "parse_uint s = Some (w :: 'w::len word) \<longleftrightarrow> digits_value s = unat w"
proof
  assume "parse_uint s = Some w"
  then show "digits_value s = unat w"
    by (auto simp: parse_uint_def unat_of_nat split: if_splits)
next
  assume "digits_value s = unat w"
  then show "parse_uint s = Some w" by (simp add: parse_uint_def)
qed

text \<open>\<open>str::parse\<close> into an unsigned integer: digits, after at most one plus sign.\<close>

definition parse_unsigned :: "string \<Rightarrow> 'w::len word option" where
  "parse_unsigned s =
     (let d = (case s of c # cs \<Rightarrow> if c = CHR ''+'' then cs else s | [] \<Rightarrow> [])
      in if d = [] \<or> \<not> list_all is_ascii_digit d then None else parse_uint d)"

text \<open>\<open>checked_mul\<close> of an unsigned integer type.\<close>

definition checked_mul :: "'w::len word \<Rightarrow> 'w word \<Rightarrow> 'w word option" where
  "checked_mul a b = (if unat a * unat b < 2 ^ LENGTH('w) then Some (a * b) else None)"

lemma checked_mul_Some:
  "checked_mul a b = Some (c :: 'w::len word) \<longleftrightarrow> unat a * unat b = unat c"
proof
  assume "checked_mul a b = Some c"
  then show "unat a * unat b = unat c"
    by (auto simp: checked_mul_def unat_mult_lem[THEN iffD1] split: if_splits)
next
  assume eq: "unat a * unat b = unat c"
  then have "unat a * unat b < 2 ^ LENGTH('w)" by simp
  moreover from this have "unat (a * b) = unat c" using eq by (simp add: unat_mult_lem[THEN iffD1])
  ultimately show "checked_mul a b = Some c" by (simp add: checked_mul_def word_unat_eq_iff)
qed

subsection \<open>Finite maps as association lists\<close>

text \<open>
  A \<open>HashMap\<close> is an association list with distinct keys; its order stands for the map's
  arbitrary iteration order. The laws a client of such a map relies on are the locale
  below; the library's \<^const>\<open>AList.update\<close> and \<^const>\<open>AList.delete\<close> provide them.
\<close>

locale finite_map =
  fixes lookup :: "'m \<Rightarrow> 'k \<Rightarrow> 'v option"
    and insert_kv :: "'k \<Rightarrow> 'v \<Rightarrow> 'm \<Rightarrow> 'm"
    and remove_k :: "'k \<Rightarrow> 'm \<Rightarrow> 'm"
    and keys_of :: "'m \<Rightarrow> 'k set"
    and wf_map :: "'m \<Rightarrow> bool"
  assumes lookup_insert: "lookup (insert_kv k v m) k' = (if k' = k then Some v else lookup m k')"
    and lookup_remove: "lookup (remove_k k m) k' = (if k' = k then None else lookup m k')"
    and keys_lookup: "k \<in> keys_of m \<longleftrightarrow> lookup m k \<noteq> None"
    and wf_insert: "wf_map m \<Longrightarrow> wf_map (insert_kv k v m)"
    and wf_remove: "wf_map m \<Longrightarrow> wf_map (remove_k k m)"
begin

lemma keys_insert: "keys_of (insert_kv k v m) = insert k (keys_of m)"
  by (auto simp: keys_lookup lookup_insert split: if_splits)

lemma keys_remove: "keys_of (remove_k k m) = keys_of m - {k}"
  by (auto simp: keys_lookup lookup_remove split: if_splits)

lemma insert_remove_other:
  "k \<noteq> k' \<Longrightarrow> lookup (insert_kv k v (remove_k k' m)) k = Some v \<and>
     lookup (insert_kv k v (remove_k k' m)) k' = None"
  by (simp add: lookup_insert lookup_remove)

lemma all_insert:
  "(\<forall>k' v'. lookup m k' = Some v' \<longrightarrow> P k' v') \<Longrightarrow> P k v \<Longrightarrow>
    lookup (insert_kv k v m) k' = Some v' \<Longrightarrow> P k' v'"
  by (auto simp: lookup_insert split: if_splits)

end

lemma map_of_alist_update: "map_of (AList.update k v m) k' = (if k' = k then Some v else map_of m k')"
  by (simp add: update_conv')

lemma map_of_alist_delete: "map_of (AList.delete k m) k' = (if k' = k then None else map_of m k')"
  by (simp add: delete_conv')

interpretation fm: finite_map map_of AList.update AList.delete "\<lambda>m. fst ` set m"
  "\<lambda>m. distinct (map fst m)"
  by unfold_locales
    (simp_all add: map_of_alist_update map_of_alist_delete map_of_eq_None_iff
      distinct_update AList.distinct_delete)

lemmas fm_simps = map_of_alist_update map_of_alist_delete

end
