(* ===== verification/Values.thy ===== *)
theory Values
  imports Shep_Prelude
begin

text \<open>
  The Flockfile's value newtypes (\<open>shep-core/src/values.rs\<close>): memory sizes and durations,
  their strict grammars, their printers, and the round trip between the two that the wire
  and the config file rely on.
\<close>

subsection \<open>The contract of a value with a textual form\<close>

text \<open>
  Both newtypes are serialized through \<open>Display\<close> and read back through \<open>FromStr\<close>. What a
  reader of either relies on is that printing loses nothing.
\<close>

locale textual_value =
  fixes parse :: "string \<Rightarrow> 'e + 'a"
    and print :: "'a \<Rightarrow> string"
    and valid :: "'a \<Rightarrow> bool"
  assumes parse_print: "valid v \<Longrightarrow> parse (print v) = Inr v"
    and parse_valid: "parse s = Inr v \<Longrightarrow> valid v"
begin

lemma print_inject: "valid v \<Longrightarrow> valid w \<Longrightarrow> print v = print w \<longleftrightarrow> v = w"
  by (metis parse_print sum.inject(2))

text \<open>Printing after parsing normalizes, and normalizing is idempotent.\<close>

lemma normalize: "parse s = Inr v \<Longrightarrow> parse (print v) = Inr v"
  using parse_print parse_valid by blast

lemma parse_range: "(\<exists>s. parse s = Inr v) \<longleftrightarrow> valid v"
  using parse_print parse_valid by blast

end

subsection \<open>The shared digits-and-unit grammar\<close>

text \<open>
  The tail both parsers share: reject an empty or non-digit run, parse it, scale it. The
  four error constructors are passed in, one enum per newtype.
\<close>

definition scaled_digits ::
  "'e \<Rightarrow> 'e \<Rightarrow> 'e \<Rightarrow> string \<Rightarrow> u64 \<Rightarrow> 'e + u64" where
  "scaled_digits missing invalid overflow digits multiplier =
     (if digits = [] then Inl missing
      else if \<not> list_all is_ascii_digit digits then Inl invalid
      else case parse_uint digits of
             None \<Rightarrow> Inl overflow
           | Some q \<Rightarrow>
               (case checked_mul q multiplier of
                  None \<Rightarrow> Inl overflow
                | Some v \<Rightarrow> Inr v))"

lemma scaled_digits_Inr:
  "scaled_digits m i ov digits k = Inr v \<longleftrightarrow>
     digits \<noteq> [] \<and> list_all is_ascii_digit digits \<and>
     digits_value digits < 2 ^ 64 \<and> digits_value digits * unat k = unat v"
proof -
  have "(\<exists>q. parse_uint digits = Some q \<and> checked_mul q k = Some v) \<longleftrightarrow>
    digits_value digits < 2 ^ 64 \<and> digits_value digits * unat k = unat v"
  proof
    assume "\<exists>q. parse_uint digits = Some q \<and> checked_mul q k = Some v"
    then obtain q :: u64 where v: "digits_value digits = unat q" "unat q * unat k = unat v"
      unfolding parse_uint_Some checked_mul_Some by blast
    have "unat q < 2 ^ 64" using unsigned_less[of q] by simp
    then show "digits_value digits < 2 ^ 64 \<and> digits_value digits * unat k = unat v"
      using v by simp
  next
    assume a: "digits_value digits < 2 ^ 64 \<and> digits_value digits * unat k = unat v"
    then have "parse_uint digits = Some (word_of_nat (digits_value digits) :: u64)"
      by (simp add: parse_uint_def)
    moreover from a have "unat (word_of_nat (digits_value digits) :: u64) = digits_value digits"
      by (simp add: unat_of_nat)
    ultimately show "\<exists>q. parse_uint digits = Some q \<and> checked_mul q k = Some v"
      using a by (metis checked_mul_Some)
  qed
  then show ?thesis
    by (auto simp: scaled_digits_def split: option.splits)
qed

lemma scaled_digits_show:
  assumes "unat q * unat k = unat v"
  shows "scaled_digits m i ov (show_nat (unat (q :: u64))) k = Inr v"
  using assms unsigned_less[of q] by (simp add: scaled_digits_Inr show_nat_digits)

lemma scaled_digits_plain [simp]:
  "scaled_digits m i ov (show_nat (unat (q :: u64))) 1 = Inr q"
  by (rule scaled_digits_show) simp

lemma word_div_exact: "(v :: u64) mod k = 0 \<Longrightarrow> unat (v div k) * unat k = unat v"
  by (metis add.right_neutral div_mult_mod_eq unat_0 unat_div unat_mod)

lemma last_show_nat: "is_ascii_digit (last (show_nat n))"
  using show_nat_digits[of n] by (simp add: list_all_iff)

subsection \<open>Memory sizes\<close>

definition KIB :: u64 where "KIB = 1024"
definition MIB :: u64 where "MIB = 1024 * KIB"
definition GIB :: u64 where "GIB = 1024 * MIB"

datatype MemSize = MemSize (bytes: u64)

datatype ParseMemSizeError = Empty | MissingDigits | InvalidCharacter | Overflow

definition from_bytes :: "u64 \<Rightarrow> MemSize" where
  "from_bytes b = MemSize b"

definition mem_size_unit :: "string \<Rightarrow> string \<times> u64" where
  "mem_size_unit s =
     (if last s = CHR ''G'' then (butlast s, GIB)
      else if last s = CHR ''M'' then (butlast s, MIB)
      else if last s = CHR ''K'' then (butlast s, KIB)
      else (s, 1))"

definition mem_size_from_str :: "string \<Rightarrow> ParseMemSizeError + MemSize" where
  "mem_size_from_str s =
     (if s = [] then Inl ParseMemSizeError.Empty
      else let (digits, multiplier) = mem_size_unit s in
        and_then
          (scaled_digits ParseMemSizeError.MissingDigits ParseMemSizeError.InvalidCharacter
             ParseMemSizeError.Overflow digits multiplier)
          (\<lambda>v. Inr (MemSize v)))"

definition mem_size_display :: "MemSize \<Rightarrow> string" where
  "mem_size_display m = (let b = bytes m in
     if b = 0 then ''0''
     else if b mod GIB = 0 then show_nat (unat (b div GIB)) @ ''G''
     else if b mod MIB = 0 then show_nat (unat (b div MIB)) @ ''M''
     else if b mod KIB = 0 then show_nat (unat (b div KIB)) @ ''K''
     else show_nat (unat b))"

lemma last_digits_not_unit:
  "last (show_nat n) \<noteq> CHR ''G'' \<and> last (show_nat n) \<noteq> CHR ''M'' \<and> last (show_nat n) \<noteq> CHR ''K''"
  "last (show_nat n) \<noteq> CHR ''d'' \<and> last (show_nat n) \<noteq> CHR ''h'' \<and>
   last (show_nat n) \<noteq> CHR ''m'' \<and> last (show_nat n) \<noteq> CHR ''s''"
  using last_show_nat[of n] by (auto simp: is_ascii_digit_def)

lemma show_nat_0: "show_nat 0 = ''0''"
  by (subst show_nat.simps) (simp add: digit_char_def, code_simp)

lemma mem_size_from_display: "mem_size_from_str (mem_size_display m) = Inr m"
proof (cases m)
  case (MemSize b)
  have plain: "mem_size_from_str (show_nat (unat b)) = Inr (MemSize b)"
    by (simp add: mem_size_from_str_def mem_size_unit_def last_digits_not_unit)
  have unit: "b mod GIB = 0 \<Longrightarrow> mem_size_from_str (show_nat (unat (b div GIB)) @ ''G'') = Inr (MemSize b)"
    "b mod MIB = 0 \<Longrightarrow> mem_size_from_str (show_nat (unat (b div MIB)) @ ''M'') = Inr (MemSize b)"
    "b mod KIB = 0 \<Longrightarrow> mem_size_from_str (show_nat (unat (b div KIB)) @ ''K'') = Inr (MemSize b)"
    by (simp_all add: mem_size_from_str_def mem_size_unit_def scaled_digits_show word_div_exact)
  show ?thesis
  proof (cases "b = 0")
    case True
    then show ?thesis using plain by (simp add: MemSize mem_size_display_def show_nat_0)
  next
    case False
    then show ?thesis
      using unit plain by (auto simp: MemSize mem_size_display_def Let_def)
  qed
qed

interpretation mem: textual_value mem_size_from_str mem_size_display "\<lambda>_. True"
  by unfold_locales (simp_all add: mem_size_from_display)

subsection \<open>Durations\<close>

definition MS_PER_S :: u64 where "MS_PER_S = 1000"
definition MS_PER_MIN :: u64 where "MS_PER_MIN = 60 * MS_PER_S"
definition MS_PER_H :: u64 where "MS_PER_H = 60 * MS_PER_MIN"
definition MS_PER_D :: u64 where "MS_PER_D = 24 * MS_PER_H"

datatype UpDuration = UpDuration (as_duration: duration)

datatype ParseUpDurationError = Empty | MissingDigits | InvalidCharacter | Overflow

definition up_from_millis :: "u64 \<Rightarrow> UpDuration" where
  "up_from_millis ms = UpDuration (from_millis ms)"

text \<open>\<open>as_millis\<close> truncates the \<open>u128\<close> count of whole milliseconds to 64 bits.\<close>

definition as_millis :: "UpDuration \<Rightarrow> u64" where
  "as_millis d = word_of_nat (as_duration d div 1000000)"

lemma as_millis_from_millis [simp]: "as_millis (up_from_millis ms) = ms"
  by (simp add: as_millis_def up_from_millis_def from_millis_def)

text \<open>The values a constructor can build: a whole number of milliseconds below \<open>2^64\<close>.\<close>

definition up_duration_wf :: "UpDuration \<Rightarrow> bool" where
  "up_duration_wf d \<longleftrightarrow> up_from_millis (as_millis d) = d"

lemma up_from_millis_wf [simp]: "up_duration_wf (up_from_millis ms)"
  by (simp add: up_duration_wf_def)

definition up_duration_unit :: "string \<Rightarrow> string \<times> u64" where
  "up_duration_unit s =
     (case strip_suffix ''ms'' s of
        Some rest \<Rightarrow> (rest, 1)
      | None \<Rightarrow>
          (if last s = CHR ''d'' then (butlast s, MS_PER_D)
           else if last s = CHR ''h'' then (butlast s, MS_PER_H)
           else if last s = CHR ''m'' then (butlast s, MS_PER_MIN)
           else if last s = CHR ''s'' then (butlast s, MS_PER_S)
           else (s, 1)))"

definition up_duration_from_str :: "string \<Rightarrow> ParseUpDurationError + UpDuration" where
  "up_duration_from_str s =
     (if s = [] then Inl ParseUpDurationError.Empty
      else let (digits, ms_per_unit) = up_duration_unit s in
        and_then
          (scaled_digits ParseUpDurationError.MissingDigits ParseUpDurationError.InvalidCharacter
             ParseUpDurationError.Overflow digits ms_per_unit)
          (\<lambda>v. Inr (up_from_millis v)))"

definition up_duration_display :: "UpDuration \<Rightarrow> string" where
  "up_duration_display d = (let v = as_millis d in
     if v = 0 then ''0''
     else if v mod MS_PER_H = 0 then show_nat (unat (v div MS_PER_H)) @ ''h''
     else if v mod MS_PER_MIN = 0 then show_nat (unat (v div MS_PER_MIN)) @ ''m''
     else if v mod MS_PER_S = 0 then show_nat (unat (v div MS_PER_S)) @ ''s''
     else show_nat (unat v))"

text \<open>A digit run, or one with a single-letter unit, never ends in \<open>ms\<close>.\<close>

lemma strip_ms_None:
  assumes "c \<noteq> CHR ''s'' \<or> (ds \<noteq> [] \<and> last ds \<noteq> CHR ''m'')"
  shows "strip_suffix ''ms'' (ds @ [c]) = None"
proof (rule ccontr)
  assume "strip_suffix ''ms'' (ds @ [c]) \<noteq> None"
  then obtain r where "ds @ [c] = r @ ''ms''" by (auto simp: strip_suffix_Some)
  then have "ds @ [c] = (r @ ''m'') @ ''s''" by simp
  then have "ds = r @ ''m'' \<and> c = CHR ''s''" by (simp only: append1_eq_conv)
  then show False using assms by auto
qed

lemma strip_ms_show_nat: "strip_suffix ''ms'' (show_nat n) = None"
proof -
  obtain ds c where s: "show_nat n = ds @ [c]" by (metis append_butlast_last_id show_nat_nonempty)
  then show ?thesis using strip_ms_None[of c ds] last_digits_not_unit(2)[of n] by simp
qed

lemma strip_ms_unit: "strip_suffix ''ms'' (show_nat n @ [c]) = None"
  using strip_ms_None[of c "show_nat n"] last_digits_not_unit(2)[of n] by simp

lemma up_duration_from_display_millis:
  "up_duration_from_str (up_duration_display (up_from_millis v)) = Inr (up_from_millis v)"
proof -
  have plain: "up_duration_from_str (show_nat (unat v)) = Inr (up_from_millis v)"
    by (simp add: up_duration_from_str_def up_duration_unit_def last_digits_not_unit
        strip_ms_show_nat)
  have unit:
    "v mod MS_PER_H = 0 \<Longrightarrow>
      up_duration_from_str (show_nat (unat (v div MS_PER_H)) @ ''h'') = Inr (up_from_millis v)"
    "v mod MS_PER_MIN = 0 \<Longrightarrow>
      up_duration_from_str (show_nat (unat (v div MS_PER_MIN)) @ ''m'') = Inr (up_from_millis v)"
    "v mod MS_PER_S = 0 \<Longrightarrow>
      up_duration_from_str (show_nat (unat (v div MS_PER_S)) @ ''s'') = Inr (up_from_millis v)"
    by (simp_all add: up_duration_from_str_def up_duration_unit_def strip_ms_unit
        scaled_digits_show word_div_exact)
  show ?thesis
  proof (cases "v = 0")
    case True
    then show ?thesis using plain by (simp add: up_duration_display_def show_nat_0)
  next
    case False
    then show ?thesis
      using unit plain by (auto simp: up_duration_display_def Let_def)
  qed
qed

lemma up_duration_from_str_wf: "up_duration_from_str s = Inr d \<Longrightarrow> up_duration_wf d"
  by (auto simp: up_duration_from_str_def Let_def and_then_Inr split: if_splits prod.splits)

interpretation up: textual_value up_duration_from_str up_duration_display up_duration_wf
proof
  fix v assume "up_duration_wf v"
  then have "v = up_from_millis (as_millis v)" by (simp add: up_duration_wf_def)
  then show "up_duration_from_str (up_duration_display v) = Inr v"
    by (metis up_duration_from_display_millis)
qed (rule up_duration_from_str_wf)

subsection \<open>Properties\<close>

text \<open>The suffixes of the duration grammar, and what one unit of each is in milliseconds.\<close>

definition duration_units :: "(string \<times> u64) list" where
  "duration_units = [(''ms'', 1), (''d'', MS_PER_D), (''h'', MS_PER_H), (''m'', MS_PER_MIN),
     (''s'', MS_PER_S), ([], 1)]"

lemma digit_suffix:
  "list_all is_ascii_digit ds \<Longrightarrow> ds \<noteq> [] \<Longrightarrow>
    last ds \<notin> {CHR ''d'', CHR ''h'', CHR ''m'', CHR ''s''}"
proof -
  assume "list_all is_ascii_digit ds" "ds \<noteq> []"
  then have "is_ascii_digit (last ds)" by (simp add: list_all_iff)
  then show ?thesis by (auto simp: is_ascii_digit_def)
qed

lemma up_duration_unit_digits:
  assumes "(u, k) \<in> set duration_units" "list_all is_ascii_digit ds" "ds \<noteq> []"
  shows "up_duration_unit (ds @ u) = (ds, k)"
proof -
  have last: "last ds \<notin> {CHR ''d'', CHR ''h'', CHR ''m'', CHR ''s''}"
    by (rule digit_suffix[OF assms(2,3)])
  have none: "strip_suffix ''ms'' (ds @ [c]) = None" for c
    using strip_ms_None[of c ds] assms(3) last by auto
  obtain es c where es: "ds = es @ [c]" by (metis append_butlast_last_id assms(3))
  then have plain: "strip_suffix ''ms'' ds = None" using strip_ms_None[of c es] last by auto
  have ms: "strip_suffix ''ms'' (ds @ ''ms'') = Some ds" by (rule strip_suffix_append)
  show ?thesis
    using assms(1) last none plain ms assms(3) by (auto simp: duration_units_def up_duration_unit_def)
qed

lemma up_duration_unit_split:
  assumes "up_duration_unit s = (ds, k)" "s \<noteq> []"
  shows "\<exists>u. (u, k) \<in> set duration_units \<and> s = ds @ u"
proof (cases "strip_suffix ''ms'' s")
  case (Some r)
  then show ?thesis
    using assms(1) by (auto simp: up_duration_unit_def duration_units_def strip_suffix_Some)
next
  case None
  have s: "s = butlast s @ [last s]" using assms(2) by simp
  have "(k, ds) \<in> {(MS_PER_D, butlast s), (MS_PER_H, butlast s), (MS_PER_MIN, butlast s),
      (MS_PER_S, butlast s), (1, s)} \<and> (ds = s \<and> k = 1 \<or>
      ds = butlast s \<and> ([last s], k) \<in> set duration_units)"
    using None assms(1) by (auto simp: up_duration_unit_def duration_units_def split: if_splits)
  then show ?thesis
  proof (elim conjE disjE)
    assume "ds = s" "k = 1"
    then have "([], k) \<in> set duration_units \<and> s = ds @ []" by (simp add: duration_units_def)
    then show ?thesis by blast
  next
    assume "ds = butlast s" "([last s], k) \<in> set duration_units"
    then show ?thesis using s by metis
  qed
qed

text \<open>
  The duration grammar is exactly a non-empty run of ASCII digits with an optional unit,
  \<open>ms\<close> read before \<open>m\<close> and \<open>s\<close>: a text is accepted with \<open>v\<close> milliseconds if and only if
  it is such a run times its unit, without overflowing 64 bits.
\<close>

lemma up_duration_grammar:
  "up_duration_from_str s = Inr (up_from_millis v) \<longleftrightarrow>
     (\<exists>ds u k. (u, k) \<in> set duration_units \<and> s = ds @ u \<and> ds \<noteq> [] \<and>
        list_all is_ascii_digit ds \<and> digits_value ds < 2 ^ 64 \<and> digits_value ds * unat k = unat v)"
proof
  assume a: "up_duration_from_str s = Inr (up_from_millis v)"
  then have "s \<noteq> []" by (auto simp: up_duration_from_str_def)
  obtain ds k where u: "up_duration_unit s = (ds, k)" by fastforce
  have "up_from_millis x = up_from_millis v \<Longrightarrow> x = v" for x by (metis as_millis_from_millis)
  then have "scaled_digits ParseUpDurationError.MissingDigits ParseUpDurationError.InvalidCharacter
      ParseUpDurationError.Overflow ds k = Inr v"
    using a \<open>s \<noteq> []\<close> u by (auto simp: up_duration_from_str_def and_then_Inr)
  then show "\<exists>ds u k. (u, k) \<in> set duration_units \<and> s = ds @ u \<and> ds \<noteq> [] \<and>
        list_all is_ascii_digit ds \<and> digits_value ds < 2 ^ 64 \<and> digits_value ds * unat k = unat v"
    using up_duration_unit_split[OF u \<open>s \<noteq> []\<close>] unfolding scaled_digits_Inr by blast
next
  assume "\<exists>ds u k. (u, k) \<in> set duration_units \<and> s = ds @ u \<and> ds \<noteq> [] \<and>
        list_all is_ascii_digit ds \<and> digits_value ds < 2 ^ 64 \<and> digits_value ds * unat k = unat v"
  then obtain ds u k where d: "(u, k) \<in> set duration_units" "s = ds @ u" "ds \<noteq> []"
    "list_all is_ascii_digit ds" "digits_value ds < 2 ^ 64" "digits_value ds * unat k = unat v"
    by blast
  have "scaled_digits m i ov ds k = Inr v" for m i ov :: ParseUpDurationError
    using d by (simp add: scaled_digits_Inr)
  then show "up_duration_from_str s = Inr (up_from_millis v)"
    using up_duration_unit_digits[OF d(1,4,3)] d(2,3) by (auto simp: up_duration_from_str_def)
qed

text \<open>
  Every duration a constructor can build prints to a text that reads back as the same
  duration, although the printer stops at hours.
\<close>

lemma up_duration_round_trip:
  "up_duration_from_str (up_duration_display (up_from_millis v)) = Inr (up_from_millis v)"
  using up.parse_print by simp

end
