(* ===== verification/Core_Types.thy ===== *)
theory Core_Types
  imports Values
begin

text \<open>
  The small enumerations every part of shep shares: a sheep's lifecycle status and its
  wire word (\<open>shep-core/src/status.rs\<close>), the stop signals of the Flockfile
  (\<open>shep-core/src/config/kill_signal.rs\<close>; its constructor \<open>Int\<close> is \<open>Intr\<close> here), the signals
  an operator may name (\<open>shep-core/src/signals.rs\<close>) and the messages to an app
  (\<open>shep-channel/src/wire.rs\<close>).
\<close>

subsection \<open>Lifecycle status\<close>

datatype ProcStatus =
  Starting | Online | Stopping | Stopped | Errored | WaitingRestart | Unrecognized

fun status_as_str :: "ProcStatus \<Rightarrow> string" where
  "status_as_str Starting = ''starting''"
| "status_as_str Online = ''online''"
| "status_as_str Stopping = ''stopping''"
| "status_as_str Stopped = ''stopped''"
| "status_as_str Errored = ''errored''"
| "status_as_str WaitingRestart = ''waiting-restart''"
| "status_as_str Unrecognized = ''unrecognized''"

text \<open>
  Decoding under \<open>rename_all = "kebab-case"\<close> with \<open>serde(other)\<close> on the last variant:
  an unknown word is a status this build was not taught, never an error.
\<close>

definition status_decode :: "string \<Rightarrow> ProcStatus" where
  "status_decode w =
     (if w = ''starting'' then Starting
      else if w = ''online'' then Online
      else if w = ''stopping'' then Stopping
      else if w = ''stopped'' then Stopped
      else if w = ''errored'' then Errored
      else if w = ''waiting-restart'' then WaitingRestart
      else Unrecognized)"

lemma status_decode_as_str: "status_decode (status_as_str st) = st"
  by (cases st) (simp_all add: status_decode_def)

interpretation st: textual_value "\<lambda>w. Inr (status_decode w) :: unit + ProcStatus" status_as_str
  "\<lambda>_. True"
  by unfold_locales (simp_all add: status_decode_as_str)

lemma status_decode_known:
  "status_decode w \<noteq> Unrecognized \<Longrightarrow> status_as_str (status_decode w) = w"
  by (auto simp: status_decode_def split: if_splits)

subsection \<open>Stop signals\<close>

datatype KillSignal = Term | Intr | Quit | Usr2

definition ACCEPTED :: "string list" where
  "ACCEPTED = [''SIGTERM'', ''SIGINT'', ''SIGQUIT'', ''SIGUSR2'']"

definition to_ascii_uppercase_char :: "char \<Rightarrow> char" where
  "to_ascii_uppercase_char c =
     (let n = of_char c :: nat in if 97 \<le> n \<and> n \<le> 122 then char_of (n - 32) else c)"

definition to_ascii_uppercase :: "string \<Rightarrow> string" where
  "to_ascii_uppercase s = map to_ascii_uppercase_char s"

definition kill_signal_parse :: "string \<Rightarrow> KillSignal option" where
  "kill_signal_parse name = (let up = to_ascii_uppercase name in
     if up = ''SIGTERM'' \<or> up = ''TERM'' then Some Term
     else if up = ''SIGINT'' \<or> up = ''INT'' then Some Intr
     else if up = ''SIGQUIT'' \<or> up = ''QUIT'' then Some Quit
     else if up = ''SIGUSR2'' \<or> up = ''USR2'' then Some Usr2
     else None)"

fun kill_signal_as_str :: "KillSignal \<Rightarrow> string" where
  "kill_signal_as_str Term = ''SIGTERM''"
| "kill_signal_as_str Intr = ''SIGINT''"
| "kill_signal_as_str Quit = ''SIGQUIT''"
| "kill_signal_as_str Usr2 = ''SIGUSR2''"

lemma kill_signal_parse_as_str: "kill_signal_parse (kill_signal_as_str k) = Some k"
  by (cases k) (simp_all, code_simp+)

interpretation ks: textual_value
  "\<lambda>s. case kill_signal_parse s of None \<Rightarrow> Inl () | Some k \<Rightarrow> Inr k" kill_signal_as_str "\<lambda>_. True"
  by unfold_locales (simp_all add: kill_signal_parse_as_str)

lemma kill_signal_accepted: "set ACCEPTED = range kill_signal_as_str"
proof -
  have "(UNIV :: KillSignal set) = {Term, Intr, Quit, Usr2}"
    using KillSignal.exhaust by blast
  then have "range kill_signal_as_str = kill_signal_as_str ` {Term, Intr, Quit, Usr2}" by simp
  then show ?thesis by (simp only: ACCEPTED_def) simp
qed

lemma to_ascii_uppercase_append [simp]:
  "to_ascii_uppercase (a @ b) = to_ascii_uppercase a @ to_ascii_uppercase b"
  by (simp add: to_ascii_uppercase_def)

lemma to_ascii_uppercase_char_idem [simp]:
  "to_ascii_uppercase_char (to_ascii_uppercase_char c) = to_ascii_uppercase_char c"
  by (auto simp: to_ascii_uppercase_char_def Let_def)

lemma kill_signal_parse_case: "kill_signal_parse (to_ascii_uppercase s) = kill_signal_parse s"
  by (simp add: kill_signal_parse_def to_ascii_uppercase_def comp_def)

text \<open>
  The stop-signal grammar: exactly the four accepted names, with or without their \<open>SIG\<close>
  prefix and in any case, are signals; anything else is refused.
\<close>

lemma kill_signal_grammar:
  "kill_signal_parse s = Some k \<longleftrightarrow>
     to_ascii_uppercase s = kill_signal_as_str k \<or> ''SIG'' @ to_ascii_uppercase s = kill_signal_as_str k"
  by (cases k) (auto simp: kill_signal_parse_def Let_def)

subsection \<open>Signals an operator may name\<close>

text \<open>\<open>shep-core/src/signals.rs\<close>: the nine signals of \<open>shep signal\<close>.\<close>

datatype OperatorSignal =
  SigHup | SigInt | SigQuit | SigTerm | SigUsr1 | SigUsr2 | SigWinch | SigCont | SigKill

definition OPERATOR_ACCEPTED :: "string list" where
  "OPERATOR_ACCEPTED =
     [''SIGHUP'', ''SIGINT'', ''SIGQUIT'', ''SIGTERM'', ''SIGUSR1'', ''SIGUSR2'', ''SIGWINCH'', ''SIGCONT'',
      ''SIGKILL'']"

definition operator_signal_parse :: "string \<Rightarrow> OperatorSignal option" where
  "operator_signal_parse name = (let up = to_ascii_uppercase name in
     if up = ''SIGHUP'' \<or> up = ''HUP'' then Some SigHup
     else if up = ''SIGINT'' \<or> up = ''INT'' then Some SigInt
     else if up = ''SIGQUIT'' \<or> up = ''QUIT'' then Some SigQuit
     else if up = ''SIGTERM'' \<or> up = ''TERM'' then Some SigTerm
     else if up = ''SIGUSR1'' \<or> up = ''USR1'' then Some SigUsr1
     else if up = ''SIGUSR2'' \<or> up = ''USR2'' then Some SigUsr2
     else if up = ''SIGWINCH'' \<or> up = ''WINCH'' then Some SigWinch
     else if up = ''SIGCONT'' \<or> up = ''CONT'' then Some SigCont
     else if up = ''SIGKILL'' \<or> up = ''KILL'' then Some SigKill
     else None)"

primrec operator_signal_as_str :: "OperatorSignal \<Rightarrow> string" where
  "operator_signal_as_str SigHup = ''SIGHUP''"
| "operator_signal_as_str SigInt = ''SIGINT''"
| "operator_signal_as_str SigQuit = ''SIGQUIT''"
| "operator_signal_as_str SigTerm = ''SIGTERM''"
| "operator_signal_as_str SigUsr1 = ''SIGUSR1''"
| "operator_signal_as_str SigUsr2 = ''SIGUSR2''"
| "operator_signal_as_str SigWinch = ''SIGWINCH''"
| "operator_signal_as_str SigCont = ''SIGCONT''"
| "operator_signal_as_str SigKill = ''SIGKILL''"

text \<open>
  The grammar: a name is a signal exactly when, in upper case, it is the canonical name of one
  with or without the \<open>SIG\<close> prefix.
\<close>

lemma operator_signal_grammar:
  "operator_signal_parse s = Some k \<longleftrightarrow>
     to_ascii_uppercase s = operator_signal_as_str k \<or> ''SIG'' @ to_ascii_uppercase s = operator_signal_as_str k"
  by (cases k) (auto simp: operator_signal_parse_def Let_def)

lemma operator_signal_parse_as_str: "operator_signal_parse (operator_signal_as_str k) = Some k"
  by (cases k) (simp_all, code_simp+)

interpretation os: textual_value
  "\<lambda>s. case operator_signal_parse s of None \<Rightarrow> Inl () | Some k \<Rightarrow> Inr k" operator_signal_as_str "\<lambda>_. True"
  by unfold_locales (simp_all add: operator_signal_parse_as_str)

lemma operator_signals_accepted: "set OPERATOR_ACCEPTED = range operator_signal_as_str"
proof -
  have "(UNIV :: OperatorSignal set) = {SigHup, SigInt, SigQuit, SigTerm, SigUsr1, SigUsr2, SigWinch, SigCont, SigKill}"
    using OperatorSignal.exhaust by blast
  then have "range operator_signal_as_str = operator_signal_as_str `
      {SigHup, SigInt, SigQuit, SigTerm, SigUsr1, SigUsr2, SigWinch, SigCont, SigKill}" by simp
  then show ?thesis by (simp only: OPERATOR_ACCEPTED_def) simp
qed

text \<open>Every signal a Flockfile may name is one an operator may name.\<close>

lemma operator_names_every_stop_signal:
  "operator_signal_parse (kill_signal_as_str k) \<noteq> None"
  using operator_signal_parse_as_str[of SigTerm] operator_signal_parse_as_str[of SigInt]
    operator_signal_parse_as_str[of SigQuit] operator_signal_parse_as_str[of SigUsr2]
  by (cases k) simp_all

subsection \<open>What the shepherd tells an app\<close>

text \<open>The messages to a child (\<open>shep-channel/src/wire.rs\<close>).\<close>

datatype ShepherdMessage =
    ShShutdown
  | ShAction string "string option" "string option" u64
  | ShLambSignalled u32 string

end
