(* ===== verification/App_Config.thy ===== *)
theory App_Config
  imports Core_Types
begin

text \<open>
  The application config the daemon supervises by: \<open>AppConfig\<close> and its defaults
  (\<open>shep-core/src/config/app/\<close>), where a sheep's readiness comes from
  (\<open>shep-daemon/src/probes/ready.rs\<close>), the ladder caps a stop runs under and the stop
  signal itself (\<open>supervisor/reload.rs\<close>, \<open>kill.rs\<close>). Field names carry the
  prefix \<open>app_\<close>. A dog table is its TOML text and \<open>max_cpu_cores\<close> the text the Flockfile spells it with.
\<close>

subsection \<open>Configs\<close>

datatype MemoryEnforce = Poll | Kernel

datatype ProbeKind = Http | Tcp | Exec

record ProbeConfig =
  probe_kind :: ProbeKind
  probe_target :: string
  probe_interval :: UpDuration
  probe_timeout :: UpDuration
  probe_failure_threshold :: u32

datatype LineLevel = LevelTrace | LevelDebug | LevelInfo | LevelWarn | LevelError

record LevelRule =
  lr_pattern :: string
  lr_level :: LineLevel

record AppConfig =
  app_name :: string
  app_script :: string
  app_args :: "string list"
  app_cwd :: "string option"
  app_interpreter :: "string option"
  app_sandbox :: "string option"
  app_env :: "(string \<times> string) list"
  app_environment :: "string option"
  app_instances :: u32
  app_autorestart :: bool
  app_autostart :: bool
  app_stop_exit_codes :: "int list"
  app_min_uptime :: UpDuration
  app_max_restarts :: u32
  app_restart_delay :: "UpDuration option"
  app_exp_backoff_restart_delay :: "UpDuration option"
  app_kill_signal :: "string option"
  app_kill_timeout :: UpDuration
  app_shutdown_with_message :: bool
  app_listen_timeout :: UpDuration
  app_graceful_timeout :: UpDuration
  app_action_timeout :: UpDuration
  app_max_memory :: "MemSize option"
  app_memory_enforce :: MemoryEnforce
  app_max_cpu_cores :: "string option"
  app_max_tasks :: "u32 option"
  app_watch :: bool
  app_ignore_watch :: "string list"
  app_watch_delay :: "UpDuration option"
  app_cron_restart :: "string option"
  app_fold :: "string option"
  app_depends_on :: "string list"
  app_user :: "string option"
  app_group :: "string option"
  app_out_file :: "string option"
  app_err_file :: "string option"
  app_merge_logs :: bool
  app_log_timestamps :: bool
  app_level_rules :: "LevelRule list"
  app_dogs :: "(string \<times> string) list"
  app_channel :: bool
  app_stdin :: bool
  app_pty :: bool
  app_wait_ready :: bool
  app_reuse_port :: bool
  app_listen :: "(string \<times> string) list"
  app_readiness_probe :: "ProbeConfig option"
  app_liveness_probe :: "ProbeConfig option"
  app_watch_options :: "string list"
  app_cron_timezone :: "string option"

definition minimal :: "string \<Rightarrow> string \<Rightarrow> AppConfig" where
  "minimal nm script =
     \<lparr> app_name = nm, app_script = script, app_args = [], app_cwd = None,
       app_interpreter = None, app_sandbox = None, app_env = [], app_environment = None,
       app_instances = 1, app_autorestart = True, app_autostart = True,
       app_stop_exit_codes = [], app_min_uptime = up_from_millis 1000, app_max_restarts = 16,
       app_restart_delay = None, app_exp_backoff_restart_delay = Some (up_from_millis 100),
       app_kill_signal = None, app_kill_timeout = up_from_millis 1600,
       app_shutdown_with_message = False, app_listen_timeout = up_from_millis 3000,
       app_graceful_timeout = up_from_millis 8000, app_action_timeout = up_from_millis 3000,
       app_max_memory = None, app_memory_enforce = Poll, app_max_cpu_cores = None,
       app_max_tasks = None,
       app_watch = False, app_ignore_watch = [], app_watch_delay = None,
       app_cron_restart = None, app_fold = None, app_depends_on = [], app_user = None,
       app_group = None, app_out_file = None, app_err_file = None, app_merge_logs = False,
       app_log_timestamps = True, app_level_rules = [], app_dogs = [], app_channel = False, app_stdin = False,
       app_pty = False, app_wait_ready = False, app_reuse_port = False, app_listen = [],
       app_readiness_probe = None, app_liveness_probe = None, app_watch_options = [],
       app_cron_timezone = None \<rparr>"

subsection \<open>Drift\<close>

text \<open>
  The comparison behind \<open>drifted_fields\<close>: the serialized objects' keys in order, each with
  whether the two configs agree on it. The removed \<open>sandbox\<close> field is never serialized.
\<close>

definition field_agreement :: "AppConfig \<Rightarrow> AppConfig \<Rightarrow> (string \<times> bool) list" where
  "field_agreement a b =
     [  (''action_timeout'', app_action_timeout a = app_action_timeout b),
        (''args'', app_args a = app_args b),
        (''autorestart'', app_autorestart a = app_autorestart b),
        (''autostart'', app_autostart a = app_autostart b),
        (''channel'', app_channel a = app_channel b),
        (''cron_restart'', app_cron_restart a = app_cron_restart b),
        (''cron_timezone'', app_cron_timezone a = app_cron_timezone b),
        (''cwd'', app_cwd a = app_cwd b),
        (''depends_on'', app_depends_on a = app_depends_on b),
        (''dogs'', app_dogs a = app_dogs b),
        (''env'', app_env a = app_env b),
        (''environment'', app_environment a = app_environment b),
        (''err_file'', app_err_file a = app_err_file b),
        (''exp_backoff_restart_delay'', app_exp_backoff_restart_delay a = app_exp_backoff_restart_delay b),
        (''fold'', app_fold a = app_fold b),
        (''graceful_timeout'', app_graceful_timeout a = app_graceful_timeout b),
        (''group'', app_group a = app_group b),
        (''ignore_watch'', app_ignore_watch a = app_ignore_watch b),
        (''instances'', app_instances a = app_instances b),
        (''interpreter'', app_interpreter a = app_interpreter b),
        (''kill_signal'', app_kill_signal a = app_kill_signal b),
        (''kill_timeout'', app_kill_timeout a = app_kill_timeout b),
        (''level_rules'', app_level_rules a = app_level_rules b),
        (''listen'', app_listen a = app_listen b),
        (''listen_timeout'', app_listen_timeout a = app_listen_timeout b),
        (''liveness_probe'', app_liveness_probe a = app_liveness_probe b),
        (''log_timestamps'', app_log_timestamps a = app_log_timestamps b),
        (''max_cpu_cores'', app_max_cpu_cores a = app_max_cpu_cores b),
        (''max_memory'', app_max_memory a = app_max_memory b),
        (''max_restarts'', app_max_restarts a = app_max_restarts b),
        (''max_tasks'', app_max_tasks a = app_max_tasks b),
        (''memory_enforce'', app_memory_enforce a = app_memory_enforce b),
        (''merge_logs'', app_merge_logs a = app_merge_logs b),
        (''min_uptime'', app_min_uptime a = app_min_uptime b),
        (''name'', app_name a = app_name b),
        (''out_file'', app_out_file a = app_out_file b),
        (''pty'', app_pty a = app_pty b),
        (''readiness_probe'', app_readiness_probe a = app_readiness_probe b),
        (''restart_delay'', app_restart_delay a = app_restart_delay b),
        (''reuse_port'', app_reuse_port a = app_reuse_port b),
        (''script'', app_script a = app_script b),
        (''shutdown_with_message'', app_shutdown_with_message a = app_shutdown_with_message b),
        (''stdin'', app_stdin a = app_stdin b),
        (''stop_exit_codes'', app_stop_exit_codes a = app_stop_exit_codes b),
        (''user'', app_user a = app_user b),
        (''wait_ready'', app_wait_ready a = app_wait_ready b),
        (''watch'', app_watch a = app_watch b),
        (''watch_delay'', app_watch_delay a = app_watch_delay b),
        (''watch_options'', app_watch_options a = app_watch_options b)]"

definition drifted_fields :: "AppConfig \<Rightarrow> AppConfig \<Rightarrow> string list" where
  "drifted_fields a b =
     (if a = b then [] else map fst (filter (\<lambda>(key, agree). \<not> agree) (field_agreement a b)))"

lemma field_agreement_all:
  "(\<forall>(k, ag) \<in> set (field_agreement a b). ag) \<longleftrightarrow> a\<lparr> app_sandbox := None \<rparr> = b\<lparr> app_sandbox := None \<rparr>"
  by (cases a; cases b) (simp add: field_agreement_def, blast)

lemma drifted_fields_empty:
  "drifted_fields a b = [] \<longleftrightarrow> a\<lparr> app_sandbox := None \<rparr> = b\<lparr> app_sandbox := None \<rparr>"
  using field_agreement_all[of a b] by (auto simp: drifted_fields_def filter_empty_conv)

lemma drifted_fields_sym: "drifted_fields a b = drifted_fields b a"
proof -
  have "field_agreement a b = field_agreement b a"
    by (simp add: field_agreement_def eq_commute)
  then show ?thesis by (auto simp: drifted_fields_def)
qed

subsection \<open>Readiness\<close>

text \<open>
  The parsed \<open>ProbeTarget\<close> that travels beside the probe's config is not carried: the
  supervisor never looks inside it, and on a normalized config its parse cannot fail.
\<close>

datatype ReadinessSource = Channel | Probe ProbeConfig | Heuristic

definition of_normalized :: "AppConfig \<Rightarrow> ReadinessSource" where
  "of_normalized config =
     (if app_wait_ready config then Channel
      else case app_readiness_probe config of
             Some probe \<Rightarrow> Probe probe
           | None \<Rightarrow> Heuristic)"

datatype Readiness = Ready | TimedOut

definition READINESS_PROBE_GAPS :: nat where "READINESS_PROBE_GAPS = 4"

definition MIN_READINESS_POLL :: duration where "MIN_READINESS_POLL = 1000000"

definition readiness_poll_interval :: "ProbeConfig \<Rightarrow> duration \<Rightarrow> duration" where
  "readiness_poll_interval config deadline =
     max (min (as_duration (probe_interval config)) (deadline div READINESS_PROBE_GAPS))
       MIN_READINESS_POLL"

text \<open>
  How a readiness wait ends, for each source. \<open>signal_at\<close> is when the channel's
  ready message arrives and \<open>probe_ok_at\<close> when the first probe passes, if they ever do:
  the two futures \<open>await_ready\<close> races against the deadline.
\<close>

definition within_deadline :: "duration \<Rightarrow> duration option \<Rightarrow> Readiness" where
  "within_deadline deadline fut =
     (case fut of Some t \<Rightarrow> if t \<le> deadline then Ready else TimedOut | None \<Rightarrow> TimedOut)"

definition await_ready ::
  "ReadinessSource \<Rightarrow> duration \<Rightarrow> duration option \<Rightarrow> duration option \<Rightarrow> Readiness" where
  "await_ready source deadline signal_at probe_ok_at =
     (case source of
        Channel \<Rightarrow> within_deadline deadline signal_at
      | Probe _ \<Rightarrow> within_deadline deadline probe_ok_at
      | Heuristic \<Rightarrow> Ready)"

text \<open>A wait for a probe looks at least once more before its deadline, and never spins.\<close>

lemma readiness_poll_interval_bounds:
  "MIN_READINESS_POLL \<le> readiness_poll_interval c d"
  "READINESS_PROBE_GAPS * MIN_READINESS_POLL \<le> d \<Longrightarrow>
     READINESS_PROBE_GAPS * readiness_poll_interval c d \<le> d"
  by (auto simp: readiness_poll_interval_def READINESS_PROBE_GAPS_def MIN_READINESS_POLL_def
      max_def min_def)

lemma await_ready_heuristic: "await_ready (of_normalized c) d s p = TimedOut \<Longrightarrow>
    app_wait_ready c \<or> app_readiness_probe c \<noteq> None"
  by (auto simp: await_ready_def of_normalized_def split: if_splits option.splits)

subsection \<open>The kill ladder\<close>

datatype LadderCap = StopCap | DrainCap

fun ladder_cap_of :: "LadderCap \<Rightarrow> AppConfig \<Rightarrow> duration" where
  "ladder_cap_of StopCap app = as_duration (app_kill_timeout app)"
| "ladder_cap_of DrainCap app = as_duration (app_graceful_timeout app)"

definition stop_signal :: "AppConfig \<Rightarrow> KillSignal" where
  "stop_signal app =
     (case app_kill_signal app of
        None \<Rightarrow> Term
      | Some nm \<Rightarrow> (case kill_signal_parse nm of None \<Rightarrow> Term | Some sig \<Rightarrow> sig))"

text \<open>
  One run of the ladder against a process. The process is a parameter: \<open>waits grace\<close> is
  its exit if it comes within \<open>grace\<close> of the polite rung, \<open>final\<close> its exit after
  \<open>SIGKILL\<close> went to the tree. The result is what the ladder did, in order, and the exit.
\<close>

datatype ladder_step = ShutdownMessage | Signal KillSignal | KillTree

definition kill_process ::
  "AppConfig \<Rightarrow> bool \<Rightarrow> (duration \<Rightarrow> 'o option) \<Rightarrow> 'o \<Rightarrow> duration \<Rightarrow> ladder_step list \<times> 'o" where
  "kill_process app to_child waits final grace =
     (let polite = (if app_shutdown_with_message app \<and> to_child then ShutdownMessage
                    else Signal (stop_signal app)) in
      case waits grace of
        Some outcome \<Rightarrow> ([polite], outcome)
      | None \<Rightarrow> ([polite, KillTree], final))"

lemma kill_process_escalates:
  "KillTree \<in> set (fst (kill_process app ch w f g)) \<longleftrightarrow> w g = None"
  by (auto simp: kill_process_def Let_def split: option.splits)

subsection \<open>Properties\<close>

text \<open>
  Drift is complete and symmetric: two configs have no drifted field exactly when they agree
  on every field but the removed \<open>sandbox\<close>, which normalization refuses, so no other field is
  left out of the comparison; and the order of the two does not matter.
\<close>

lemma drift_complete:
  "(drifted_fields a b = [] \<longleftrightarrow> a\<lparr> app_sandbox := None \<rparr> = b\<lparr> app_sandbox := None \<rparr>)
    \<and> drifted_fields a b = drifted_fields b a"
  using drifted_fields_empty drifted_fields_sym by blast

text \<open>
  A readiness wait with a deadline of at least four milliseconds polls at least four times
  before it, and no poll interval is below a millisecond.
\<close>

lemma readiness_polls_in_time:
  assumes "READINESS_PROBE_GAPS * MIN_READINESS_POLL \<le> d"
  shows "MIN_READINESS_POLL \<le> readiness_poll_interval c d \<and> READINESS_PROBE_GAPS * readiness_poll_interval c d \<le> d"
  using readiness_poll_interval_bounds assms by blast

end
