(* ===== verification/Template.thy ===== *)
theory Template
  imports App_Config
begin

text \<open>
  The \<open>{{...}}\<close> grammar of Flockfile values (\<open>shep-core/src/config/template.rs\<close>), the references
  it names (\<open>secrets/refs.rs\<close>, the name grammar of \<open>secrets/store.rs\<close>) and the view of the
  secret stores a rendering resolves them in (\<open>secrets/resolve_mod.rs\<close>, \<open>secrets/provider.rs\<close>).

  A value is its bytes. A path is its text: \<open>to_string_lossy\<close> of a valid UTF-8 path. The maps of
  the stores are lookups.
\<close>

subsection \<open>Names and references\<close>

definition MAX_KEY_BYTES :: nat where "MAX_KEY_BYTES = 128"

definition ALL_ENVIRONMENTS :: string where "ALL_ENVIRONMENTS = ''all''"

definition is_ascii_alphanumeric :: "char \<Rightarrow> bool" where
  "is_ascii_alphanumeric c \<longleftrightarrow>
     (let n = of_char c :: nat in 48 \<le> n \<and> n \<le> 57 \<or> 65 \<le> n \<and> n \<le> 90 \<or> 97 \<le> n \<and> n \<le> 122)"

definition is_name_byte :: "char \<Rightarrow> bool" where
  "is_name_byte c \<longleftrightarrow> is_ascii_alphanumeric c \<or> c = CHR ''.'' \<or> c = CHR ''_'' \<or> c = CHR ''-''"

definition is_name :: "string \<Rightarrow> bool" where
  "is_name v \<longleftrightarrow> v \<noteq> [] \<and> length v \<le> MAX_KEY_BYTES \<and> hd v \<noteq> CHR ''.'' \<and> list_all is_name_byte v"

record SecretRef =
  sr_namespace :: "string option"
  sr_key :: string

definition secret_ref_parse :: "string \<Rightarrow> SecretRef option" where
  "secret_ref_parse body =
     (case split_once (CHR ''/'') body of
        None \<Rightarrow> if is_name body then Some \<lparr> sr_namespace = None, sr_key = body \<rparr> else None
      | Some (namespace, key) \<Rightarrow>
          if is_name namespace \<and> is_name key then Some \<lparr> sr_namespace = Some namespace, sr_key = key \<rparr> else None)"

text \<open>The reference without its braces, as \<open>references\<close> lists it, and as it is displayed.\<close>

definition reference_text :: "SecretRef \<Rightarrow> string" where
  "reference_text r = (case sr_namespace r of Some ns \<Rightarrow> ns @ ''/'' @ sr_key r | None \<Rightarrow> sr_key r)"

definition secret_ref_display :: "SecretRef \<Rightarrow> string" where
  "secret_ref_display r = ''{{secret:'' @ reference_text r @ ''}}''"

subsection \<open>The tokenizer\<close>

definition SHEP_HOME :: string where "SHEP_HOME = ''SHEP_HOME''"

definition TOKENS :: "string list" where "TOKENS = [''instance'', ''name'', SHEP_HOME]"

definition SECRET_PREFIX :: string where "SECRET_PREFIX = ''secret:''"

definition secret_reference :: "string \<Rightarrow> SecretRef option" where
  "secret_reference tok =
     (case strip_prefix SECRET_PREFIX tok of None \<Rightarrow> None | Some body \<Rightarrow> secret_ref_parse body)"

datatype Segment = Literal string | Token string

datatype Completion = Complete | Unclosed

text \<open>\<open>str::find\<close> of the closing braces: what precedes the first \<open>}}\<close>, and what follows it.\<close>

fun split_close :: "string \<Rightarrow> (string \<times> string) option" where
  "split_close [] = None"
| "split_close (c # cs) =
     (case strip_prefix ''}}'' (c # cs) of
        Some rest \<Rightarrow> Some ([], rest)
      | None \<Rightarrow> map_option (\<lambda>(tok, rest). (c # tok, rest)) (split_close cs))"

lemma split_close_Some: "split_close v = Some (tok, rest) \<Longrightarrow> v = tok @ ''}}'' @ rest"
  by (induction v arbitrary: tok) (auto split: option.splits if_splits simp: strip_prefix_Some)

text \<open>
  \<open>walk\<close>: the loop over the bytes, with the run of ordinary text it has not handed over yet, and
  the closure as a function of its own state. The closure's first error ends the walk.
\<close>

function walk_from ::
  "(Segment \<Rightarrow> 's \<Rightarrow> 'e + 's) \<Rightarrow> string \<Rightarrow> string \<Rightarrow> 's \<Rightarrow> 'e + (Completion \<times> 's)" where
  "walk_from f run v s =
     (case strip_prefix ''{{{{'' v of
        Some rest \<Rightarrow>
          and_then (f (Literal run) s) (\<lambda>s. and_then (f (Literal ''{{'') s) (walk_from f [] rest))
      | None \<Rightarrow>
     (case strip_prefix ''}}}}'' v of
        Some rest \<Rightarrow>
          and_then (f (Literal run) s) (\<lambda>s. and_then (f (Literal ''}}'') s) (walk_from f [] rest))
      | None \<Rightarrow>
     (case strip_prefix ''{{'' v of
        Some rest \<Rightarrow>
          and_then (f (Literal run) s) (\<lambda>s.
            (case split_close rest of
               None \<Rightarrow> Inr (Unclosed, s)
             | Some (tok, rest) \<Rightarrow> and_then (f (Token tok) s) (walk_from f [] rest)))
      | None \<Rightarrow>
     (case v of
        [] \<Rightarrow> and_then (f (Literal run) s) (\<lambda>s. Inr (Complete, s))
      | c # cs \<Rightarrow> walk_from f (run @ [c]) cs s))))"
  by pat_completeness auto

termination
  by (relation "measure (\<lambda>(f, run, v, s). length v)")
    (auto simp: strip_prefix_Some dest!: split_close_Some)

declare walk_from.simps [simp del]

definition walk :: "(Segment \<Rightarrow> 's \<Rightarrow> 'e + 's) \<Rightarrow> string \<Rightarrow> 's \<Rightarrow> 'e + (Completion \<times> 's)" where
  "walk f v s = walk_from f [] v s"

subsection \<open>The secret stores\<close>

type_synonym NamespaceTable = "string \<rightharpoonup> string \<rightharpoonup> string"

record ProviderCache =
  pc_values :: "string \<rightharpoonup> NamespaceTable"
  pc_pushed :: "string \<Rightarrow> string set"

record SecretView =
  sv_environment :: string
  sv_store :: NamespaceTable
  sv_providers :: ProviderCache

datatype Resolution = Found string | MissingKey | MissingNamespace

definition is_pushed :: "SecretView \<Rightarrow> string \<Rightarrow> bool" where
  "is_pushed view namespace \<longleftrightarrow>
     sv_environment view \<in> pc_pushed (sv_providers view) namespace \<or>
     ALL_ENVIRONMENTS \<in> pc_pushed (sv_providers view) namespace"

definition view_resolve :: "SecretView \<Rightarrow> SecretRef \<Rightarrow> Resolution" where
  "view_resolve view reference =
     (let table = (case sr_namespace reference of
                     None \<Rightarrow> Some (sv_store view)
                   | Some namespace \<Rightarrow> pc_values (sv_providers view) namespace);
          found = (case table of
                     None \<Rightarrow> None
                   | Some table \<Rightarrow>
                       (case table (sr_key reference) of
                          None \<Rightarrow> None
                        | Some by_environment \<Rightarrow>
                            (case by_environment (sv_environment view) of
                               Some value \<Rightarrow> Some value
                             | None \<Rightarrow> by_environment ALL_ENVIRONMENTS)))
      in case found of
           Some value \<Rightarrow> Found value
         | None \<Rightarrow>
             (case sr_namespace reference of
                None \<Rightarrow> MissingKey
              | Some namespace \<Rightarrow> if is_pushed view namespace then MissingKey else MissingNamespace))"

datatype RenderError =
    SecretUnresolved string string
  | NamespaceUnready string string string
  | Malformed string

fun render_error_is_retriable :: "RenderError \<Rightarrow> bool" where
  "render_error_is_retriable (NamespaceUnready ns reference environment) = True"
| "render_error_is_retriable _ = False"

fun render_error_display :: "RenderError \<Rightarrow> string" where
  "render_error_display (SecretUnresolved reference environment) =
     ''`'' @ reference @ ''` has no value in the `'' @ environment @ ''` environment''"
| "render_error_display (NamespaceUnready namespace reference environment) =
     ''`'' @ reference @ ''` reads the `'' @ namespace @ ''` namespace, which no provider dog has pushed to for the `''
     @ environment @ ''` environment yet''"
| "render_error_display (Malformed reference) =
     ''`'' @ reference @ ''` is not a valid secret reference: write `{{secret:KEY}}` or `{{secret:namespace/KEY}}`''"

definition resolve_secret :: "SecretRef \<Rightarrow> SecretView \<Rightarrow> RenderError + string" where
  "resolve_secret reference view =
     (case (view_resolve view reference, sr_namespace reference) of
        (Found value, _) \<Rightarrow> Inr value
      | (MissingNamespace, Some namespace) \<Rightarrow>
          Inl (NamespaceUnready namespace (secret_ref_display reference) (sv_environment view))
      | _ \<Rightarrow> Inl (SecretUnresolved (secret_ref_display reference) (sv_environment view)))"

subsection \<open>Asking and rendering\<close>

text \<open>A closure that cannot fail, as the code's \<open>Infallible\<close> ones.\<close>

definition holds_token :: "string \<Rightarrow> (string \<Rightarrow> bool) \<Rightarrow> bool" where
  "holds_token v wanted =
     (case walk (\<lambda>seg found. Inr (case seg of Token tok \<Rightarrow> found \<or> wanted tok | Literal _ \<Rightarrow> found) :: unit + bool) v False of
        Inl _ \<Rightarrow> False
      | Inr (_, found) \<Rightarrow> found)"

definition holds_secret :: "string \<Rightarrow> bool" where
  "holds_secret v = holds_token v (\<lambda>tok. secret_reference tok \<noteq> None)"

definition holds_shep_home :: "string \<Rightarrow> bool" where
  "holds_shep_home v = holds_token v (\<lambda>tok. tok = SHEP_HOME)"

datatype TemplateError = UnknownToken string | TemplateUnclosed

definition template_validate :: "string \<Rightarrow> TemplateError + unit" where
  "template_validate v =
     and_then
       (walk (\<lambda>seg u. case seg of
            Literal _ \<Rightarrow> Inr ()
          | Token tok \<Rightarrow>
              if tok \<in> set TOKENS \<or> secret_reference tok \<noteq> None then Inr () else Inl (UnknownToken tok)) v ())
       (\<lambda>(completion, _). case completion of Complete \<Rightarrow> Inr () | Unclosed \<Rightarrow> Inl TemplateUnclosed)"

definition positional :: "string \<Rightarrow> string \<Rightarrow> string \<Rightarrow> string option \<Rightarrow> string option" where
  "positional tok name slot shep_home =
     (if tok = ''instance'' then Some slot
      else if tok = ''name'' then Some name
      else if tok = SHEP_HOME then shep_home
      else None)"

definition push_token :: "string \<Rightarrow> string" where
  "push_token tok = ''{{'' @ tok @ ''}}''"

definition render_positional :: "string \<Rightarrow> string \<Rightarrow> nat \<Rightarrow> string option \<Rightarrow> string" where
  "render_positional v name inst shep_home =
     (case walk (\<lambda>seg out. Inr (case seg of
            Literal lit \<Rightarrow> out @ lit
          | Token tok \<Rightarrow>
              (case positional tok name (show_nat inst) shep_home of
                 Some text \<Rightarrow> out @ text
               | None \<Rightarrow> out @ push_token tok)) :: unit + string) v [] of
        Inl _ \<Rightarrow> []
      | Inr (_, out) \<Rightarrow> out)"

definition render :: "string \<Rightarrow> string \<Rightarrow> nat \<Rightarrow> string option \<Rightarrow> SecretView \<Rightarrow> RenderError + string" where
  "render v name inst shep_home secrets =
     and_then
       (walk (\<lambda>seg out. case seg of
            Literal lit \<Rightarrow> Inr (out @ lit)
          | Token tok \<Rightarrow>
              (case positional tok name (show_nat inst) shep_home of
                 Some text \<Rightarrow> Inr (out @ text)
               | None \<Rightarrow>
                   (case secret_reference tok of
                      Some reference \<Rightarrow> and_then (resolve_secret reference secrets) (\<lambda>value. Inr (out @ value))
                    | None \<Rightarrow> Inr (out @ push_token tok)))) v [])
       (\<lambda>(_, out). Inr out)"

text \<open>\<open>render_secrets\<close>, with the count of bytes its segments account for.\<close>

definition secrets_segment ::
  "string \<Rightarrow> SecretView \<Rightarrow> Segment \<Rightarrow> nat \<times> string \<Rightarrow> RenderError + (nat \<times> string)" where
  "secrets_segment v secrets seg = (\<lambda>(at, out).
     case seg of
       Literal lit \<Rightarrow>
         if lit \<in> {''{{'', ''}}''} \<and> strip_prefix (lit @ lit) (drop at v) \<noteq> None
         then Inr (at + 4, out @ lit @ lit)
         else Inr (at + length lit, out @ lit)
     | Token tok \<Rightarrow>
         (case secret_reference tok of
            Some reference \<Rightarrow>
              and_then (resolve_secret reference secrets) (\<lambda>value. Inr (at + length tok + 4, out @ value))
          | None \<Rightarrow>
              if strip_prefix SECRET_PREFIX tok \<noteq> None then Inl (Malformed (push_token tok))
              else Inr (at + length tok + 4, out @ push_token tok)))"

definition render_secrets :: "string \<Rightarrow> SecretView \<Rightarrow> RenderError + string" where
  "render_secrets v secrets =
     and_then (walk (secrets_segment v secrets) v (0, []))
       (\<lambda>(completion, at, out). Inr (if completion = Unclosed then out @ drop at v else out))"

subsection \<open>References of a config\<close>

definition references_in :: "string \<Rightarrow> string set" where
  "references_in v =
     (case walk (\<lambda>seg found. Inr (case seg of
            Literal _ \<Rightarrow> found
          | Token tok \<Rightarrow>
              (case secret_reference tok of
                 Some reference \<Rightarrow> insert (reference_text reference) found
               | None \<Rightarrow> found)) :: unit + string set) v {} of
        Inl _ \<Rightarrow> {}
      | Inr (_, found) \<Rightarrow> found)"

definition references :: "AppConfig \<Rightarrow> string set" where
  "references config =
     \<Union> (references_in ` (snd ` set (app_env config) \<union> set (app_args config) \<union>
         set_option (app_out_file config) \<union> set_option (app_err_file config)))"

definition sealed_keys :: "AppConfig \<Rightarrow> string list" where
  "sealed_keys config =
     map fst (filter (\<lambda>(key, value). holds_token value (\<lambda>tok. secret_reference tok \<noteq> None)) (app_env config))"

definition namespaces_of :: "AppConfig \<Rightarrow> string set" where
  "namespaces_of config =
     {ns. \<exists>text \<in> references config. \<exists>r. secret_ref_parse text = Some r \<and> sr_namespace r = Some ns}"

definition REDACTED_ENV :: string where "REDACTED_ENV = ''<redacted>''"

definition shown_env_value :: "string \<Rightarrow> string" where
  "shown_env_value v =
     (let whole = (case strip_prefix ''{{secret:'' v of
                     None \<Rightarrow> False
                   | Some rest \<Rightarrow>
                       (case strip_suffix ''}}'' rest of
                          None \<Rightarrow> False
                        | Some body \<Rightarrow> secret_ref_parse body \<noteq> None))
      in if whole then v else REDACTED_ENV)"

subsection \<open>The grammar\<close>

text \<open>
  What the tokenizer reads a value as: pieces that print back to it, and the text of an opening
  that is never closed.
\<close>

datatype piece = Text string | Escape string | Hole string

fun piece_text :: "piece \<Rightarrow> string" where
  "piece_text (Text t) = t"
| "piece_text (Escape b) = b @ b"
| "piece_text (Hole tok) = push_token tok"

function lex_from :: "string \<Rightarrow> string \<Rightarrow> piece list \<times> string" where
  "lex_from run v =
     (case strip_prefix ''{{{{'' v of
        Some rest \<Rightarrow> (let (ps, tail) = lex_from [] rest in (Text run # Escape ''{{'' # ps, tail))
      | None \<Rightarrow>
     (case strip_prefix ''}}}}'' v of
        Some rest \<Rightarrow> (let (ps, tail) = lex_from [] rest in (Text run # Escape ''}}'' # ps, tail))
      | None \<Rightarrow>
     (case strip_prefix ''{{'' v of
        Some rest \<Rightarrow>
          (case split_close rest of
             None \<Rightarrow> ([Text run], v)
           | Some (tok, rest) \<Rightarrow> (let (ps, tail) = lex_from [] rest in (Text run # Hole tok # ps, tail)))
      | None \<Rightarrow>
     (case v of
        [] \<Rightarrow> ([Text run], [])
      | c # cs \<Rightarrow> lex_from (run @ [c]) cs))))"
  by pat_completeness auto

termination
  by (relation "measure (\<lambda>(run, v). length v)") (auto simp: strip_prefix_Some dest!: split_close_Some)

declare lex_from.simps [simp del]

definition lex :: "string \<Rightarrow> piece list \<times> string" where
  "lex v = lex_from [] v"

fun segment_of :: "piece \<Rightarrow> Segment" where
  "segment_of (Text t) = Literal t"
| "segment_of (Escape b) = Literal b"
| "segment_of (Hole tok) = Token tok"

fun feed :: "(Segment \<Rightarrow> 's \<Rightarrow> 'e + 's) \<Rightarrow> piece list \<Rightarrow> 's \<Rightarrow> 'e + 's" where
  "feed f [] s = Inr s"
| "feed f (p # ps) s = and_then (f (segment_of p) s) (feed f ps)"

lemma and_then_assoc: "and_then (and_then r f) g = and_then r (\<lambda>x. and_then (f x) g)"
  by (cases r) simp_all

lemma feed_append: "feed f (ps @ qs) s = and_then (feed f ps s) (feed f qs)"
proof (induction ps arbitrary: s)
  case (Cons p ps)
  then have "feed f (ps @ qs) = (\<lambda>s. and_then (feed f ps s) (feed f qs))" by blast
  then show ?case by (simp add: and_then_assoc)
qed simp

text \<open>The six ways the tokenizer goes on.\<close>

definition opens4 :: "string \<Rightarrow> string option" where "opens4 = strip_prefix ''{{{{''"
definition closes4 :: "string \<Rightarrow> string option" where "closes4 = strip_prefix ''}}}}''"
definition opens2 :: "string \<Rightarrow> string option" where "opens2 = strip_prefix ''{{''"

lemmas brace_defs = opens4_def closes4_def opens2_def

lemma lex_cases [case_names open4 close4 unclosed hole ending byte]:
  assumes "\<And>rest. opens4 v = Some rest \<Longrightarrow> P"
    and "\<And>rest. opens4 v = None \<Longrightarrow> closes4 v = Some rest \<Longrightarrow> P"
    and "\<And>rest. opens4 v = None \<Longrightarrow> closes4 v = None \<Longrightarrow> opens2 v = Some rest \<Longrightarrow> split_close rest = None \<Longrightarrow> P"
    and "\<And>rest tok rest'. opens4 v = None \<Longrightarrow> closes4 v = None \<Longrightarrow> opens2 v = Some rest \<Longrightarrow>
      split_close rest = Some (tok, rest') \<Longrightarrow> P"
    and "v = [] \<Longrightarrow> P"
    and "\<And>c cs. opens4 v = None \<Longrightarrow> closes4 v = None \<Longrightarrow> opens2 v = None \<Longrightarrow> v = c # cs \<Longrightarrow> P"
  shows P
proof (cases "opens4 v")
  case (Some rest)
  then show P by (rule assms(1))
next
  case o: None
  show P
  proof (cases "closes4 v")
    case (Some rest)
    with o show P by (rule assms(2))
  next
    case c: None
    show P
    proof (cases "opens2 v")
      case None
      then show P using assms(5) assms(6)[OF o c] by (cases v) auto
    next
      case (Some rest)
      then show P using assms(3)[OF o c] assms(4)[OF o c] by (cases "split_close rest") auto
    qed
  qed
qed

lemma lex_steps:
  "opens4 v = Some rest \<Longrightarrow>
     lex_from run v = (Text run # Escape ''{{'' # fst (lex_from [] rest), snd (lex_from [] rest))"
  "opens4 v = None \<Longrightarrow> closes4 v = Some rest \<Longrightarrow>
     lex_from run v = (Text run # Escape ''}}'' # fst (lex_from [] rest), snd (lex_from [] rest))"
  "opens4 v = None \<Longrightarrow> closes4 v = None \<Longrightarrow> opens2 v = Some rest \<Longrightarrow> split_close rest = None \<Longrightarrow>
     lex_from run v = ([Text run], v)"
  "opens4 v = None \<Longrightarrow> closes4 v = None \<Longrightarrow> opens2 v = Some rest \<Longrightarrow> split_close rest = Some (tok, rest') \<Longrightarrow>
     lex_from run v = (Text run # Hole tok # fst (lex_from [] rest'), snd (lex_from [] rest'))"
  "lex_from run [] = ([Text run], [])"
  "opens4 (c # cs) = None \<Longrightarrow> closes4 (c # cs) = None \<Longrightarrow> opens2 (c # cs) = None \<Longrightarrow>
     lex_from run (c # cs) = lex_from (run @ [c]) cs"
  by (subst lex_from.simps, simp add: split_beta brace_defs del: strip_prefix.simps(3))+

lemma walk_steps:
  "opens4 v = Some rest \<Longrightarrow> walk_from f run v s =
     and_then (f (Literal run) s) (\<lambda>s. and_then (f (Literal ''{{'') s) (walk_from f [] rest))"
  "opens4 v = None \<Longrightarrow> closes4 v = Some rest \<Longrightarrow> walk_from f run v s =
     and_then (f (Literal run) s) (\<lambda>s. and_then (f (Literal ''}}'') s) (walk_from f [] rest))"
  "opens4 v = None \<Longrightarrow> closes4 v = None \<Longrightarrow> opens2 v = Some rest \<Longrightarrow> split_close rest = None \<Longrightarrow>
     walk_from f run v s = and_then (f (Literal run) s) (\<lambda>s. Inr (Unclosed, s))"
  "opens4 v = None \<Longrightarrow> closes4 v = None \<Longrightarrow> opens2 v = Some rest \<Longrightarrow> split_close rest = Some (tok, rest') \<Longrightarrow>
     walk_from f run v s = and_then (f (Literal run) s) (\<lambda>s. and_then (f (Token tok) s) (walk_from f [] rest'))"
  "walk_from f run [] s = and_then (f (Literal run) s) (\<lambda>s. Inr (Complete, s))"
  "opens4 (c # cs) = None \<Longrightarrow> closes4 (c # cs) = None \<Longrightarrow> opens2 (c # cs) = None \<Longrightarrow>
     walk_from f run (c # cs) s = walk_from f (run @ [c]) cs s"
  by (subst walk_from.simps, simp add: brace_defs del: strip_prefix.simps(3))+

lemma lex_source:
  "opens4 v = Some rest \<Longrightarrow> v = ''{{{{'' @ rest"
  "closes4 v = Some rest \<Longrightarrow> v = ''}}}}'' @ rest"
  "opens2 v = Some rest \<Longrightarrow> v = ''{{'' @ rest"
  "split_close rest = Some (tok, rest') \<Longrightarrow> rest = tok @ ''}}'' @ rest'"
  by (simp_all add: brace_defs strip_prefix_Some) (drule split_close_Some, simp)

lemma lex_shorter:
  "opens4 v = Some rest \<Longrightarrow> length rest < length v"
  "closes4 v = Some rest \<Longrightarrow> length rest < length v"
  "opens2 v = Some rest \<Longrightarrow> split_close rest = Some (tok, rest') \<Longrightarrow> length rest' < length v"
  by (auto dest!: lex_source)

lemma walk_from_lex:
  "walk_from f run v s =
     (case lex_from run v of (ps, tail) \<Rightarrow>
        and_then (feed f ps s) (\<lambda>s. Inr (if tail = [] then Complete else Unclosed, s)))"
proof (induction "length v" arbitrary: run v s rule: less_induct)
  case less
  have eq: "walk_from f run' rest = (\<lambda>s. and_then (feed f (fst (lex_from run' rest)) s)
      (\<lambda>s. Inr (if snd (lex_from run' rest) = [] then Complete else Unclosed, s)))"
    if "length rest < length v" for run' rest
    using less[OF that] by (auto simp: split_beta)
  show ?case
  proof (cases v rule: lex_cases)
    case (open4 rest)
    then show ?thesis using eq[OF lex_shorter(1)[OF open4]] by (simp add: walk_steps lex_steps and_then_assoc)
  next
    case (close4 rest)
    then show ?thesis using eq[OF lex_shorter(2)[OF close4(2)]] by (simp add: walk_steps lex_steps and_then_assoc)
  next
    case (unclosed rest)
    then show ?thesis by (auto simp: walk_steps lex_steps and_then_assoc dest: lex_source)
  next
    case (hole rest tok rest')
    then show ?thesis using eq[OF lex_shorter(3)[OF hole(3,4)]] by (simp add: walk_steps lex_steps and_then_assoc)
  next
    case ending
    then show ?thesis by (simp add: walk_steps lex_steps and_then_assoc)
  next
    case (byte c cs)
    then show ?thesis using eq[of cs] by (simp add: walk_steps lex_steps split_beta)
  qed
qed

lemma walk_lex:
  "walk f v s = and_then (feed f (fst (lex v)) s) (\<lambda>s. Inr (if snd (lex v) = [] then Complete else Unclosed, s))"
  by (simp add: walk_def walk_from_lex lex_def split_beta)

lemma lex_from_prints: "concat (map piece_text (fst (lex_from run v))) @ snd (lex_from run v) = run @ v"
proof (induction "length v" arbitrary: run v rule: less_induct)
  case less
  show ?case
  proof (cases v rule: lex_cases)
    case (open4 rest)
    then show ?thesis using less[OF lex_shorter(1)[OF open4], of "[]"] lex_source(1)[OF open4] by (simp add: lex_steps)
  next
    case (close4 rest)
    then show ?thesis using less[OF lex_shorter(2)[OF close4(2)], of "[]"] lex_source(2)[OF close4(2)] by (simp add: lex_steps)
  next
    case (unclosed rest)
    then show ?thesis by (simp add: lex_steps)
  next
    case (hole rest tok rest')
    then show ?thesis
      using less[OF lex_shorter(3)[OF hole(3,4)], of "[]"] lex_source(3)[OF hole(3)] lex_source(4)[OF hole(4)]
      by (simp add: lex_steps push_token_def)
  next
    case ending
    then show ?thesis by (simp add: lex_steps)
  next
    case (byte c cs)
    then show ?thesis using less[of cs "run @ [c]"] by (simp add: lex_steps)
  qed
qed

lemma lex_prints: "concat (map piece_text (fst (lex v))) @ snd (lex v) = v"
  using lex_from_prints[of "[]" v] by (simp add: lex_def)

subsection \<open>What a rendering is\<close>

fun collect :: "(piece \<Rightarrow> 'e + string) \<Rightarrow> piece list \<Rightarrow> 'e + string" where
  "collect g [] = Inr []"
| "collect g (p # ps) = and_then (g p) (\<lambda>t. and_then (collect g ps) (\<lambda>r. Inr (t @ r)))"

definition hole_secret :: "SecretView \<Rightarrow> string \<Rightarrow> RenderError + string" where
  "hole_secret secrets tok =
     (case secret_reference tok of Some reference \<Rightarrow> resolve_secret reference secrets | None \<Rightarrow> Inr (push_token tok))"

fun rendered_piece :: "string \<Rightarrow> nat \<Rightarrow> string option \<Rightarrow> SecretView \<Rightarrow> piece \<Rightarrow> RenderError + string" where
  "rendered_piece name inst home secrets (Text t) = Inr t"
| "rendered_piece name inst home secrets (Escape b) = Inr b"
| "rendered_piece name inst home secrets (Hole tok) =
     (case positional tok name (show_nat inst) home of Some text \<Rightarrow> Inr text | None \<Rightarrow> hole_secret secrets tok)"

fun secret_piece :: "SecretView \<Rightarrow> piece \<Rightarrow> RenderError + string" where
  "secret_piece secrets (Hole tok) =
     (if secret_reference tok = None \<and> strip_prefix SECRET_PREFIX tok \<noteq> None then Inl (Malformed (push_token tok))
      else hole_secret secrets tok)"
| "secret_piece secrets p = Inr (piece_text p)"

lemma feed_collect:
  assumes "\<And>p out. f (segment_of p) out = and_then (g p) (\<lambda>t. Inr (out @ t))"
  shows "feed f ps out = and_then (collect g ps) (\<lambda>t. Inr (out @ t))"
proof (induction ps arbitrary: out)
  case (Cons p ps)
  then have "feed f ps = (\<lambda>out. and_then (collect g ps) (\<lambda>t. Inr (out @ t)))" by blast
  then show ?case by (simp add: assms and_then_assoc)
qed simp

lemma and_then_Inr_id [simp]: "and_then r Inr = r"
  by (cases r) simp_all

lemma render_is_by_piece:
  "render v name inst home secrets = collect (rendered_piece name inst home secrets) (fst (lex v))"
proof -
  let ?f = "\<lambda>seg out. case seg of
            Literal lit \<Rightarrow> Inr (out @ lit)
          | Token tok \<Rightarrow>
              (case positional tok name (show_nat inst) home of
                 Some text \<Rightarrow> Inr (out @ text)
               | None \<Rightarrow>
                   (case secret_reference tok of
                      Some reference \<Rightarrow> and_then (resolve_secret reference secrets) (\<lambda>value. Inr (out @ value))
                    | None \<Rightarrow> Inr (out @ push_token tok)))"
  have "?f (segment_of p) out = and_then (rendered_piece name inst home secrets p) (\<lambda>t. Inr (out @ t))" for p out
    by (cases p) (auto simp: hole_secret_def split: option.splits)
  from feed_collect[of ?f, OF this] show ?thesis by (simp add: render_def walk_lex and_then_assoc)
qed

text \<open>A run of text is never mistaken for an escape.\<close>

definition run_ok :: "string \<Rightarrow> string \<Rightarrow> bool" where
  "run_ok run v \<longleftrightarrow> run = [] \<or> opens2 (run @ v) = None \<and> closes4 (run @ v) = None"

lemma run_ok_text: "run_ok run v \<Longrightarrow> \<not> (run \<in> {''{{'', ''}}''} \<and> strip_prefix (run @ run) (run @ v) \<noteq> None)"
  by (auto simp: run_ok_def brace_defs strip_prefix_Some)

lemma run_ok_byte:
  assumes "run_ok run (c # cs)" "opens2 (c # cs) = None" "closes4 (c # cs) = None"
  shows "run_ok (run @ [c]) cs"
  using assms by (cases "run = []") (simp_all add: run_ok_def)

lemma secrets_feed:
  assumes "value = pre @ run @ v" "run_ok run v"
  shows "feed (secrets_segment value secrets) (fst (lex_from run v)) (length pre, out) =
    and_then (collect (secret_piece secrets) (fst (lex_from run v)))
      (\<lambda>t. Inr (length value - length (snd (lex_from run v)), out @ t))"
  using assms
proof (induction "length v" arbitrary: run v pre out rule: less_induct)
  case less
  let ?f = "secrets_segment value secrets"
  have lit: "?f (Literal run) (length pre, out) = Inr (length (pre @ run), out @ run)" for out
    using run_ok_text[OF less.prems(2)] less.prems(1) by (auto simp: secrets_segment_def)
  have esc: "?f (Literal b) (length pre', out) = Inr (length (pre' @ b @ b), out @ b @ b)"
    if "value = pre' @ b @ b @ rest" "b \<in> {''{{'', ''}}''}" for b pre' rest out
    using that by (auto simp: secrets_segment_def)
  have tokf: "?f (Token tok) (length pre', out) =
      and_then (secret_piece secrets (Hole tok)) (\<lambda>t. Inr (length (pre' @ push_token tok), out @ t))" for tok pre' out
    by (auto simp: secrets_segment_def hole_secret_def push_token_def eval_nat_numeral split: option.splits)
  have step: "feed ?f (fst (lex_from [] rest)) (length pre', out) =
      and_then (collect (secret_piece secrets) (fst (lex_from [] rest)))
        (\<lambda>t. Inr (length value - length (snd (lex_from [] rest)), out @ t))"
    if "length rest < length v" "value = pre' @ rest" for rest pre' out
    using less.hyps[OF that(1), of pre' "[]" out] that(2) by (simp add: run_ok_def)
  show ?case
  proof (cases v rule: lex_cases)
    case (open4 rest)
    have v: "value = (pre @ run) @ ''{{'' @ ''{{'' @ rest" using less.prems(1) lex_source(1)[OF open4] by simp
    show ?thesis
      using step[OF lex_shorter(1)[OF open4], of "(pre @ run) @ ''{{'' @ ''{{''"] v esc[OF v] lit open4
      by (simp add: lex_steps and_then_assoc)
  next
    case (close4 rest)
    have v: "value = (pre @ run) @ ''}}'' @ ''}}'' @ rest" using less.prems(1) lex_source(2)[OF close4(2)] by simp
    show ?thesis
      using step[OF lex_shorter(2)[OF close4(2)], of "(pre @ run) @ ''}}'' @ ''}}''"] v esc[OF v] lit close4
      by (simp add: lex_steps and_then_assoc)
  next
    case (unclosed rest)
    then show ?thesis using lit less.prems(1) by (simp add: lex_steps)
  next
    case (hole rest tok rest')
    note H = \<open>opens4 v = None\<close> \<open>closes4 v = None\<close> \<open>opens2 v = Some rest\<close> \<open>split_close rest = Some (tok, rest')\<close>
    have v: "value = ((pre @ run) @ push_token tok) @ rest'"
      using less.prems(1) lex_source(3)[OF H(3)] lex_source(4)[OF H(4)] by (simp add: push_token_def)
    have "feed ?f (fst (lex_from [] rest')) (length ((pre @ run) @ push_token tok), out) =
      and_then (collect (secret_piece secrets) (fst (lex_from [] rest')))
        (\<lambda>t. Inr (length value - length (snd (lex_from [] rest')), out @ t))" for out
      using step[OF lex_shorter(3)[OF H(3,4)] v] .
    then show ?thesis
      using lit tokf[of tok "pre @ run"] H
      by (simp add: lex_steps and_then_assoc del: secret_piece.simps(1))
  next
    case ending
    then show ?thesis using lit less.prems(1) by (simp add: lex_steps)
  next
    case (byte c cs)
    then show ?thesis
      using less.hyps[of cs pre "run @ [c]" out] less.prems run_ok_byte[of run c cs] by (simp add: lex_steps)
  qed
qed

lemma render_secrets_is_by_piece:
  "render_secrets v secrets =
     and_then (collect (secret_piece secrets) (fst (lex v))) (\<lambda>out. Inr (out @ snd (lex v)))"
proof -
  have "length (snd (lex v)) \<le> length v" using arg_cong[OF lex_prints[of v], of length] by simp
  moreover have "drop (length v - length (snd (lex v))) v = snd (lex v)"
    using arg_cong[OF lex_prints[of v], of "drop (length v - length (snd (lex v)))"] arg_cong[OF lex_prints[of v], of length]
    by (simp del: append_eq_conv_conj)
  moreover note secrets_feed[of v "[]" "[]" v secrets "[]"]
  ultimately show ?thesis by (simp add: render_secrets_def walk_lex lex_def run_ok_def and_then_assoc)
qed

subsection \<open>Accepted values\<close>

definition holes :: "string \<Rightarrow> string set" where
  "holes v = {tok. Hole tok \<in> set (fst (lex v))}"

lemma feed_check:
  assumes "\<And>p u. f (segment_of p) u = (if \<forall>tok. p = Hole tok \<longrightarrow> ok tok then Inr () else Inl (e p))"
  shows "feed f ps () = Inr () \<longleftrightarrow> (\<forall>tok. Hole tok \<in> set ps \<longrightarrow> ok tok)"
  by (induction ps) (auto simp: assms)

lemma template_validate_iff:
  "template_validate v = Inr () \<longleftrightarrow>
     snd (lex v) = [] \<and> (\<forall>tok \<in> holes v. tok \<in> set TOKENS \<or> secret_reference tok \<noteq> None)"
proof -
  let ?f = "\<lambda>seg u. case seg of
            Literal _ \<Rightarrow> Inr ()
          | Token tok \<Rightarrow>
              if tok \<in> set TOKENS \<or> secret_reference tok \<noteq> None then Inr () else Inl (UnknownToken tok)"
  have "?f (segment_of p) u =
      (if \<forall>tok. p = Hole tok \<longrightarrow> tok \<in> set TOKENS \<or> secret_reference tok \<noteq> None then Inr ()
       else Inl (case segment_of p of Token tok \<Rightarrow> UnknownToken tok | _ \<Rightarrow> TemplateUnclosed))" for p and u :: unit
    by (cases p) auto
  from feed_check[where f = ?f and ps = "fst (lex v)", OF this] show ?thesis
    by (cases "feed ?f (fst (lex v)) ()") (auto simp: template_validate_def walk_lex holes_def)
qed

lemma feed_found:
  "feed (\<lambda>seg found. Inr (case seg of Token tok \<Rightarrow> found \<or> wanted tok | Literal _ \<Rightarrow> found) :: unit + bool) ps b =
     Inr (b \<or> (\<exists>tok. Hole tok \<in> set ps \<and> wanted tok))"
proof (induction ps arbitrary: b)
  case (Cons p ps)
  show ?case by (cases p) (auto simp: Cons)
qed simp

lemma holds_token_iff: "holds_token v wanted \<longleftrightarrow> (\<exists>tok \<in> holes v. wanted tok)"
  by (simp add: holds_token_def walk_lex feed_found holes_def Bex_def)

lemma collect_Inr:
  "(\<forall>p \<in> set ps. \<exists>t. g p = Inr t) \<Longrightarrow> \<exists>out. collect g ps = Inr out"
  by (induction ps) force+

lemma collect_Inl: "collect g ps = Inl e \<Longrightarrow> \<exists>p \<in> set ps. g p = Inl e"
  by (induction ps) (auto simp: and_then_Inl)

lemma collect_cong: "(\<And>p. p \<in> set ps \<Longrightarrow> g p = g' p) \<Longrightarrow> collect g ps = collect g' ps"
  by (induction ps) simp_all

lemma resolve_secret_missing:
  "resolve_secret r secrets = Inl e \<longleftrightarrow>
     (\<forall>value. view_resolve secrets r \<noteq> Found value) \<and>
     e = (case sr_namespace r of
            Some ns \<Rightarrow> if is_pushed secrets ns then SecretUnresolved (secret_ref_display r) (sv_environment secrets)
                       else NamespaceUnready ns (secret_ref_display r) (sv_environment secrets)
          | None \<Rightarrow> SecretUnresolved (secret_ref_display r) (sv_environment secrets))"
  by (auto simp: resolve_secret_def view_resolve_def Let_def split: option.splits)

subsection \<open>Environments\<close>

text \<open>What a view shows of a key: its own environment's value, or the one for every environment.\<close>

definition visible :: "SecretView \<Rightarrow> string option \<Rightarrow> string \<Rightarrow> string option" where
  "visible view ns key =
     (case (case ns of None \<Rightarrow> Some (sv_store view) | Some n \<Rightarrow> pc_values (sv_providers view) n) of
        None \<Rightarrow> None
      | Some table \<Rightarrow>
          (case table key of
             None \<Rightarrow> None
           | Some by_environment \<Rightarrow>
               (case by_environment (sv_environment view) of Some value \<Rightarrow> Some value | None \<Rightarrow> by_environment ALL_ENVIRONMENTS)))"

lemma view_resolve_visible:
  "view_resolve view r =
     (case visible view (sr_namespace r) (sr_key r) of
        Some value \<Rightarrow> Found value
      | None \<Rightarrow> (case sr_namespace r of
                  None \<Rightarrow> MissingKey
                | Some ns \<Rightarrow> if is_pushed view ns then MissingKey else MissingNamespace))"
  by (simp add: view_resolve_def visible_def Let_def)

lemma render_visible:
  assumes "sv_environment view' = sv_environment view"
    "\<And>ns key. visible view' ns key = visible view ns key" "\<And>ns. is_pushed view' ns = is_pushed view ns"
  shows "render v name inst home view' = render v name inst home view"
    "render_secrets v view' = render_secrets v view"
proof -
  have "view_resolve view' r = view_resolve view r" for r
    using assms(2,3) by (simp add: view_resolve_visible split: option.splits)
  then have r: "resolve_secret r view' = resolve_secret r view" for r
    using assms(1) by (simp add: resolve_secret_def split: Resolution.splits option.splits)
  then have h: "hole_secret view' tok = hole_secret view tok" for tok by (simp add: hole_secret_def split: option.splits)
  have "rendered_piece name inst home view' p = rendered_piece name inst home view p" for p
    by (cases p) (simp_all add: h split: option.splits)
  moreover have "secret_piece view' p = secret_piece view p" for p by (cases p) (simp_all add: h)
  ultimately show "render v name inst home view' = render v name inst home view" "render_secrets v view' = render_secrets v view"
    by (simp_all add: render_is_by_piece render_secrets_is_by_piece cong: collect_cong)
qed

subsection \<open>One reference and nothing else\<close>

lemma name_bytes_plain: "is_name_byte c \<Longrightarrow> c \<noteq> CHR ''{'' \<and> c \<noteq> CHR ''}'' \<and> c \<noteq> CHR ''/''"
  by (auto simp: is_name_byte_def is_ascii_alphanumeric_def Let_def)

lemma secret_body_plain: "secret_ref_parse body = Some r \<Longrightarrow> list_all (\<lambda>c. c \<noteq> CHR ''{'' \<and> c \<noteq> CHR ''}'') body"
  using name_bytes_plain
  by (auto simp: secret_ref_parse_def is_name_def list_all_iff split_once_Some split: option.splits if_splits prod.splits)

lemma split_close_plain: "list_all (\<lambda>c. c \<noteq> CHR ''}'') tok \<Longrightarrow> split_close (tok @ ''}}'' @ rest) = Some (tok, rest)"
  by (induction tok) auto

lemma lex_one_hole:
  assumes "list_all (\<lambda>c. c \<noteq> CHR ''{'' \<and> c \<noteq> CHR ''}'') tok" "tok \<noteq> []"
  shows "lex (push_token tok) = ([Text [], Hole tok, Text []], [])"
proof -
  have sc: "split_close (tok @ ''}}'' @ []) = Some (tok, [])" by (rule split_close_plain) (use assms(1) in \<open>auto simp: list_all_iff\<close>)
  obtain c cs where c: "tok = c # cs" "c \<noteq> CHR ''{''" using assms by (cases tok) auto
  have "opens4 (push_token tok) = None" "closes4 (push_token tok) = None" "opens2 (push_token tok) = Some (tok @ ''}}'')"
    using c by (simp_all add: brace_defs push_token_def)
  from lex_steps(4)[OF this, of tok "[]" "[]"] sc show ?thesis by (simp add: lex_def lex_steps)
qed

definition secret_entry :: "SecretView \<Rightarrow> string option \<Rightarrow> string \<Rightarrow> string \<Rightarrow> string option" where
  "secret_entry view ns key env =
     (case (case ns of None \<Rightarrow> Some (sv_store view) | Some n \<Rightarrow> pc_values (sv_providers view) n) of
        None \<Rightarrow> None
      | Some table \<Rightarrow> (case table key of None \<Rightarrow> None | Some by_environment \<Rightarrow> by_environment env))"

lemma visible_secret_entry:
  "visible view ns key =
     (case secret_entry view ns key (sv_environment view) of Some value \<Rightarrow> Some value | None \<Rightarrow> secret_entry view ns key ALL_ENVIRONMENTS)"
  by (simp add: visible_def secret_entry_def split: option.splits)

subsection \<open>Properties\<close>

text \<open>
  \<open>render_secrets\<close> changes nothing but the references. Every value is the text of the pieces the
  grammar reads it as, followed by an opening that is never closed; the rendering is those pieces with
  each well-formed reference replaced by its secret and every other byte as written, escapes doubled
  as they were, whatever the positions the loop keeps count of.
\<close>

lemma render_secrets_copies_the_rest:
  "concat (map piece_text (fst (lex v))) @ snd (lex v) = v \<and>
   render_secrets v secrets =
     and_then (collect (secret_piece secrets) (fst (lex v))) (\<lambda>out. Inr (out @ snd (lex v)))"
  using lex_prints render_secrets_is_by_piece by simp

text \<open>
  C25. A sheep sees the secrets of its own environment and of none other: two stores that agree on the
  values and pushes of a view's environment and of \<open>all\<close> render every value alike, whatever they hold
  for other environments.
\<close>

theorem secrets_stay_in_their_environment:
  assumes "sv_environment view' = sv_environment view"
    and "\<And>env ns key. env = sv_environment view \<or> env = ALL_ENVIRONMENTS \<Longrightarrow> secret_entry view' ns key env = secret_entry view ns key env"
    and "\<And>env n. env = sv_environment view \<or> env = ALL_ENVIRONMENTS \<Longrightarrow>
      env \<in> pc_pushed (sv_providers view') n \<longleftrightarrow> env \<in> pc_pushed (sv_providers view) n"
  shows "render v name inst home view' = render v name inst home view \<and> render_secrets v view' = render_secrets v view"
proof -
  have "visible view' ns key = visible view ns key" for ns key
    using assms(1,2) by (simp add: visible_secret_entry split: option.splits)
  moreover have "is_pushed view' ns = is_pushed view ns" for ns using assms(1,3) by (simp add: is_pushed_def)
  ultimately show ?thesis using render_visible[of view' view] assms(1) by blast
qed

definition one_key :: "(string \<times> string) list \<Rightarrow> SecretView" where
  "one_key values =
     \<lparr> sv_environment = ''staging'', sv_store = [''PW'' \<mapsto> map_of values],
       sv_providers = \<lparr> pc_values = Map.empty, pc_pushed = \<lambda>_. {} \<rparr> \<rparr>"

theorem secrets_stay_in_their_environment_witness:
  "render ''{{secret:PW}}'' ''web'' 0 None (one_key [(''production'', ''hunter2'')]) =
   render ''{{secret:PW}}'' ''web'' 0 None (one_key [(''production'', ''changed''), (''qa'', ''x'')])"
proof -
  let ?a = "one_key [(''production'', ''hunter2'')]" and ?b = "one_key [(''production'', ''changed''), (''qa'', ''x'')]"
  have "secret_entry ?a ns key env = secret_entry ?b ns key env" if "env = sv_environment ?b \<or> env = ALL_ENVIRONMENTS" for env ns key
    using that by (cases ns) (auto simp: one_key_def secret_entry_def ALL_ENVIRONMENTS_def)
  moreover have "sv_environment ?a = sv_environment ?b" "sv_providers ?a = sv_providers ?b" by (simp_all add: one_key_def)
  ultimately show ?thesis using secrets_stay_in_their_environment[of ?a ?b] by simp
qed

text \<open>
  A rendering fails only on a reference: one of the value's own, which the view does not resolve.
  The error says waiting helps exactly when the reference is namespaced and no provider has pushed
  its namespace for this environment.
\<close>

theorem render_fails_on_a_missing_secret:
  "render v name inst home secrets = Inl e \<Longrightarrow>
    \<exists>tok r. tok \<in> holes v \<and> secret_reference tok = Some r \<and> (\<forall>value. view_resolve secrets r \<noteq> Found value) \<and>
      (render_error_is_retriable e \<longleftrightarrow> (\<exists>ns. sr_namespace r = Some ns \<and> \<not> is_pushed secrets ns))"
proof -
  assume "render v name inst home secrets = Inl e"
  then obtain p where p: "p \<in> set (fst (lex v))" "rendered_piece name inst home secrets p = Inl e"
    by (auto simp: render_is_by_piece dest: collect_Inl)
  from p(2) obtain tok r where t: "p = Hole tok" "secret_reference tok = Some r" "resolve_secret r secrets = Inl e"
    by (cases p) (auto simp: hole_secret_def split: option.splits)
  then show ?thesis using p(1) unfolding resolve_secret_missing holes_def by (auto split: option.splits)
qed

theorem render_fails_on_a_missing_secret_witness:
  "\<exists>e tok r. render ''{{secret:vault/PW}}'' ''web'' 0 None (one_key []) = Inl e \<and> tok \<in> holes ''{{secret:vault/PW}}'' \<and>
     secret_reference tok = Some r \<and> sr_namespace r = Some ''vault'' \<and> render_error_is_retriable e"
proof -
  have l: "lex ''{{secret:vault/PW}}'' = ([Text [], Hole ''secret:vault/PW'', Text []], [])"
    using lex_one_hole[of "''secret:vault/PW''"] by (simp add: push_token_def)
  have r: "secret_reference ''secret:vault/PW'' = Some \<lparr> sr_namespace = Some ''vault'', sr_key = ''PW'' \<rparr>"
    by (simp add: secret_reference_def SECRET_PREFIX_def secret_ref_parse_def is_name_def MAX_KEY_BYTES_def is_name_byte_def
        is_ascii_alphanumeric_def)
  obtain e where e: "render ''{{secret:vault/PW}}'' ''web'' 0 None (one_key []) = Inl e"
    by (simp add: render_is_by_piece l positional_def SHEP_HOME_def hole_secret_def r resolve_secret_def view_resolve_def one_key_def
        is_pushed_def)
  from render_fails_on_a_missing_secret[OF e] obtain tok r' where t: "tok \<in> holes ''{{secret:vault/PW}}''"
    "secret_reference tok = Some r'"
    "render_error_is_retriable e \<longleftrightarrow> (\<exists>ns. sr_namespace r' = Some ns \<and> \<not> is_pushed (one_key []) ns)" by blast
  have "tok = ''secret:vault/PW''" using t(1) l by (simp add: holes_def)
  then have "sr_namespace r' = Some ''vault''" using t(2) r by auto
  moreover have "\<not> is_pushed (one_key []) ''vault''" by (simp add: is_pushed_def one_key_def)
  ultimately show ?thesis using e t by blast
qed

text \<open>
  What a client is shown of an env value is the value itself exactly when the grammar reads it as
  one reference with no text around it, and the redaction otherwise.
\<close>

theorem shown_env_value_is_a_reference:
  "shown_env_value v = (if \<exists>tok r. lex v = ([Text [], Hole tok, Text []], []) \<and> secret_reference tok = Some r then v else REDACTED_ENV)"
proof (cases "\<exists>body r. v = push_token (SECRET_PREFIX @ body) \<and> secret_ref_parse body = Some r")
  case True
  then obtain body r where b: "v = push_token (SECRET_PREFIX @ body)" "secret_ref_parse body = Some r" by blast
  have "list_all (\<lambda>c. c \<noteq> CHR ''{'' \<and> c \<noteq> CHR ''}'') (SECRET_PREFIX @ body)"
    using secret_body_plain[OF b(2)] by (simp add: SECRET_PREFIX_def)
  from lex_one_hole[OF this] have "lex v = ([Text [], Hole (SECRET_PREFIX @ body), Text []], [])"
    using b(1) by (simp add: SECRET_PREFIX_def)
  moreover have "secret_reference (SECRET_PREFIX @ body) = Some r" using b(2) by (simp add: secret_reference_def)
  moreover have "strip_prefix ''{{secret:'' v = Some (body @ ''}}'')"
    using b(1) by (simp add: strip_prefix_Some push_token_def SECRET_PREFIX_def)
  moreover have "strip_suffix ''}}'' (body @ ''}}'') = Some body" by simp
  ultimately show ?thesis using b(2) by (simp add: shown_env_value_def)
next
  case False
  have "shown_env_value v = REDACTED_ENV"
    using False by (auto simp: shown_env_value_def strip_prefix_Some strip_suffix_Some push_token_def SECRET_PREFIX_def split: option.splits)
  moreover have "\<not> (lex v = ([Text [], Hole tok, Text []], []) \<and> secret_reference tok = Some r)" for tok r
  proof
    assume a: "lex v = ([Text [], Hole tok, Text []], []) \<and> secret_reference tok = Some r"
    then have "v = push_token tok" using lex_prints[of v] by simp
    moreover obtain body where "tok = SECRET_PREFIX @ body" "secret_ref_parse body = Some r"
      using a by (auto simp: secret_reference_def strip_prefix_Some split: option.splits)
    ultimately show False using False by blast
  qed
  ultimately show ?thesis by auto
qed

end
