(* ===== verification/Probe_Target.thy ===== *)
theory Probe_Target
  imports App_Config
begin

text \<open>
  What a probe asks and what it takes for an answer: the target grammar
  (\<open>shep-core/src/config/probe.rs\<close>), and the request an HTTP probe writes and the status line it reads
  (\<open>shep-daemon/src/probes/os.rs\<close>). The connection between them is not modelled. A rejection
  carries what the code formats into its message.
\<close>

subsection \<open>Targets\<close>

datatype ProbeTarget =
    HttpTarget string "16 word" string
  | TcpTarget string "16 word"
  | ExecTarget string

datatype ProbeTargetError =
    ProbeEmpty
  | HttpsUnsupported string
  | NotHttpUrl string
  | MissingHost string
  | InvalidHost string
  | InvalidPath string
  | MissingPort string
  | BadPort string

fun strip_prefix_ignore_ascii_case :: "string \<Rightarrow> string \<Rightarrow> string option" where
  "strip_prefix_ignore_ascii_case s [] = Some s"
| "strip_prefix_ignore_ascii_case [] (p # ps) = None"
| "strip_prefix_ignore_ascii_case (c # cs) (p # ps) =
     (if to_ascii_uppercase_char c = to_ascii_uppercase_char p then strip_prefix_ignore_ascii_case cs ps else None)"

definition split_authority :: "string \<Rightarrow> string \<Rightarrow> ProbeTargetError + (string \<times> string option)" where
  "split_authority authority target =
     (case strip_prefix ''['' authority of
        Some inner \<Rightarrow>
          (case split_once (CHR '']'') inner of
             None \<Rightarrow> Inl (MissingHost target)
           | Some (host, after) \<Rightarrow>
               (case strip_prefix '':'' after of
                  Some p \<Rightarrow> Inr (host, Some p)
                | None \<Rightarrow> if after = [] then Inr (host, None) else Inl (BadPort target)))
      | None \<Rightarrow>
          (case rsplit_once (CHR '':'') authority of
             Some (host, port_str) \<Rightarrow> Inr (host, Some port_str)
           | None \<Rightarrow> Inr (authority, None)))"

definition validate_host :: "string \<Rightarrow> string \<Rightarrow> string \<Rightarrow> ProbeTargetError + unit" where
  "validate_host host authority target =
     (let bracketed = strip_prefix ''['' authority \<noteq> None
      in if CHR ''@'' \<in> set host \<or> has_whitespace host \<or> (\<not> bracketed \<and> CHR '':'' \<in> set host)
         then Inl (InvalidHost target) else Inr ())"

text \<open>\<open>char::is_control\<close> on UTF-8: the C0 and C1 controls and DEL.\<close>

fun has_control :: "string \<Rightarrow> bool" where
  "has_control [] \<longleftrightarrow> False"
| "has_control (c # cs) \<longleftrightarrow>
     (of_char c :: nat) < 32 \<or> (of_char c :: nat) = 127 \<or>
     (of_char c :: nat) = 0xC2 \<and> cs \<noteq> [] \<and> 128 \<le> (of_char (hd cs) :: nat) \<and> (of_char (hd cs) :: nat) < 160 \<or>
     has_control cs"

definition validate_path :: "string \<Rightarrow> string \<Rightarrow> ProbeTargetError + unit" where
  "validate_path path target = (if has_whitespace path \<or> has_control path then Inl (InvalidPath target) else Inr ())"

definition parse_port :: "string \<Rightarrow> string \<Rightarrow> ProbeTargetError + 16 word" where
  "parse_port port_str target =
     (case parse_unsigned port_str of Some port \<Rightarrow> Inr port | None \<Rightarrow> Inl (BadPort target))"

definition parse_http :: "string \<Rightarrow> ProbeTargetError + ProbeTarget" where
  "parse_http target =
     (let trimmed = trim target in
      case strip_prefix_ignore_ascii_case trimmed ''http://'' of
        None \<Rightarrow>
          if strip_prefix_ignore_ascii_case trimmed ''https://'' \<noteq> None then Inl (HttpsUnsupported target)
          else Inl (NotHttpUrl target)
      | Some rest \<Rightarrow>
          (let (authority, path) =
             (case split_once (CHR ''/'') rest of
                Some (a, p) \<Rightarrow> (a, CHR ''/'' # p)
              | None \<Rightarrow> (rest, ''/''))
           in if authority = [] then Inl (MissingHost target)
              else and_then (split_authority authority target) (\<lambda>(host, port_str).
                if host = [] then Inl (MissingHost target)
                else and_then (validate_host host authority target) (\<lambda>_.
                  and_then (validate_path path target) (\<lambda>_.
                  and_then (parse_port (case port_str of Some p \<Rightarrow> p | None \<Rightarrow> ''80'') target) (\<lambda>port.
                  Inr (HttpTarget host port path)))))))"

definition parse_tcp :: "string \<Rightarrow> ProbeTargetError + ProbeTarget" where
  "parse_tcp target =
     (let trimmed = trim target in
      and_then (split_authority trimmed target) (\<lambda>(host, port_str).
        if host = [] then Inl (MissingHost target)
        else and_then (validate_host host trimmed target) (\<lambda>_.
          (case port_str of
             None \<Rightarrow> Inl (MissingPort target)
           | Some p \<Rightarrow>
               if p = [] then Inl (MissingPort target)
               else and_then (parse_port p target) (\<lambda>port. Inr (TcpTarget host port))))))"

definition probe_target_parse :: "ProbeConfig \<Rightarrow> ProbeTargetError + ProbeTarget" where
  "probe_target_parse config =
     (if trim (probe_target config) = [] then Inl ProbeEmpty
      else case probe_kind config of
             Http \<Rightarrow> parse_http (probe_target config)
           | Tcp \<Rightarrow> parse_tcp (probe_target config)
           | Exec \<Rightarrow> Inr (ExecTarget (probe_target config)))"

subsection \<open>The exchange\<close>

definition HTTP_DEFAULT_PORT :: "16 word" where "HTTP_DEFAULT_PORT = 80"

definition CRLF :: string where "CRLF = [CHR 0x0D, CHR 0x0A]"

definition host_header :: "string \<Rightarrow> 16 word \<Rightarrow> string" where
  "host_header host port =
     (let host = (if CHR '':'' \<in> set host then ''['' @ host @ '']'' else host)
      in if port = HTTP_DEFAULT_PORT then host else host @ '':'' @ show_nat (unat port))"

definition http_request :: "string \<Rightarrow> 16 word \<Rightarrow> string \<Rightarrow> string" where
  "http_request host port path =
     ''GET '' @ path @ '' HTTP/1.1'' @ CRLF @ ''Host: '' @ host_header host port @ CRLF @ ''Connection: close'' @ CRLF @ CRLF"

datatype StatusRejection = NotAStatusLine string | RejectedStatus "16 word" | MalformedStatusLine string

text \<open>\<open>trim_end_matches\<close> of line ends.\<close>

definition trim_line_end :: "string \<Rightarrow> string" where
  "trim_line_end s = rev (dropWhile (\<lambda>c. c \<in> set CRLF) (rev s))"

definition evaluate_status_line :: "string \<Rightarrow> StatusRejection + unit" where
  "evaluate_status_line line =
     (let trimmed = trim_line_end line in
      case strip_prefix ''HTTP/'' trimmed of
        None \<Rightarrow> Inl (NotAStatusLine trimmed)
      | Some after_version \<Rightarrow>
          (case (case drop 1 (split_on (CHR '' '') after_version) of [] \<Rightarrow> None | tok # _ \<Rightarrow> parse_unsigned tok) of
             Some code \<Rightarrow> if 200 \<le> code \<and> code \<le> 299 then Inr () else Inl (RejectedStatus code)
           | None \<Rightarrow> Inl (MalformedStatusLine trimmed)))"

subsection \<open>Lines and fields\<close>

lemma split_on_plain: "d \<notin> set a \<Longrightarrow> split_on d a = [a]"
  by (induction a) auto

lemma split_on_append: "d \<notin> set a \<Longrightarrow> split_on d (a @ d # b) = a # split_on d b"
  by (induction a) auto

lemma strip_one_hit: "p \<in> set ps \<Longrightarrow> strip_prefix p s \<noteq> None \<Longrightarrow> strip_one ps s \<noteq> None"
  by (auto simp: strip_one_def map_filter_def filter_empty_conv split: list.splits)

definition ASCII_WHITESPACE :: "char set" where
  "ASCII_WHITESPACE = {CHR 0x09, CHR 0x0A, CHR 0x0B, CHR 0x0C, CHR 0x0D, CHR '' ''}"

lemma no_whitespace_byte:
  assumes "\<not> has_whitespace s" "b \<in> ASCII_WHITESPACE"
  shows "b \<notin> set s"
  using assms(1)
proof (induction s)
  case (Cons c cs)
  have w: "[b] \<in> set WHITESPACE" using assms(2) by (auto simp: WHITESPACE_def ASCII_WHITESPACE_def)
  have "c \<noteq> b"
  proof
    assume "c = b"
    then have "strip_one WHITESPACE (c # cs) \<noteq> None" by (intro strip_one_hit[OF w]) simp
    then show False using Cons.prems by simp
  qed
  then show ?case using Cons by simp
qed simp

lemma split_once_first: "split_once d s = Some (a, b) \<Longrightarrow> d \<notin> set a \<and> s = a @ d # b"
  by (simp add: split_once_Some)

lemma parse_http_parts:
  assumes "parse_http target = Inr (HttpTarget host port path)"
  shows "host \<noteq> []" "\<not> has_whitespace host" "\<not> has_whitespace path" "\<not> has_control path" "hd path = CHR ''/''" "path \<noteq> []"
  using assms
  by (auto simp: parse_http_def Let_def and_then_Inr validate_host_def validate_path_def
      split: option.splits if_splits prod.splits)

lemma parse_http_target:
  assumes "probe_target_parse cfg = Inr (HttpTarget host port path)"
  shows "parse_http (probe_target cfg) = Inr (HttpTarget host port path)"
  using assms
  by (auto simp: probe_target_parse_def parse_tcp_def Let_def and_then_Inr split: if_splits ProbeKind.splits option.splits)

text \<open>On printable ASCII there is nothing to trim or to refuse.\<close>

definition solid :: "char \<Rightarrow> bool" where
  "solid c \<longleftrightarrow> 33 \<le> (of_char c :: nat) \<and> (of_char c :: nat) \<le> 126"

lemma whitespace_not_solid: "\<forall>p \<in> set WHITESPACE. p \<noteq> [] \<and> \<not> solid (hd p) \<and> \<not> solid (last p)"
  by (simp add: WHITESPACE_def solid_def)

lemma strip_one_miss: "\<forall>p \<in> set ps. p \<noteq> [] \<and> \<not> solid (hd p) \<Longrightarrow> s = [] \<or> solid (hd s) \<Longrightarrow> strip_one ps s = None"
proof -
  assume a: "\<forall>p \<in> set ps. p \<noteq> [] \<and> \<not> solid (hd p)" "s = [] \<or> solid (hd s)"
  have "strip_prefix p s = None" if "p \<in> set ps" for p
    using a that by (cases p; cases s) auto
  then have "List.map_filter (\<lambda>p. strip_prefix p s) ps = []" by (simp add: map_filter_def filter_empty_conv)
  then show ?thesis by (simp add: strip_one_def)
qed

lemma strip_one_solid:
  assumes "s = [] \<or> solid (hd s)"
  shows "strip_one WHITESPACE s = None" "strip_one (map rev WHITESPACE) s = None"
  using strip_one_miss[OF _ assms] whitespace_not_solid by (auto simp: hd_rev)

lemma trim_solid: "s = [] \<or> solid (hd s) \<and> solid (last s) \<Longrightarrow> trim s = s"
proof -
  assume a: "s = [] \<or> solid (hd s) \<and> solid (last s)"
  then have "trim_start s = s" by (subst trim_start.simps) (auto simp: strip_one_solid)
  moreover have "trim_end_rev (rev s) = rev s" using a by (subst trim_end_rev.simps) (auto simp: strip_one_solid hd_rev)
  ultimately show ?thesis by (simp add: trim_def)
qed

lemma solid_text: "list_all solid s \<Longrightarrow> \<not> has_whitespace s \<and> \<not> has_control s"
proof (induction s)
  case (Cons c cs)
  then have "strip_one WHITESPACE (c # cs) = None" by (intro strip_one_solid(1)) simp
  then show ?case using Cons by (auto simp: solid_def)
qed simp

subsection \<open>Properties\<close>

text \<open>
  C26. A Flockfile cannot smuggle anything into a probe's request. Whatever target was accepted, the
  request an HTTP probe writes has the three lines it means to have and the blank one that ends them,
  and its request line has exactly the three fields it means to have, the path among them starting
  with a slash.
\<close>

theorem probe_request_cannot_be_split:
  assumes "probe_target_parse cfg = Inr (HttpTarget host port path)"
  shows "split_on (CHR 0x0A) (http_request host port path) =
     map (\<lambda>l. l @ [CHR 0x0D])
       [''GET '' @ path @ '' HTTP/1.1'', ''Host: '' @ host_header host port, ''Connection: close'', []] @ [[]]
   \<and> split_on (CHR '' '') (''GET '' @ path @ '' HTTP/1.1'') = [''GET'', path, ''HTTP/1.1''] \<and> hd path = CHR ''/''"
proof -
  note p = parse_http_parts[OF parse_http_target[OF assms]]
  let ?lf = "CHR 0x0A" and ?cr = "CHR 0x0D"
  have path: "?lf \<notin> set path" "CHR '' '' \<notin> set path" using no_whitespace_byte[OF p(3)] by (simp_all add: ASCII_WHITESPACE_def)
  have digits: "?lf \<notin> set (show_nat n)" for n
    using show_nat_digits[of n] by (auto simp: list_all_iff is_ascii_digit_def)
  have host: "?lf \<notin> set (host_header host port)"
    using no_whitespace_byte[OF p(2)] digits by (simp add: host_header_def Let_def ASCII_WHITESPACE_def)
  have lit: "?lf \<notin> set (''GET '' @ path @ '' HTTP/1.1'' @ [?cr])" "?lf \<notin> set (''Host: '' @ host_header host port @ [?cr])"
    "?lf \<notin> set (''Connection: close'' @ [?cr])" "?lf \<notin> set [?cr]" using path(1) host by simp_all
  have "http_request host port path =
      (''GET '' @ path @ '' HTTP/1.1'' @ [?cr]) @ ?lf # (''Host: '' @ host_header host port @ [?cr]) @ ?lf #
      (''Connection: close'' @ [?cr]) @ ?lf # [?cr] @ ?lf # []"
    by (simp add: http_request_def CRLF_def)
  then have "split_on ?lf (http_request host port path) =
      [''GET '' @ path @ '' HTTP/1.1'' @ [?cr], ''Host: '' @ host_header host port @ [?cr], ''Connection: close'' @ [?cr], [?cr], []]"
    by (simp only: split_on_append[OF lit(1)] split_on_append[OF lit(2)] split_on_append[OF lit(3)] split_on_append[OF lit(4)])
      simp
  moreover have "split_on (CHR '' '') (''GET'' @ CHR '' '' # path @ CHR '' '' # ''HTTP/1.1'') = [''GET'', path, ''HTTP/1.1'']"
    using path(2) by (subst split_on_append, simp, subst split_on_append) (simp_all add: split_on_plain)
  ultimately show ?thesis using p(5) by simp
qed

definition healthz :: ProbeConfig where
  "healthz = \<lparr> probe_kind = Http, probe_target = ''http://[::1]:8080/healthz'', probe_interval = up_from_millis 1000,
     probe_timeout = up_from_millis 1000, probe_failure_threshold = 3 \<rparr>"

theorem probe_request_cannot_be_split_witness:
  "probe_target_parse healthz = Inr (HttpTarget ''::1'' 8080 ''/healthz'') \<and>
   split_on (CHR '' '') (''GET '' @ ''/healthz'' @ '' HTTP/1.1'') = [''GET'', ''/healthz'', ''HTTP/1.1'']"
proof -
  have "trim (probe_target healthz) = probe_target healthz" by (rule trim_solid) (simp add: healthz_def solid_def)
  moreover have "list_all solid ''::1''" "list_all solid ''/healthz''" by (simp_all add: solid_def)
  moreover have "parse_unsigned ''8080'' = Some (8080 :: 16 word)"
    by (simp add: parse_unsigned_def parse_uint_def digits_value_def digit_val_def is_ascii_digit_def)
  ultimately have "probe_target_parse healthz = Inr (HttpTarget ''::1'' 8080 ''/healthz'')"
    using solid_text[of "''::1''"] solid_text[of "''/healthz''"]
    by (simp add: probe_target_parse_def healthz_def parse_http_def to_ascii_uppercase_char_def split_authority_def
        validate_host_def validate_path_def parse_port_def Let_def del: has_whitespace.simps has_control.simps)
  then show ?thesis using probe_request_cannot_be_split by blast
qed

end
