(* ===== verification/Net_Addr.thy ===== *)
theory Net_Addr
  imports Shep_Prelude
begin

text \<open>
  \<open>str::parse::<SocketAddr>\<close> of the Rust standard library, which \<open>validate_listen\<close>
  (\<open>shep-core/src/config/normalize/validate.rs\<close>) reads listen addresses with: an IPv4 address and a
  port, or a bracketed IPv6 address, an optional scope and a port. A reader takes the text and gives
  what it read and the text left over; a reader that fails has read nothing.
\<close>

type_synonym 'a reader = "string \<Rightarrow> ('a \<times> string) option"

definition read_char :: "char \<Rightarrow> unit reader" where
  "read_char d s = (case s of c # cs \<Rightarrow> if c = d then Some ((), cs) else None | [] \<Rightarrow> None)"

definition to_digit :: "nat \<Rightarrow> char \<Rightarrow> nat option" where
  "to_digit radix c =
     (let n = of_char c :: nat;
          v = (if 48 \<le> n \<and> n \<le> 57 then Some (n - 48)
               else if 97 \<le> n \<and> n \<le> 122 then Some (n - 87)
               else if 65 \<le> n \<and> n \<le> 90 then Some (n - 55)
               else None)
      in case v of None \<Rightarrow> None | Some d \<Rightarrow> if d < radix then Some d else None)"

text \<open>The longest run of digits, with its value and length.\<close>

fun digit_run :: "nat \<Rightarrow> string \<Rightarrow> nat \<Rightarrow> nat \<Rightarrow> nat \<times> nat \<times> string" where
  "digit_run radix [] acc n = (acc, n, [])"
| "digit_run radix (c # cs) acc n =
     (case to_digit radix c of
        Some d \<Rightarrow> digit_run radix cs (acc * radix + d) (n + 1)
      | None \<Rightarrow> (acc, n, c # cs))"

definition read_number :: "nat \<Rightarrow> nat option \<Rightarrow> bool \<Rightarrow> nat \<Rightarrow> nat reader" where
  "read_number radix max_digits allow_zero_prefix bound s =
     (let (result, digit_count, rest) = digit_run radix s 0 0;
          has_leading_zero = (s \<noteq> [] \<and> hd s = CHR ''0'')
      in if digit_count = 0 \<or> (case max_digits of Some m \<Rightarrow> m < digit_count | None \<Rightarrow> False)
            \<or> bound \<le> result \<or> (\<not> allow_zero_prefix \<and> has_leading_zero \<and> 1 < digit_count)
         then None else Some (result, rest))"

definition read_separator :: "char \<Rightarrow> nat \<Rightarrow> 'a reader \<Rightarrow> 'a reader" where
  "read_separator sep index inner s =
     (if 0 < index then case read_char sep s of None \<Rightarrow> None | Some (_, rest) \<Rightarrow> inner rest else inner s)"

fun read_octets :: "nat \<Rightarrow> nat \<Rightarrow> nat list reader" where
  "read_octets i 0 s = Some ([], s)"
| "read_octets i (Suc n) s =
     (case read_separator (CHR ''.'') i (read_number 10 (Some 3) False 256) s of
        None \<Rightarrow> None
      | Some (o1, rest) \<Rightarrow>
          (case read_octets (i + 1) n rest of None \<Rightarrow> None | Some (os, rest) \<Rightarrow> Some (o1 # os, rest)))"

definition read_ipv4_addr :: "nat list reader" where
  "read_ipv4_addr s = read_octets 0 4 s"

text \<open>
  \<open>read_groups\<close>: at most \<open>limit\<close> groups, with whether the last two were an embedded IPv4 address.
  It never fails; it stops where no group can be read.
\<close>

fun read_groups_from :: "nat \<Rightarrow> nat \<Rightarrow> nat \<Rightarrow> string \<Rightarrow> nat list \<times> bool \<times> string" where
  "read_groups_from limit i 0 s = ([], False, s)"
| "read_groups_from limit i (Suc left) s =
     (case (if i < limit - 1 then read_separator (CHR '':'') i read_ipv4_addr s else None) of
        Some (os, rest) \<Rightarrow> ([os ! 0 * 256 + os ! 1, os ! 2 * 256 + os ! 3], True, rest)
      | None \<Rightarrow>
          (case read_separator (CHR '':'') i (read_number 16 (Some 4) True 65536) s of
             None \<Rightarrow> ([], False, s)
           | Some (g, rest) \<Rightarrow>
               (let (gs, v4, rest) = read_groups_from limit (i + 1) left rest in (g # gs, v4, rest))))"

definition read_groups :: "nat \<Rightarrow> string \<Rightarrow> nat list \<times> bool \<times> string" where
  "read_groups limit s = read_groups_from limit 0 limit s"

definition read_ipv6_addr :: "nat list reader" where
  "read_ipv6_addr s =
     (case read_groups 8 s of
        (head, head_ipv4, rest) \<Rightarrow>
          if length head = 8 then Some (head, rest)
          else if head_ipv4 then None
          else
            (case strip_prefix ''::'' rest of
               None \<Rightarrow> None
             | Some rest \<Rightarrow>
                 (case read_groups (8 - (length head + 1)) rest of
                    (tail, _, rest) \<Rightarrow>
                      Some (head @ replicate (8 - length head - length tail) 0 @ tail, rest))))"

definition read_port :: "nat reader" where
  "read_port s = (case read_char (CHR '':'') s of None \<Rightarrow> None | Some (_, rest) \<Rightarrow> read_number 10 None True 65536 rest)"

definition read_scope_id :: "nat reader" where
  "read_scope_id s =
     (case read_char (CHR ''%'') s of None \<Rightarrow> None | Some (_, rest) \<Rightarrow> read_number 10 None True 4294967296 rest)"

datatype SocketAddr = V4 "nat list" nat | V6 "nat list" nat nat

definition read_socket_addr_v4 :: "SocketAddr reader" where
  "read_socket_addr_v4 s =
     (case read_ipv4_addr s of
        None \<Rightarrow> None
      | Some (ip, rest) \<Rightarrow> (case read_port rest of None \<Rightarrow> None | Some (port, rest) \<Rightarrow> Some (V4 ip port, rest)))"

definition read_socket_addr_v6 :: "SocketAddr reader" where
  "read_socket_addr_v6 s =
     (case read_char (CHR ''['') s of
        None \<Rightarrow> None
      | Some (_, rest) \<Rightarrow>
          (case read_ipv6_addr rest of
             None \<Rightarrow> None
           | Some (ip, rest) \<Rightarrow>
               (let (scope, rest) = (case read_scope_id rest of None \<Rightarrow> (0, rest) | Some r \<Rightarrow> r)
                in case read_char (CHR '']'') rest of
                     None \<Rightarrow> None
                   | Some (_, rest) \<Rightarrow>
                       (case read_port rest of None \<Rightarrow> None | Some (port, rest) \<Rightarrow> Some (V6 ip port scope, rest)))))"

definition socket_addr_parse :: "string \<Rightarrow> SocketAddr option" where
  "socket_addr_parse s =
     (case (case read_socket_addr_v4 s of Some r \<Rightarrow> Some r | None \<Rightarrow> read_socket_addr_v6 s) of
        Some (addr, []) \<Rightarrow> Some addr
      | _ \<Rightarrow> None)"

end
