(* ===== verification/Cron_Rules.thy ===== *)
theory Cron_Rules
  imports Core_Types App_Config
begin

text \<open>
  The two small grammars an app config carries: \<open>cron_restart\<close> patterns
  (\<open>shep-core/src/config/cron.rs\<close>), read by shep's own pass before croner sees them, and level
  rules (\<open>config/level.rs\<close>). What croner, the IANA name table and the regex engine answer are
  arguments: \<open>croner candidate\<close> and \<open>regex_build pattern\<close> give the rendered refusal, if any.
\<close>

subsection \<open>Cron patterns\<close>

definition NICKNAMES :: "(string \<times> string) list" where
  "NICKNAMES =
     [(''@yearly'', ''0 0 1 1 *''), (''@annually'', ''0 0 1 1 *''), (''@monthly'', ''0 0 1 * *''),
      (''@weekly'', ''0 0 * * 0''), (''@daily'', ''0 0 * * *''), (''@midnight'', ''0 0 * * *''),
      (''@hourly'', ''0 * * * *'')]"

definition NAMES :: "string list" where
  "NAMES =
     [''JAN'', ''FEB'', ''MAR'', ''APR'', ''MAY'', ''JUN'', ''JUL'', ''AUG'', ''SEP'', ''OCT'', ''NOV'', ''DEC'',
      ''SUN'', ''MON'', ''TUE'', ''WED'', ''THU'', ''FRI'', ''SAT'']"

datatype CronParseError = CronPattern string string | CronTimezone string

record CronSchedule =
  cs_pattern :: string
  cs_zone :: string
  cs_cron :: string

text \<open>\<open>str::split_whitespace\<close>: the maximal runs without a white-space character.\<close>

function fields_from :: "string \<Rightarrow> string \<Rightarrow> string list" where
  "fields_from run s =
     (case s of
        [] \<Rightarrow> if run = [] then [] else [run]
      | c # cs \<Rightarrow>
          (case strip_one WHITESPACE s of
             Some rest \<Rightarrow> if run = [] then fields_from [] rest else run # fields_from [] rest
           | None \<Rightarrow> fields_from (run @ [c]) cs))"
  by pat_completeness auto
termination by (relation "measure (length \<circ> snd)") (auto dest: strip_one_shorter)

declare fields_from.simps [simp del]

definition split_whitespace :: "string \<Rightarrow> string list" where
  "split_whitespace s = fields_from [] s"

definition eq_ignore_ascii_case :: "string \<Rightarrow> string \<Rightarrow> bool" where
  "eq_ignore_ascii_case a b \<longleftrightarrow> to_ascii_uppercase a = to_ascii_uppercase b"

definition is_single_at_token :: "string \<Rightarrow> bool" where
  "is_single_at_token trimmed \<longleftrightarrow>
     strip_prefix ''@'' trimmed \<noteq> None \<and> length (split_whitespace trimmed) = 1"

definition expand_nickname :: "string \<Rightarrow> string \<Rightarrow> CronParseError + string" where
  "expand_nickname trimmed original =
     (if eq_ignore_ascii_case trimmed ''@reboot'' then
        Inl (CronPattern original ''shep's own restart policy already decides when a sheep starts'')
      else case find (\<lambda>(name, _). eq_ignore_ascii_case trimmed name) NICKNAMES of
        Some (_, expansion) \<Rightarrow> Inr expansion
      | None \<Rightarrow>
          Inl (CronPattern original
            (''`'' @ trimmed @ ''` is not a recognized cron_restart nickname (expected one of @yearly, ''
             @ ''@annually, @monthly, @weekly, @daily, @midnight, @hourly)'')))"

text \<open>
  The scan skips a month or weekday name as a whole. It runs over bytes here: the names and the
  refused characters are ASCII, so no byte of a longer encoding takes part in a match.
\<close>

definition opens_name :: "string \<Rightarrow> bool" where
  "opens_name s \<longleftrightarrow> 3 \<le> length s \<and> (\<exists>name \<in> set NAMES. eq_ignore_ascii_case name (take 3 s))"

definition is_extension_char :: "char \<Rightarrow> bool" where
  "is_extension_char c \<longleftrightarrow> to_ascii_uppercase_char c \<in> set ''LW#?+''"

function field_has_bad_char :: "string \<Rightarrow> char option" where
  "field_has_bad_char [] = None"
| "field_has_bad_char (c # cs) =
     (if opens_name (c # cs) then field_has_bad_char (drop 2 cs)
      else if is_extension_char c then Some c
      else field_has_bad_char cs)"
  by pat_completeness auto
termination by (relation "measure length") auto

definition reject_extension_characters :: "string \<Rightarrow> string \<Rightarrow> CronParseError + unit" where
  "reject_extension_characters candidate original =
     first_error (\<lambda>field. case field_has_bad_char field of
         Some bad \<Rightarrow>
           Inl (CronPattern original
             (''cron_restart pattern contains `'' @ [bad] @ ''`, a croner extension character ''
              @ ''shep's five-field dialect does not accept''))
       | None \<Rightarrow> Inr ()) (split_whitespace candidate)"

definition reject_startless_step :: "string \<Rightarrow> string \<Rightarrow> CronParseError + unit" where
  "reject_startless_step candidate original =
     ensure (\<not> list_ex (\<lambda>field. list_ex (\<lambda>part. strip_prefix ''/'' part \<noteq> None) (split_on (CHR '','') field))
               (split_whitespace candidate))
       (CronPattern original ''cron_restart step has no start before `/`; write `*/N` or `A-B/N`'')"

definition cron_schedule_parse ::
  "(string \<Rightarrow> bool) \<Rightarrow> (string \<Rightarrow> string option) \<Rightarrow> string \<Rightarrow> string option \<Rightarrow> CronParseError + CronSchedule" where
  "cron_schedule_parse timezone_known croner pattern timezone =
     and_then
       (case timezone of
          Some name \<Rightarrow> if timezone_known name then Inr name else Inl (CronTimezone name)
        | None \<Rightarrow> Inr ''UTC'')
       (\<lambda>zone. let trimmed = trim pattern in
         and_then (if is_single_at_token trimmed then expand_nickname trimmed pattern else Inr trimmed)
           (\<lambda>candidate.
             and_then (reject_extension_characters candidate pattern) (\<lambda>_.
             and_then (reject_startless_step candidate pattern) (\<lambda>_.
             case croner candidate of
               Some reason \<Rightarrow> Inl (CronPattern pattern reason)
             | None \<Rightarrow> Inr \<lparr> cs_pattern = pattern, cs_zone = zone, cs_cron = candidate \<rparr>))))"

subsection \<open>The search for the next occurrence\<close>

text \<open>\<open>'t\<close> is an instant. croner's search is an argument.\<close>

datatype 't cron_search = Occurs 't | TimeSearchLimitExceeded | OtherCronError string

definition into_next_occurrence :: "'t cron_search \<Rightarrow> string + 't option" where
  "into_next_occurrence found =
     (case found of Occurs t \<Rightarrow> Inr (Some t) | TimeSearchLimitExceeded \<Rightarrow> Inr None | OtherCronError reason \<Rightarrow> Inl reason)"

definition next_after ::
  "(string \<Rightarrow> string \<Rightarrow> 't \<Rightarrow> 't cron_search) \<Rightarrow> CronSchedule \<Rightarrow> 't \<Rightarrow> string + 't option" where
  "next_after find_next_occurrence schedule after =
     into_next_occurrence (find_next_occurrence (cs_cron schedule) (cs_zone schedule) after)"

subsection \<open>Level rules\<close>

definition MAX_LEVEL_RULES :: nat where "MAX_LEVEL_RULES = 64"

datatype LevelRuleError = EmptyPattern LineLevel | TooManyRules nat nat | BadPattern string string

fun line_level_display :: "LineLevel \<Rightarrow> string" where
  "line_level_display LevelTrace = ''trace''"
| "line_level_display LevelDebug = ''debug''"
| "line_level_display LevelInfo = ''info''"
| "line_level_display LevelWarn = ''warn''"
| "line_level_display LevelError = ''error''"

fun level_rule_error_display :: "LevelRuleError \<Rightarrow> string" where
  "level_rule_error_display (EmptyPattern level) =
     ''the `'' @ line_level_display level @ ''` level rule has an empty pattern, which would match every line''"
| "level_rule_error_display (TooManyRules count limit) =
     show_nat count @ '' level rules, over the '' @ show_nat limit
     @ '' one app may declare: each is a compiled regex a client rebuilds on every redraw''"
| "level_rule_error_display (BadPattern pattern reason) =
     ''invalid level rule pattern `'' @ pattern @ ''`: '' @ reason"

definition level_matcher_compile ::
  "(string \<Rightarrow> string option) \<Rightarrow> LevelRule list \<Rightarrow> LevelRuleError + (string \<times> LineLevel) list" where
  "level_matcher_compile regex_build rules =
     (if MAX_LEVEL_RULES < length rules then Inl (TooManyRules (length rules) MAX_LEVEL_RULES)
      else and_then
        (first_error (\<lambda>rule.
           if lr_pattern rule = [] then Inl (EmptyPattern (lr_level rule))
           else case regex_build (lr_pattern rule) of
             Some reason \<Rightarrow> Inl (BadPattern (lr_pattern rule) reason)
           | None \<Rightarrow> Inr ()) rules)
        (\<lambda>_. Inr (map (\<lambda>rule. (lr_pattern rule, lr_level rule)) rules)))"

text \<open>\<open>is_match pattern line\<close> is the compiled regex's answer.\<close>

definition level_of :: "(string \<Rightarrow> string \<Rightarrow> bool) \<Rightarrow> (string \<times> LineLevel) list \<Rightarrow> string \<Rightarrow> LineLevel option" where
  "level_of is_match rules line = map_option snd (find (\<lambda>(pattern, _). is_match pattern line) rules)"

subsection \<open>What an accepted pattern looks like\<close>

text \<open>A refused character survives only inside a month or weekday name.\<close>

lemma field_clean:
  "field_has_bad_char field = None \<Longrightarrow> i < length field \<Longrightarrow> is_extension_char (field ! i) \<Longrightarrow>
   \<exists>k \<le> i. i < k + 3 \<and> opens_name (drop k field)"
proof (induction field arbitrary: i rule: field_has_bad_char.induct)
  case (2 c cs)
  show ?case
  proof (cases "opens_name (c # cs)")
    case True
    show ?thesis
    proof (cases "i < 3")
      case True
      then show ?thesis using \<open>opens_name (c # cs)\<close> by (intro exI[of _ 0]) simp
    next
      case False
      then obtain m where m: "i = m + 3" by (metis le_add_diff_inverse2 not_less)
      then have "m < length (drop 2 cs)" "(drop 2 cs) ! m = (c # cs) ! i"
        using "2.prems" by (auto simp: add.commute numeral_eq_Suc)
      moreover have "field_has_bad_char (drop 2 cs) = None" using "2.prems" True by simp
      ultimately obtain k where "k \<le> m" "m < k + 3" "opens_name (drop k (drop 2 cs))"
        using "2.IH"(1)[OF \<open>opens_name (c # cs)\<close>, of m] "2.prems" by auto
      then show ?thesis using m by (intro exI[of _ "k + 3"]) (auto simp: numeral_eq_Suc)
    qed
  next
    case False
    then have "\<not> is_extension_char c" and rest: "field_has_bad_char cs = None"
      using "2.prems" by (auto split: if_splits)
    then have "i \<noteq> 0" using "2.prems" by (cases i) auto
    then obtain j where j: "i = Suc j" by (cases i) auto
    then obtain k where "k \<le> j" "j < k + 3" "opens_name (drop k cs)"
      using "2.IH"(2)[OF False \<open>\<not> is_extension_char c\<close> rest, of j] "2.prems" by auto
    then show ?thesis using j by (intro exI[of _ "Suc k"]) auto
  qed
qed simp

lemma cron_parse_candidate:
  assumes "cron_schedule_parse zones croner pattern timezone = Inr schedule"
  shows "croner (cs_cron schedule) = None"
    and "field \<in> set (split_whitespace (cs_cron schedule)) \<Longrightarrow> field_has_bad_char field = None"
  using assms
  by (auto simp: cron_schedule_parse_def Let_def and_then_Inr reject_extension_characters_def first_error_Inr
      split: option.splits if_splits)

end
