(* ===== verification/Boot_Graph.thy ===== *)
theory Boot_Graph
  imports Shep_Prelude
begin

text \<open>
  Boot ordering (\<open>shep-core/src/config/graph.rs\<close>): names and edges in, stages out. A
  \<open>BTreeSet\<close> of names is the sorted list of its members, a \<open>BTreeMap\<close> an association list in
  key order. Tarjan's recursion carries fuel; the number of nodes is enough, since every call
  visits a node that had not been visited.
\<close>

subsection \<open>Nodes and plans\<close>

datatype NodeKind = Sheep | Dog bool

record BootNode =
  bn_name :: string
  bn_depends_on :: "string list"
  bn_kind :: NodeKind

record Unresolved =
  un_dependent :: string
  un_missing :: string

record BootPlan =
  bp_stages :: "string list list"
  bp_unresolved :: "Unresolved list"
  bp_cycles :: "string list list"
  bp_knots :: "string list list"

type_synonym boot_edges = "(string \<times> string list) list"

definition bset :: "string list \<Rightarrow> string list" where
  "bset xs = sort (remdups xs)"

definition deps_of :: "boot_edges \<Rightarrow> string \<Rightarrow> string list" where
  "deps_of g nm = (case map_of g nm of None \<Rightarrow> [] | Some ds \<Rightarrow> ds)"

definition render_cycle :: "string list \<Rightarrow> string" where
  "render_cycle cycle =
     (let path = cycle @ (case cycle of [] \<Rightarrow> [] | first # _ \<Rightarrow> [first])
      in concat (case path of [] \<Rightarrow> [] | x # xs \<Rightarrow> x # map (\<lambda>y. '' -> '' @ y) xs))"

subsection \<open>Dependents of a knot\<close>

definition grown_from :: "boot_edges \<Rightarrow> string list \<Rightarrow> string list \<Rightarrow> string list" where
  "grown_from g cyc found =
     filter (\<lambda>nm. nm \<notin> set cyc \<and> nm \<notin> set found \<and>
       list_ex (\<lambda>d. d \<in> set cyc \<or> d \<in> set found) (deps_of g nm)) (map fst g)"

function after_loop :: "boot_edges \<Rightarrow> string list \<Rightarrow> string list \<Rightarrow> string list" where
  "after_loop g cyc found =
     (let grown = grown_from g cyc found in
      if grown = [] then found else after_loop g cyc (bset (found @ grown)))"
  by auto

termination
proof (relation "measure (\<lambda>(g, cyc, found). card (fst ` set g - set found))")
  fix g cyc found grown
  assume grown: "grown = grown_from g cyc found" "grown \<noteq> []"
  then have "hd grown \<in> set grown" by simp
  then obtain x where "x \<in> fst ` set g" "x \<notin> set found" "x \<in> set grown"
    unfolding grown(1) grown_from_def by auto
  then have "fst ` set g - set (bset (found @ grown)) \<subset> fst ` set g - set found" by (auto simp: bset_def)
  then show "((g, cyc, bset (found @ grown)), g, cyc, found) \<in> measure (\<lambda>(g, cyc, found). card (fst ` set g - set found))"
    by (auto intro: psubset_card_mono)
qed simp

declare after_loop.simps [simp del]

definition depends_on_a_cycle :: "boot_edges \<Rightarrow> string list \<Rightarrow> string list" where
  "depends_on_a_cycle g cyc = after_loop g cyc []"

subsection \<open>Kahn's algorithm\<close>

definition ready_of :: "boot_edges \<Rightarrow> string list \<Rightarrow> string list \<Rightarrow> string list" where
  "ready_of g placed left =
     filter (\<lambda>nm. list_all (\<lambda>d. d \<in> set placed \<or> d \<notin> set left) (deps_of g nm)) left"

function kahn_loop :: "boot_edges \<Rightarrow> string list \<Rightarrow> string list \<Rightarrow> string list list" where
  "kahn_loop g placed left =
     (if left = [] then []
      else
        (let ready = ready_of g placed left in
         if ready = [] then []
         else ready # kahn_loop g (placed @ ready) (filter (\<lambda>nm. nm \<notin> set ready) left)))"
  by auto

termination
proof (relation "measure (\<lambda>(g, placed, left). length left)")
  fix g placed left ready
  assume ready: "ready = ready_of g placed left" "ready \<noteq> []"
  then have "hd ready \<in> set ready" by simp
  then have "\<exists>x \<in> set left. \<not> x \<notin> set ready" unfolding ready(1) ready_of_def by auto
  then show "((g, placed @ ready, filter (\<lambda>nm. nm \<notin> set ready) left), g, placed, left)
      \<in> measure (\<lambda>(g, placed, left). length left)"
    by (auto intro: length_filter_less)
qed simp

declare kahn_loop.simps [simp del]

definition kahn :: "string list \<Rightarrow> boot_edges \<Rightarrow> string list \<Rightarrow> string list list" where
  "kahn ordered g already = kahn_loop g already ordered"

subsection \<open>Tarjan's algorithm\<close>

text \<open>The stack is kept with its top first.\<close>

record Tarjan =
  t_index :: "string \<rightharpoonup> nat"
  t_low :: "string \<rightharpoonup> nat"
  t_stack :: "string list"
  t_on_stack :: "string set"
  t_next :: nat
  t_components :: "string list list"

definition t_enter :: "string \<Rightarrow> Tarjan \<Rightarrow> Tarjan" where
  "t_enter nm t =
     t\<lparr> t_index := (t_index t)(nm \<mapsto> t_next t), t_low := (t_low t)(nm \<mapsto> t_next t),
        t_next := t_next t + 1, t_stack := nm # t_stack t,
        t_on_stack := insert nm (t_on_stack t) \<rparr>"

fun pop_until :: "string \<Rightarrow> string list \<Rightarrow> string list \<times> string list" where
  "pop_until nm [] = ([], [])"
| "pop_until nm (x # xs) =
     (if x = nm then ([x], xs) else (case pop_until nm xs of (ms, rest) \<Rightarrow> (x # ms, rest)))"

definition t_close :: "string \<Rightarrow> Tarjan \<Rightarrow> Tarjan" where
  "t_close nm t =
     (if t_low t nm = t_index t nm
      then (case pop_until nm (t_stack t) of
              (members, rest) \<Rightarrow>
                t\<lparr> t_stack := rest, t_on_stack := t_on_stack t - set members,
                   t_components := t_components t @ [bset members] \<rparr>)
      else t)"

definition t_lower :: "string \<Rightarrow> nat option \<Rightarrow> Tarjan \<Rightarrow> Tarjan" where
  "t_lower nm reachable t =
     (case reachable of
        None \<Rightarrow> t
      | Some r \<Rightarrow> t\<lparr> t_low := (t_low t)(nm \<mapsto> min (case t_low t nm of Some l \<Rightarrow> l | None \<Rightarrow> r) r) \<rparr>)"

definition t_visit :: "(string \<Rightarrow> Tarjan \<Rightarrow> Tarjan) \<Rightarrow> string \<Rightarrow> string \<Rightarrow> Tarjan \<Rightarrow> Tarjan" where
  "t_visit rec nm dep t =
     (if t_index t dep \<noteq> None
      then t_lower nm (if dep \<in> t_on_stack t then t_index t dep else None) t
      else (let t = rec dep t in t_lower nm (t_low t dep) t))"

fun connect :: "nat \<Rightarrow> boot_edges \<Rightarrow> string \<Rightarrow> Tarjan \<Rightarrow> Tarjan" where
  "connect 0 g nm t = t"
| "connect (Suc k) g nm t =
     t_close nm (fold (t_visit (connect k g) nm) (deps_of g nm) (t_enter nm t))"

definition t_init :: Tarjan where
  "t_init = \<lparr> t_index = Map.empty, t_low = Map.empty, t_stack = [], t_on_stack = {}, t_next = 0,
     t_components = [] \<rparr>"

definition t_run :: "boot_edges \<Rightarrow> Tarjan" where
  "t_run g =
     fold (\<lambda>nm t. if t_index t nm = None then connect (length g) g nm t else t) (map fst g) t_init"

definition is_knot :: "boot_edges \<Rightarrow> string list \<Rightarrow> bool" where
  "is_knot g members \<longleftrightarrow> 1 < length members \<or>
     (case members of [] \<Rightarrow> False | only # _ \<Rightarrow> only \<in> set (deps_of g only))"

definition knots :: "boot_edges \<Rightarrow> string list list" where
  "knots g = sort (filter (is_knot g) (t_components (t_run g)))"

subsection \<open>A cycle to name\<close>

text \<open>
  The walk, with its path and the names it has seen; the path is the cycle when it closes.
  Fuel as above: every step sees a name not seen before.
\<close>

fun close_on ::
  "nat \<Rightarrow> string \<Rightarrow> string \<Rightarrow> boot_edges \<Rightarrow> string list \<Rightarrow> string list \<Rightarrow> string list \<Rightarrow>
   bool \<times> string list \<times> string list"
and close_deps ::
  "nat \<Rightarrow> string list \<Rightarrow> string \<Rightarrow> boot_edges \<Rightarrow> string list \<Rightarrow> string list \<Rightarrow> string list \<Rightarrow>
   bool \<times> string list \<times> string list" where
  "close_on 0 at start g members path seen = (False, path, seen)"
| "close_on (Suc k) at start g members path seen =
     close_deps k (filter (\<lambda>d. d \<in> set members) (deps_of g at)) start g members path seen"
| "close_deps k [] start g members path seen = (False, path, seen)"
| "close_deps k (dep # deps) start g members path seen =
     (if dep = start then (True, path, seen)
      else if dep \<in> set seen then close_deps k deps start g members path seen
      else
        (case close_on k dep start g members (path @ [dep]) (dep # seen) of
           (True, path, seen) \<Rightarrow> (True, path, seen)
         | (False, path, seen) \<Rightarrow> close_deps k deps start g members (butlast path) seen))"

definition representative_cycle :: "boot_edges \<Rightarrow> string list \<Rightarrow> string list" where
  "representative_cycle g members =
     (case members of
        [] \<Rightarrow> []
      | start # _ \<Rightarrow>
          (case close_on (length members + 1) start start g members [start] [start] of
             (True, path, _) \<Rightarrow> path
           | (False, _, _) \<Rightarrow> [start]))"

subsection \<open>The plan\<close>

definition edges_of :: "BootNode list \<Rightarrow> boot_edges" where
  "edges_of nodes =
     (let names = bset (map bn_name nodes) in
      map (\<lambda>nm. (nm, bset (concat (map (\<lambda>node. filter (\<lambda>d. d \<in> set names) (bn_depends_on node))
             (filter (\<lambda>node. bn_name node = nm) nodes))))) names)"

definition unresolved_of :: "BootNode list \<Rightarrow> Unresolved list" where
  "unresolved_of nodes =
     concat (map (\<lambda>node. map (\<lambda>d. \<lparr> un_dependent = bn_name node, un_missing = d \<rparr>)
       (filter (\<lambda>d. d \<notin> bn_name ` set nodes) (bn_depends_on node))) nodes)"

definition nonempty_stage :: "string list \<Rightarrow> string list list" where
  "nonempty_stage st = (if st = [] then [] else [st])"

definition plan :: "BootNode list \<Rightarrow> BootPlan" where
  "plan nodes =
     (let g = edges_of nodes;
          ks = knots g;
          in_a_cycle = bset (concat ks);
          after_cycle = depends_on_a_cycle g in_a_cycle;
          depended_on = concat (map snd g);
          rest = filter (\<lambda>n. bn_name n \<notin> set in_a_cycle \<and> bn_name n \<notin> set after_cycle) nodes;
          is_first = (\<lambda>n. bn_kind n = Dog True);
          is_last = (\<lambda>n. bn_kind n = Dog False \<and> bn_name n \<notin> set depended_on);
          first = sort (map bn_name (filter is_first rest));
          last = sort (map bn_name (filter is_last rest));
          ordered = bset (map bn_name (filter (\<lambda>n. \<not> is_first n \<and> \<not> is_last n) rest))
      in \<lparr> bp_stages = nonempty_stage first @ kahn ordered g first @ nonempty_stage in_a_cycle @
             kahn after_cycle g [] @ nonempty_stage last,
           bp_unresolved = unresolved_of nodes,
           bp_cycles = map (representative_cycle g) ks,
           bp_knots = ks \<rparr>)"

subsection \<open>Stages\<close>

text \<open>\<open>a\<close> starts in an earlier stage than \<open>b\<close>.\<close>

fun starts_before :: "string list list \<Rightarrow> string \<Rightarrow> string \<Rightarrow> bool" where
  "starts_before [] a b \<longleftrightarrow> False"
| "starts_before (st # sts) a b \<longleftrightarrow> a \<in> set st \<and> b \<in> set (concat sts) \<or> starts_before sts a b"

lemma starts_before_append:
  "starts_before (xs @ ys) a b \<longleftrightarrow> starts_before xs a b \<or> starts_before ys a b \<or> (a \<in> set (concat xs) \<and> b \<in> set (concat ys))"
  by (induction xs) auto

lemma set_bset [simp]: "set (bset xs) = set xs"
  by (simp add: bset_def)

lemma distinct_bset [simp]: "distinct (bset xs)"
  by (simp add: bset_def)

lemma kahn_loop_subset: "set (concat (kahn_loop g placed left)) \<subseteq> set left"
proof (induction g placed left rule: kahn_loop.induct)
  case (1 g placed left)
  let ?r = "ready_of g placed left"
  have r: "set ?r \<subseteq> set left" by (auto simp: ready_of_def)
  show ?case
  proof (cases "left = [] \<or> ?r = []")
    case True
    then show ?thesis using kahn_loop.simps[of g placed left] by (auto simp: Let_def)
  next
    case False
    then show ?thesis using r 1 kahn_loop.simps[of g placed left] by (auto simp: Let_def)
  qed
qed

lemma kahn_loop_distinct: "distinct left \<Longrightarrow> distinct (concat (kahn_loop g placed left))"
proof (induction g placed left rule: kahn_loop.induct)
  case (1 g placed left)
  let ?r = "ready_of g placed left" and ?l = "filter (\<lambda>nm. nm \<notin> set (ready_of g placed left)) left"
  show ?case
  proof (cases "left = [] \<or> ?r = []")
    case True
    then show ?thesis using kahn_loop.simps[of g placed left] by (auto simp: Let_def)
  next
    case False
    have "set (concat (kahn_loop g (placed @ ?r) ?l)) \<subseteq> set ?l" by (rule kahn_loop_subset)
    moreover have "distinct ?r" using 1(2) by (simp add: ready_of_def)
    moreover have "distinct (concat (kahn_loop g (placed @ ?r) ?l))" using 1 False by simp
    ultimately show ?thesis using False kahn_loop.simps[of g placed left] by (auto simp: Let_def)
  qed
qed

text \<open>No stall: while the edges inside \<open>left\<close> go down in rank, somebody is ready.\<close>

lemma kahn_loop_complete:
  "\<forall>n \<in> set left. \<forall>d \<in> set (deps_of g n). d \<in> set left \<longrightarrow> (rank d :: nat) < rank n \<Longrightarrow>
    set (concat (kahn_loop g placed left)) = set left"
proof (induction g placed left rule: kahn_loop.induct)
  case (1 g placed left)
  let ?r = "ready_of g placed left" and ?l = "filter (\<lambda>nm. nm \<notin> set (ready_of g placed left)) left"
  show ?case
  proof (cases "left = []")
    case True
    then show ?thesis by (simp add: kahn_loop.simps)
  next
    case False
    let ?m = "arg_min_on rank (set left)"
    have m: "?m \<in> set left" "\<forall>d \<in> set left. rank ?m \<le> rank d"
      using False arg_min_if_finite[of "set left" rank] by (auto simp: not_less)
    then have "?m \<in> set ?r" using 1(2) by (force simp: ready_of_def list_all_iff)
    then have ne: "?r \<noteq> []" by auto
    have "set (concat (kahn_loop g (placed @ ?r) ?l)) = set ?l" using 1(1)[OF False refl ne] 1(2) by auto
    moreover have "set ?r \<subseteq> set left" by (auto simp: ready_of_def)
    ultimately show ?thesis using False ne kahn_loop.simps[of g placed left] by (auto simp: Let_def)
  qed
qed

lemma kahn_loop_order:
  "n \<in> set (concat (kahn_loop g placed left)) \<Longrightarrow> d \<in> set (deps_of g n) \<Longrightarrow> d \<in> set (concat (kahn_loop g placed left)) \<Longrightarrow>
    d \<notin> set placed \<Longrightarrow> starts_before (kahn_loop g placed left) d n"
proof (induction g placed left rule: kahn_loop.induct)
  case (1 g placed left)
  let ?r = "ready_of g placed left" and ?l = "filter (\<lambda>nm. nm \<notin> set (ready_of g placed left)) left"
  have ne: "left \<noteq> []" "?r \<noteq> []" using 1(2) kahn_loop.simps[of g placed left] by (auto simp: Let_def split: if_splits)
  have k: "kahn_loop g placed left = ?r # kahn_loop g (placed @ ?r) ?l"
    using ne kahn_loop.simps[of g placed left] by (simp add: Let_def)
  have "d \<in> set left" using kahn_loop_subset 1(4) by blast
  then have "n \<notin> set ?r" using 1(3,5) by (auto simp: ready_of_def list_all_iff)
  then have n: "n \<in> set (concat (kahn_loop g (placed @ ?r) ?l))" using 1(2) k by simp
  show ?case
  proof (cases "d \<in> set ?r")
    case True
    then show ?thesis using n k by simp
  next
    case False
    then have "starts_before (kahn_loop g (placed @ ?r) ?l) d n" using 1(4,5) k n by (intro 1(1)[OF ne(1) refl ne(2) n 1(3)]) auto
    then show ?thesis using k by simp
  qed
qed

subsection \<open>What hangs off the knots\<close>

lemma after_loop_spec:
  "set found \<subseteq> fst ` set g - set cyc \<Longrightarrow>
    set found \<subseteq> set (after_loop g cyc found) \<and> set (after_loop g cyc found) \<subseteq> fst ` set g - set cyc \<and>
    grown_from g cyc (after_loop g cyc found) = [] \<and> (distinct found \<longrightarrow> distinct (after_loop g cyc found))"
proof (induction g cyc found rule: after_loop.induct)
  case (1 g cyc found)
  let ?g = "grown_from g cyc found"
  show ?case
  proof (cases "?g = []")
    case True
    then show ?thesis using 1(2) after_loop.simps[of g cyc found] by simp
  next
    case False
    have "set (bset (found @ ?g)) \<subseteq> fst ` set g - set cyc" using 1(2) by (auto simp: grown_from_def)
    from 1(1)[OF refl False this] show ?thesis using False after_loop.simps[of g cyc found] by (simp add: Let_def)
  qed
qed

lemma depends_on_a_cycle_spec:
  "set (depends_on_a_cycle g cyc) \<subseteq> fst ` set g - set cyc"
  "n \<in> fst ` set g \<Longrightarrow> n \<notin> set cyc \<Longrightarrow> n \<notin> set (depends_on_a_cycle g cyc) \<Longrightarrow> d \<in> set (deps_of g n) \<Longrightarrow>
    d \<notin> set cyc \<and> d \<notin> set (depends_on_a_cycle g cyc)"
  "distinct (depends_on_a_cycle g cyc)"
proof -
  have a: "set (depends_on_a_cycle g cyc) \<subseteq> fst ` set g - set cyc" "grown_from g cyc (depends_on_a_cycle g cyc) = []"
    "distinct (depends_on_a_cycle g cyc)"
    using after_loop_spec[of "[]" g cyc] by (simp_all add: depends_on_a_cycle_def)
  then show "set (depends_on_a_cycle g cyc) \<subseteq> fst ` set g - set cyc" "distinct (depends_on_a_cycle g cyc)" by blast+
  show "n \<in> fst ` set g \<Longrightarrow> n \<notin> set cyc \<Longrightarrow> n \<notin> set (depends_on_a_cycle g cyc) \<Longrightarrow> d \<in> set (deps_of g n) \<Longrightarrow>
    d \<notin> set cyc \<and> d \<notin> set (depends_on_a_cycle g cyc)"
    using a(2) by (auto simp: grown_from_def filter_empty_conv list_ex_iff)
qed

end
