(* ===== verification/Boot_Knots.thy ===== *)
theory Boot_Knots
  imports Boot_Graph
begin

text \<open>
  Tarjan's components and the knots: the invariant the recursion keeps, that enough fuel visits
  everything, that the components come out with every edge inside or behind them, and so that
  the knots are the nodes on a cycle and nothing else; and that the cycle a knot is reported by
  is one.
\<close>

subsection \<open>Components are closed in dependency order\<close>

text \<open>
  What boot ordering needs of Tarjan's algorithm: when a component is closed, everything its
  members depend on is in it or in a component closed before it.
\<close>

fun settled :: "boot_edges \<Rightarrow> string set \<Rightarrow> string list list \<Rightarrow> bool" where
  "settled g seen [] \<longleftrightarrow> True"
| "settled g seen (c # cs) \<longleftrightarrow>
     (\<forall>x \<in> set c. set (deps_of g x) \<subseteq> seen \<union> set c) \<and> settled g (seen \<union> set c) cs"

lemma settled_snoc:
  "settled g seen (cs @ [c]) \<longleftrightarrow>
     settled g seen cs \<and> (\<forall>x \<in> set c. set (deps_of g x) \<subseteq> seen \<union> set (concat cs) \<union> set c)"
  by (induction cs arbitrary: seen) (auto simp: Un_assoc)

lemma settled_closed:
  "settled g seen cs \<Longrightarrow> x \<in> set (concat cs) \<Longrightarrow> set (deps_of g x) \<subseteq> seen \<union> set (concat cs)"
  by (induction cs arbitrary: seen) fastforce+

definition edge_rel :: "boot_edges \<Rightarrow> (string \<times> string) set" where
  "edge_rel g = {(x, y). y \<in> set (deps_of g x)}"

text \<open>A component's members all reach each other.\<close>

definition connected :: "boot_edges \<Rightarrow> string list \<Rightarrow> bool" where
  "connected g c \<longleftrightarrow> (\<forall>x \<in> set c. \<forall>y \<in> set c. (x, y) \<in> (edge_rel g)\<^sup>*)"

definition closed :: "Tarjan \<Rightarrow> string set" where
  "closed t = set (concat (t_components t))"

text \<open>The visit number of a node that has one.\<close>

abbreviation num :: "Tarjan \<Rightarrow> string \<Rightarrow> nat" where
  "num t x \<equiv> the (t_index t x)"

definition tarjan_ok :: "boot_edges \<Rightarrow> Tarjan \<Rightarrow> bool" where
  "tarjan_ok g t \<longleftrightarrow> (\<forall>x \<in> dom (t_index t). num t x < t_next t) \<and>
     sorted_wrt (\<lambda>x y. num t y < num t x) (t_stack t) \<and> t_on_stack t = set (t_stack t) \<and>
     dom (t_index t) = set (t_stack t) \<union> closed t \<and> set (t_stack t) \<inter> closed t = {} \<and>
     dom (t_index t) \<subseteq> fst ` set g \<and> settled g {} (t_components t) \<and> distinct (concat (t_components t)) \<and>
     (\<forall>c \<in> set (t_components t). connected g c)"

lemma tarjan_okD:
  assumes "tarjan_ok g t"
  shows "x \<in> dom (t_index t) \<Longrightarrow> num t x < t_next t" "sorted_wrt (\<lambda>x y. num t y < num t x) (t_stack t)"
    "t_on_stack t = set (t_stack t)" "dom (t_index t) = set (t_stack t) \<union> closed t"
    "set (t_stack t) \<inter> closed t = {}" "dom (t_index t) \<subseteq> fst ` set g" "settled g {} (t_components t)"
    "distinct (concat (t_components t))" "\<forall>c \<in> set (t_components t). connected g c"
  using assms unfolding tarjan_ok_def by blast+

definition extends :: "Tarjan \<Rightarrow> Tarjan \<Rightarrow> bool" where
  "extends t u \<longleftrightarrow> closed t \<subseteq> closed u \<and>
     (\<forall>x \<in> dom (t_index t). t_index u x = t_index t x \<and> t_low u x = t_low t x)"

lemma extends_refl: "extends t t"
  by (simp add: extends_def)

lemma extends_trans: "extends t u \<Longrightarrow> extends u v \<Longrightarrow> extends t v"
  unfolding extends_def by (metis domIff subset_trans)

lemma extends_dom: "extends t u \<Longrightarrow> dom (t_index t) \<subseteq> dom (t_index u)"
  by (auto simp: extends_def) (metis domI option.distinct(1))

text \<open>
  \<open>bound\<close> is below the number of every node on the stack that \<open>xs\<close> depend on, all of which have
  been visited.
\<close>

definition bounded_by :: "nat \<Rightarrow> string set \<Rightarrow> Tarjan \<Rightarrow> bool" where
  "bounded_by l ys t \<longleftrightarrow> (\<forall>y \<in> ys. y \<in> dom (t_index t) \<and> (y \<in> set (t_stack t) \<longrightarrow> l \<le> num t y))"

lemma bounded_mono: "bounded_by l ys t \<Longrightarrow> l' \<le> l \<Longrightarrow> bounded_by l' ys t"
  by (auto simp: bounded_by_def)

lemma bounded_extends:
  assumes "bounded_by l ys t" "extends t u" "tarjan_ok g t" "tarjan_ok g u"
  shows "bounded_by l ys u"
  unfolding bounded_by_def
proof (intro ballI conjI impI)
  fix y assume y: "y \<in> ys"
  then have d: "y \<in> dom (t_index t)" using assms(1) by (simp add: bounded_by_def)
  then show "y \<in> dom (t_index u)" using extends_dom[OF assms(2)] by blast
  assume "y \<in> set (t_stack u)"
  then have "y \<notin> closed t" using tarjan_okD(5)[OF assms(4)] assms(2) by (auto simp: extends_def)
  then have "y \<in> set (t_stack t)" using d tarjan_okD(4)[OF assms(3)] by blast
  then have "l \<le> num t y" using assms(1) y by (simp add: bounded_by_def)
  then show "l \<le> num u y" using assms(2) d by (simp add: extends_def)
qed

text \<open>Every node of a segment is reached from its root and reaches a node below itself on the stack.\<close>

definition anchored :: "boot_edges \<Rightarrow> string \<Rightarrow> string list \<Rightarrow> Tarjan \<Rightarrow> bool" where
  "anchored g n seg t \<longleftrightarrow> (\<forall>x \<in> set seg. (n, x) \<in> (edge_rel g)\<^sup>* \<and>
     (\<exists>w \<in> set (t_stack t). num t w < num t x \<and> (x, w) \<in> (edge_rel g)\<^sup>*))"

lemma anchored_extends:
  assumes "anchored g n seg t" "extends t u" "set (t_stack t) \<subseteq> set (t_stack u)" "set seg \<subseteq> set (t_stack t)"
    "set (t_stack t) \<subseteq> dom (t_index t)"
  shows "anchored g n seg u"
  unfolding anchored_def
proof (intro ballI conjI)
  fix x assume x: "x \<in> set seg"
  then show "(n, x) \<in> (edge_rel g)\<^sup>*" using assms(1) by (simp add: anchored_def)
  obtain w where w: "w \<in> set (t_stack t)" "num t w < num t x" "(x, w) \<in> (edge_rel g)\<^sup>*"
    using assms(1) x by (auto simp: anchored_def)
  then have "x \<in> dom (t_index t)" "w \<in> dom (t_index t)" using x assms(4,5) by blast+
  then have "num u x = num t x" "num u w = num t w" using assms(2) by (simp_all add: extends_def)
  then show "\<exists>w \<in> set (t_stack u). num u w < num u x \<and> (x, w) \<in> (edge_rel g)\<^sup>*"
    using w assms(3) by (intro bexI[of _ w]) auto
qed

text \<open>The state between two dependencies of \<open>n\<close>, which was entered in state \<open>t\<close>.\<close>

definition exploring :: "boot_edges \<Rightarrow> string \<Rightarrow> Tarjan \<Rightarrow> string set \<Rightarrow> Tarjan \<Rightarrow> bool" where
  "exploring g n t seen u \<longleftrightarrow> tarjan_ok g u \<and> extends t u \<and> t_index u n = Some (t_next t) \<and>
     (\<exists>seg l z. t_stack u = seg @ n # t_stack t \<and> t_low u n = Some l \<and> z \<in> insert n (set (t_stack t)) \<and>
        t_index u z = Some l \<and> l \<le> t_next t \<and> (n, z) \<in> (edge_rel g)\<^sup>* \<and> anchored g n seg u \<and>
        bounded_by l ((\<Union>x \<in> set seg. set (deps_of g x)) \<union> seen) u)"

definition explored :: "boot_edges \<Rightarrow> string \<Rightarrow> Tarjan \<Rightarrow> Tarjan \<Rightarrow> bool" where
  "explored g n t u \<longleftrightarrow> tarjan_ok g u \<and> extends t u \<and> t_index u n = Some (t_next t) \<and>
     (\<exists>seg l z. t_stack u = seg @ t_stack t \<and> t_low u n = Some l \<and> z \<in> insert n (set (t_stack t)) \<and>
        t_index u z = Some l \<and> l \<le> t_next t \<and> (z = n \<longrightarrow> seg = []) \<and> (n, z) \<in> (edge_rel g)\<^sup>* \<and>
        anchored g n seg u \<and>
        bounded_by l (\<Union>x \<in> set seg. set (deps_of g x)) u)"

lemma sorted_wrt_imp_distinct': "sorted_wrt (\<lambda>x y. (f y :: nat) < f x) xs \<Longrightarrow> distinct xs"
  by (induction xs) auto

lemma enter_exploring:
  assumes t: "tarjan_ok g t" and n: "n \<in> fst ` set g" "n \<notin> dom (t_index t)"
  shows "exploring g n t {} (t_enter n t)"
proof -
  let ?u = "t_enter n t"
  have st: "set (t_stack t) \<subseteq> dom (t_index t)" using tarjan_okD(4)[OF t] by blast
  have old: "num ?u x = num t x" if "x \<in> dom (t_index t)" for x using that n(2) by (auto simp: t_enter_def)
  have "sorted_wrt (\<lambda>x y. num ?u y < num ?u x) (t_stack t)"
  proof (rule sorted_wrt_mono_rel[OF _ tarjan_okD(2)[OF t]])
    fix x y assume xy: "x \<in> set (t_stack t)" "y \<in> set (t_stack t)" "num t y < num t x"
    then have "num ?u x = num t x" "num ?u y = num t y" using st by (intro old; blast)+
    then show "num ?u y < num ?u x" using xy(3) by (simp only:)
  qed
  moreover have "\<forall>y \<in> set (t_stack t). num ?u y < num ?u n"
  proof
    fix y assume "y \<in> set (t_stack t)"
    then have y: "y \<in> dom (t_index t)" using st by blast
    have "num ?u n = t_next t" by (simp add: t_enter_def)
    then show "num ?u y < num ?u n" using old[OF y] tarjan_okD(1)[OF t y] by (simp only:)
  qed
  ultimately have "sorted_wrt (\<lambda>x y. num ?u y < num ?u x) (t_stack ?u)" by (simp add: t_enter_def)
  moreover have "\<forall>x \<in> dom (t_index ?u). num ?u x < t_next ?u"
    using tarjan_okD(1)[OF t] by (auto simp: t_enter_def less_Suc_eq)
  moreover have "dom (t_index ?u) = insert n (dom (t_index t))" "closed ?u = closed t" "set (t_stack ?u) = insert n (set (t_stack t))"
    "t_on_stack ?u = insert n (t_on_stack t)" "t_components ?u = t_components t"
    by (auto simp: t_enter_def closed_def)
  ultimately have "tarjan_ok g ?u"
    using tarjan_okD(3-9)[OF t] n unfolding tarjan_ok_def by simp
  moreover have "extends t ?u" using n(2) by (auto simp: extends_def t_enter_def closed_def)
  ultimately show ?thesis by (auto simp: exploring_def t_enter_def bounded_by_def anchored_def)
qed

lemma lower_ok [simp]:
  "t_index (t_lower n r u) = t_index u" "t_stack (t_lower n r u) = t_stack u" "closed (t_lower n r u) = closed u"
  "t_next (t_lower n r u) = t_next u" "t_on_stack (t_lower n r u) = t_on_stack u"
  "t_components (t_lower n r u) = t_components u"
  by (auto simp: t_lower_def closed_def split: option.splits)

lemma lower_tarjan_ok [simp]: "tarjan_ok g (t_lower n r u) = tarjan_ok g u"
  by (simp add: tarjan_ok_def)

lemma lower_bounded [simp]: "bounded_by l ys (t_lower n r u) = bounded_by l ys u"
  by (simp add: bounded_by_def)

lemma lower_anchored [simp]: "anchored g m seg (t_lower n r u) = anchored g m seg u"
  by (simp add: anchored_def)

lemma lower_low: "t_low u n = Some l \<Longrightarrow> t_low (t_lower n (Some r) u) n = Some (min l r)"
  by (simp add: t_lower_def)

lemma lower_extends: "extends t u \<Longrightarrow> n \<notin> dom (t_index t) \<Longrightarrow> extends t (t_lower n r u)"
  unfolding extends_def lower_ok by (auto simp: t_lower_def split: option.splits)

text \<open>Numbers on the stack tell a node of the current segment from one below it.\<close>

lemma below_segment:
  assumes u: "tarjan_ok g u" "t_stack u = seg @ n # st" and w: "w \<in> set (t_stack u)" "num u w < num u n"
  shows "w \<in> set st"
  using tarjan_okD(2)[OF u(1)] w unfolding u(2) by (auto simp: sorted_wrt_append)

lemma exploring_lower:
  assumes e: "exploring g n t seen u" and n: "n \<notin> dom (t_index t)" and r: "t_index u w = Some r"
    and w: "w \<in> set (t_stack u)" "(n, w) \<in> (edge_rel g)\<^sup>*"
    and b: "bounded_by r ys u"
  shows "exploring g n t (seen \<union> ys) (t_lower n (Some r) u)"
proof -
  from e obtain seg l z where u: "tarjan_ok g u" "extends t u" "t_index u n = Some (t_next t)"
    "t_stack u = seg @ n # t_stack t" "t_low u n = Some l" "z \<in> insert n (set (t_stack t))" "t_index u z = Some l"
    "l \<le> t_next t" "bounded_by l ((\<Union>x \<in> set seg. set (deps_of g x)) \<union> seen) u"
    "(n, z) \<in> (edge_rel g)\<^sup>*" "anchored g n seg u"
    unfolding exploring_def by blast
  let ?z = "if r < l then w else z"
  have "w \<in> set (t_stack t)" if "r < l"
    using below_segment[OF u(1,4) w(1)] that u(3,8) r by simp
  then have "?z \<in> insert n (set (t_stack t))" "t_index u ?z = Some (min l r)" "(n, ?z) \<in> (edge_rel g)\<^sup>*"
    using u(6,7,10) r w(2) by auto
  moreover have "bounded_by (min l r) ((\<Union>x \<in> set seg. set (deps_of g x)) \<union> (seen \<union> ys)) u"
    using bounded_mono[OF u(9), of "min l r"] bounded_mono[OF b, of "min l r"] by (auto simp: bounded_by_def)
  ultimately show ?thesis
    unfolding exploring_def
    using u lower_extends[OF u(2) n] lower_low[OF u(5)] by (intro conjI exI[of _ seg] exI[of _ "min l r"] exI[of _ ?z]) auto
qed

lemma exploring_skip:
  assumes e: "exploring g n t seen u" and d: "dep \<in> dom (t_index u)" "dep \<notin> set (t_stack u)"
  shows "exploring g n t (insert dep seen) u"
  using e d by (auto simp: exploring_def bounded_by_def)

text \<open>A child explored from such a state leaves one with a longer segment.\<close>

lemma exploring_child:
  assumes e: "exploring g n t seen u" and c: "explored g dep u v" and n: "n \<notin> dom (t_index t)"
    and edge: "dep \<in> set (deps_of g n)"
  shows "exploring g n t (insert dep seen) (t_lower n (t_low v dep) v)"
proof -
  from e obtain seg l z where u: "tarjan_ok g u" "extends t u" "t_index u n = Some (t_next t)"
    "t_stack u = seg @ n # t_stack t" "t_low u n = Some l" "z \<in> insert n (set (t_stack t))" "t_index u z = Some l"
    "l \<le> t_next t" "bounded_by l ((\<Union>x \<in> set seg. set (deps_of g x)) \<union> seen) u"
    "(n, z) \<in> (edge_rel g)\<^sup>*" "anchored g n seg u"
    unfolding exploring_def by blast
  from c obtain seg' l' z' where v: "tarjan_ok g v" "extends u v" "t_index v dep = Some (t_next u)"
    "t_stack v = seg' @ t_stack u" "t_low v dep = Some l'" "z' \<in> insert dep (set (t_stack u))" "t_index v z' = Some l'"
    "l' \<le> t_next u" "bounded_by l' (\<Union>x \<in> set seg'. set (deps_of g x)) v"
    "(dep, z') \<in> (edge_rel g)\<^sup>*" "anchored g dep seg' v"
    unfolding explored_def by blast
  have nd: "(n, dep) \<in> edge_rel g" using edge by (simp add: edge_rel_def)
  have nx: "t_next t < t_next u" using tarjan_okD(1)[OF u(1), of n] u(3) by auto
  have vn: "t_index v n = Some (t_next t)" "t_low v n = Some l" "t_index v z = Some l"
    using v(2) u(3,5,7) by (auto simp: extends_def domIff)
  let ?z = "if l' < l then z' else z"
  have st: "t_stack v = (seg' @ seg) @ n # t_stack t" using v(4) u(4) by simp
  have "z' \<in> set (t_stack t)" if "l' < l"
  proof -
    have "z' \<noteq> dep" using v(3,7) that u(8) nx by auto
    then have "z' \<in> set (t_stack v)" using v(4,6) by auto
    then show ?thesis using below_segment[OF v(1) st] that u(8) v(7) vn(1) by simp
  qed
  then have "?z \<in> insert n (set (t_stack t))" "t_index v ?z = Some (min l l')" using u(6) v(7) vn(3) by auto
  moreover have "(n, ?z) \<in> (edge_rel g)\<^sup>*" using u(10) converse_rtrancl_into_rtrancl[OF nd v(10)] by simp
  moreover have "anchored g n (seg' @ seg) v"
  proof -
    have "set (t_stack u) \<subseteq> dom (t_index u)" using tarjan_okD(4)[OF u(1)] by blast
    then have "anchored g n seg v" using v(4) u(4) by (intro anchored_extends[OF u(11) v(2)]) auto
    then show ?thesis
      using v(11) converse_rtrancl_into_rtrancl[OF nd] unfolding anchored_def by (simp only: set_append) blast
  qed
  moreover have "bounded_by (min l l') ((\<Union>x \<in> set (seg' @ seg). set (deps_of g x)) \<union> insert dep seen) v"
    using bounded_mono[OF bounded_extends[OF u(9) v(2) u(1) v(1)], of "min l l'"] bounded_mono[OF v(9), of "min l l'"] v(3,8)
    by (auto simp: bounded_by_def)
  ultimately show ?thesis
    unfolding exploring_def
    using v(1) st vn u(8) lower_extends[OF extends_trans[OF u(2) v(2)] n] lower_low[OF vn(2)] v(5)
    by (intro conjI exI[of _ "seg' @ seg"] exI[of _ "min l l'"] exI[of _ ?z]) auto
qed

text \<open>Closing \<open>n\<close> once all its dependencies have been looked at.\<close>

lemma pop_until_append: "n \<notin> set seg \<Longrightarrow> pop_until n (seg @ n # st) = (seg @ [n], st)"
  by (induction seg) auto

lemma close_explored:
  assumes e: "exploring g n t (set (deps_of g n)) u"
  shows "explored g n t (t_close n u)"
proof -
  from e obtain seg l z where u: "tarjan_ok g u" "extends t u" "t_index u n = Some (t_next t)"
    "t_stack u = seg @ n # t_stack t" "t_low u n = Some l" "z \<in> insert n (set (t_stack t))" "t_index u z = Some l"
    "l \<le> t_next t" "bounded_by l ((\<Union>x \<in> set seg. set (deps_of g x)) \<union> set (deps_of g n)) u"
    "(n, z) \<in> (edge_rel g)\<^sup>*" "anchored g n seg u"
    unfolding exploring_def by blast
  have srt: "sorted_wrt (\<lambda>x y. num u y < num u x) (seg @ n # t_stack t)" using tarjan_okD(2)[OF u(1)] u(4) by simp
  show ?thesis
  proof (cases "l = t_next t")
    case False
    then have zn: "z \<noteq> n" using u(3,7) by auto
    then have "z \<in> set (t_stack u)" "num u z < num u n" using u(3,4,6,7,8) False by auto
    then have "anchored g n (seg @ [n]) u" using u(10,11) unfolding anchored_def by auto
    with zn show ?thesis
      using u False unfolding explored_def
      by (intro conjI exI[of _ "seg @ [n]"] exI[of _ l] exI[of _ z]) (auto simp: t_close_def Un_commute)
  next
    case True
    let ?v = "t_close n u"
    have "n \<notin> set seg" using srt by (auto simp: sorted_wrt_append)
    then have v: "?v = u\<lparr> t_stack := t_stack t, t_on_stack := t_on_stack u - set (seg @ [n]),
        t_components := t_components u @ [bset (seg @ [n])] \<rparr>"
      using u True by (simp add: t_close_def pop_until_append)
    have dist: "distinct (seg @ n # t_stack t)"
      by (rule sorted_wrt_imp_distinct'[OF srt])
    have cl: "closed ?v = closed u \<union> set (seg @ [n])" by (simp add: v closed_def)
    have deps: "set (deps_of g x) \<subseteq> closed u \<union> set (seg @ [n])" if x: "x \<in> set (seg @ [n])" for x
    proof
      fix y assume y: "y \<in> set (deps_of g x)"
      then have y': "y \<in> dom (t_index u)" "y \<in> set (t_stack u) \<longrightarrow> t_next t \<le> num u y"
        using u(9) x True by (auto simp: bounded_by_def)
      have "num u y < t_next t" if "y \<in> set (t_stack t)" using srt that u(3) by (auto simp: sorted_wrt_append)
      then show "y \<in> closed u \<union> set (seg @ [n])" using y' tarjan_okD(4)[OF u(1)] u(4) by auto
    qed
    have stay: "y \<in> closed u \<union> set (seg @ [n])" if "(x, y) \<in> (edge_rel g)\<^sup>*" "x \<in> closed u \<union> set (seg @ [n])" for x y
      using that
    proof (induction rule: rtrancl_induct)
      case (step y w)
      have w: "w \<in> set (deps_of g y)" using step.hyps(2) by (simp add: edge_rel_def)
      have "set (deps_of g y) \<subseteq> closed u" if "y \<in> closed u"
        using settled_closed[OF tarjan_okD(7)[OF u(1)], of y] that by (simp add: closed_def)
      then show ?case using step.IH[OF step.prems] deps[of y] w by blast
    qed simp
    have home: "(x, n) \<in> (edge_rel g)\<^sup>*" if "x \<in> set (seg @ [n])" for x
      using that
    proof (induction "num u x" arbitrary: x rule: less_induct)
      case less
      show ?case
      proof (cases "x = n")
        case False
        then obtain w where w: "w \<in> set (t_stack u)" "num u w < num u x" "(x, w) \<in> (edge_rel g)\<^sup>*"
          using less.prems u(11) by (auto simp: anchored_def)
        have "w \<in> closed u \<union> set (seg @ [n])" by (rule stay[OF w(3)]) (use less.prems in blast)
        then have "w \<in> set (seg @ [n])" using w(1) tarjan_okD(5)[OF u(1)] by blast
        then show ?thesis using less.hyps[OF w(2)] w(3) by (meson rtrancl_trans)
      qed simp
    qed
    have "connected g (bset (seg @ [n]))"
      unfolding connected_def
    proof (intro ballI)
      fix x y assume "x \<in> set (bset (seg @ [n]))" "y \<in> set (bset (seg @ [n]))"
      then have xy: "x \<in> set (seg @ [n])" "y \<in> set (seg @ [n])" by simp_all
      then have "(n, y) \<in> (edge_rel g)\<^sup>*" using u(11) by (auto simp: anchored_def)
      then show "(x, y) \<in> (edge_rel g)\<^sup>*" using home[OF xy(1)] by (meson rtrancl_trans)
    qed
    then have "\<forall>c \<in> set (t_components ?v). connected g c" using tarjan_okD(9)[OF u(1)] by (auto simp: v)
    moreover have "settled g {} (t_components ?v)"
      using tarjan_okD(7)[OF u(1)] deps by (auto simp: v settled_snoc closed_def)
    moreover have "distinct (concat (t_components ?v))"
      using tarjan_okD(8)[OF u(1)] tarjan_okD(5)[OF u(1)] dist u(4) by (auto simp: v closed_def)
    moreover have "sorted_wrt (\<lambda>x y. num u y < num u x) (t_stack t)" using srt by (simp add: sorted_wrt_append)
    ultimately have "tarjan_ok g ?v"
      using u(1,4) dist cl unfolding tarjan_ok_def by (auto simp: v)
    moreover have "extends t ?v" using u(2) cl by (auto simp: extends_def v)
    ultimately show ?thesis
      using u True unfolding explored_def by (intro conjI exI[of _ "[]"] exI[of _ l] exI[of _ n]) (auto simp: v bounded_by_def anchored_def)
  qed
qed

lemma exploring_visit:
  assumes e: "exploring g n t seen u" and n: "n \<notin> dom (t_index t)" and dep: "dep \<in> set (deps_of g n)"
    and rec: "\<And>u. tarjan_ok g u \<Longrightarrow> dep \<notin> dom (t_index u) \<Longrightarrow> insert n (dom (t_index t)) \<subseteq> dom (t_index u) \<Longrightarrow>
      explored g dep u (f dep u)"
  shows "exploring g n t (insert dep seen) (t_visit f n dep u)"
proof (cases "dep \<in> dom (t_index u)")
  case False
  have "insert n (dom (t_index t)) \<subseteq> dom (t_index u)" using e extends_dom by (auto simp: exploring_def)
  moreover have "tarjan_ok g u" using e by (simp add: exploring_def)
  ultimately have "explored g dep u (f dep u)" using rec False by blast
  from exploring_child[OF e this n dep] show ?thesis using False by (simp add: t_visit_def Let_def domIff)
next
  case True
  then obtain r where r: "t_index u dep = Some r" by auto
  have on: "dep \<in> t_on_stack u \<longleftrightarrow> dep \<in> set (t_stack u)" using e tarjan_okD(3) by (auto simp: exploring_def)
  show ?thesis
  proof (cases "dep \<in> set (t_stack u)")
    case True
    then have "bounded_by r {dep} u" using r by (auto simp: bounded_by_def)
    moreover have "(n, dep) \<in> (edge_rel g)\<^sup>*" using dep by (auto simp: edge_rel_def)
    ultimately have "exploring g n t (seen \<union> {dep}) (t_lower n (Some r) u)" by (intro exploring_lower[OF e n r True])
    then show ?thesis using r on True by (simp add: t_visit_def)
  next
    case False
    then show ?thesis using exploring_skip[OF e] \<open>dep \<in> dom (t_index u)\<close> on by (simp add: t_visit_def t_lower_def domIff)
  qed
qed

text \<open>Enough fuel: one unit for every node not yet visited.\<close>

definition graph_ok :: "boot_edges \<Rightarrow> bool" where
  "graph_ok g \<longleftrightarrow> distinct (map fst g) \<and> (\<forall>n. set (deps_of g n) \<subseteq> fst ` set g)"

lemma connect_explored:
  assumes g: "graph_ok g"
  shows "tarjan_ok g t \<Longrightarrow> n \<in> fst ` set g \<Longrightarrow> n \<notin> dom (t_index t) \<Longrightarrow>
    card (fst ` set g - dom (t_index t)) \<le> k \<Longrightarrow> explored g n t (connect k g n t)"
proof (induction k arbitrary: n t)
  case 0
  then show ?case by auto
next
  case (Suc k)
  have rec: "explored g dep u (connect k g dep u)"
    if "dep \<in> fst ` set g" "tarjan_ok g u" "dep \<notin> dom (t_index u)" "insert n (dom (t_index t)) \<subseteq> dom (t_index u)" for dep u
  proof -
    have "fst ` set g - dom (t_index u) \<subset> fst ` set g - dom (t_index t)" using that(4) Suc.prems(2,3) by auto
    then have "card (fst ` set g - dom (t_index u)) < card (fst ` set g - dom (t_index t))" by (rule psubset_card_mono[rotated]) simp
    then show ?thesis using Suc.prems(4) by (intro Suc.IH[OF that(2,1,3)]) simp
  qed
  have "exploring g n t (seen \<union> set ds) (fold (t_visit (connect k g) n) ds u)"
    if "exploring g n t seen u" "set ds \<subseteq> set (deps_of g n)" for ds seen u
    using that
  proof (induction ds arbitrary: seen u)
    case (Cons dep ds)
    have "exploring g n t (insert dep seen) (t_visit (connect k g) n dep u)"
    proof (rule exploring_visit[OF Cons.prems(1) Suc.prems(3)])
      show d: "dep \<in> set (deps_of g n)" using Cons.prems(2) by simp
      then have "dep \<in> fst ` set g" using g by (auto simp: graph_ok_def)
      then show "explored g dep u (connect k g dep u)" if "tarjan_ok g u" "dep \<notin> dom (t_index u)"
        "insert n (dom (t_index t)) \<subseteq> dom (t_index u)" for u using rec that by blast
    qed
    from Cons.IH[OF this] show ?case using Cons.prems(2) by simp
  qed simp
  from this[OF enter_exploring[OF Suc.prems(1-3)], of "deps_of g n"]
  have "exploring g n t (set (deps_of g n)) (fold (t_visit (connect k g) n) (deps_of g n) (t_enter n t))" by simp
  from close_explored[OF this] show ?case by simp
qed

text \<open>The whole run: every node in a component, every component settled by those before it.\<close>

lemma run_visits:
  assumes g: "graph_ok g"
  shows "tarjan_ok g t \<Longrightarrow> t_stack t = [] \<Longrightarrow> set ns \<subseteq> fst ` set g \<Longrightarrow>
    let u = fold (\<lambda>nm t. if t_index t nm = None then connect (length g) g nm t else t) ns t
    in tarjan_ok g u \<and> t_stack u = [] \<and> dom (t_index t) \<union> set ns \<subseteq> dom (t_index u)"
proof (induction ns arbitrary: t)
  case (Cons n ns)
  let ?f = "\<lambda>nm t. if t_index t nm = None then connect (length g) g nm t else t"
  have "tarjan_ok g (?f n t) \<and> t_stack (?f n t) = [] \<and> insert n (dom (t_index t)) \<subseteq> dom (t_index (?f n t))"
  proof (cases "t_index t n = None")
    case True
    have "card (fst ` set g - dom (t_index t)) \<le> length g"
      by (rule order_trans[OF card_mono card_image_le[THEN order_trans]]) (auto simp: card_length)
    then have "explored g n t (connect (length g) g n t)"
      using Cons.prems True by (intro connect_explored[OF g]) auto
    then show ?thesis using True Cons.prems(2) extends_dom by (fastforce simp: explored_def)
  next
    case False
    then show ?thesis using Cons.prems by auto
  qed
  then have s: "tarjan_ok g (?f n t)" "t_stack (?f n t) = []" "insert n (dom (t_index t)) \<subseteq> dom (t_index (?f n t))"
    by blast+
  let ?u = "fold ?f ns (?f n t)"
  have "tarjan_ok g ?u \<and> t_stack ?u = [] \<and> dom (t_index (?f n t)) \<union> set ns \<subseteq> dom (t_index ?u)"
    using Cons.IH[OF s(1,2)] Cons.prems(3) unfolding Let_def by simp
  then have "tarjan_ok g ?u \<and> t_stack ?u = [] \<and> dom (t_index t) \<union> set (n # ns) \<subseteq> dom (t_index ?u)"
    using s(3) by (simp only: set_simps) blast
  moreover have "fold ?f (n # ns) t = ?u" by simp
  ultimately show ?case unfolding Let_def by (simp only:)
qed simp

lemma run_components:
  assumes g: "graph_ok g"
  shows "settled g {} (t_components (t_run g))" "distinct (concat (t_components (t_run g)))"
    "set (concat (t_components (t_run g))) = fst ` set g" "\<forall>c \<in> set (t_components (t_run g)). connected g c"
proof -
  have "tarjan_ok g t_init" by (simp add: tarjan_ok_def t_init_def closed_def)
  from run_visits[OF g this, of "map fst g"]
  have r: "tarjan_ok g (t_run g)" "t_stack (t_run g) = []" "fst ` set g \<subseteq> dom (t_index (t_run g))"
    by (simp_all add: t_run_def Let_def t_init_def)
  show "settled g {} (t_components (t_run g))" "distinct (concat (t_components (t_run g)))"
    "\<forall>c \<in> set (t_components (t_run g)). connected g c"
    using tarjan_okD[OF r(1)] by blast+
  show "set (concat (t_components (t_run g))) = fst ` set g"
    using tarjan_okD(4,6)[OF r(1)] r(2,3) by (auto simp: closed_def)
qed

text \<open>Outside the knots the edges go strictly down in the order of the components.\<close>

fun comp_rank :: "string list list \<Rightarrow> string \<Rightarrow> nat" where
  "comp_rank [] x = 0"
| "comp_rank (c # cs) x = (if x \<in> set c then 0 else Suc (comp_rank cs x))"

lemma settled_rank:
  assumes "settled g seen cs" "distinct (concat cs)" "c \<in> set cs" "x \<in> set c" "y \<in> set (deps_of g x)" "y \<notin> seen"
  shows "y \<in> set c \<or> comp_rank cs y < comp_rank cs x"
  using assms
proof (induction cs arbitrary: seen)
  case (Cons d cs)
  show ?case
  proof (cases "x \<in> set d")
    case True
    then have "c = d" using Cons.prems(2,3,4) by auto
    then show ?thesis using Cons.prems(1,4,5,6) by auto
  next
    case False
    then have "c \<in> set cs" using Cons.prems(3,4) by auto
    then show ?thesis
      using Cons.IH[of "seen \<union> set d"] Cons.prems(1,2,4,5,6) False by (cases "y \<in> set d") auto
  qed
qed simp

lemma outside_knots_ranked:
  assumes g: "graph_ok g" and n: "n \<in> fst ` set g" "n \<notin> set (concat (knots g))" and d: "d \<in> set (deps_of g n)"
  shows "comp_rank (t_components (t_run g)) d < comp_rank (t_components (t_run g)) n"
proof -
  note r = run_components[OF g]
  obtain c where c: "c \<in> set (t_components (t_run g))" "n \<in> set c" using n(1) r(3) by auto
  have "\<not> is_knot g c" using n(2) c by (auto simp: knots_def)
  moreover have "c = [n]" if "\<not> 1 < length c" using that c(2) by (cases c) auto
  ultimately have "c = [n]" "n \<notin> set (deps_of g n)" by (auto simp: is_knot_def)
  then show ?thesis using settled_rank[OF r(1,2) c d] d by auto
qed

subsection \<open>The knots are the cycles\<close>

lemma comp_rank_nth:
  "x \<in> set (concat cs) \<Longrightarrow> comp_rank cs x < length cs \<and> x \<in> set (cs ! comp_rank cs x)"
  by (induction cs) auto

lemma comp_rank_same:
  "distinct (concat cs) \<Longrightarrow> c \<in> set cs \<Longrightarrow> x \<in> set c \<Longrightarrow> y \<in> set c \<Longrightarrow> comp_rank cs x = comp_rank cs y"
  by (induction cs) auto

lemma deps_key: "d \<in> set (deps_of g n) \<Longrightarrow> n \<in> fst ` set g"
  by (cases "map_of g n") (auto simp: deps_of_def dest!: map_of_SomeD intro: rev_image_eqI)

lemma reach_rank:
  assumes g: "graph_ok g" and r: "(x, y) \<in> (edge_rel g)\<^sup>*"
  shows "comp_rank (t_components (t_run g)) y \<le> comp_rank (t_components (t_run g)) x"
  using r
proof (induction rule: rtrancl_induct)
  case (step y z)
  note c = run_components[OF g]
  have z: "z \<in> set (deps_of g y)" using step.hyps(2) by (simp add: edge_rel_def)
  have "y \<in> set (concat (t_components (t_run g)))" using deps_key[OF z] c(3) by simp
  then obtain k where k: "k \<in> set (t_components (t_run g))" "y \<in> set k" by auto
  have "comp_rank (t_components (t_run g)) z \<le> comp_rank (t_components (t_run g)) y"
    using settled_rank[OF c(1,2) k z] comp_rank_same[OF c(2) k(1), of z y] k(2) by auto
  then show ?case using step.IH by simp
qed simp

text \<open>Nodes that reach each other share a component.\<close>

lemma mutual_component:
  assumes g: "graph_ok g" and c: "c \<in> set (t_components (t_run g))" "x \<in> set c"
    and r: "(x, v) \<in> (edge_rel g)\<^sup>*" "(v, x) \<in> (edge_rel g)\<^sup>*"
  shows "v \<in> set c"
proof (cases "v = x")
  case False
  let ?cs = "t_components (t_run g)"
  note rc = run_components[OF g]
  obtain d where "d \<in> set (deps_of g v)" using r(2) False by (auto simp: edge_rel_def elim: converse_rtranclE)
  then have v: "v \<in> set (concat ?cs)" using deps_key rc(3) by blast
  have x: "x \<in> set (concat ?cs)" using c by auto
  have "comp_rank ?cs v = comp_rank ?cs x" using reach_rank[OF g r(1)] reach_rank[OF g r(2)] by simp
  then have "v \<in> set (?cs ! comp_rank ?cs x)" "x \<in> set (?cs ! comp_rank ?cs x)" "?cs ! comp_rank ?cs x \<in> set ?cs"
    using comp_rank_nth[OF v] comp_rank_nth[OF x] by simp_all
  moreover from this have "?cs ! comp_rank ?cs x = c"
    using c rc(2) by (auto simp: distinct_concat_iff)
  ultimately show ?thesis by simp
qed (use c in simp)

lemma knot_cycle:
  assumes g: "graph_ok g" and c: "c \<in> set (knots g)" and n: "n \<in> set c"
  shows "(n, n) \<in> (edge_rel g)\<^sup>+"
proof -
  note r = run_components[OF g]
  have k: "c \<in> set (t_components (t_run g))" "is_knot g c" using c by (auto simp: knots_def)
  have con: "connected g c" using r(4) k(1) by blast
  have d: "distinct c" using r(2) k(1) by (simp add: distinct_concat_iff)
  show ?thesis
  proof (cases "1 < length c")
    case True
    then have "c \<noteq> [n]" by auto
    then obtain m where m: "m \<in> set c" "m \<noteq> n" using d n True
      by (metis distinct.simps(2) length_0_conv list.set_intros(1) list.set_intros(2) neq_Nil_conv not_one_less_zero list.size(3))
    have "(n, m) \<in> (edge_rel g)\<^sup>*" "(m, n) \<in> (edge_rel g)\<^sup>*" using con n m(1) by (auto simp: connected_def)
    then show ?thesis using m(2) by (auto dest!: rtranclD intro: trancl_trans)
  next
    case False
    then have "c = [n]" using n by (cases c) auto
    then show ?thesis using k(2) by (auto simp: is_knot_def edge_rel_def)
  qed
qed

lemma knots_exact:
  assumes g: "graph_ok g"
  shows "set (concat (knots g)) = {n. (n, n) \<in> (edge_rel g)\<^sup>+}"
proof
  show "set (concat (knots g)) \<subseteq> {n. (n, n) \<in> (edge_rel g)\<^sup>+}" using knot_cycle[OF g] by auto
  show "{n. (n, n) \<in> (edge_rel g)\<^sup>+} \<subseteq> set (concat (knots g))"
  proof
    fix n assume "n \<in> {n. (n, n) \<in> (edge_rel g)\<^sup>+}"
    then obtain d where d: "d \<in> set (deps_of g n)" "(d, n) \<in> (edge_rel g)\<^sup>*"
      by (auto simp: edge_rel_def dest!: tranclD)
    show "n \<in> set (concat (knots g))"
      using outside_knots_ranked[OF g deps_key[OF d(1)] _ d(1)] reach_rank[OF g d(2)] by fastforce
  qed
qed

subsection \<open>The cycle a knot is reported by\<close>

definition walk :: "boot_edges \<Rightarrow> string list \<Rightarrow> bool" where
  "walk g path \<longleftrightarrow> path \<noteq> [] \<and> distinct path \<and> successively (\<lambda>x y. y \<in> set (deps_of g x)) path"

definition cycle_path :: "boot_edges \<Rightarrow> string list \<Rightarrow> string list \<Rightarrow> bool" where
  "cycle_path g members path \<longleftrightarrow> walk g path \<and> set path \<subseteq> set members \<and> hd path \<in> set (deps_of g (last path))"

text \<open>
  A walk that closes has found a cycle; one that does not has seen everything it can reach,
  and none of it leads back to the start.
\<close>

definition dead_end :: "boot_edges \<Rightarrow> string \<Rightarrow> string list \<Rightarrow> string list \<Rightarrow> string \<Rightarrow> bool" where
  "dead_end g start members seen x \<longleftrightarrow> start \<notin> set (deps_of g x) \<and> set (deps_of g x) \<inter> set members \<subseteq> set seen"

lemma dead_end_mono: "dead_end g start members seen x \<Longrightarrow> set seen \<subseteq> set seen' \<Longrightarrow> dead_end g start members seen' x"
  by (auto simp: dead_end_def)

definition on_walk :: "boot_edges \<Rightarrow> string \<Rightarrow> string list \<Rightarrow> string list \<Rightarrow> string list \<Rightarrow> bool" where
  "on_walk g start members path seen \<longleftrightarrow> walk g path \<and> hd path = start \<and> set path \<subseteq> set seen \<and>
     set path \<subseteq> set members \<and> start \<in> set members"

definition walk_result ::
  "boot_edges \<Rightarrow> string \<Rightarrow> string list \<Rightarrow> string list \<Rightarrow> string list \<Rightarrow> bool \<times> string list \<times> string list \<Rightarrow> bool" where
  "walk_result g start members path seen r \<longleftrightarrow> (case r of (b, path', seen') \<Rightarrow> set seen \<subseteq> set seen' \<and>
     (if b then cycle_path g members path' else path' = path \<and>
        (\<forall>x \<in> set seen' - set seen. dead_end g start members seen' x)))"

lemma walk_snoc: "walk g path \<Longrightarrow> d \<in> set (deps_of g (last path)) \<Longrightarrow> d \<notin> set path \<Longrightarrow> walk g (path @ [d])"
  by (auto simp: walk_def successively_append_iff)

lemma close_on_spec:
  "on_walk g start members path seen \<Longrightarrow> last path = at \<Longrightarrow> card (set members - set seen) < k \<Longrightarrow>
     walk_result g start members path seen (close_on k at start g members path seen) \<and>
     (\<not> fst (close_on k at start g members path seen) \<longrightarrow>
        dead_end g start members (snd (snd (close_on k at start g members path seen))) at)"
  "on_walk g start members path seen \<Longrightarrow> set deps \<subseteq> set (deps_of g (last path)) \<inter> set members \<Longrightarrow>
     card (set members - set seen) \<le> k \<Longrightarrow>
     walk_result g start members path seen (close_deps k deps start g members path seen) \<and>
     (\<not> fst (close_deps k deps start g members path seen) \<longrightarrow>
        start \<notin> set deps \<and> set deps \<subseteq> set (snd (snd (close_deps k deps start g members path seen))))"
proof (induction k at start g members path seen and k deps start g members path seen rule: close_on_close_deps.induct)
  case (1 at start g members path seen)
  then show ?case by simp
next
  case (2 k at start g members path seen)
  have "set (filter (\<lambda>d. d \<in> set members) (deps_of g at)) \<subseteq> set (deps_of g (last path)) \<inter> set members" using 2(3) by auto
  from 2(1)[OF 2(2) this] 2(2,4) show ?case by (auto simp: dead_end_def on_walk_def)
next
  case (3 k start g members path seen)
  then show ?case by (simp add: walk_result_def)
next
  case (4 k dep deps start g members path seen)
  have w: "walk g path" "hd path = start" using "4.prems"(1) by (simp_all add: on_walk_def)
  show ?case
  proof (cases "dep = start \<or> dep \<in> set seen")
    case True
    then show ?thesis
      using 4 w by (auto simp: walk_result_def cycle_path_def on_walk_def) blast
  next
    case False
    let ?r = "close_on k dep start g members (path @ [dep]) (dep # seen)"
    obtain b p s where r: "?r = (b, p, s)" by (cases ?r)
    have o: "on_walk g start members (path @ [dep]) (dep # seen)"
      using "4.prems"(1,2) w False walk_snoc[OF w(1), of dep] by (auto simp: on_walk_def walk_def)
    have lt: "card (set members - set (dep # seen)) < k"
    proof -
      have "set members - set (dep # seen) \<subset> set members - set seen" using "4.prems"(2) False by auto
      then have "card (set members - set (dep # seen)) < card (set members - set seen)" by (rule psubset_card_mono[rotated]) simp
      then show ?thesis using "4.prems"(3) by simp
    qed
    have ih: "walk_result g start members (path @ [dep]) (dep # seen) (b, p, s)" "\<not> b \<longrightarrow> dead_end g start members s dep"
      using "4.IH"(2) False o lt r by auto
    show ?thesis
    proof (cases b)
      case True
      then show ?thesis using ih r False by (auto simp: walk_result_def)
    next
      case nb: False
      have p: "p = path @ [dep]" "set (dep # seen) \<subseteq> set s" using ih(1) nb by (simp_all add: walk_result_def)
      let ?q = "close_deps k deps start g members path s"
      have "on_walk g start members path s" using "4.prems"(1) p(2) by (auto simp: on_walk_def)
      moreover have "card (set members - set s) \<le> k"
      proof -
        have "set members - set s \<subseteq> set members - set seen" using p(2) by auto
        from card_mono[OF _ this] show ?thesis using "4.prems"(3) by simp
      qed
      ultimately have q: "walk_result g start members path s ?q"
        "\<not> fst ?q \<longrightarrow> start \<notin> set deps \<and> set deps \<subseteq> set (snd (snd ?q))"
        using "4.IH"(3) False r nb p(1) "4.prems"(2) by auto
      obtain b' p' s' where q': "?q = (b', p', s')" by (cases ?q)
      have old: "\<forall>x \<in> set s - set seen. dead_end g start members s x"
        using ih nb by (auto simp: walk_result_def)
      have "dead_end g start members s' x" if "\<not> b'" "x \<in> set s'" "x \<notin> set seen" for x
      proof (cases "x \<in> set s")
        case True
        then show ?thesis
          using old that(3) dead_end_mono[of g start members s x s'] q(1) q' by (simp add: walk_result_def)
      qed (use q(1) q' that in \<open>simp add: walk_result_def\<close>)
      then show ?thesis
        using q q' p False r nb by (auto simp: walk_result_def)
    qed
  qed
qed

lemma representative_real:
  assumes g: "graph_ok g" and c: "c \<in> set (knots g)"
  shows "cycle_path g c (representative_cycle g c)"
proof -
  have k: "c \<in> set (t_components (t_run g))" "is_knot g c" using c by (auto simp: knots_def)
  from k(2) obtain start rest where c': "c = start # rest" by (cases c) (auto simp: is_knot_def)
  let ?r = "close_on (length c + 1) start start g c [start] [start]"
  have o: "on_walk g start c [start] [start]" by (simp add: on_walk_def walk_def c')
  have "card (set c - set [start]) \<le> card (set c)" by (rule card_mono) auto
  then have lt: "card (set c - set [start]) < length c + 1" using card_length[of c] by linarith
  obtain b p s where r: "?r = (b, p, s)" by (cases ?r)
  have w: "walk_result g start c [start] [start] (b, p, s)" "\<not> b \<longrightarrow> dead_end g start c s start"
    using close_on_spec(1)[OF o _ lt, of start] r by auto
  have b
  proof (rule ccontr)
    assume nb: "\<not> b"
    have dead: "dead_end g start c s x" if "x \<in> set s" for x
      using w nb that by (cases "x = start") (auto simp: walk_result_def)
    have ss: "start \<in> set s" using w(1) by (auto simp: walk_result_def)
    have sc: "start \<in> set c" by (simp add: c')
    have mem: "v \<in> set s" if "(start, v) \<in> (edge_rel g)\<^sup>*" "(v, start) \<in> (edge_rel g)\<^sup>*" for v
      using that
    proof (induction rule: rtrancl_induct)
      case (step v u)
      have vs: "(v, start) \<in> (edge_rel g)\<^sup>*" using step.hyps(2) step.prems by (rule converse_rtrancl_into_rtrancl)
      have "(start, u) \<in> (edge_rel g)\<^sup>*" using step.hyps(1,2) by (rule rtrancl_into_rtrancl)
      then have "u \<in> set c" using mutual_component[OF g k(1) sc] step.prems by blast
      then show ?case using dead[OF step.IH[OF vs]] step.hyps(2) by (auto simp: dead_end_def edge_rel_def)
    qed (rule ss)
    have "(start, start) \<in> (edge_rel g)\<^sup>+" by (rule knot_cycle[OF g c sc])
    then obtain u where u: "(start, u) \<in> (edge_rel g)\<^sup>*" "(u, start) \<in> edge_rel g" by (auto dest: tranclD2)
    then have "u \<in> set s" by (intro mem) auto
    from dead[OF this] u(2) show False by (simp add: dead_end_def edge_rel_def)
  qed
  then have "cycle_path g c p" using w(1) by (simp add: walk_result_def)
  then show ?thesis using r \<open>b\<close> by (simp add: representative_cycle_def c')
qed

end
