(* ===== verification/Boot_Plan.thy ===== *)
theory Boot_Plan
  imports Boot_Knots
begin

text \<open>
  The boot plan as a whole: every node starts once, after what it depends on unless it is in a
  knot, and what the plan reports of the knots.
\<close>

subsection \<open>The plan's order\<close>

lemma edges_of_keys [simp]: "fst ` set (edges_of nodes) = bn_name ` set nodes"
  by (auto simp: edges_of_def Let_def image_iff)

lemma edges_of_deps:
  "set (deps_of (edges_of nodes) nm) =
     {d \<in> bn_name ` set nodes. \<exists>n \<in> set nodes. bn_name n = nm \<and> d \<in> set (bn_depends_on n)}"
proof (cases "nm \<in> bn_name ` set nodes")
  case True
  have "map_of (map (\<lambda>x. (x, f x)) xs) nm = (if nm \<in> set xs then Some (f nm) else None)" for f :: "string \<Rightarrow> string list" and xs
    by (induction xs) auto
  then show ?thesis using True by (auto simp: deps_of_def edges_of_def Let_def)
next
  case False
  have "map_of (edges_of nodes) nm = None" using False edges_of_keys[of nodes] by (simp add: map_of_eq_None_iff)
  then show ?thesis using False by (auto simp: deps_of_def)
qed

lemma edges_of_ok: "graph_ok (edges_of nodes)"
proof -
  have "map fst (edges_of nodes) = bset (map bn_name nodes)" by (simp add: edges_of_def Let_def comp_def)
  moreover have "set (deps_of (edges_of nodes) n) \<subseteq> fst ` set (edges_of nodes)" for n by (auto simp: edges_of_deps)
  ultimately show ?thesis by (simp add: graph_ok_def)
qed

lemma concat_nonempty_stage [simp]: "concat (nonempty_stage xs) = xs"
  by (simp add: nonempty_stage_def)

lemma kahn_all:
  assumes g: "graph_ok g" and s: "set xs \<subseteq> fst ` set g" "set xs \<inter> set (concat (knots g)) = {}" "distinct xs"
  shows "set (concat (kahn xs g al)) = set xs" "distinct (concat (kahn xs g al))"
proof -
  have "\<forall>n \<in> set xs. \<forall>d \<in> set (deps_of g n). d \<in> set xs \<longrightarrow>
      comp_rank (t_components (t_run g)) d < comp_rank (t_components (t_run g)) n"
    using s(1,2) by (intro ballI impI outside_knots_ranked[OF g]) blast+
  then show "set (concat (kahn xs g al)) = set xs" unfolding kahn_def by (rule kahn_loop_complete)
  show "distinct (concat (kahn xs g al))" unfolding kahn_def by (rule kahn_loop_distinct[OF s(3)])
qed

lemma kahn_before:
  "n \<in> set (concat (kahn xs g al)) \<Longrightarrow> d \<in> set (concat (kahn xs g al)) \<Longrightarrow> d \<in> set (deps_of g n) \<Longrightarrow> d \<notin> set al \<Longrightarrow>
    starts_before (kahn xs g al) d n"
  unfolding kahn_def by (rule kahn_loop_order)

text \<open>The parts of a plan.\<close>

definition knotted :: "BootNode list \<Rightarrow> string list" where
  "knotted nodes = bset (concat (knots (edges_of nodes)))"

definition stuck :: "BootNode list \<Rightarrow> string list" where
  "stuck nodes = depends_on_a_cycle (edges_of nodes) (knotted nodes)"

definition dog_first :: "BootNode \<Rightarrow> bool" where
  "dog_first n \<longleftrightarrow> bn_kind n = Dog True"

definition dog_last :: "BootNode list \<Rightarrow> BootNode \<Rightarrow> bool" where
  "dog_last nodes n \<longleftrightarrow> bn_kind n = Dog False \<and> bn_name n \<notin> set (concat (map snd (edges_of nodes)))"

definition middle :: "BootNode list \<Rightarrow> BootNode \<Rightarrow> bool" where
  "middle nodes n \<longleftrightarrow> \<not> dog_first n \<and> \<not> dog_last nodes n"

definition free_names :: "BootNode list \<Rightarrow> (BootNode \<Rightarrow> bool) \<Rightarrow> string list" where
  "free_names nodes P =
     map bn_name (filter P (filter (\<lambda>n. bn_name n \<notin> set (knotted nodes) \<and> bn_name n \<notin> set (stuck nodes)) nodes))"

lemma free_names_set:
  "set (free_names nodes P) = {bn_name n |n. n \<in> set nodes \<and> P n \<and> bn_name n \<notin> set (knotted nodes) \<and> bn_name n \<notin> set (stuck nodes)}"
  by (auto simp: free_names_def)

lemma plan_stages:
  "bp_stages (plan nodes) =
     nonempty_stage (sort (free_names nodes dog_first)) @
     kahn (bset (free_names nodes (middle nodes))) (edges_of nodes) (sort (free_names nodes dog_first)) @
     nonempty_stage (knotted nodes) @ kahn (stuck nodes) (edges_of nodes) [] @
     nonempty_stage (sort (free_names nodes (dog_last nodes)))"
  by (simp add: plan_def Let_def knotted_def stuck_def free_names_def dog_first_def[abs_def] dog_last_def[abs_def] middle_def[abs_def])

lemma plan_knots [simp]: "bp_knots (plan nodes) = knots (edges_of nodes)"
  by (simp add: plan_def Let_def)

lemma plan_cycles [simp]: "bp_cycles (plan nodes) = map (representative_cycle (edges_of nodes)) (knots (edges_of nodes))"
  by (simp add: plan_def Let_def)

lemma stuck_spec:
  "set (stuck nodes) \<subseteq> bn_name ` set nodes - set (knotted nodes)" "distinct (stuck nodes)"
  using depends_on_a_cycle_spec(1,3)[of "edges_of nodes" "knotted nodes"] by (simp_all add: stuck_def)

lemma knotted_nodes: "set (knotted nodes) \<subseteq> bn_name ` set nodes"
  using knots_exact[OF edges_of_ok[of nodes]] by (auto simp: knotted_def dest!: tranclD) (auto simp: edge_rel_def edges_of_deps)

lemma plan_kahn:
  assumes "set xs \<subseteq> bn_name ` set nodes - set (knotted nodes)" "distinct xs"
  shows "set (concat (kahn xs (edges_of nodes) al)) = set xs" "distinct (concat (kahn xs (edges_of nodes) al))"
  using assms by (intro kahn_all[OF edges_of_ok]; auto simp: knotted_def)+

lemma free_names_kahn:
  "set (concat (kahn (bset (free_names nodes P)) (edges_of nodes) al)) = set (free_names nodes P)"
  "distinct (concat (kahn (bset (free_names nodes P)) (edges_of nodes) al))"
proof -
  have "set (bset (free_names nodes P)) \<subseteq> bn_name ` set nodes - set (knotted nodes)" by (auto simp: free_names_set)
  from plan_kahn[OF this] show "set (concat (kahn (bset (free_names nodes P)) (edges_of nodes) al)) = set (free_names nodes P)"
    "distinct (concat (kahn (bset (free_names nodes P)) (edges_of nodes) al))" by simp_all
qed

lemmas stuck_kahn = plan_kahn[OF stuck_spec]

definition one_each :: "BootNode list \<Rightarrow> bool" where
  "one_each nodes \<longleftrightarrow> distinct (map bn_name nodes) \<and> (\<forall>n \<in> set nodes. bn_kind n \<noteq> Sheep \<longrightarrow> bn_depends_on n = [])"

lemma free_names_distinct: "one_each nodes \<Longrightarrow> distinct (free_names nodes P)"
  by (simp add: one_each_def free_names_def distinct_map_filter)

lemma same_node: "one_each nodes \<Longrightarrow> n \<in> set nodes \<Longrightarrow> m \<in> set nodes \<Longrightarrow> bn_name n = bn_name m \<Longrightarrow> n = m"
  by (simp add: one_each_def distinct_map inj_on_def)

lemma free_names_disjoint:
  assumes "one_each nodes" "\<forall>n. P n \<longrightarrow> \<not> Q n"
  shows "set (free_names nodes P) \<inter> set (free_names nodes Q) = {}"
proof (rule ccontr)
  assume "set (free_names nodes P) \<inter> set (free_names nodes Q) \<noteq> {}"
  then obtain n m where "n \<in> set nodes" "m \<in> set nodes" "P n" "Q m" "bn_name n = bn_name m"
    unfolding free_names_set by blast
  then show False using same_node[OF assms(1), of n m] assms(2) by blast
qed

lemma plan_concat:
  "concat (bp_stages (plan nodes)) =
     sort (free_names nodes dog_first) @
     concat (kahn (bset (free_names nodes (middle nodes))) (edges_of nodes) (sort (free_names nodes dog_first))) @
     knotted nodes @ concat (kahn (stuck nodes) (edges_of nodes) []) @ sort (free_names nodes (dog_last nodes))"
  by (simp add: plan_stages)

lemma plan_once:
  assumes "one_each nodes"
  shows "distinct (concat (bp_stages (plan nodes)))" "set (concat (bp_stages (plan nodes))) = bn_name ` set nodes"
proof -
  let ?f = "\<lambda>P. set (free_names nodes P)"
  have ex: "\<forall>n. dog_first n \<longrightarrow> \<not> middle nodes n" "\<forall>n. dog_first n \<longrightarrow> \<not> dog_last nodes n" "\<forall>n. middle nodes n \<longrightarrow> \<not> dog_last nodes n"
    by (simp_all add: middle_def dog_first_def dog_last_def)
  have dis: "?f dog_first \<inter> ?f (middle nodes) = {}" "?f dog_first \<inter> ?f (dog_last nodes) = {}" "?f (middle nodes) \<inter> ?f (dog_last nodes) = {}"
    by (rule free_names_disjoint[OF assms ex(1)] free_names_disjoint[OF assms ex(2)] free_names_disjoint[OF assms ex(3)])+
  have out: "?f P \<inter> set (knotted nodes) = {}" "?f P \<inter> set (stuck nodes) = {}" for P by (auto simp: free_names_set)
  have k: "distinct (knotted nodes)" "set (knotted nodes) \<inter> set (stuck nodes) = {}" using stuck_spec(1) by (auto simp: knotted_def)
  note sets = free_names_kahn(1) stuck_kahn(1) set_append set_sort distinct_append distinct_sort
  show "distinct (concat (bp_stages (plan nodes)))"
    unfolding plan_concat sets
    using dis out[of dog_first] out[of "middle nodes"] out[of "dog_last nodes"] k
      free_names_distinct[OF assms, of dog_first] free_names_distinct[OF assms, of "dog_last nodes"]
      free_names_kahn(2)[of nodes "middle nodes"] stuck_kahn(2)[of nodes]
    by (simp add: Int_Un_distrib Int_Un_distrib2 Int_commute)
  have "?f dog_first \<union> ?f (middle nodes) \<union> ?f (dog_last nodes) = bn_name ` set nodes - set (knotted nodes) - set (stuck nodes)"
    unfolding free_names_set middle_def by blast
  then show "set (concat (bp_stages (plan nodes))) = bn_name ` set nodes"
    unfolding plan_concat sets using stuck_spec(1)[of nodes] knotted_nodes[of nodes] by blast
qed

lemma depended_on_placed:
  assumes "one_each nodes" "d \<in> set (deps_of (edges_of nodes) nm)" "d \<notin> set (knotted nodes)" "d \<notin> set (stuck nodes)"
  shows "d \<in> set (free_names nodes dog_first) \<or> d \<in> set (free_names nodes (middle nodes))"
proof -
  obtain m where m: "m \<in> set nodes" "bn_name m = d" using assms(2) by (auto simp: edges_of_deps)
  obtain ds where "(nm, ds) \<in> set (edges_of nodes)" "d \<in> set ds"
    using assms(2) map_of_SomeD[of "edges_of nodes" nm] by (cases "map_of (edges_of nodes) nm") (auto simp: deps_of_def)
  then have "\<not> dog_last nodes m" using m(2) by (force simp: dog_last_def)
  then have "dog_first m \<or> middle nodes m" by (simp add: middle_def)
  then show ?thesis using m assms(3,4) unfolding free_names_set by blast
qed

lemma plan_order:
  assumes one: "one_each nodes" and n: "n \<in> set nodes" "d \<in> set (bn_depends_on n)" "d \<in> bn_name ` set nodes"
    and k: "bn_name n \<notin> set (knotted nodes)"
  shows "starts_before (bp_stages (plan nodes)) d (bn_name n)"
proof -
  let ?g = "edges_of nodes" and ?f = "free_names nodes dog_first" and ?m = "free_names nodes (middle nodes)"
  have dep: "d \<in> set (deps_of ?g (bn_name n))" using n by (auto simp: edges_of_deps)
  note sets = free_names_kahn(1) stuck_kahn(1) set_sort concat_nonempty_stage
  note placed = depended_on_placed[OF one dep]
  show ?thesis
  proof (cases "bn_name n \<in> set (stuck nodes)")
    case True
    then have "d \<in> set (stuck nodes) \<Longrightarrow> starts_before (kahn (stuck nodes) ?g []) d (bn_name n)"
      using dep by (intro kahn_before) (simp_all add: stuck_kahn(1) del: set_concat)
    then show ?thesis using True placed unfolding plan_stages starts_before_append concat_append set_append sets by blast
  next
    case False
    have "bn_kind n = Sheep" using one n(1,2) by (force simp: one_each_def)
    then have "middle nodes n" by (simp add: middle_def dog_first_def dog_last_def)
    then have nm: "bn_name n \<in> set ?m" using n(1) k False unfolding free_names_set by blast
    have "d \<notin> set (knotted nodes)" "d \<notin> set (stuck nodes)"
      using depends_on_a_cycle_spec(2)[of "bn_name n" ?g "knotted nodes" d] n(1) k False dep by (simp_all add: stuck_def)
    then have d: "d \<in> set ?f \<or> d \<in> set ?m" by (rule placed)
    have "d \<in> set ?m \<Longrightarrow> d \<notin> set ?f \<Longrightarrow> starts_before (kahn (bset ?m) ?g (sort ?f)) d (bn_name n)"
      using dep nm by (intro kahn_before) (simp_all add: free_names_kahn(1) del: set_concat)
    then show ?thesis using nm d unfolding plan_stages starts_before_append concat_append set_append sets by blast
  qed
qed

subsection \<open>Properties\<close>

text \<open>
  C28. Boot order. Over nodes of distinct names whose dogs depend on nothing, the plan starts
  every node exactly once, and a node outside the knots starts in a later stage than every node
  it depends on: the sort never stalls and never drops a node.
\<close>

theorem boot_plan_order:
  assumes "distinct (map bn_name nodes)" "\<forall>n \<in> set nodes. bn_kind n \<noteq> Sheep \<longrightarrow> bn_depends_on n = []"
  shows "distinct (concat (bp_stages (plan nodes)))
    \<and> set (concat (bp_stages (plan nodes))) = bn_name ` set nodes
    \<and> (\<forall>n \<in> set nodes. \<forall>d \<in> set (bn_depends_on n).
         d \<in> bn_name ` set nodes \<and> bn_name n \<notin> set (concat (bp_knots (plan nodes))) \<longrightarrow>
         starts_before (bp_stages (plan nodes)) d (bn_name n))"
proof -
  have one: "one_each nodes" using assms by (simp add: one_each_def)
  have "starts_before (bp_stages (plan nodes)) d (bn_name n)"
    if "n \<in> set nodes" "d \<in> set (bn_depends_on n)" "d \<in> bn_name ` set nodes" "bn_name n \<notin> set (concat (bp_knots (plan nodes)))" for n d
    using that by (intro plan_order[OF one]) (simp_all add: knotted_def)
  then show ?thesis using plan_once[OF one] by blast
qed

definition ring :: "BootNode list" where
  "ring =
    [\<lparr> bn_name = ''a'', bn_depends_on = [''c''], bn_kind = Sheep \<rparr>,
     \<lparr> bn_name = ''b'', bn_depends_on = [''a''], bn_kind = Sheep \<rparr>,
     \<lparr> bn_name = ''c'', bn_depends_on = [''b''], bn_kind = Sheep \<rparr>,
     \<lparr> bn_name = ''collie'', bn_depends_on = [], bn_kind = Dog False \<rparr>,
     \<lparr> bn_name = ''x'', bn_depends_on = [''b'', ''gone''], bn_kind = Sheep \<rparr>]"

lemma ring_plan:
  "bp_stages (plan ring) = [[''a'', ''b'', ''c''], [''x''], [''collie'']]"
  "bp_knots (plan ring) = [[''a'', ''b'', ''c'']]"
  by code_simp+

theorem boot_plan_order_witness:
  "distinct (concat (bp_stages (plan ring))) \<and> starts_before [[''a'', ''b'', ''c''], [''x''], [''collie'']] ''b'' ''x''"
  using boot_plan_order[of ring] unfolding ring_plan by (simp add: ring_def)

text \<open>
  C29. The knots are the cycles. The names the plan reports as knotted are exactly the ones that
  reach themselves along dependencies: Tarjan's components, filtered, against the transitive
  closure.
\<close>

theorem knots_are_the_cycles:
  "set (concat (bp_knots (plan nodes))) =
     {nm. (nm, nm) \<in> {(x, y). \<exists>n \<in> set nodes. bn_name n = x \<and> y \<in> set (bn_depends_on n) \<and> y \<in> bn_name ` set nodes}\<^sup>+}"
proof -
  have "edge_rel (edges_of nodes) =
      {(x, y). \<exists>n \<in> set nodes. bn_name n = x \<and> y \<in> set (bn_depends_on n) \<and> y \<in> bn_name ` set nodes}"
    by (auto simp: edge_rel_def edges_of_deps)
  then show ?thesis using knots_exact[OF edges_of_ok[of nodes]] by simp
qed

text \<open>
  What the plan reports is a cycle. One path is reported per knot, in the same order; it
  repeats no name, stays inside its knot, and each of its names depends on the next and the
  last on the first: the walk that looks for it always closes.
\<close>

lemma reported_cycles_are_cycles:
  "list_all2 (\<lambda>path knot. path \<noteq> [] \<and> distinct path \<and> set path \<subseteq> set knot
       \<and> successively (\<lambda>x y. y \<in> set (deps_of (edges_of nodes) x)) path
       \<and> hd path \<in> set (deps_of (edges_of nodes) (last path)))
     (bp_cycles (plan nodes)) (bp_knots (plan nodes))"
  using representative_real[OF edges_of_ok[of nodes]]
  by (auto simp: list_all2_conv_all_nth cycle_path_def walk_def)

end
