(* ===== verification/Normalize.thy ===== *)
theory Normalize
  imports Template Probe_Target Net_Addr Cron_Rules Boot_Plan
begin

text \<open>
  What the daemon accepts as an app: \<open>shep-core/src/config/normalize/\<close>. \<open>normalize_with_home\<close>
  is the file's one function, with each of its checks a definition, in the order the code runs
  them; \<open>normalize_all\<close> is a whole Flockfile.

  A \<open>platform\<close> holds what the code asks of the machine and of other crates: the home directories,
  what globset, regex and croner refuse (with the reason they render), the IANA zone names, whether
  the f64 a \<open>max_cpu_cores\<close> spells can be a quota, and the build's target. Paths are Unix paths.
\<close>

subsection \<open>The machine\<close>

record platform =
  pf_home_dir :: "string option"
  pf_env_var :: "string \<Rightarrow> string option"
  pf_glob :: "string \<Rightarrow> string option"
  pf_regex :: "string \<Rightarrow> string option"
  pf_croner :: "string \<Rightarrow> string option"
  pf_timezone :: "string \<Rightarrow> bool"
  pf_enforceable :: "string \<Rightarrow> bool"
  pf_linux :: bool
  pf_unix :: bool
  pf_windows :: bool

text \<open>\<open>Path::join\<close> of a relative path.\<close>

definition path_join :: "string \<Rightarrow> string \<Rightarrow> string" where
  "path_join base rest =
     (if strip_prefix ''/'' rest \<noteq> None then rest
      else if base = [] \<or> last base = CHR ''/'' then base @ rest
      else base @ ''/'' @ rest)"

definition DEFAULT_HOME_DIR :: string where "DEFAULT_HOME_DIR = ''.shep''"

definition home_under :: "(string \<Rightarrow> string option) \<Rightarrow> string \<Rightarrow> string" where
  "home_under env home_dir =
     (case env ''SHEP_HOME'' of Some path \<Rightarrow> path | None \<Rightarrow> path_join home_dir DEFAULT_HOME_DIR)"

definition shep_home :: "(string \<Rightarrow> string option) \<Rightarrow> string option \<Rightarrow> string option" where
  "shep_home env home_dir =
     (case home_dir of Some dir \<Rightarrow> Some (home_under env dir) | None \<Rightarrow> env ''SHEP_HOME'')"

subsection \<open>Refusals\<close>

datatype NormalizeError =
    MissingName
  | InvalidName string
  | InvalidEnvironment string string
  | ReservedEnvVar string string
  | MissingScript
  | ZeroInstances
  | InvalidCron string string
  | InvalidTimezone string
  | DuplicateName string
  | DependencyCycle "string list"
  | InvalidProbe string string
  | ZeroFailureThreshold string
  | IntervalBelowMinimum string UpDuration UpDuration
  | ZeroMaxMemory string
  | MemoryEnforceNeedsMaxMemory string
  | MemoryEnforceKernelUnsupported string
  | MaxCpuCoresOutOfRange string
  | MaxCpuCoresUnsupported string
  | MaxTasksOutOfRange string
  | MaxTasksUnsupported string
  | PtyUnsupported string
  | ActionTimeoutTooLong string UpDuration UpDuration
  | InvalidKillSignal string string
  | WatchWithoutCwd string
  | TildeUser string string string
  | NoHomeForTilde string string
  | NoShepHome string string
  | ZeroWatchDelay string
  | InvalidWatchGlob string string string string
  | InvalidLevelRule string string
  | BadTemplate string string string
  | SecretInLogPath string string
  | SharedLogPath string string
  | SelfDependency string
  | InstanceDependency string string
  | EmptyDogName string
  | SandboxKeyRemoved string
  | SandboxOnWindows string
  | InvalidListenName string string
  | InvalidListenAddress string string string
  | DuplicateListenAddress string string string string
  | ListenWithSandbox string
  | ListenOnWindows string

fun probe_target_error_display :: "ProbeTargetError \<Rightarrow> string" where
  "probe_target_error_display ProbeEmpty = ''probe target is empty''"
| "probe_target_error_display (HttpsUnsupported t) =
     ''probe target `'' @ t @ ''` uses https://, which shep's probe client does not support (no TLS)''"
| "probe_target_error_display (NotHttpUrl t) = ''probe target `'' @ t @ ''` is not an http:// URL''"
| "probe_target_error_display (MissingHost t) = ''probe target `'' @ t @ ''` has no host''"
| "probe_target_error_display (InvalidHost t) =
     ''probe target `'' @ t @ ''` has a host containing `@`, whitespace, or an embedded `:`''"
| "probe_target_error_display (InvalidPath t) =
     ''probe target `'' @ t @ ''` has a path containing whitespace or a control character''"
| "probe_target_error_display (MissingPort t) = ''probe target `'' @ t @ ''` has no port''"
| "probe_target_error_display (BadPort t) = ''probe target `'' @ t @ ''` has a port that is not a valid u16''"

fun template_error_display :: "TemplateError \<Rightarrow> string" where
  "template_error_display (UnknownToken token) =
     (if strip_prefix SECRET_PREFIX token \<noteq> None then
        ''`{{'' @ token @ ''}}` is not a valid secret reference: write `{{secret:KEY}}` or ''
        @ ''`{{secret:namespace/KEY}}`, where each part holds only letters, digits, `.`, `_` or `-` ''
        @ ''and does not start with `.`''
      else
        ''`{{'' @ token @ ''}}` is not a template token: valid tokens are ''
        @ join_with '', '' (map (\<lambda>t. ''`{{'' @ t @ ''}}`'') TOKENS @ [''`{{'' @ SECRET_PREFIX @ ''...}}`'']))"
| "template_error_display TemplateUnclosed = ''a `{{` in this value is never closed by a `}}`''"

definition MAX_TASKS_LIMIT :: u32 where "MAX_TASKS_LIMIT = 4194304"

definition HOME_DIR_VAR :: string where "HOME_DIR_VAR = ''$HOME''"
definition SHEP_HOME_VAR :: string where "SHEP_HOME_VAR = ''$SHEP_HOME''"

text \<open>The reasons as an operator reads them, on a Unix build.\<close>

primrec normalize_error_display :: "NormalizeError \<Rightarrow> string" where
  "normalize_error_display MissingName = ''app config is missing a name''"
| "normalize_error_display (InvalidName n) =
     ''sheep name `'' @ n @ ''` may not contain a path separator or a colon, or be `.` or `..`; use `-` in place of a colon''"
| "normalize_error_display (InvalidEnvironment name v) =
     ''sheep `'' @ name @ ''` has environment = `'' @ v @ ''`: must be 1-128 bytes of `[A-Za-z0-9._-]` not starting with `.`, ''
     @ ''and not `'' @ ALL_ENVIRONMENTS @ ''` (the secrets store's every-environment slot)''"
| "normalize_error_display (ReservedEnvVar name var) =
     ''sheep `'' @ name @ ''` sets `'' @ var @ ''` in env, but shep injects it: use a different name, ''
     @ (if var = ''SHEP_INSTANCE'' then ''or `{{instance}}` in your own variable''
        else if var = ''SHEP_NAME'' then ''or `{{name}}` in your own variable''
        else ''or set `environment` on the app'')"
| "normalize_error_display MissingScript = ''app config is missing a script''"
| "normalize_error_display ZeroInstances = ''instances must be at least 1''"
| "normalize_error_display (InvalidCron pattern reason) = ''invalid cron_restart pattern `'' @ pattern @ ''`: '' @ reason"
| "normalize_error_display (InvalidTimezone name) = ''`'' @ name @ ''` is not a recognized IANA timezone''"
| "normalize_error_display (DuplicateName n) = ''duplicate sheep name `'' @ n @ ''`''"
| "normalize_error_display (DependencyCycle cycle) = ''dependency cycle: '' @ render_cycle cycle"
| "normalize_error_display (InvalidProbe probe reason) = probe @ '': '' @ reason"
| "normalize_error_display (ZeroFailureThreshold probe) = probe @ ''.failure_threshold must be at least 1''"
| "normalize_error_display (IntervalBelowMinimum probe v least) =
     probe @ ''.interval is `'' @ up_duration_display v @ ''`: must be at least '' @ up_duration_display least"
| "normalize_error_display (ZeroMaxMemory name) = ''sheep `'' @ name @ ''` has max_memory = 0, a limit nothing can stay under''"
| "normalize_error_display (MemoryEnforceNeedsMaxMemory name) =
     ''sheep `'' @ name @ ''` has memory_enforce = \"kernel\" but no max_memory to enforce''"
| "normalize_error_display (MemoryEnforceKernelUnsupported name) =
     ''sheep `'' @ name @ ''` has memory_enforce = \"kernel\", which needs Linux cgroups; use \"poll\" on this platform''"
| "normalize_error_display (MaxCpuCoresOutOfRange name) =
     ''sheep `'' @ name @ ''` has a max_cpu_cores below 0.01 cores, or not a number''"
| "normalize_error_display (MaxCpuCoresUnsupported name) =
     ''sheep `'' @ name @ ''` has max_cpu_cores, which needs Linux cgroups; remove it on this platform''"
| "normalize_error_display (MaxTasksOutOfRange name) =
     ''sheep `'' @ name @ ''` has a max_tasks outside 1 to '' @ show_nat (unat MAX_TASKS_LIMIT)"
| "normalize_error_display (MaxTasksUnsupported name) =
     ''sheep `'' @ name @ ''` has max_tasks, which needs Linux cgroups; remove it on this platform''"
| "normalize_error_display (PtyUnsupported name) =
     ''sheep `'' @ name @ ''` has pty = true, which is not supported on Windows; remove it on this platform''"
| "normalize_error_display (ActionTimeoutTooLong name v most) =
     ''sheep `'' @ name @ ''` has action_timeout = '' @ up_duration_display v @ '': must be at most '' @ up_duration_display most
     @ '', the longest wait any caller's deadline could ever cover''"
| "normalize_error_display (InvalidKillSignal name v) =
     ''`'' @ name @ ''`: kill_signal `'' @ v @ ''` is not one shep can send (accepted: '' @ join_with '', '' ACCEPTED @ '')''"
| "normalize_error_display (TildeUser name field v) =
     ''`'' @ name @ ''`: '' @ field @ '' is `'' @ v @ ''`, and shep expands only `~/` (your own home). ''
     @ ''Another user's home needs a passwd lookup whose answer depends on who the daemon runs as, ''
     @ ''so write the path out in full instead.''"
| "normalize_error_display (NoHomeForTilde name field) =
     ''`'' @ name @ ''`: '' @ field @ '' begins with `~/` but no home directory could be found. Set '' @ HOME_DIR_VAR
     @ '', or write the path out in full.''"
| "normalize_error_display (NoShepHome name field) =
     ''`'' @ name @ ''`: '' @ field @ '' carries `{{SHEP_HOME}}` but no shep home could be found. Set '' @ SHEP_HOME_VAR
     @ '', or write the path out in full.''"
| "normalize_error_display (WatchWithoutCwd name) = ''sheep `'' @ name @ ''` has watch = true but no cwd to watch''"
| "normalize_error_display (ZeroWatchDelay name) = ''sheep `'' @ name @ ''` has watch_delay = 0: must be greater than 0''"
| "normalize_error_display (InvalidWatchGlob name field pattern reason) =
     ''sheep `'' @ name @ ''` has an invalid '' @ field @ '' pattern `'' @ pattern @ ''`: '' @ reason"
| "normalize_error_display (InvalidLevelRule name reason) = ''sheep `'' @ name @ ''` has an invalid level rule: '' @ reason"
| "normalize_error_display (BadTemplate name field reason) = ''sheep `'' @ name @ ''`, '' @ field @ '': '' @ reason"
| "normalize_error_display (SecretInLogPath name field) =
     ''sheep `'' @ name @ ''` puts a `{{secret:...}}` in `'' @ field @ ''`: a log path may not hold a secret, since it becomes ''
     @ ''a filename on disk and is reported by `shep flock` and `shep describe`''"
| "normalize_error_display (SharedLogPath name field) =
     ''sheep `'' @ name @ ''` runs several instances and sets `'' @ field @ ''` to one path: put `{{instance}}` in it, or set ''
     @ ''`merge_logs = true` to share it on purpose''"
| "normalize_error_display (SelfDependency n) = ''`'' @ n @ ''` names itself in depends_on''"
| "normalize_error_display (InstanceDependency sheep target) =
     ''`'' @ sheep @ ''` depends on `'' @ target @ ''`, which names one instance. Depend on `''
     @ takeWhile (\<lambda>c. c \<noteq> CHR '':'') target @ ''` instead: a dependency waits for every instance of an app''"
| "normalize_error_display (EmptyDogName name) = ''sheep `'' @ name @ ''` has a dogs entry with an empty name''"
| "normalize_error_display (SandboxKeyRemoved name) =
     ''sheep `'' @ name @ ''` sets sandbox, which the sandbox dog replaced: remove the key and configure the dog in an ''
     @ ''[app.dogs.sandbox] table''"
| "normalize_error_display (SandboxOnWindows name) =
     ''sheep `'' @ name @ ''` sets a dogs.sandbox table, which Windows does not support: crabpot's Windows sandbox cannot ''
     @ ''start from session 0, where the shepherd runs''"
| "normalize_error_display (InvalidListenName name listener) =
     ''sheep `'' @ name @ ''` has a listen name `'' @ listener @ ''` that is not made of ASCII letters, digits, `_` and `-`''"
| "normalize_error_display (InvalidListenAddress name listener address) =
     ''sheep `'' @ name @ ''` has listen `'' @ listener @ ''` = \"'' @ address
     @ ''\", which is not an IP address and port like \"0.0.0.0:8080\" or \"[::1]:8080\"''"
| "normalize_error_display (DuplicateListenAddress name first second address) =
     ''sheep `'' @ name @ ''` has listen `'' @ first @ ''` and `'' @ second @ ''` on the same address \"'' @ address @ ''\"''"
| "normalize_error_display (ListenWithSandbox name) =
     ''sheep `'' @ name @ ''` sets listen and a dogs.sandbox table together, which is not supported: nothing yet shows ''
     @ ''crabpot passes the shepherd's sockets through to the sandboxed command''"
| "normalize_error_display (ListenOnWindows name) =
     ''sheep `'' @ name @ ''` sets listen, which Windows does not support: the sockets are passed to the sheep as file descriptors''"

subsection \<open>Home directories\<close>

datatype TildeError = OtherUser | NoHome

definition expand_home_tilde :: "string \<Rightarrow> string option \<Rightarrow> TildeError + string" where
  "expand_home_tilde v home =
     (case strip_prefix ''~'' v of
        None \<Rightarrow> Inr v
      | Some rest \<Rightarrow>
          if \<not> (rest = [] \<or> strip_prefix ''/'' rest \<noteq> None) then Inl OtherUser
          else case home of
            None \<Rightarrow> Inl NoHome
          | Some dir \<Rightarrow> Inr (path_join dir (dropWhile (\<lambda>c. c = CHR ''/'') rest)))"

definition expand_tilde :: "string \<Rightarrow> string option \<Rightarrow> string \<Rightarrow> string \<Rightarrow> NormalizeError + string" where
  "expand_tilde v home name field =
     (case expand_home_tilde v home of
        Inr path \<Rightarrow> Inr path
      | Inl OtherUser \<Rightarrow> Inl (TildeUser name field v)
      | Inl NoHome \<Rightarrow> Inl (NoHomeForTilde name field))"

definition expand_slot :: "string option \<Rightarrow> string option \<Rightarrow> string \<Rightarrow> string \<Rightarrow> NormalizeError + string option" where
  "expand_slot slot home name field =
     (case slot of None \<Rightarrow> Inr None | Some v \<Rightarrow> and_then (expand_tilde v home name field) (\<lambda>p. Inr (Some p)))"

definition expand_paths :: "AppConfig \<Rightarrow> string option \<Rightarrow> NormalizeError + AppConfig" where
  "expand_paths app home =
     (let name = app_name app in
      and_then (expand_tilde (app_script app) home name ''script'') (\<lambda>script.
      and_then (expand_slot (app_cwd app) home name ''cwd'') (\<lambda>cwd.
      and_then (expand_slot (app_out_file app) home name ''out_file'') (\<lambda>out_file.
      and_then (expand_slot (app_err_file app) home name ''err_file'') (\<lambda>err_file.
      Inr (app\<lparr> app_script := script, app_cwd := cwd, app_out_file := out_file, app_err_file := err_file \<rparr>))))))"

subsection \<open>Checks of one field\<close>

definition validate_template :: "string \<Rightarrow> string \<Rightarrow> string \<Rightarrow> string option \<Rightarrow> NormalizeError + unit" where
  "validate_template name field v home =
     (case template_validate v of
        Inl reason \<Rightarrow> Inl (BadTemplate name field (template_error_display reason))
      | Inr _ \<Rightarrow> ensure (\<not> (home = None \<and> holds_shep_home v)) (NoShepHome name field))"

definition validate_watch_globs :: "platform \<Rightarrow> string \<Rightarrow> string \<Rightarrow> string list \<Rightarrow> NormalizeError + unit" where
  "validate_watch_globs pf name field patterns =
     first_error (\<lambda>pattern. case pf_glob pf pattern of
         Some reason \<Rightarrow> Inl (InvalidWatchGlob name field pattern reason)
       | None \<Rightarrow> Inr ()) patterns"

definition validate_probe :: "ProbeConfig option \<Rightarrow> string \<Rightarrow> UpDuration \<Rightarrow> NormalizeError + unit" where
  "validate_probe probe name min_interval =
     (case probe of
        None \<Rightarrow> Inr ()
      | Some probe \<Rightarrow>
          (case probe_target_parse probe of
             Inl reason \<Rightarrow> Inl (InvalidProbe name (probe_target_error_display reason))
           | Inr _ \<Rightarrow>
               and_then (ensure (probe_failure_threshold probe \<noteq> 0) (ZeroFailureThreshold name)) (\<lambda>_.
               ensure (\<not> as_duration (probe_interval probe) < as_duration min_interval)
                 (IntervalBelowMinimum name (probe_interval probe) min_interval))))"

definition validate_sandbox_key :: "string \<Rightarrow> string option \<Rightarrow> NormalizeError + unit" where
  "validate_sandbox_key name sandbox = ensure (sandbox = None) (SandboxKeyRemoved name)"

definition validate_sandbox :: "string \<Rightarrow> bool \<Rightarrow> bool \<Rightarrow> NormalizeError + unit" where
  "validate_sandbox name dog_table windows = ensure (\<not> (windows \<and> dog_table)) (SandboxOnWindows name)"

definition is_listen_char :: "char \<Rightarrow> bool" where
  "is_listen_char c \<longleftrightarrow> is_ascii_alphanumeric c \<or> c = CHR ''_'' \<or> c = CHR ''-''"

fun listeners :: "string \<Rightarrow> (string \<times> string) list \<Rightarrow> (SocketAddr \<times> string) list \<Rightarrow> NormalizeError + unit" where
  "listeners name [] seen = Inr ()"
| "listeners name ((listener, address) # rest) seen =
     (if listener = [] \<or> \<not> list_all is_listen_char listener then Inl (InvalidListenName name listener)
      else case socket_addr_parse address of
        None \<Rightarrow> Inl (InvalidListenAddress name listener address)
      | Some parsed \<Rightarrow>
          (case map_of seen parsed of
             Some first \<Rightarrow> Inl (DuplicateListenAddress name first listener address)
           | None \<Rightarrow> listeners name rest ((parsed, listener) # seen)))"

definition validate_listen :: "string \<Rightarrow> (string \<times> string) list \<Rightarrow> bool \<Rightarrow> bool \<Rightarrow> NormalizeError + unit" where
  "validate_listen name listen sandboxed windows =
     (if listen = [] then Inr ()
      else
        and_then (ensure (\<not> sandboxed) (ListenWithSandbox name)) (\<lambda>_.
        and_then (listeners name listen []) (\<lambda>_.
        ensure (\<not> windows) (ListenOnWindows name))))"

subsection \<open>Checks of the app\<close>

definition MIN_LIVENESS_INTERVAL :: UpDuration where "MIN_LIVENESS_INTERVAL = up_from_millis 1000"
definition MIN_READINESS_INTERVAL :: UpDuration where "MIN_READINESS_INTERVAL = up_from_millis 1"
definition MAX_ACTION_TIMEOUT :: UpDuration where "MAX_ACTION_TIMEOUT = up_from_millis 58000"

definition check_name :: "AppConfig \<Rightarrow> NormalizeError + unit" where
  "check_name app =
     and_then (ensure (app_name app \<noteq> []) MissingName) (\<lambda>_.
     ensure (\<not> (list_ex (\<lambda>c. c \<in> set [CHR ''/'', CHR 0x5C, CHR '':'']) (app_name app)
                 \<or> app_name app = ''.'' \<or> app_name app = ''..''))
       (InvalidName (app_name app)))"

definition check_environment :: "AppConfig \<Rightarrow> NormalizeError + unit" where
  "check_environment app =
     (case app_environment app of
        None \<Rightarrow> Inr ()
      | Some environment \<Rightarrow>
          ensure (\<not> (environment = ALL_ENVIRONMENTS \<or> \<not> is_name environment))
            (InvalidEnvironment (app_name app) environment))"

definition RESERVED_ENV :: "string list" where
  "RESERVED_ENV = [''SHEP_INSTANCE'', ''SHEP_NAME'', ''SHEP_ENVIRONMENT'']"

definition check_reserved :: "AppConfig \<Rightarrow> NormalizeError + unit" where
  "check_reserved app =
     first_error (\<lambda>var. ensure (map_of (app_env app) var = None) (ReservedEnvVar (app_name app) var)) RESERVED_ENV"

definition check_templates :: "AppConfig \<Rightarrow> string option \<Rightarrow> NormalizeError + unit" where
  "check_templates app home =
     and_then (first_error (\<lambda>(key, v). validate_template (app_name app) (''env.'' @ key) v home) (app_env app)) (\<lambda>_.
     first_error (\<lambda>(index, v). validate_template (app_name app) (''args['' @ show_nat index @ '']'') v home)
       (List.enumerate 0 (app_args app)))"

definition log_fields :: "AppConfig \<Rightarrow> (string \<times> string option) list" where
  "log_fields app = [(''out_file'', app_out_file app), (''err_file'', app_err_file app)]"

definition check_log_templates :: "AppConfig \<Rightarrow> string option \<Rightarrow> NormalizeError + unit" where
  "check_log_templates app home =
     first_error (\<lambda>(field, v). case v of
         None \<Rightarrow> Inr ()
       | Some v \<Rightarrow>
           and_then (validate_template (app_name app) field v home) (\<lambda>_.
           ensure (\<not> holds_secret v) (SecretInLogPath (app_name app) field))) (log_fields app)"

definition check_log_sharing :: "AppConfig \<Rightarrow> string option \<Rightarrow> NormalizeError + unit" where
  "check_log_sharing app home =
     (if 1 < app_instances app \<and> \<not> app_merge_logs app then
        first_error (\<lambda>(field, path). case path of
            None \<Rightarrow> Inr ()
          | Some path \<Rightarrow>
              ensure (render_positional path (app_name app) 0 home \<noteq> render_positional path (app_name app) 1 home)
                (SharedLogPath (app_name app) field)) (log_fields app)
      else Inr ())"

definition check_cron :: "platform \<Rightarrow> AppConfig \<Rightarrow> NormalizeError + unit" where
  "check_cron pf app =
     (case app_cron_restart app of
        Some pattern \<Rightarrow>
          (case cron_schedule_parse (pf_timezone pf) (pf_croner pf) pattern (app_cron_timezone app) of
             Inr _ \<Rightarrow> Inr ()
           | Inl (CronPattern pattern reason) \<Rightarrow> Inl (InvalidCron pattern reason)
           | Inl (CronTimezone name) \<Rightarrow> Inl (InvalidTimezone name))
      | None \<Rightarrow>
          (case app_cron_timezone app of
             None \<Rightarrow> Inr ()
           | Some tz_name \<Rightarrow> ensure (pf_timezone pf tz_name) (InvalidTimezone tz_name)))"

definition check_probes :: "AppConfig \<Rightarrow> NormalizeError + unit" where
  "check_probes app =
     and_then (validate_probe (app_readiness_probe app) ''readiness_probe'' MIN_READINESS_INTERVAL) (\<lambda>_.
     validate_probe (app_liveness_probe app) ''liveness_probe'' MIN_LIVENESS_INTERVAL)"

definition check_memory :: "platform \<Rightarrow> AppConfig \<Rightarrow> NormalizeError + unit" where
  "check_memory pf app =
     and_then (ensure (\<not> (\<exists>limit \<in> set_option (app_max_memory app). bytes limit = 0)) (ZeroMaxMemory (app_name app))) (\<lambda>_.
     if app_memory_enforce app = Kernel then
       and_then (ensure (app_max_memory app \<noteq> None) (MemoryEnforceNeedsMaxMemory (app_name app))) (\<lambda>_.
       ensure (pf_linux pf) (MemoryEnforceKernelUnsupported (app_name app)))
     else Inr ())"

definition check_limits :: "platform \<Rightarrow> AppConfig \<Rightarrow> NormalizeError + unit" where
  "check_limits pf app =
     and_then
       (case app_max_cpu_cores app of
          None \<Rightarrow> Inr ()
        | Some cores \<Rightarrow>
            and_then (ensure (pf_enforceable pf cores) (MaxCpuCoresOutOfRange (app_name app))) (\<lambda>_.
            ensure (pf_linux pf) (MaxCpuCoresUnsupported (app_name app)))) (\<lambda>_.
     and_then
       (case app_max_tasks app of
          None \<Rightarrow> Inr ()
        | Some tasks \<Rightarrow>
            and_then (ensure (1 \<le> tasks \<and> tasks \<le> MAX_TASKS_LIMIT) (MaxTasksOutOfRange (app_name app))) (\<lambda>_.
            ensure (pf_linux pf) (MaxTasksUnsupported (app_name app)))) (\<lambda>_.
     ensure (\<not> (app_pty app \<and> \<not> pf_unix pf)) (PtyUnsupported (app_name app))))"

definition check_stop :: "AppConfig \<Rightarrow> NormalizeError + unit" where
  "check_stop app =
     and_then
       (case app_kill_signal app of
          None \<Rightarrow> Inr ()
        | Some name \<Rightarrow> ensure (kill_signal_parse name \<noteq> None) (InvalidKillSignal (app_name app) name)) (\<lambda>_.
     ensure (\<not> as_duration MAX_ACTION_TIMEOUT < as_duration (app_action_timeout app))
       (ActionTimeoutTooLong (app_name app) (app_action_timeout app) MAX_ACTION_TIMEOUT))"

definition check_watch :: "platform \<Rightarrow> AppConfig \<Rightarrow> NormalizeError + unit" where
  "check_watch pf app =
     and_then (ensure (\<not> (app_watch app \<and> app_cwd app = None)) (WatchWithoutCwd (app_name app))) (\<lambda>_.
     and_then (ensure (app_watch_delay app \<noteq> Some (up_from_millis 0)) (ZeroWatchDelay (app_name app))) (\<lambda>_.
     and_then (validate_watch_globs pf (app_name app) ''watch_options'' (app_watch_options app)) (\<lambda>_.
     validate_watch_globs pf (app_name app) ''ignore_watch'' (app_ignore_watch app))))"

definition check_level_rules :: "platform \<Rightarrow> AppConfig \<Rightarrow> NormalizeError + unit" where
  "check_level_rules pf app =
     (case level_matcher_compile (pf_regex pf) (app_level_rules app) of
        Inl err \<Rightarrow> Inl (InvalidLevelRule (app_name app) (level_rule_error_display err))
      | Inr _ \<Rightarrow> Inr ())"

definition check_dogs :: "platform \<Rightarrow> AppConfig \<Rightarrow> NormalizeError + unit" where
  "check_dogs pf app =
     (let sandboxed = map_of (app_dogs app) ''sandbox'' \<noteq> None in
      and_then (ensure (\<not> list_ex (\<lambda>(dog, _). dog = []) (app_dogs app)) (EmptyDogName (app_name app))) (\<lambda>_.
      and_then (validate_listen (app_name app) (app_listen app) sandboxed (pf_windows pf)) (\<lambda>_.
      validate_sandbox (app_name app) sandboxed (pf_windows pf))))"

fun dedup_targets :: "string \<Rightarrow> string list \<Rightarrow> string list \<Rightarrow> NormalizeError + string list" where
  "dedup_targets name [] deduped = Inr deduped"
| "dedup_targets name (target # rest) deduped =
     (if target = name then Inl (SelfDependency name)
      else if list_ex (\<lambda>c. c = CHR '':'') target then Inl (InstanceDependency name target)
      else dedup_targets name rest (if target \<in> set deduped then deduped else deduped @ [target]))"

definition normalize_with_home :: "platform \<Rightarrow> AppConfig \<Rightarrow> string option \<Rightarrow> string option \<Rightarrow> NormalizeError + AppConfig" where
  "normalize_with_home pf app home root =
     and_then (check_name app) (\<lambda>_.
     and_then (validate_sandbox_key (app_name app) (app_sandbox app)) (\<lambda>_.
     and_then (check_environment app) (\<lambda>_.
     and_then (check_reserved app) (\<lambda>_.
     and_then (check_templates app root) (\<lambda>_.
     and_then (check_log_templates app root) (\<lambda>_.
     and_then (ensure (app_script app \<noteq> []) MissingScript) (\<lambda>_.
     and_then (expand_paths app home) (\<lambda>app.
     and_then (ensure (app_instances app \<noteq> 0) ZeroInstances) (\<lambda>_.
     and_then (check_log_sharing app root) (\<lambda>_.
     and_then (check_cron pf app) (\<lambda>_.
     and_then (check_probes app) (\<lambda>_.
     and_then (check_memory pf app) (\<lambda>_.
     and_then (check_limits pf app) (\<lambda>_.
     and_then (check_stop app) (\<lambda>_.
     and_then (check_watch pf app) (\<lambda>_.
     and_then (check_level_rules pf app) (\<lambda>_.
     and_then (check_dogs pf app) (\<lambda>_.
     and_then (dedup_targets (app_name app) (app_depends_on app) []) (\<lambda>deduped.
     Inr (app\<lparr> app_depends_on := deduped \<rparr>))))))))))))))))))))"

definition normalize :: "platform \<Rightarrow> AppConfig \<Rightarrow> NormalizeError + AppConfig" where
  "normalize pf app = normalize_with_home pf app (pf_home_dir pf) (shep_home (pf_env_var pf) (pf_home_dir pf))"

fun normalize_each :: "platform \<Rightarrow> AppConfig list \<Rightarrow> string set \<Rightarrow> NormalizeError + AppConfig list" where
  "normalize_each pf [] seen = Inr []"
| "normalize_each pf (app # apps) seen =
     (if app_name app \<in> seen then Inl (DuplicateName (app_name app))
      else and_then (normalize pf app) (\<lambda>resolved.
           and_then (normalize_each pf apps (insert (app_name app) seen)) (\<lambda>rest. Inr (resolved # rest))))"

definition boot_node_of :: "AppConfig \<Rightarrow> BootNode" where
  "boot_node_of app = \<lparr> bn_name = app_name app, bn_depends_on = app_depends_on app, bn_kind = Sheep \<rparr>"

definition normalize_all :: "platform \<Rightarrow> AppConfig list \<Rightarrow> NormalizeError + AppConfig list" where
  "normalize_all pf apps =
     and_then (normalize_each pf apps {}) (\<lambda>resolved.
       case bp_cycles (plan (map boot_node_of resolved)) of
         cycle # _ \<Rightarrow> Inl (DependencyCycle cycle)
       | [] \<Rightarrow> Inr resolved)"

subsection \<open>What was checked\<close>

lemma expand_paths_Inr:
  "expand_paths app home = Inr app' \<longleftrightarrow>
   (\<exists>script cwd out_file err_file.
      expand_tilde (app_script app) home (app_name app) ''script'' = Inr script
      \<and> expand_slot (app_cwd app) home (app_name app) ''cwd'' = Inr cwd
      \<and> expand_slot (app_out_file app) home (app_name app) ''out_file'' = Inr out_file
      \<and> expand_slot (app_err_file app) home (app_name app) ''err_file'' = Inr err_file
      \<and> app' = app\<lparr> app_script := script, app_cwd := cwd, app_out_file := out_file, app_err_file := err_file \<rparr>)"
  by (auto simp: expand_paths_def and_then_Inr Let_def)

text \<open>
  The conditions a config has to meet before its paths are expanded and after, gathered: what
  refusing nothing means. \<open>settled\<close> reads only fields the expansion leaves alone.
\<close>

definition written_well :: "AppConfig \<Rightarrow> string option \<Rightarrow> bool" where
  "written_well app root \<longleftrightarrow>
     check_name app = Inr () \<and> app_sandbox app = None \<and> check_environment app = Inr ()
     \<and> check_reserved app = Inr () \<and> check_templates app root = Inr () \<and> app_script app \<noteq> []"

definition settled :: "platform \<Rightarrow> AppConfig \<Rightarrow> bool" where
  "settled pf app \<longleftrightarrow>
     app_instances app \<noteq> 0 \<and> check_cron pf app = Inr () \<and> check_probes app = Inr () \<and> check_memory pf app = Inr ()
     \<and> check_limits pf app = Inr () \<and> check_stop app = Inr () \<and> check_watch pf app = Inr ()
     \<and> check_level_rules pf app = Inr () \<and> check_dogs pf app = Inr ()"

lemma normalize_with_home_Inr:
  "normalize_with_home pf app home root = Inr app' \<longleftrightarrow>
   written_well app root \<and> check_log_templates app root = Inr ()
   \<and> (\<exists>placed deduped. expand_paths app home = Inr placed \<and> check_log_sharing placed root = Inr () \<and> settled pf placed
        \<and> dedup_targets (app_name placed) (app_depends_on placed) [] = Inr deduped
        \<and> app' = placed\<lparr> app_depends_on := deduped \<rparr>)"
  by (auto simp: normalize_with_home_def and_then_Inr written_well_def settled_def validate_sandbox_key_def)

lemma dedup_targets_Inr:
  "dedup_targets name targets deduped = Inr result \<Longrightarrow>
   set result = set deduped \<union> set targets \<and> name \<notin> set targets \<and> (distinct deduped \<longrightarrow> distinct result)
   \<and> (\<forall>t \<in> set targets. \<not> list_ex (\<lambda>c. c = CHR '':'') t)"
  by (induction name targets deduped rule: dedup_targets.induct) (auto split: if_splits)

lemma dedup_targets_distinct:
  "name \<notin> set targets \<Longrightarrow> \<forall>t \<in> set targets. \<not> list_ex (\<lambda>c. c = CHR '':'') t \<Longrightarrow> distinct (deduped @ targets) \<Longrightarrow>
   dedup_targets name targets deduped = Inr (deduped @ targets)"
  by (induction name targets deduped rule: dedup_targets.induct) (auto split: if_splits)

text \<open>Everything but the paths and the duplicates in \<open>depends_on\<close> is as it was written.\<close>

lemma normalize_keeps:
  assumes "normalize_with_home pf app home root = Inr app'"
  shows "app' = app\<lparr> app_script := app_script app', app_cwd := app_cwd app', app_out_file := app_out_file app',
           app_err_file := app_err_file app', app_depends_on := app_depends_on app' \<rparr>"
    and "app_name app' = app_name app" and "app_instances app' = app_instances app"
    and "set (app_depends_on app') = set (app_depends_on app)" and "distinct (app_depends_on app')"
    and "app_name app \<notin> set (app_depends_on app)"
  using assms by (auto simp: normalize_with_home_Inr expand_paths_Inr dest!: dedup_targets_Inr)

subsection \<open>Log paths\<close>

text \<open>A text with gaps, all filled with the same value.\<close>

definition fill :: "string option list \<Rightarrow> string \<Rightarrow> string" where
  "fill ts slot = concat (map (\<lambda>t. case t of Some text \<Rightarrow> text | None \<Rightarrow> slot) ts)"

lemma length_fill: "length (fill ts slot) = length (fill ts []) + count_list ts None * length slot"
  by (induction ts) (auto simp: fill_def split: option.splits)

lemma fill_same_length: "fill ts a = fill ts b \<Longrightarrow> None \<in> set ts \<Longrightarrow> length a = length b \<Longrightarrow> a = b"
  by (induction ts) (auto simp: fill_def split: option.splits)

lemma fill_inject: "fill ts a = fill ts b \<Longrightarrow> None \<in> set ts \<Longrightarrow> a = b"
proof -
  assume eq: "fill ts a = fill ts b" and gap: "None \<in> set ts"
  then have "count_list ts None * length a = count_list ts None * length b"
    using length_fill[of ts a] length_fill[of ts b] eq by (metis add_left_cancel)
  then have "length a = length b" using gap by (simp add: count_list_0_iff)
  then show "a = b" using fill_same_length[OF eq gap] by simp
qed

lemma fill_no_gap: "None \<notin> set ts \<Longrightarrow> fill ts a = fill ts b"
  unfolding fill_def by (rule arg_cong[where f = concat]) (auto split: option.splits)

fun slot_piece :: "string \<Rightarrow> string option \<Rightarrow> piece \<Rightarrow> string option" where
  "slot_piece name home (Text t) = Some t"
| "slot_piece name home (Escape b) = Some b"
| "slot_piece name home (Hole tok) =
     (if tok = ''instance'' then None
      else case positional tok name [] home of Some text \<Rightarrow> Some text | None \<Rightarrow> Some (push_token tok))"

lemma render_positional_fill:
  "render_positional v name i home = fill (map (slot_piece name home) (fst (lex v))) (show_nat i)"
proof -
  let ?f = "\<lambda>seg out. Inr (case seg of
            Literal lit \<Rightarrow> out @ lit
          | Token tok \<Rightarrow>
              (case positional tok name (show_nat i) home of
                 Some text \<Rightarrow> out @ text
               | None \<Rightarrow> out @ push_token tok)) :: unit + string"
  let ?g = "\<lambda>p. case slot_piece name home p of Some text \<Rightarrow> text | None \<Rightarrow> show_nat i"
  have step: "?f (segment_of p) out = Inr (out @ ?g p)" for p out
    by (cases p) (auto simp: positional_def split: option.splits)
  have "feed ?f ps out = Inr (out @ concat (map ?g ps))" for ps out
    by (induction ps arbitrary: out) (simp_all only: feed.simps step and_then_simps, simp_all)
  then show ?thesis by (simp add: render_positional_def walk_lex fill_def comp_def)
qed

text \<open>Two slots that render a path differently show that every two slots do.\<close>

lemma slots_render_apart:
  assumes "render_positional v name 0 home \<noteq> render_positional v name 1 home"
    and "render_positional v name i home = render_positional v name j home"
  shows "i = j"
proof -
  have "None \<in> set (map (slot_piece name home) (fst (lex v)))"
    using assms(1) fill_no_gap unfolding render_positional_fill by blast
  then have "show_nat i = show_nat j" using assms(2) fill_inject unfolding render_positional_fill by blast
  then show ?thesis by simp
qed

subsection \<open>Normalizing twice\<close>

definition no_brace :: "char \<Rightarrow> bool" where "no_brace c \<longleftrightarrow> c \<noteq> CHR ''{'' \<and> c \<noteq> CHR ''}''"

lemma lex_from_plain: "list_all no_brace d \<Longrightarrow> lex_from run (d @ v) = lex_from (run @ d) v"
proof (induction d arbitrary: run)
  case (Cons c d)
  then have "opens4 (c # d @ v) = None" "closes4 (c # d @ v) = None" "opens2 (c # d @ v) = None"
    by (auto simp: brace_defs no_brace_def)
  then show ?case using Cons by (simp add: lex_steps)
qed simp

lemma lex_from_run:
  "snd (lex_from run v) = snd (lex_from run' v)" "Hole tok \<in> set (fst (lex_from run v)) \<longleftrightarrow> Hole tok \<in> set (fst (lex_from run' v))"
proof (induction "length v" arbitrary: run run' v rule: less_induct)
  case less
  { case 1 show ?case using less[of "tl v"] by (cases v rule: lex_cases) (auto simp: lex_steps) }
  { case 2 show ?case using less[of "tl v"] by (cases v rule: lex_cases) (auto simp: lex_steps) }
qed

lemma plain_prefix:
  assumes "list_all no_brace d"
  shows "snd (lex (d @ v)) = snd (lex v)" and "holes (d @ v) = holes v"
  using lex_from_run(1)[of d v "[]"] lex_from_run(2)[of _ d v "[]"] by (simp_all add: lex_def holes_def lex_from_plain[OF assms])

definition good_home :: "string option \<Rightarrow> bool" where
  "good_home home \<longleftrightarrow> (case home of None \<Rightarrow> True | Some dir \<Rightarrow> (\<exists>rest. dir = CHR ''/'' # rest) \<and> list_all no_brace dir)"

lemma tail_relative: "strip_prefix ''/'' (dropWhile (\<lambda>c. c = CHR ''/'') rest) = None"
  by (induction rest) auto

text \<open>Where an expanded path starts, and what its template still is.\<close>

lemma expand_home_tilde_Inr:
  assumes "expand_home_tilde v home = Inr path" "good_home home"
  shows "expand_home_tilde path home = Inr path"
    and "snd (lex path) = snd (lex v)" and "holes path = holes v" and "path = [] \<Longrightarrow> v = []"
proof -
  consider (same) "path = v" "strip_prefix ''~'' v = None"
    | (placed) rest dir where "v = ''~'' @ rest" "rest = [] \<or> strip_prefix ''/'' rest \<noteq> None" "home = Some dir"
        "path = path_join dir (dropWhile (\<lambda>c. c = CHR ''/'') rest)"
    using assms by (auto simp: expand_home_tilde_def strip_prefix_Some split: option.splits if_splits)
  then have "expand_home_tilde path home = Inr path \<and> snd (lex path) = snd (lex v) \<and> holes path = holes v \<and> (path = [] \<longrightarrow> v = [])"
  proof cases
    case same
    then show ?thesis by (simp add: expand_home_tilde_def)
  next
    case (placed rest dir)
    let ?tail = "dropWhile (\<lambda>c. c = CHR ''/'') rest" and ?slashes = "takeWhile (\<lambda>c. c = CHR ''/'') rest"
    have dir: "list_all no_brace dir" "\<exists>r. dir = CHR ''/'' # r" using assms(2) placed by (auto simp: good_home_def)
    have "strip_prefix ''/'' ?tail = None" by (rule tail_relative)
    then have p: "path = (if dir = [] \<or> last dir = CHR ''/'' then dir else dir @ ''/'') @ ?tail"
      using placed(4) by (simp add: path_join_def)
    obtain d where d: "path = d @ ?tail" "list_all no_brace d" "\<exists>r. d = CHR ''/'' # r"
    proof (cases "dir = [] \<or> last dir = CHR ''/''")
      case True
      then show ?thesis using p dir that[of dir] by simp
    next
      case False
      then show ?thesis using p dir that[of "dir @ ''/''"] by (auto simp: no_brace_def)
    qed
    have v: "v = (''~'' @ ?slashes) @ ?tail" using placed(1) by simp
    have "list_all no_brace (''~'' @ ?slashes)" by (auto simp: list_all_iff no_brace_def dest: set_takeWhileD)
    then have "snd (lex v) = snd (lex ?tail)" "holes v = holes ?tail" using plain_prefix v by metis+
    moreover have "snd (lex path) = snd (lex ?tail)" "holes path = holes ?tail" using plain_prefix[OF d(2)] d(1) by metis+
    moreover have "expand_home_tilde path home = Inr path" using d by (auto simp: expand_home_tilde_def)
    ultimately show ?thesis using d by auto
  qed
  then show "expand_home_tilde path home = Inr path" "snd (lex path) = snd (lex v)" "holes path = holes v" "path = [] \<Longrightarrow> v = []"
    by auto
qed

lemma validate_template_Inr:
  "validate_template name field v home = Inr u \<longleftrightarrow>
   snd (lex v) = [] \<and> (\<forall>tok \<in> holes v. tok \<in> set TOKENS \<or> secret_reference tok \<noteq> None)
   \<and> (home = None \<longrightarrow> SHEP_HOME \<notin> holes v)"
  using template_validate_iff[of v]
  by (cases "template_validate v") (auto simp: validate_template_def holds_shep_home_def holds_token_iff)

text \<open>The template checks read a value through its holes.\<close>

definition log_ok :: "string option \<Rightarrow> string option \<Rightarrow> bool" where
  "log_ok home path \<longleftrightarrow> (\<forall>v \<in> set_option path.
     snd (lex v) = [] \<and> (\<forall>tok \<in> holes v. tok \<in> set TOKENS \<and> secret_reference tok = None)
     \<and> (home = None \<longrightarrow> SHEP_HOME \<notin> holes v))"

lemma check_log_templates_Inr:
  "check_log_templates app home = Inr u \<longleftrightarrow> log_ok home (app_out_file app) \<and> log_ok home (app_err_file app)"
proof -
  have one: "(case p of None \<Rightarrow> Inr ()
     | Some v \<Rightarrow> and_then (validate_template (app_name app) field v home)
         (\<lambda>_. ensure (\<not> holds_secret v) (SecretInLogPath (app_name app) field))) = Inr () \<longleftrightarrow> log_ok home p" for p field
    by (auto simp: log_ok_def and_then_Inr validate_template_Inr holds_secret_def holds_token_iff split: option.splits)
  show ?thesis by (simp add: check_log_templates_def log_fields_def and_then_Inr one)
qed

lemma expand_slot_again:
  assumes "expand_slot p home name field = Inr p'" "good_home home"
  shows "expand_slot p' home name field = Inr p'" and "log_ok root p' = log_ok root p" and "p' = None \<longleftrightarrow> p = None"
  using assms expand_home_tilde_Inr[OF _ assms(2)]
  by (auto simp: expand_slot_def expand_tilde_def log_ok_def and_then_Inr split: option.splits sum.splits TildeError.splits)

lemma expand_tilde_again:
  assumes "expand_tilde v home name field = Inr p" "good_home home"
  shows "expand_tilde p home name field = Inr p" and "p = [] \<Longrightarrow> v = []"
  using assms expand_home_tilde_Inr[OF _ assms(2)]
  by (auto simp: expand_tilde_def split: sum.splits TildeError.splits)

text \<open>The fields each check reads.\<close>

lemmas check_defs = check_name_def check_environment_def check_reserved_def check_templates_def check_log_sharing_def
  log_fields_def check_cron_def check_probes_def check_memory_def check_limits_def check_stop_def check_watch_def
  check_level_rules_def check_dogs_def

lemma settled_depends [simp]: "settled pf (app\<lparr> app_depends_on := d \<rparr>) = settled pf app"
  by (simp add: settled_def check_defs Let_def cong: if_cong option.case_cong sum.case_cong)

lemma sharing_depends [simp]: "check_log_sharing (app\<lparr> app_depends_on := d \<rparr>) root = check_log_sharing app root"
  by (simp add: check_defs cong: if_cong option.case_cong)

lemma written_well_placed:
  "script \<noteq> [] \<Longrightarrow> written_well app root \<Longrightarrow>
   written_well (app\<lparr> app_script := script, app_cwd := cwd, app_out_file := out_file, app_err_file := err_file, app_depends_on := d \<rparr>) root"
  by (simp add: written_well_def check_defs cong: if_cong option.case_cong)

lemma settled_instances: "settled pf app \<Longrightarrow> n \<noteq> 0 \<Longrightarrow> settled pf (app\<lparr> app_instances := n \<rparr>)"
  by (simp add: settled_def check_defs Let_def cong: if_cong option.case_cong sum.case_cong)

lemma written_well_instances [simp]: "written_well (app\<lparr> app_instances := n \<rparr>) root = written_well app root"
  by (simp add: written_well_def check_defs cong: if_cong option.case_cong)

lemma sharing_instances:
  "check_log_sharing app root = Inr () \<Longrightarrow> n \<le> app_instances app \<Longrightarrow> check_log_sharing (app\<lparr> app_instances := n \<rparr>) root = Inr ()"
  by (auto simp: check_log_sharing_def log_fields_def split: if_splits option.splits)

lemma normalize_twice:
  assumes n: "normalize_with_home pf app home root = Inr app'" and home: "good_home home"
  shows "normalize_with_home pf app' home root = Inr app'"
proof -
  from n obtain script cwd out_file err_file placed deduped where
    e: "expand_tilde (app_script app) home (app_name app) ''script'' = Inr script"
      "expand_slot (app_cwd app) home (app_name app) ''cwd'' = Inr cwd"
      "expand_slot (app_out_file app) home (app_name app) ''out_file'' = Inr out_file"
      "expand_slot (app_err_file app) home (app_name app) ''err_file'' = Inr err_file"
    and placed: "placed = app\<lparr> app_script := script, app_cwd := cwd, app_out_file := out_file, app_err_file := err_file \<rparr>"
    and w: "written_well app root" "check_log_templates app root = Inr ()" "check_log_sharing placed root = Inr ()" "settled pf placed"
    and d: "dedup_targets (app_name placed) (app_depends_on placed) [] = Inr deduped" and app': "app' = placed\<lparr> app_depends_on := deduped \<rparr>"
    by (auto simp: normalize_with_home_Inr expand_paths_Inr)
  have script: "script \<noteq> []" using expand_tilde_again(2)[OF e(1) home] w(1) by (auto simp: written_well_def)
  have "expand_paths app' home = Inr app'"
    using expand_tilde_again(1)[OF e(1) home] expand_slot_again(1)[OF e(2) home] expand_slot_again(1)[OF e(3) home]
      expand_slot_again(1)[OF e(4) home]
    by (simp add: expand_paths_def app' placed)
  moreover have "check_log_templates app' root = Inr ()"
    using w(2) expand_slot_again(2)[OF e(3) home] expand_slot_again(2)[OF e(4) home]
    by (simp add: check_log_templates_Inr app' placed)
  moreover have "written_well app' root" using written_well_placed[OF script w(1)] by (simp add: app' placed)
  moreover have "dedup_targets (app_name app') (app_depends_on app') [] = Inr (app_depends_on app')"
    using dedup_targets_Inr[OF d] dedup_targets_distinct[of "app_name app'" "app_depends_on app'" "[]"] by (auto simp: app')
  ultimately show ?thesis using w(3,4) by (auto simp: normalize_with_home_Inr app')
qed

lemma normalize_fewer_instances:
  assumes "normalize_with_home pf app home root = Inr app'" "n \<noteq> 0" "n \<le> app_instances app"
  shows "normalize_with_home pf (app\<lparr> app_instances := n \<rparr>) home root = Inr (app'\<lparr> app_instances := n \<rparr>)"
proof -
  from assms(1) obtain placed deduped where p: "expand_paths app home = Inr placed"
    and w: "written_well app root" "check_log_templates app root = Inr ()" "check_log_sharing placed root = Inr ()" "settled pf placed"
    and d: "dedup_targets (app_name placed) (app_depends_on placed) [] = Inr deduped" "app' = placed\<lparr> app_depends_on := deduped \<rparr>"
    by (auto simp: normalize_with_home_Inr)
  have "expand_paths (app\<lparr> app_instances := n \<rparr>) home = Inr (placed\<lparr> app_instances := n \<rparr>)" and i: "app_instances placed = app_instances app"
    using p by (auto simp: expand_paths_Inr)
  moreover have "check_log_templates (app\<lparr> app_instances := n \<rparr>) root = Inr ()" using w(2) by (simp add: check_log_templates_Inr)
  moreover have "check_log_sharing (placed\<lparr> app_instances := n \<rparr>) root = Inr ()" using sharing_instances[OF w(3), of n] assms(3) i by simp
  moreover have "app'\<lparr> app_instances := n \<rparr> = placed\<lparr> app_instances := n, app_depends_on := deduped \<rparr>" using d(2) by simp
  ultimately show ?thesis
    unfolding normalize_with_home_Inr using w(1) settled_instances[OF w(4) assms(2)] d(1)
    by (intro conjI exI[of _ "placed\<lparr> app_instances := n \<rparr>"] exI[of _ deduped]) simp_all
qed

subsection \<open>A whole Flockfile\<close>

lemma normalize_each_Inr:
  "normalize_each pf apps seen = Inr resolved \<Longrightarrow>
   list_all2 (\<lambda>app app'. normalize pf app = Inr app') apps resolved \<and> distinct (map app_name apps)
   \<and> app_name ` set apps \<inter> seen = {}"
  by (induction pf apps seen arbitrary: resolved rule: normalize_each.induct)
    (auto simp: and_then_Inr split: if_splits)

lemma normalize_each_names:
  assumes "list_all2 (\<lambda>app app'. normalize pf app = Inr app') apps resolved"
  shows "map app_name resolved = map app_name apps"
  using assms by (induction rule: list_all2_induct) (simp_all add: normalize_def normalize_keeps(2))

lemma no_cycle_no_knot: "bp_cycles (plan nodes) = [] \<Longrightarrow> knotted nodes = []"
  by (simp add: knotted_def bset_def)

subsection \<open>Properties\<close>

definition demo_platform :: platform where
  "demo_platform =
     \<lparr> pf_home_dir = Some ''/home/ada'', pf_env_var = Map.empty, pf_glob = Map.empty, pf_regex = Map.empty,
       pf_croner = Map.empty, pf_timezone = (\<lambda>_. True), pf_enforceable = (\<lambda>_. True), pf_linux = True, pf_unix = True,
       pf_windows = False \<rparr>"

definition pair_app :: AppConfig where
  "pair_app = (minimal ''web'' ''/srv/web'')\<lparr> app_instances := 2, app_cwd := Some ''/srv'', app_out_file := Some ''{{instance}}'' \<rparr>"

lemma pair_lex: "lex ''{{instance}}'' = ([Text [], Hole ''instance'', Text []], [])"
  using lex_one_hole[of "''instance''"] by (simp add: push_token_def)

lemma pair_secret: "secret_reference ''instance'' = None"
  by (simp add: secret_reference_def SECRET_PREFIX_def)

lemma show_nat_1: "show_nat 1 = ''1''"
  by (subst show_nat.simps) (simp add: digit_char_def, code_simp)

lemma show_small [simp]: "show_nat 0 = ''0''" "show_nat (Suc 0) = ''1''"
  using show_nat_0 show_nat_1 by simp_all

lemma pair_normalizes: "normalize demo_platform pair_app = Inr pair_app"
proof -
  have "written_well pair_app root" for root
    by (simp add: written_well_def check_defs pair_app_def minimal_def RESERVED_ENV_def)
  moreover have "check_log_templates pair_app root = Inr ()" for root
    by (simp add: check_log_templates_Inr log_ok_def pair_app_def minimal_def holes_def pair_lex pair_secret TOKENS_def SHEP_HOME_def)
  moreover have "expand_paths pair_app home = Inr pair_app" for home
    by (simp add: expand_paths_def expand_tilde_def expand_slot_def expand_home_tilde_def pair_app_def minimal_def)
  moreover have "check_log_sharing pair_app root = Inr ()" for root
    by (simp add: check_log_sharing_def log_fields_def pair_app_def minimal_def render_positional_fill pair_lex fill_def)
  moreover have "settled demo_platform pair_app"
    by (simp add: settled_def check_defs pair_app_def minimal_def validate_probe_def validate_watch_globs_def validate_listen_def
        validate_sandbox_def level_matcher_compile_def demo_platform_def MAX_LEVEL_RULES_def MAX_ACTION_TIMEOUT_def up_from_millis_def
        from_millis_def)
  ultimately show ?thesis
    unfolding normalize_def normalize_with_home_Inr
    by (intro conjI exI[of _ pair_app] exI[of _ "[]"]) (simp_all add: pair_app_def minimal_def)
qed

lemma demo_home: "good_home (pf_home_dir demo_platform)"
  by (simp add: good_home_def demo_platform_def no_brace_def)

text \<open>
  C23. Normalizing is idempotent: on a machine whose home directory is absolute and holds no brace, what
  was accepted is accepted again, unchanged. So a config the daemon stored, or sends back through
  \<open>normalize\<close> after an edit elsewhere, is refused for nothing the first pass let through.
\<close>

theorem normalize_idempotent:
  "normalize pf app = Inr app' \<Longrightarrow> good_home (pf_home_dir pf) \<Longrightarrow> normalize pf app' = Inr app'"
  unfolding normalize_def by (rule normalize_twice)

definition tilde_app :: AppConfig where
  "tilde_app = (minimal ''web'' ''~/web'')\<lparr> app_depends_on := [''a'', ''b'', ''a''] \<rparr>"

lemma tilde_normalizes:
  "normalize demo_platform tilde_app = Inr (tilde_app\<lparr> app_script := ''/home/ada/web'', app_depends_on := [''a'', ''b''] \<rparr>)"
proof -
  have "written_well tilde_app root" for root
    by (simp add: written_well_def check_defs tilde_app_def minimal_def RESERVED_ENV_def)
  moreover have "check_log_templates tilde_app root = Inr ()" for root
    by (simp add: check_log_templates_Inr log_ok_def tilde_app_def minimal_def)
  moreover have "expand_paths tilde_app (pf_home_dir demo_platform) = Inr (tilde_app\<lparr> app_script := ''/home/ada/web'' \<rparr>)"
    by (simp add: expand_paths_def expand_tilde_def expand_slot_def expand_home_tilde_def tilde_app_def minimal_def demo_platform_def
        path_join_def)
  moreover have "check_log_sharing (tilde_app\<lparr> app_script := ''/home/ada/web'' \<rparr>) root = Inr ()" for root
    by (simp add: check_log_sharing_def tilde_app_def minimal_def)
  moreover have "settled demo_platform (tilde_app\<lparr> app_script := ''/home/ada/web'' \<rparr>)"
    by (simp add: settled_def check_defs tilde_app_def minimal_def validate_probe_def validate_watch_globs_def validate_listen_def
        validate_sandbox_def level_matcher_compile_def demo_platform_def MAX_LEVEL_RULES_def MAX_ACTION_TIMEOUT_def up_from_millis_def
        from_millis_def)
  ultimately show ?thesis
    unfolding normalize_def normalize_with_home_Inr
    by (intro conjI exI[of _ "tilde_app\<lparr> app_script := ''/home/ada/web'' \<rparr>"] exI[of _ "[''a'', ''b'']"])
      (simp_all add: tilde_app_def minimal_def)
qed

theorem normalize_idempotent_witness:
  "normalize demo_platform (tilde_app\<lparr> app_script := ''/home/ada/web'', app_depends_on := [''a'', ''b''] \<rparr>) =
     Inr (tilde_app\<lparr> app_script := ''/home/ada/web'', app_depends_on := [''a'', ''b''] \<rparr>)"
  using normalize_idempotent[OF tilde_normalizes demo_home] .

text \<open>
  C21. An accepted Flockfile boots in order. Its apps keep their names, which are distinct; the boot plan
  over them starts each exactly once, and each in a later stage than every app of the document it
  depends on: nothing accepted holds a cycle.
\<close>

theorem accepted_flock_boots_in_order:
  assumes "normalize_all pf apps = Inr resolved"
  shows "map app_name resolved = map app_name apps \<and> distinct (map app_name resolved)
    \<and> distinct (concat (bp_stages (plan (map boot_node_of resolved))))
    \<and> set (concat (bp_stages (plan (map boot_node_of resolved)))) = app_name ` set resolved
    \<and> (\<forall>app \<in> set resolved. \<forall>dep \<in> set (app_depends_on app). dep \<in> app_name ` set resolved \<longrightarrow>
         starts_before (bp_stages (plan (map boot_node_of resolved))) dep (app_name app))"
proof -
  let ?nodes = "map boot_node_of resolved"
  from assms obtain r where r: "normalize_each pf apps {} = Inr r"
    "(case bp_cycles (plan (map boot_node_of r)) of cycle # _ \<Rightarrow> Inl (DependencyCycle cycle) | [] \<Rightarrow> Inr r) = Inr resolved"
    unfolding normalize_all_def and_then_Inr by blast
  then have each: "normalize_each pf apps {} = Inr resolved" and "bp_cycles (plan ?nodes) = []"
    by (cases "bp_cycles (plan (map boot_node_of r))"; simp del: plan_cycles)+
  then have knots: "knotted ?nodes = []" by (simp add: no_cycle_no_knot)
  have names: "map app_name resolved = map app_name apps" using normalize_each_Inr[OF each] normalize_each_names by blast
  have dist: "distinct (map app_name resolved)" using normalize_each_Inr[OF each] names by simp
  have "map bn_name ?nodes = map app_name resolved" by (simp add: boot_node_of_def)
  then have one: "one_each ?nodes" using dist by (auto simp: one_each_def boot_node_of_def comp_def)
  have node: "bn_name ` set ?nodes = app_name ` set resolved" by (force simp: boot_node_of_def)
  have "starts_before (bp_stages (plan ?nodes)) dep (app_name app)"
    if "app \<in> set resolved" "dep \<in> set (app_depends_on app)" "dep \<in> app_name ` set resolved" for app dep
    using plan_order[OF one, of "boot_node_of app" dep] that node knots by (simp add: boot_node_of_def)
  then show ?thesis using names dist plan_once[OF one] node by simp
qed

theorem accepted_flock_boots_in_order_witness:
  "\<exists>resolved. normalize_all demo_platform [pair_app] = Inr resolved \<and> distinct (concat (bp_stages (plan (map boot_node_of resolved))))"
proof -
  have "bp_cycles (plan (map boot_node_of [pair_app])) = []"
    by (simp add: boot_node_of_def pair_app_def minimal_def, code_simp)
  then have "normalize_all demo_platform [pair_app] = Inr [pair_app]"
    by (simp add: normalize_all_def pair_normalizes)
  then show ?thesis using accepted_flock_boots_in_order[of demo_platform "[pair_app]" "[pair_app]"] by blast
qed

end
