(* ===== verification/Brain.thy ===== *)
theory Brain
  imports App_Config
begin

text \<open>
  What the daemon does about an exit: the restart budget (\<open>shep-daemon/src/entry.rs\<close>), the
  backoff (\<open>backoff.rs\<close>) and the decision itself (\<open>brain.rs\<close>).
\<close>

subsection \<open>The restart budget\<close>

record RestartBudget = unstable_count :: u32

datatype Stability = Stable | Unstable

definition budget_default :: RestartBudget where
  "budget_default = \<lparr> unstable_count = 0 \<rparr>"

definition note_failed_start :: "RestartBudget \<Rightarrow> RestartBudget" where
  "note_failed_start b = b\<lparr> unstable_count := unstable_count b + 1 \<rparr>"

definition note_exit :: "RestartBudget \<Rightarrow> duration \<Rightarrow> duration \<Rightarrow> RestartBudget \<times> Stability" where
  "note_exit b uptime min_uptime =
     (if min_uptime \<le> uptime then (b\<lparr> unstable_count := 0 \<rparr>, Stable)
      else (note_failed_start b, Unstable))"

definition exhausted :: "RestartBudget \<Rightarrow> u32 \<Rightarrow> bool" where
  "exhausted b max_restarts \<longleftrightarrow> max_restarts \<le> unstable_count b"

definition budget_reset :: "RestartBudget \<Rightarrow> RestartBudget" where
  "budget_reset b = b\<lparr> unstable_count := 0 \<rparr>"

subsection \<open>Backoff\<close>

text \<open>One turn of the loop, in \<open>u64\<close> arithmetic that wraps as a release build's does.\<close>

definition backoff_step :: "u64 \<Rightarrow> u64" where
  "backoff_step d = min (d * 3 div 2) 15000"

fun backoff_loop :: "nat \<Rightarrow> u64 \<Rightarrow> u64" where
  "backoff_loop 0 d = d"
| "backoff_loop (Suc n) d = backoff_loop n (backoff_step d)"

definition restart_delay :: "AppConfig \<Rightarrow> u32 \<Rightarrow> duration option" where
  "restart_delay app consecutive_unstable =
     (case app_restart_delay app of
        Some fixed \<Rightarrow> Some (as_duration fixed)
      | None \<Rightarrow>
          if consecutive_unstable = 0 then None
          else case app_exp_backoff_restart_delay app of
            Some initial \<Rightarrow>
              Some (from_millis (backoff_loop (unat consecutive_unstable - 1) (as_millis initial)))
          | None \<Rightarrow> None)"

text \<open>Wall-clock moments are nanoseconds since an epoch; \<open>duration_since\<close> in the past is zero.\<close>

definition adopted_restart_delay :: "AppConfig \<Rightarrow> nat option \<Rightarrow> nat \<Rightarrow> duration option" where
  "adopted_restart_delay app due now =
     (let ceiling = restart_delay app 1 in
      case due of
        None \<Rightarrow> ceiling
      | Some due \<Rightarrow>
          (let remaining = due - now;
               remaining = (case ceiling of Some c \<Rightarrow> min remaining c | None \<Rightarrow> 0)
           in if 0 < remaining then Some remaining else None))"

subsection \<open>The decision\<close>

record ExitOutcome =
  exit_code :: "int option"
  exit_signal :: "int option"

definition SANDBOX_REFUSED_EXIT :: int where "SANDBOX_REFUSED_EXIT = 125"

definition SANDBOX_DOG :: string where "SANDBOX_DOG = ''sandbox''"

definition is_sandboxed :: "AppConfig \<Rightarrow> bool" where
  "is_sandboxed app \<longleftrightarrow> map_of (app_dogs app) SANDBOX_DOG \<noteq> None"

definition is_sandbox_refusal :: "AppConfig \<Rightarrow> int option \<Rightarrow> bool" where
  "is_sandbox_refusal app code \<longleftrightarrow> is_sandboxed app \<and> code = Some SANDBOX_REFUSED_EXIT"

datatype Decision = Restart "duration option" | CleanStop | DErrored | SandboxRefused

definition decide_on_exit ::
  "AppConfig \<Rightarrow> RestartBudget \<Rightarrow> duration \<Rightarrow> ExitOutcome \<Rightarrow> bool \<Rightarrow> bool \<Rightarrow>
   RestartBudget \<times> Decision" where
  "decide_on_exit app budget uptime ex manual_stop oom_killed =
     (if manual_stop then (budget, CleanStop)
      else if is_sandbox_refusal app (exit_code ex) then (budget, SandboxRefused)
      else if (case exit_code ex of Some code \<Rightarrow> code \<in> set (app_stop_exit_codes app) | None \<Rightarrow> False)
        then (budget, CleanStop)
      else if \<not> app_autorestart app then (budget, CleanStop)
      else
        (let budget = (if oom_killed then note_failed_start budget
                       else fst (note_exit budget uptime (as_duration (app_min_uptime app)))) in
         if exhausted budget (app_max_restarts app) then (budget, DErrored)
         else (budget, Restart (restart_delay app (unstable_count budget)))))"

subsection \<open>Backoff bounds\<close>

lemma unat_15000 [simp]: "unat (15000 :: u64) = 15000"
  by simp

lemma unat_backoff_step:
  assumes "unat d * 3 < 2 ^ 64"
  shows "unat (backoff_step d) = min (unat d * 3 div 2) 15000"
proof -
  have "unat (d * 3) = unat d * 3" using assms by (subst unat_mult_lem[THEN iffD1]) simp_all
  then have "unat (d * 3 div 2) = unat d * 3 div 2" by (simp add: unat_div)
  then show ?thesis by (simp add: backoff_step_def min_def word_le_nat_alt)
qed

lemma backoff_step_le: "backoff_step d \<le> 15000"
  by (simp add: backoff_step_def)

lemma backoff_step_mono_range:
  assumes "d \<le> 15000"
  shows "d \<le> backoff_step d"
proof -
  have "unat d \<le> 15000" using assms by (simp add: word_le_nat_alt)
  then show ?thesis by (simp add: word_le_nat_alt unat_backoff_step)
qed

lemma backoff_loop_Suc: "backoff_loop (Suc n) d = backoff_step (backoff_loop n d)"
  by (induction n arbitrary: d) simp_all

lemma backoff_loop_le: "d \<le> 15000 \<Longrightarrow> backoff_loop n d \<le> 15000"
  by (cases n) (simp_all only: backoff_loop.simps(1) backoff_loop_Suc backoff_step_le)

lemma backoff_loop_mono:
  assumes "d \<le> 15000" "m \<le> n"
  shows "backoff_loop m d \<le> backoff_loop n d"
  using assms(2)
proof (induction n)
  case (Suc n)
  then show ?case
    using backoff_step_mono_range[OF backoff_loop_le[OF assms(1)], of n]
    by (cases "m = Suc n") (auto simp: backoff_loop_Suc simp del: backoff_loop.simps(2))
qed simp

text \<open>From 2 ms on each step grows the delay by at least a millisecond until it saturates.\<close>

lemma backoff_loop_grows:
  assumes "2 \<le> d" "d \<le> 15000"
  shows "min (unat d + n) 15000 \<le> unat (backoff_loop n d)"
proof (induction n)
  case 0
  show ?case using assms by (simp add: word_le_nat_alt)
next
  case (Suc n)
  let ?b = "backoff_loop n d"
  have b: "unat ?b \<le> 15000" using backoff_loop_le[OF assms(2)] by (simp add: word_le_nat_alt)
  have "2 \<le> unat ?b"
    using backoff_loop_mono[OF assms(2), of 0 n] assms(1) by (simp add: word_le_nat_alt)
  then have "min (unat ?b + 1) 15000 \<le> min (unat ?b * 3 div 2) 15000" by linarith
  also have "\<dots> = unat (backoff_step ?b)" using b by (simp add: unat_backoff_step)
  finally show ?case using Suc by (simp add: backoff_loop_Suc del: backoff_loop.simps(2))
qed

lemma backoff_loop_saturates:
  assumes "2 \<le> d" "d \<le> 15000" "15000 \<le> n"
  shows "backoff_loop n d = 15000"
proof (rule antisym)
  show "backoff_loop n d \<le> 15000" by (rule backoff_loop_le[OF assms(2)])
  show "15000 \<le> backoff_loop n d"
    using backoff_loop_grows[OF assms(1,2), of n] assms(3) by (simp add: word_le_nat_alt)
qed

subsection \<open>Runs of exits\<close>

text \<open>
  The decisions of a whole crash loop: each unmanned exit is decided in turn until one is
  not a restart, as the supervisor's respawns make it.
\<close>

fun crash_run ::
  "AppConfig \<Rightarrow> RestartBudget \<Rightarrow> (duration \<times> ExitOutcome \<times> bool) list \<Rightarrow> Decision list" where
  "crash_run app b [] = []"
| "crash_run app b ((uptime, ex, oom) # rest) =
     (case decide_on_exit app b uptime ex False oom of
        (b', Restart d) \<Rightarrow> Restart d # crash_run app b' rest
      | (_, d) \<Rightarrow> [d])"

text \<open>An exit that charges the budget: killed for memory, or up for less than \<open>min_uptime\<close>.\<close>

definition charged_exit :: "AppConfig \<Rightarrow> duration \<times> ExitOutcome \<times> bool \<Rightarrow> bool" where
  "charged_exit app e = (case e of (uptime, ex, oom) \<Rightarrow>
     app_autorestart app \<and> \<not> is_sandbox_refusal app (exit_code ex) \<and>
     (case exit_code ex of Some code \<Rightarrow> code \<notin> set (app_stop_exit_codes app) | None \<Rightarrow> True) \<and>
     (oom \<or> uptime < as_duration (app_min_uptime app)))"

lemma decide_charged:
  assumes "charged_exit app (uptime, ex, oom)"
  shows "decide_on_exit app b uptime ex False oom =
    (let b' = note_failed_start b in
     if exhausted b' (app_max_restarts app) then (b', DErrored)
     else (b', Restart (restart_delay app (unstable_count b'))))"
  using assms
  by (auto simp: charged_exit_def decide_on_exit_def note_exit_def Let_def split: option.splits)

lemma crash_run_charged:
  assumes "list_all (charged_exit app) es"
    and "unat (unstable_count b) + k + 1 = unat (app_max_restarts app)"
    and "k < length es"
  shows "crash_run app b es =
    map (\<lambda>i. Restart (restart_delay app (unstable_count b + word_of_nat (Suc i)))) [0..<k] @ [DErrored]"
  using assms
proof (induction k arbitrary: b es)
  case 0
  then obtain u ex oom es' where es: "es = (u, ex, oom) # es'" by (cases es) auto
  have lt: "unat (app_max_restarts app) < 4294967296"
    using unsigned_less[where 'a = nat, of "app_max_restarts app"] by simp
  have "charged_exit app (u, ex, oom)" using 0 es by simp
  then show ?case
    using 0 es lt by (simp add: decide_charged exhausted_def note_failed_start_def Let_def
        word_le_nat_alt unat_word_ariths)
next
  case (Suc k)
  then obtain u ex oom es' where es: "es = (u, ex, oom) # es'" by (cases es) auto
  let ?b = "note_failed_start b"
  have lt: "unat (app_max_restarts app) < 4294967296"
    using unsigned_less[where 'a = nat, of "app_max_restarts app"] by simp
  have cnt: "unat (unstable_count ?b) = unat (unstable_count b) + 1"
    using Suc.prems(2) lt by (simp add: note_failed_start_def unat_word_ariths)
  have "decide_on_exit app b u ex False oom =
      (?b, Restart (restart_delay app (unstable_count ?b)))"
    using Suc.prems es cnt by (simp add: decide_charged Let_def exhausted_def word_le_nat_alt)
  moreover have "crash_run app ?b es' =
    map (\<lambda>i. Restart (restart_delay app (unstable_count ?b + word_of_nat (Suc i)))) [0..<k] @ [DErrored]"
    using Suc.IH[of es' ?b] Suc.prems es cnt by simp
  moreover have "[0..<Suc k] = 0 # map Suc [0..<k]"
    by (metis upt_conv_Cons map_Suc_upt zero_less_Suc)
  ultimately show ?case
    using es by (simp add: note_failed_start_def comp_def algebra_simps del: upt_Suc)
qed

subsection \<open>Properties\<close>

text \<open>
  C27. A crash loop ends. An app with a budget of \<open>k + 1\<close> whose every exit is unstable is
  restarted exactly \<open>k\<close> times, after the delays the backoff prescribes, and is errored at
  the next exit, however many more exits there would have been. The budget counter never
  wraps on the way.
\<close>

theorem crash_loop_parks:
  assumes "list_all (charged_exit app) es" "unat (app_max_restarts app) = k + 1" "k < length es"
  shows "crash_run app budget_default es =
    map (\<lambda>i. Restart (restart_delay app (word_of_nat (Suc i)))) [0..<k] @ [DErrored]"
  using crash_run_charged[of app es budget_default k] assms by (simp add: budget_default_def)

definition crash_exit :: "duration \<times> ExitOutcome \<times> bool" where
  "crash_exit = (0, \<lparr> exit_code = Some 1, exit_signal = None \<rparr>, False)"

theorem crash_loop_parks_witness:
  "crash_run ((minimal ''web'' ''./srv'')\<lparr> app_max_restarts := 3 \<rparr>) budget_default
     [crash_exit, crash_exit, crash_exit, crash_exit] =
   [Restart (Some 100000000), Restart (Some 150000000), DErrored]"
proof -
  let ?app = "(minimal ''web'' ''./srv'')\<lparr> app_max_restarts := 3 \<rparr>"
  have "list_all (charged_exit ?app) [crash_exit, crash_exit, crash_exit, crash_exit]"
    by (simp add: charged_exit_def crash_exit_def minimal_def is_sandbox_refusal_def is_sandboxed_def
        up_from_millis_def from_millis_def)
  then have "crash_run ?app budget_default [crash_exit, crash_exit, crash_exit, crash_exit] =
    map (\<lambda>i. Restart (restart_delay ?app (word_of_nat (Suc i)))) [0..<2] @ [DErrored]"
    by (rule crash_loop_parks) simp_all
  also have "\<dots> = [Restart (Some 100000000), Restart (Some 150000000), DErrored]"
  proof -
    have "[0..<2] = [0, 1 :: nat]" by (simp add: upt_rec)
    moreover have "backoff_loop 1 100 = (150 :: u64)" by (simp add: backoff_step_def)
    ultimately show ?thesis by (simp add: restart_delay_def minimal_def from_millis_def)
  qed
  finally show ?thesis .
qed

text \<open>
  C37. Backoff bounds. From an initial delay between 2 ms and the 15 s ceiling the delay never
  shrinks from one unstable exit to the next, never passes the ceiling, and has reached it
  after at most 15000 steps; no multiplication overflows.
\<close>

theorem backoff_bounds:
  assumes "2 \<le> d" "d \<le> 15000"
  shows "backoff_loop m d \<le> backoff_loop (m + n) d \<and> backoff_loop m d \<le> 15000 \<and>
    backoff_loop (15000 + n) d = 15000 \<and> unat (backoff_loop m d) * 3 < 2 ^ 64"
proof (intro conjI)
  show "backoff_loop m d \<le> backoff_loop (m + n) d" using backoff_loop_mono[OF assms(2)] by simp
  show le: "backoff_loop m d \<le> 15000" by (rule backoff_loop_le[OF assms(2)])
  show "backoff_loop (15000 + n) d = 15000" using backoff_loop_saturates[OF assms] by simp
  show "unat (backoff_loop m d) * 3 < 2 ^ 64" using le by (simp add: word_le_nat_alt)
qed

theorem backoff_bounds_witness:
  "backoff_loop 1 100 = 150 \<and> backoff_loop 1 100 \<le> backoff_loop (1 + 1) (100 :: u64) \<and>
   backoff_loop (15000 + 0) 100 = (15000 :: u64)"
proof -
  have "(2 :: u64) \<le> 100" "(100 :: u64) \<le> 15000" by (simp_all add: word_le_nat_alt)
  from backoff_bounds[OF this, of 1 1] backoff_bounds[OF this, of 0 0]
  show ?thesis by (simp add: backoff_step_def)
qed

text \<open>
  Outside those bounds the arithmetic does what the grammar of the config does not
  forbid: an initial delay of 1 ms never grows, one above the ceiling drops to it, and one
  of 6148914691236517206 ms wraps the 64-bit product, so that the next delay is 1 ms.
\<close>

lemma backoff_edges:
  "backoff_loop n 1 = 1 \<and> backoff_loop 1 20000 = 15000 \<and> backoff_loop 1 6148914691236517206 = 1"
proof (intro conjI)
  show "backoff_loop n 1 = 1" by (induction n) (simp_all add: backoff_step_def)
  show "backoff_loop 1 20000 = 15000" by (simp add: backoff_step_def)
  show "backoff_loop 1 6148914691236517206 = 1" by (simp add: backoff_step_def)
qed

definition stable_exit :: "AppConfig \<Rightarrow> duration \<times> ExitOutcome \<times> bool \<Rightarrow> bool" where
  "stable_exit app e = (case e of (uptime, ex, oom) \<Rightarrow>
     app_autorestart app \<and> \<not> is_sandbox_refusal app (exit_code ex) \<and>
     (case exit_code ex of Some code \<Rightarrow> code \<notin> set (app_stop_exit_codes app) | None \<Rightarrow> True) \<and>
     \<not> oom \<and> as_duration (app_min_uptime app) \<le> uptime)"

lemma decide_stable:
  "stable_exit app (uptime, ex, oom) \<Longrightarrow> app_max_restarts app \<noteq> 0 \<Longrightarrow>
    decide_on_exit app b uptime ex False oom = (budget_reset b, Restart (restart_delay app 0))"
  by (auto simp: stable_exit_def decide_on_exit_def note_exit_def budget_reset_def exhausted_def Let_def
      split: option.splits)

text \<open>
  An app that stays up is never given up on: whatever its budget stands at, as long as every
  run lasts its \<open>min_uptime\<close> it is restarted after every exit, with the delay of a first one.
\<close>

lemma stable_app_restarts:
  assumes "list_all (stable_exit app) es" "app_max_restarts app \<noteq> 0"
  shows "crash_run app b es = replicate (length es) (Restart (restart_delay app 0))"
  using assms
proof (induction es arbitrary: b)
  case (Cons e es)
  then show ?case by (cases e) (simp add: decide_stable)
qed simp

end
