(* ===== verification/Assemble.thy ===== *)
theory Assemble
  imports Normalize Brain
begin

text \<open>
  The assembly of a spawn (\<open>shep-daemon/src/assemble/\<close>): the program, arguments, environment and log
  files one instance of an accepted app runs with. \<open>build\<close> is the body that \<open>assemble\<close> (which
  refuses an unresolvable secret) and \<open>describe\<close> (which keeps the reference as written) share.

  An environment is a lookup. The fields the supervisor fills in later are left out of \<open>SpawnSpec\<close>,
  and credentials are the ids a passwd lookup gave.
\<close>

subsection \<open>Inherited variables\<close>

definition DEFAULT_PATH :: string where "DEFAULT_PATH = ''/usr/local/bin:/usr/bin:/bin''"

definition INHERITED_UNIX :: "string list" where "INHERITED_UNIX = [''HOME'', ''USER'', ''LANG'', ''TZ'']"

definition inherited_env :: "string list \<Rightarrow> (string \<Rightarrow> string option) \<Rightarrow> string \<rightharpoonup> string" where
  "inherited_env keys env_reader =
     (let path = (case env_reader ''PATH'' of Some v \<Rightarrow> if v \<noteq> [] then v else DEFAULT_PATH | None \<Rightarrow> DEFAULT_PATH)
      in fold (\<lambda>key env. case env_reader key of Some v \<Rightarrow> env(key \<mapsto> v) | None \<Rightarrow> env) keys [''PATH'' \<mapsto> path])"

subsection \<open>The spawn\<close>

type_synonym Credentials = "u32 \<times> u32 option"

record ShepPaths =
  sp_home :: string
  sp_logs :: string

record SpawnSpec =
  ss_name :: string
  ss_program :: string
  ss_args :: "string list"
  ss_cwd :: "string option"
  ss_env :: "string \<rightharpoonup> string"
  ss_out_file :: string
  ss_err_file :: string
  ss_log_timestamps :: bool
  ss_channel :: bool
  ss_stdin :: bool
  ss_pty :: bool
  ss_credentials :: "Credentials option"
  ss_launch_link :: "string option"
  ss_leader_only_stop :: bool

definition is_relative :: "string \<Rightarrow> bool" where
  "is_relative path \<longleftrightarrow> strip_prefix ''/'' path = None"

definition anchor_log_path :: "string \<Rightarrow> string option \<Rightarrow> string" where
  "anchor_log_path rendered cwd =
     (case cwd of
        Some dir \<Rightarrow> if is_relative rendered then path_join dir rendered else rendered
      | None \<Rightarrow> rendered)"

fun render_args :: "(string \<Rightarrow> string \<Rightarrow> 'e + string) \<Rightarrow> string list \<Rightarrow> 'e + string list" where
  "render_args rd [] = Inr []"
| "render_args rd (v # vs) =
     and_then (rd v ''args'') (\<lambda>arg. and_then (render_args rd vs) (\<lambda>rest. Inr (arg # rest)))"

fun render_env ::
  "(string \<Rightarrow> string \<Rightarrow> 'e + string) \<Rightarrow> (string \<times> string) list \<Rightarrow> (string \<rightharpoonup> string) \<Rightarrow> 'e + (string \<rightharpoonup> string)" where
  "render_env rd [] env = Inr env"
| "render_env rd ((key, v) # kvs) env =
     and_then (rd v key) (\<lambda>text. render_env rd kvs (env(key \<mapsto> text)))"

definition or_insert :: "string \<Rightarrow> string \<Rightarrow> (string \<rightharpoonup> string) \<Rightarrow> string \<rightharpoonup> string" where
  "or_insert key v env = (case env key of None \<Rightarrow> env(key \<mapsto> v) | Some _ \<Rightarrow> env)"

definition command_of :: "AppConfig \<Rightarrow> string list \<Rightarrow> string \<times> string list" where
  "command_of config rendered_args =
     (case app_interpreter config of
        None \<Rightarrow> (app_script config, rendered_args)
      | Some interp \<Rightarrow>
          if interp = ''none'' then (app_script config, rendered_args)
          else (interp, app_script config # rendered_args))"

definition log_stem :: "AppConfig \<Rightarrow> nat \<Rightarrow> string" where
  "log_stem config inst =
     (if app_merge_logs config then app_name config @ ''-'' else app_name config @ ''-'' @ show_nat inst @ ''-'')"

definition log_file ::
  "(string \<Rightarrow> string \<Rightarrow> 'e + string) \<Rightarrow> ShepPaths \<Rightarrow> AppConfig \<Rightarrow> nat \<Rightarrow> string option \<Rightarrow> string \<Rightarrow> string \<Rightarrow> 'e + string" where
  "log_file rd paths config inst explicit field default_name =
     (case explicit of
        Some v \<Rightarrow> and_then (rd v field) (\<lambda>text. Inr (anchor_log_path text (app_cwd config)))
      | None \<Rightarrow> Inr (path_join (sp_logs paths) (log_stem config inst @ default_name)))"

definition build ::
  "AppConfig \<Rightarrow> nat \<Rightarrow> ShepPaths \<Rightarrow> Credentials option \<Rightarrow> string \<Rightarrow> (string \<Rightarrow> string \<Rightarrow> 'e + string) \<Rightarrow> (string \<rightharpoonup> string)
     \<Rightarrow> 'e + SpawnSpec" where
  "build config inst paths credentials environment rd inherited =
     and_then (render_args rd (app_args config)) (\<lambda>rendered_args.
     and_then (render_env rd (app_env config) inherited) (\<lambda>env.
     let (program, args) = command_of config rendered_args;
         env = env(''SHEP_INSTANCE'' \<mapsto> show_nat inst, ''SHEP_NAME'' \<mapsto> app_name config, ''SHEP_ENVIRONMENT'' \<mapsto> environment);
         env = (if app_pty config then or_insert ''TERM'' ''xterm-256color'' env else env)
     in
     and_then (log_file rd paths config inst (app_out_file config) ''out_file'' ''out.log'') (\<lambda>out_file.
     and_then (log_file rd paths config inst (app_err_file config) ''err_file'' ''err.log'') (\<lambda>err_file.
     Inr \<lparr> ss_name = app_name config, ss_program = program, ss_args = args, ss_cwd = app_cwd config, ss_env = env,
           ss_out_file = out_file, ss_err_file = err_file, ss_log_timestamps = app_log_timestamps config,
           ss_channel = (app_channel config \<or> app_wait_ready config \<or> app_shutdown_with_message config),
           ss_stdin = app_stdin config, ss_pty = app_pty config, ss_credentials = credentials,
           ss_launch_link = None, ss_leader_only_stop = is_sandboxed config \<rparr>))))"

datatype AssembleError =
    AssembleTemplate string RenderError
  | DogMissing string
  | CgroupUnavailable string string
  | Listen string

fun is_retriable :: "AssembleError \<Rightarrow> bool" where
  "is_retriable (AssembleTemplate fld source) = render_error_is_retriable source"
| "is_retriable (DogMissing dog) = False"
| "is_retriable (CgroupUnavailable setting reason) = False"
| "is_retriable (Listen source) = False"

fun assemble_error_display :: "AssembleError \<Rightarrow> string" where
  "assemble_error_display (AssembleTemplate fld source) = ''`'' @ fld @ ''`: '' @ render_error_display source"
| "assemble_error_display (DogMissing dog) =
     ''the `'' @ dog @
     ''` dog is not adopted or is disabled, and this sheep does not run without it''"
| "assemble_error_display (CgroupUnavailable setting reason) =
     ''`'' @ setting @
     ''` needs a cgroup for this sheep, and this shepherd has none: '' @ reason"
| "assemble_error_display (Listen source) = source"

definition strict_render :: "AppConfig \<Rightarrow> nat \<Rightarrow> ShepPaths \<Rightarrow> SecretView \<Rightarrow> string \<Rightarrow> string \<Rightarrow> AssembleError + string" where
  "strict_render app inst paths secrets v field =
     (case render v (app_name app) inst (Some (sp_home paths)) secrets of
        Inl source \<Rightarrow> Inl (AssembleTemplate field source)
      | Inr text \<Rightarrow> Inr text)"

definition lenient_render :: "AppConfig \<Rightarrow> nat \<Rightarrow> ShepPaths \<Rightarrow> SecretView \<Rightarrow> string \<Rightarrow> string \<Rightarrow> unit + string" where
  "lenient_render app inst paths secrets v field =
     Inr (case render v (app_name app) inst (Some (sp_home paths)) secrets of
            Inl _ \<Rightarrow> render_positional v (app_name app) inst (Some (sp_home paths))
          | Inr text \<Rightarrow> text)"

text \<open>\<open>reader\<close> is \<open>std::env::var\<close>.\<close>

definition assemble ::
  "(string \<Rightarrow> string option) \<Rightarrow> AppConfig \<Rightarrow> nat \<Rightarrow> ShepPaths \<Rightarrow> Credentials option \<Rightarrow> SecretView \<Rightarrow> AssembleError + SpawnSpec" where
  "assemble reader app inst paths credentials secrets =
     build app inst paths credentials (sv_environment secrets) (strict_render app inst paths secrets)
       (inherited_env INHERITED_UNIX reader)"

definition describe ::
  "(string \<Rightarrow> string option) \<Rightarrow> AppConfig \<Rightarrow> nat \<Rightarrow> ShepPaths \<Rightarrow> Credentials option \<Rightarrow> SecretView \<Rightarrow> SpawnSpec" where
  "describe reader app inst paths credentials secrets =
     projr (build app inst paths credentials (sv_environment secrets) (lenient_render app inst paths secrets)
       (inherited_env INHERITED_UNIX reader))"

subsection \<open>The sandbox dog\<close>

definition through_dog :: "SpawnSpec \<Rightarrow> string \<Rightarrow> string \<Rightarrow> string \<Rightarrow> SpawnSpec" where
  "through_dog spec dog home sheep =
     spec\<lparr> ss_args := [''launch'', sheep, ''--'', ss_program spec] @ ss_args spec, ss_program := dog,
           ss_launch_link := Some SANDBOX_DOG, ss_env := or_insert ''SHEP_HOME'' home (ss_env spec) \<rparr>"

subsection \<open>The environment\<close>

lemma inherited_env_at:
  "inherited_env keys reader key =
     (if key \<in> set keys \<and> reader key \<noteq> None then reader key
      else if key = ''PATH'' then Some (if reader ''PATH'' \<in> {None, Some []} then DEFAULT_PATH else the (reader ''PATH''))
      else None)"
proof -
  have "fold (\<lambda>key env. case reader key of Some v \<Rightarrow> env(key \<mapsto> v) | None \<Rightarrow> env) keys env k =
      (if k \<in> set keys \<and> reader k \<noteq> None then reader k else env k)" for env :: "string \<rightharpoonup> string" and k
    by (induction keys arbitrary: env) (auto split: option.splits)
  then show ?thesis by (auto simp: inherited_env_def Let_def split: option.splits)
qed

lemma render_env_spec:
  "render_env rd kvs env = Inr env' \<Longrightarrow> distinct (map fst kvs) \<Longrightarrow>
   (\<forall>(key, v) \<in> set kvs. \<exists>text. rd v key = Inr text \<and> env' key = Some text)
   \<and> (\<forall>key. key \<notin> fst ` set kvs \<longrightarrow> env' key = env key)"
proof (induction kvs arbitrary: env)
  case (Cons kv kvs)
  obtain key v where kv: "kv = (key, v)" by force
  from Cons.prems kv obtain shown where t: "rd v key = Inr shown" "render_env rd kvs (env(key \<mapsto> shown)) = Inr env'"
    by (auto simp: and_then_Inr)
  have "distinct (map fst kvs)" "key \<notin> fst ` set kvs" using Cons.prems kv by auto
  then show ?case using Cons.IH[OF t(2)] t(1) kv by auto
qed simp

lemma build_Inr:
  assumes "build config inst paths credentials environment rd inherited = Inr spec"
  obtains env where "render_env rd (app_env config) inherited = Inr env"
    "ss_env spec =
       (let env = env(''SHEP_INSTANCE'' \<mapsto> show_nat inst, ''SHEP_NAME'' \<mapsto> app_name config, ''SHEP_ENVIRONMENT'' \<mapsto> environment)
        in if app_pty config then or_insert ''TERM'' ''xterm-256color'' env else env)"
    "log_file rd paths config inst (app_out_file config) ''out_file'' ''out.log'' = Inr (ss_out_file spec)"
    "log_file rd paths config inst (app_err_file config) ''err_file'' ''err.log'' = Inr (ss_err_file spec)"
  using assms by (auto simp: build_def and_then_Inr Let_def split_beta)

text \<open>Two renderings that agree where the first succeeds build the same spawn.\<close>

lemma render_args_agree:
  "(\<And>v f t. rd v f = Inr t \<Longrightarrow> rd' v f = Inr t) \<Longrightarrow> render_args rd vs = Inr out \<Longrightarrow> render_args rd' vs = Inr out"
  by (induction vs arbitrary: out) (auto simp: and_then_Inr)

lemma render_env_agree:
  "(\<And>v f t. rd v f = Inr t \<Longrightarrow> rd' v f = Inr t) \<Longrightarrow> render_env rd kvs env = Inr out \<Longrightarrow> render_env rd' kvs env = Inr out"
  by (induction kvs arbitrary: env) (auto simp: and_then_Inr)

lemma log_file_agree:
  "(\<And>v f t. rd v f = Inr t \<Longrightarrow> rd' v f = Inr t) \<Longrightarrow> log_file rd paths config inst explicit field nm = Inr out \<Longrightarrow>
   log_file rd' paths config inst explicit field nm = Inr out"
  by (auto simp: log_file_def and_then_Inr split: option.splits)

lemma build_agree:
  assumes agree: "\<And>v f t. rd v f = Inr t \<Longrightarrow> rd' v f = Inr t"
    and b: "build config inst paths credentials environment rd inherited = Inr spec"
  shows "build config inst paths credentials environment rd' inherited = Inr spec"
proof -
  from b obtain args env out err where r:
    "render_args rd (app_args config) = Inr args" "render_env rd (app_env config) inherited = Inr env"
    "log_file rd paths config inst (app_out_file config) ''out_file'' ''out.log'' = Inr out"
    "log_file rd paths config inst (app_err_file config) ''err_file'' ''err.log'' = Inr err"
    by (auto simp: build_def and_then_Inr Let_def split_beta)
  note same = render_args_agree[of rd rd', OF agree r(1)] render_env_agree[of rd rd', OF agree r(2)]
    log_file_agree[of rd rd', OF agree r(3)] log_file_agree[of rd rd', OF agree r(4)]
  show ?thesis using b unfolding build_def r same by (simp add: Let_def split_beta r same)
qed

subsection \<open>Log files\<close>

text \<open>An explicit log path of an accepted app holds no secret, so the strict rendering is positional.\<close>

lemma collect_fill:
  "(\<forall>p \<in> set ps. g p = Inr (case h p of Some text \<Rightarrow> text | None \<Rightarrow> slot)) \<Longrightarrow> collect g ps = Inr (fill (map h ps) slot)"
  by (induction ps) (auto simp: fill_def)

lemma render_without_secrets:
  assumes "\<forall>tok \<in> holes v. secret_reference tok = None"
  shows "render v name inst home secrets = Inr (render_positional v name inst home)"
proof -
  have "rendered_piece name inst home secrets p = Inr (case slot_piece name home p of Some text \<Rightarrow> text | None \<Rightarrow> show_nat inst)"
    if "p \<in> set (fst (lex v))" for p
  proof (cases p)
    case (Hole tok)
    then have "secret_reference tok = None" using that assms by (simp add: holes_def)
    then show ?thesis using Hole by (auto simp: hole_secret_def positional_def split: option.splits)
  qed simp_all
  then show ?thesis unfolding render_is_by_piece render_positional_fill by (intro collect_fill) blast
qed

lemma normalize_log_fields:
  assumes "normalize_with_home pf app home root = Inr app'" "good_home home"
    and "app_out_file app' = Some v \<or> app_err_file app' = Some v"
  shows "\<forall>tok \<in> holes v. secret_reference tok = None"
    and "\<not> app_merge_logs app' \<Longrightarrow> 1 < app_instances app' \<Longrightarrow> Hole ''instance'' \<in> set (fst (lex v))"
proof -
  have again: "normalize_with_home pf app' home root = Inr app'" by (rule normalize_twice[OF assms(1,2)])
  then show "\<forall>tok \<in> holes v. secret_reference tok = None"
    using assms(3) by (auto simp: normalize_with_home_Inr check_log_templates_Inr log_ok_def)
  assume "\<not> app_merge_logs app'" "1 < app_instances app'"
  moreover obtain placed where "check_log_sharing placed root = Inr ()" "app_out_file placed = app_out_file app'"
      "app_err_file placed = app_err_file app'" "app_merge_logs placed = app_merge_logs app'"
      "app_instances placed = app_instances app'" "app_name placed = app_name app'"
    using assms(1) by (auto simp: normalize_with_home_Inr)
  ultimately have "render_positional v (app_name app') 0 root \<noteq> render_positional v (app_name app') 1 root"
    using assms(3) by (auto simp: check_log_sharing_def log_fields_def and_then_Inr split: option.splits)
  then have "None \<in> set (map (slot_piece (app_name app') root) (fst (lex v)))"
    using fill_no_gap unfolding render_positional_fill by blast
  then obtain p where p: "p \<in> set (fst (lex v))" "slot_piece (app_name app') root p = None" by auto
  from p(2) have "p = Hole ''instance''" by (cases p) (auto split: if_splits option.splits)
  then show "Hole ''instance'' \<in> set (fst (lex v))" using p by simp
qed

text \<open>A digit in front is no slash: the slots of a path are all relative or all absolute.\<close>

lemma show_nat_relative: "is_relative (show_nat i @ s)"
proof -
  obtain c cs where c: "show_nat i = c # cs" by (cases "show_nat i") auto
  then have "is_ascii_digit c" using show_nat_digits[of i] by simp
  then show ?thesis by (auto simp: is_relative_def c is_ascii_digit_def)
qed

lemma fill_relative: "is_relative (fill ts (show_nat i)) \<longleftrightarrow> is_relative (fill ts (show_nat j))"
proof (induction ts)
  case (Cons t ts)
  show ?case
  proof (cases t)
    case None
    then show ?thesis using show_nat_relative by (simp add: fill_def)
  next
    case (Some shown)
    then show ?thesis using Cons by (cases shown) (auto simp: fill_def is_relative_def)
  qed
qed (simp add: fill_def is_relative_def)

lemma anchor_inject:
  "is_relative a = is_relative b \<Longrightarrow> anchor_log_path a cwd = anchor_log_path b cwd \<Longrightarrow> a = b"
  by (auto simp: anchor_log_path_def path_join_def is_relative_def split: option.splits if_splits)

lemma name_no_root:
  assumes "normalize_with_home pf app home root = Inr app'"
  shows "strip_prefix ''/'' (app_name app' @ s) = None"
proof -
  have "list_all (\<lambda>c. c \<noteq> CHR ''/'') (app_name app')" "app_name app' \<noteq> []"
    using assms normalize_keeps(2)[OF assms]
    by (auto simp: normalize_with_home_Inr written_well_def check_name_def and_then_Inr list_ex_iff list_all_iff)
  then show ?thesis by (cases "app_name app'") auto
qed

lemma default_streams_apart:
  assumes "normalize_with_home pf app home root = Inr app'"
    and "log_file rd paths app' i None f ''out.log'' = Inr a" "log_file rd' paths app' j None g ''err.log'' = Inr b"
  shows "a \<noteq> b"
proof
  assume "a = b"
  moreover have "a = path_join (sp_logs paths) (log_stem app' i @ ''out.log'')"
    "b = path_join (sp_logs paths) (log_stem app' j @ ''err.log'')" using assms(2,3) by (simp_all add: log_file_def)
  ultimately have "log_stem app' i @ ''out.log'' = log_stem app' j @ ''err.log''"
    using name_no_root[OF assms(1)] by (auto simp: path_join_def log_stem_def split: if_splits)
  then show False by simp
qed

lemma log_file_apart:
  assumes n: "normalize_with_home pf app home root = Inr app'" "good_home home" and m: "\<not> app_merge_logs app'"
    and ij: "i \<noteq> j" "1 < app_instances app'"
    and v: "\<And>v. explicit = Some v \<Longrightarrow> app_out_file app' = Some v \<or> app_err_file app' = Some v"
    and f: "log_file (strict_render app' i paths secrets) paths app' i explicit field nm = Inr a"
      "log_file (strict_render app' j paths secrets) paths app' j explicit field nm = Inr b"
  shows "a \<noteq> b"
proof (cases explicit)
  case None
  then show ?thesis using name_no_root[OF n(1)] f m ij(1) by (auto simp: None log_file_def path_join_def log_stem_def split: if_splits)
next
  case (Some path)
  note slots = normalize_log_fields[OF n v[OF Some]]
  have "a = anchor_log_path (render_positional path (app_name app') i (Some (sp_home paths))) (app_cwd app')"
    "b = anchor_log_path (render_positional path (app_name app') j (Some (sp_home paths))) (app_cwd app')"
    using f by (simp_all add: Some log_file_def strict_render_def render_without_secrets[OF slots(1)])
  moreover have "None \<in> set (map (slot_piece (app_name app') (Some (sp_home paths))) (fst (lex path)))"
    using slots(2)[OF m ij(2)] by force
  ultimately show ?thesis
    using ij(1) anchor_inject[OF fill_relative] fill_inject unfolding render_positional_fill by (metis show_nat_inject)
qed

subsection \<open>Properties\<close>

lemma render_instance: "render ''{{instance}}'' name i home secrets = Inr (show_nat i)"
  by (subst render_without_secrets) (simp_all add: holes_def pair_lex pair_secret render_positional_fill fill_def)

text \<open>
  C20. No two instances of an accepted app write one stdout file, and no two write one stderr file,
  unless the app merges its logs: the refusal compares slots 0 and 1 of each stream alone, and that
  is enough for every pair of slots, whatever home the paths are later rendered with, whether a path
  is explicit, relative to the app's directory, or the default. Where both paths are defaults, no
  instance's stdout file is another's stderr file either; explicit paths of the two streams are not
  compared with each other. (The machine's home directory is absolute and holds no brace.)
\<close>

theorem instances_never_share_a_log:
  assumes "normalize pf app = Inr app'" "good_home (pf_home_dir pf)" "\<not> app_merge_logs app'"
    and "i \<noteq> j" "i < unat (app_instances app')" "j < unat (app_instances app')"
    and "assemble reader app' i paths credentials secrets = Inr a" "assemble reader app' j paths credentials secrets = Inr b"
  shows "ss_out_file a \<noteq> ss_out_file b \<and> ss_err_file a \<noteq> ss_err_file b
    \<and> (app_out_file app' = None \<and> app_err_file app' = None \<longrightarrow> ss_out_file a \<noteq> ss_err_file b)"
proof -
  have more: "1 < app_instances app'" using assms(4-6) by (auto simp: word_less_nat_alt)
  from assms(7) obtain a1:
    "log_file (strict_render app' i paths secrets) paths app' i (app_out_file app') ''out_file'' ''out.log'' = Inr (ss_out_file a)"
    and a2: "log_file (strict_render app' i paths secrets) paths app' i (app_err_file app') ''err_file'' ''err.log'' = Inr (ss_err_file a)"
    by (auto simp: assemble_def elim: build_Inr)
  from assms(8) obtain b1:
    "log_file (strict_render app' j paths secrets) paths app' j (app_out_file app') ''out_file'' ''out.log'' = Inr (ss_out_file b)"
    and b2: "log_file (strict_render app' j paths secrets) paths app' j (app_err_file app') ''err_file'' ''err.log'' = Inr (ss_err_file b)"
    by (auto simp: assemble_def elim: build_Inr)
  have "ss_out_file a \<noteq> ss_err_file b" if "app_out_file app' = None" "app_err_file app' = None"
    using default_streams_apart[OF assms(1)[unfolded normalize_def]] a1 b2 that by simp
  then show ?thesis
    using log_file_apart[OF assms(1)[unfolded normalize_def] assms(2,3,4) more] a1 a2 b1 b2 by blast
qed

definition demo_paths :: ShepPaths where "demo_paths = \<lparr> sp_home = ''/h'', sp_logs = ''/h/logs'' \<rparr>"

theorem instances_never_share_a_log_witness:
  "\<exists>a b. assemble Map.empty pair_app 0 demo_paths (None :: Credentials option) (one_key []) = Inr a
     \<and> assemble Map.empty pair_app 1 demo_paths (None :: Credentials option) (one_key []) = Inr b
     \<and> ss_out_file a = ''/srv/0'' \<and> ss_out_file a \<noteq> ss_out_file b \<and> ss_err_file a \<noteq> ss_err_file b"
proof -
  obtain a b where ab: "assemble Map.empty pair_app 0 demo_paths (None :: Credentials option) (one_key []) = Inr a" "ss_out_file a = ''/srv/0''"
      "assemble Map.empty pair_app 1 demo_paths (None :: Credentials option) (one_key []) = Inr b"
    by (simp add: assemble_def build_def pair_app_def minimal_def log_file_def strict_render_def render_instance command_of_def
        anchor_log_path_def is_relative_def path_join_def)
  moreover have "\<not> app_merge_logs pair_app" "app_instances pair_app = 2" by (simp_all add: pair_app_def minimal_def)
  ultimately show ?thesis
    using instances_never_share_a_log[OF pair_normalizes demo_home, of 0 1 Map.empty demo_paths None "one_key []" a b] by auto
qed

text \<open>
  C24. The environment a spawn is assembled with, variable by variable. The three identity variables
  come first and no app value can shadow them; then the app's own variables with their values
  rendered; then \<open>PATH\<close>, which is the shepherd's unless that is unset or empty, and the other
  inherited variables with the values the shepherd has; then \<open>TERM\<close> on a terminal. Nothing else
  of the shepherd's environment is in it. (On Unix; the process runner later adds the variables
  that name the descriptors it passes: \<open>LISTEN_*\<close> and \<open>SHEP_CHANNEL_*\<close>.)
\<close>

theorem child_environment:
  assumes "assemble reader app inst paths credentials secrets = Inr spec" "distinct (map fst (app_env app))"
  shows "(\<forall>(key, v) \<in> set (app_env app). \<exists>shown. render v (app_name app) inst (Some (sp_home paths)) secrets = Inr shown)
    \<and> ss_env spec key =
        (if key = ''SHEP_INSTANCE'' then Some (show_nat inst)
         else if key = ''SHEP_NAME'' then Some (app_name app)
         else if key = ''SHEP_ENVIRONMENT'' then Some (sv_environment secrets)
         else case map_of (app_env app) key of
           Some v \<Rightarrow> Some (projr (render v (app_name app) inst (Some (sp_home paths)) secrets))
         | None \<Rightarrow>
             if key = ''PATH'' then Some (if reader ''PATH'' \<in> {None, Some []} then ''/usr/local/bin:/usr/bin:/bin'' else the (reader ''PATH''))
             else if key \<in> {''HOME'', ''USER'', ''LANG'', ''TZ''} \<and> reader key \<noteq> None then reader key
             else if key = ''TERM'' \<and> app_pty app then Some ''xterm-256color'' else None)"
    (is "?rendered \<and> ss_env spec key = ?held")
proof -
  from assms(1) obtain env where e:
    "render_env (strict_render app inst paths secrets) (app_env app) (inherited_env INHERITED_UNIX reader) = Inr env"
    "ss_env spec =
       (let env = env(''SHEP_INSTANCE'' \<mapsto> show_nat inst, ''SHEP_NAME'' \<mapsto> app_name app, ''SHEP_ENVIRONMENT'' \<mapsto> sv_environment secrets)
        in if app_pty app then or_insert ''TERM'' ''xterm-256color'' env else env)"
    unfolding assemble_def by (rule build_Inr)
  note r = render_env_spec[OF e(1) assms(2)]
  have own: "\<exists>shown. render v (app_name app) inst (Some (sp_home paths)) secrets = Inr shown \<and> env k = Some shown"
    if kv: "(k, v) \<in> set (app_env app)" for k v
  proof -
    obtain shown where "strict_render app inst paths secrets v k = Inr shown" "env k = Some shown" using conjunct1[OF r] kv by auto
    then show ?thesis by (auto simp: strict_render_def split: sum.splits)
  qed
  have env: "env key = (case map_of (app_env app) key of
      Some v \<Rightarrow> Some (projr (render v (app_name app) inst (Some (sp_home paths)) secrets))
    | None \<Rightarrow> inherited_env INHERITED_UNIX reader key)"
  proof (cases "map_of (app_env app) key")
    case None
    then have "key \<notin> fst ` set (app_env app)" by (simp add: map_of_eq_None_iff)
    then show ?thesis using conjunct2[OF r] None by simp
  next
    case (Some v)
    then show ?thesis using own[OF map_of_SomeD[OF Some]] by auto
  qed
  have put: "ss_env spec key =
      (if key = ''SHEP_INSTANCE'' then Some (show_nat inst) else if key = ''SHEP_NAME'' then Some (app_name app)
       else if key = ''SHEP_ENVIRONMENT'' then Some (sv_environment secrets)
       else if key = ''TERM'' \<and> app_pty app \<and> env key = None then Some ''xterm-256color'' else env key)"
    unfolding e(2) Let_def or_insert_def by (auto split: option.splits)
  have passed: "inherited_env INHERITED_UNIX reader key =
      (if key = ''PATH'' then Some (if reader ''PATH'' \<in> {None, Some []} then ''/usr/local/bin:/usr/bin:/bin'' else the (reader ''PATH''))
       else if key \<in> {''HOME'', ''USER'', ''LANG'', ''TZ''} \<and> reader key \<noteq> None then reader key else None)"
    by (simp add: inherited_env_at INHERITED_UNIX_def DEFAULT_PATH_def)
  have ?rendered using own by fast
  moreover have "ss_env spec key = ?held"
    unfolding put env passed
    by (cases "map_of (app_env app) key"; cases "key = ''PATH''"; cases "key = ''TERM''") simp_all
  ultimately show ?thesis by (rule conjI)
qed

definition keyed_app :: AppConfig where
  "keyed_app = (minimal ''web'' ''/srv/web'')\<lparr> app_env := [(''SHEP_NAME'', ''x''), (''USER'', ''{{instance}}'')], app_pty := True \<rparr>"

theorem child_environment_witness:
  "\<exists>spec. assemble [''HOME'' \<mapsto> ''/root'', ''USER'' \<mapsto> ''root'', ''PATH'' \<mapsto> [], ''SSH_KEY'' \<mapsto> ''k''] keyed_app 1 demo_paths (None :: Credentials option) (one_key []) = Inr spec
     \<and> ss_env spec ''USER'' = Some ''1'' \<and> ss_env spec ''SHEP_NAME'' = Some ''web'' \<and> ss_env spec ''HOME'' = Some ''/root''
     \<and> ss_env spec ''PATH'' = Some ''/usr/local/bin:/usr/bin:/bin'' \<and> ss_env spec ''SSH_KEY'' = None"
proof -
  let ?reader = "[''HOME'' \<mapsto> ''/root'', ''USER'' \<mapsto> ''root'', ''PATH'' \<mapsto> [], ''SSH_KEY'' \<mapsto> ''k'']"
  have "lex ''x'' = ([Text ''x''], [])"
    by (simp add: lex_def lex_steps brace_defs)
  then have r: "render ''x'' name i home secrets = Inr ''x''" for name i home secrets
    by (subst render_without_secrets; simp add: holes_def render_positional_fill fill_def)
  obtain spec where s: "assemble ?reader keyed_app 1 demo_paths (None :: Credentials option) (one_key []) = Inr spec"
    by (simp add: assemble_def build_def keyed_app_def minimal_def log_file_def strict_render_def r render_instance command_of_def)
  have d: "distinct (map fst (app_env keyed_app))" by (simp add: keyed_app_def)
  note at = conjunct2[OF child_environment[OF s d]]
  have "ss_env spec ''USER'' = Some ''1''" "ss_env spec ''SHEP_NAME'' = Some ''web''" "ss_env spec ''HOME'' = Some ''/root''"
    "ss_env spec ''PATH'' = Some ''/usr/local/bin:/usr/bin:/bin''" "ss_env spec ''SSH_KEY'' = None"
    by (simp_all add: at keyed_app_def minimal_def render_instance)
  then show ?thesis using s by blast
qed

text \<open>The lenient rendering refuses nothing.\<close>

lemma lenient_build:
  "\<exists>spec. build app inst paths credentials environment (lenient_render app inst paths secrets) inherited = Inr spec"
proof -
  have total: "\<exists>t. lenient_render app inst paths secrets v f = Inr t" for v f by (simp add: lenient_render_def)
  have args: "\<exists>out. render_args (lenient_render app inst paths secrets) vs = Inr out" for vs
  proof (induction vs)
    case (Cons v vs)
    then show ?case using total[of v "''args''"] by auto
  qed simp
  have env: "\<exists>out. render_env (lenient_render app inst paths secrets) kvs env = Inr out" for kvs env
  proof (induction kvs arbitrary: env)
    case (Cons kv kvs)
    then show ?case using total[of "snd kv" "fst kv"] by (cases kv) auto
  qed simp
  have logs: "\<exists>out. log_file (lenient_render app inst paths secrets) paths app inst explicit field nm = Inr out" for explicit field nm
    using total[of "the explicit" field] by (cases explicit) (auto simp: log_file_def)
  obtain xs kvs out err where "render_args (lenient_render app inst paths secrets) (app_args app) = Inr xs"
    "render_env (lenient_render app inst paths secrets) (app_env app) inherited = Inr kvs"
    "log_file (lenient_render app inst paths secrets) paths app inst (app_out_file app) ''out_file'' ''out.log'' = Inr out"
    "log_file (lenient_render app inst paths secrets) paths app inst (app_err_file app) ''err_file'' ''err.log'' = Inr err"
    using args env logs by metis
  then show ?thesis by (simp add: build_def Let_def split_beta)
qed

lemma describe_assembled:
  assumes "assemble reader app inst paths credentials secrets = Inr spec"
  shows "describe reader app inst paths credentials secrets = spec"
proof -
  have "strict_render app inst paths secrets v f = Inr t \<Longrightarrow> lenient_render app inst paths secrets v f = Inr t" for v f t
    by (auto simp: strict_render_def lenient_render_def split: sum.splits)
  from build_agree[of "strict_render app inst paths secrets" "lenient_render app inst paths secrets", OF this] assms
  show ?thesis by (auto simp: assemble_def describe_def)
qed

text \<open>
  Reading a spawn and spawning it agree: \<open>describe\<close> never refuses, and where \<open>assemble\<close> does not
  refuse it gives the same spawn.
\<close>

lemma describe_agrees:
  "build app inst paths credentials (sv_environment secrets) (lenient_render app inst paths secrets) (inherited_env INHERITED_UNIX reader)
     = Inr (describe reader app inst paths credentials secrets)
   \<and> (assemble reader app inst paths credentials secrets = Inr spec \<longrightarrow> describe reader app inst paths credentials secrets = spec)"
  using lenient_build[of app inst paths credentials "sv_environment secrets" secrets "inherited_env INHERITED_UNIX reader"]
    describe_assembled by (auto simp: describe_def)

end
