(* ===== verification/Config_Merge.thy ===== *)
theory Config_Merge
  imports App_Config
begin

text \<open>
  Folding a Flockfile declaration into a running spec (\<open>supervisor/config_merge.rs\<close>), by the
  override record an operator's edits leave (\<open>shep-core/src/overrides.rs\<close>), at the depth a load
  resets to, and how each field reaches a running sheep (\<open>shep-core/src/config/apply.rs\<close>).

  The merge edits the objects configs serialize to. What serde does is a parameter, a \<open>serde\<close>
  record of the two directions; \<open>serde_ok\<close> states what the merge relies on: \<open>env\<close> is serialized as
  the object of its strings, and an object each of whose entries some config serializes to comes
  back from the config read out of it.
\<close>

subsection \<open>Objects\<close>

datatype json =
    JNull
  | JBool bool
  | JNumber string
  | JString string
  | JArray "json list"
  | JObject "string \<rightharpoonup> json"

type_synonym object = "string \<rightharpoonup> json"

record serde =
  to_object :: "AppConfig \<Rightarrow> string + object"
  from_object :: "object \<Rightarrow> string + AppConfig"

definition env_value :: "(string \<times> string) list \<Rightarrow> json" where
  "env_value env = JObject (\<lambda>k. map_option JString (map_of env k))"

definition serde_ok :: "serde \<Rightarrow> bool" where
  "serde_ok sd \<longleftrightarrow>
     (\<forall>c obj. to_object sd c = Inr obj \<longrightarrow> obj ''env'' = Some (env_value (app_env c))) \<and>
     (\<forall>c obj. from_object sd obj = Inr c \<longrightarrow> (\<exists>env. obj ''env'' = Some (env_value env)) \<longrightarrow>
        (\<forall>k. k \<noteq> ''env'' \<longrightarrow> (\<exists>c' obj'. to_object sd c' = Inr obj' \<and> obj' k = obj k)) \<longrightarrow> to_object sd c = Inr obj)"

subsection \<open>Where a field takes effect\<close>

datatype ApplyGroup = Live | NextSpawn | NeedsRespawn | Structural

record FieldRow =
  fr_field :: string
  fr_group :: ApplyGroup
  fr_reaches_running :: bool

definition row :: "ApplyGroup \<Rightarrow> bool \<Rightarrow> string \<Rightarrow> FieldRow" where
  "row g r f = \<lparr> fr_field = f, fr_group = g, fr_reaches_running = r \<rparr>"

definition FIELDS :: "FieldRow list" where
  "FIELDS =
     map (row Live True)
       [''autorestart'', ''max_restarts'', ''min_uptime'', ''restart_delay'', ''exp_backoff_restart_delay'',
        ''stop_exit_codes'', ''kill_timeout'', ''graceful_timeout'', ''max_memory'', ''memory_enforce'',
        ''max_cpu_cores'', ''max_tasks'', ''watch'', ''ignore_watch'', ''watch_delay'', ''watch_options'',
        ''cron_restart'', ''cron_timezone'', ''liveness_probe'', ''fold'', ''reuse_port''] @
     map (row NeedsRespawn False) [''listen''] @
     map (row Live True) [''level_rules'', ''dogs'', ''action_timeout''] @
     map (row NextSpawn False) [''kill_signal'', ''listen_timeout'', ''readiness_probe''] @
     map (row NextSpawn True) [''autostart'', ''depends_on''] @
     map (row NeedsRespawn False)
       [''script'', ''args'', ''cwd'', ''interpreter'', ''env'', ''environment'', ''user'', ''group'', ''out_file'',
        ''err_file'', ''merge_logs'', ''log_timestamps'', ''channel'', ''stdin'', ''pty'', ''wait_ready'',
        ''shutdown_with_message''] @
     map (row Structural False) [''name'', ''instances'']"

definition apply_group :: "string \<Rightarrow> ApplyGroup" where
  "apply_group field =
     (case find (\<lambda>r. fr_field r = field) FIELDS of None \<Rightarrow> NeedsRespawn | Some r \<Rightarrow> fr_group r)"

definition reaches_running :: "string \<Rightarrow> bool" where
  "reaches_running field =
     (case find (\<lambda>r. fr_field r = field) FIELDS of None \<Rightarrow> False | Some r \<Rightarrow> fr_reaches_running r)"

text \<open>Every serialized field has a row, and every row is a field.\<close>

lemma fields_classified: "set (map fr_field FIELDS) = set (map fst (field_agreement a b))"
  by (auto simp: FIELDS_def row_def field_agreement_def)

subsection \<open>Overrides and declarations\<close>

datatype ResetDepth = DepthNone | DepthFile | DepthPolicy | DepthEnv | DepthAll

record AppOverrides =
  ov_fields :: object
  ov_declared :: "string set"
  ov_declared_env :: "string set"
  ov_template :: object

record DeclaredApp =
  da_config :: AppConfig
  da_declared :: "string set"
  da_declared_env :: "string set"

definition establish_env :: "AppOverrides \<Rightarrow> DeclaredApp \<Rightarrow> AppOverrides" where
  "establish_env next incoming =
     (let next =
        (case ov_fields next ''env'' of
           Some (JObject env) \<Rightarrow>
             (let env = (\<lambda>k. if k \<in> da_declared_env incoming \<and> env k \<noteq> Some JNull then None else env k)
              in if env = Map.empty then next\<lparr> ov_fields := (ov_fields next)(''env'' := None) \<rparr>
                 else next\<lparr> ov_fields := (ov_fields next)(''env'' \<mapsto> JObject env) \<rparr>)
         | _ \<Rightarrow> next)
      in next\<lparr> ov_declared_env := ov_declared_env next \<union> da_declared_env incoming \<rparr>)"

subsection \<open>The merge\<close>

definition established :: "AppOverrides \<Rightarrow> string set" where
  "established overrides = ov_declared overrides \<union> dom (ov_fields overrides)"

definition in_scope :: "ResetDepth \<Rightarrow> DeclaredApp \<Rightarrow> string set \<Rightarrow> string \<Rightarrow> bool" where
  "in_scope reset incoming est key \<longleftrightarrow>
     (case reset of
        DepthPolicy \<Rightarrow> True
      | DepthAll \<Rightarrow> True
      | DepthFile \<Rightarrow> key \<in> da_declared incoming
      | _ \<Rightarrow> key \<noteq> ''instances'' \<and> key \<in> da_declared incoming \<and> key \<notin> est)"

definition merge_key ::
  "ResetDepth \<Rightarrow> DeclaredApp \<Rightarrow> string set \<Rightarrow> object \<Rightarrow> string \<Rightarrow> object \<times> AppOverrides \<Rightarrow> object \<times> AppOverrides" where
  "merge_key reset incoming est file key = (\<lambda>(merged, next).
     if key = ''env'' then (merged, next)
     else if \<not> in_scope reset incoming est key
     then (merged,
           (if ov_fields next key \<noteq> None \<and> key \<in> da_declared incoming
            then (case file key of
                    Some v \<Rightarrow> next\<lparr> ov_template := (ov_template next)(key \<mapsto> v) \<rparr>
                  | None \<Rightarrow> next)
            else next))
     else (case file key of Some v \<Rightarrow> merged(key \<mapsto> v) | None \<Rightarrow> merged,
           next\<lparr> ov_fields := (ov_fields next)(key := None), ov_template := (ov_template next)(key := None),
                 ov_declared := (if key \<in> da_declared incoming then insert key (ov_declared next) else ov_declared next) \<rparr>))"

definition overridden_env :: "AppOverrides \<Rightarrow> string set" where
  "overridden_env overrides =
     (case ov_fields overrides ''env'' of Some (JObject env) \<Rightarrow> dom env | _ \<Rightarrow> {})"

definition append_env :: "AppConfig \<Rightarrow> DeclaredApp \<Rightarrow> AppOverrides \<Rightarrow> (string \<times> string) list" where
  "append_env stored incoming overrides =
     fold (\<lambda>key env.
         if key \<in> ov_declared_env overrides \<or> key \<in> overridden_env overrides then env
         else (case map_of (app_env (da_config incoming)) key of
                 Some value \<Rightarrow> AList.update key value env
               | None \<Rightarrow> env))
       (sorted_list_of_set (da_declared_env incoming)) (app_env stored)"

definition merge_env ::
  "ResetDepth \<Rightarrow> AppConfig \<Rightarrow> DeclaredApp \<Rightarrow> AppOverrides \<Rightarrow> object \<Rightarrow> object \<times> AppOverrides \<Rightarrow> object \<times> AppOverrides" where
  "merge_env reset stored incoming overrides file = (\<lambda>(merged, next).
     if reset = DepthPolicy \<or> reset = DepthFile then (merged, next)
     else if reset = DepthAll \<or> reset = DepthEnv
     then (merged(''env'' \<mapsto> (case file ''env'' of Some v \<Rightarrow> v | None \<Rightarrow> JObject Map.empty)),
           establish_env (next\<lparr> ov_fields := (ov_fields next)(''env'' := None) \<rparr>) incoming)
     else (merged(''env'' \<mapsto> env_value (append_env stored incoming overrides)), establish_env next incoming))"

definition merge_objects ::
  "ResetDepth \<Rightarrow> AppConfig \<Rightarrow> DeclaredApp \<Rightarrow> AppOverrides \<Rightarrow> object \<Rightarrow> object \<Rightarrow> object \<Rightarrow> object \<times> AppOverrides" where
  "merge_objects reset stored incoming overrides merged file defaults =
     merge_env reset stored incoming overrides file
       (fold (merge_key reset incoming (established overrides) file) (sorted_list_of_set (dom defaults)) (merged, overrides))"

definition merge_declared ::
  "serde \<Rightarrow> AppConfig \<Rightarrow> DeclaredApp \<Rightarrow> AppOverrides \<Rightarrow> ResetDepth \<Rightarrow> string + AppConfig \<times> AppOverrides" where
  "merge_declared sd stored incoming overrides reset =
     and_then (to_object sd stored) (\<lambda>merged.
     and_then (to_object sd (da_config incoming)) (\<lambda>file.
     and_then (to_object sd (minimal [] [])) (\<lambda>defaults.
       (case merge_objects reset stored incoming overrides merged file defaults of
          (merged, next) \<Rightarrow> and_then (from_object sd merged) (\<lambda>merged. Inr (merged, next))))))"

definition reached_spec ::
  "serde \<Rightarrow> (AppConfig \<Rightarrow> string + AppConfig) \<Rightarrow> AppConfig \<Rightarrow> AppConfig \<Rightarrow> string list \<Rightarrow> u32 \<Rightarrow> string + AppConfig" where
  "reached_spec sd norm stored merged reaching instances =
     and_then (to_object sd stored) (\<lambda>nxt.
     and_then (to_object sd merged) (\<lambda>source.
     and_then
       (from_object sd (fold (\<lambda>field nxt. case source field of Some v \<Rightarrow> nxt(field \<mapsto> v) | None \<Rightarrow> nxt) reaching nxt))
       (\<lambda>config. norm (config\<lparr> app_instances := instances \<rparr>))))"

subsection \<open>Key by key\<close>

lemma fold_merge:
  assumes "fold (merge_key reset incoming est file) ks (m, n) = (m', n')"
  shows "m' k = (if k \<in> set ks \<and> k \<noteq> ''env'' \<and> in_scope reset incoming est k \<and> file k \<noteq> None then file k else m k)"
    "ov_fields n' k = (if k \<in> set ks \<and> k \<noteq> ''env'' \<and> in_scope reset incoming est k then None else ov_fields n k)"
    "ov_template n' k =
      (if k \<in> set ks \<and> k \<noteq> ''env'' \<and> in_scope reset incoming est k then None
       else if k \<in> set ks \<and> k \<noteq> ''env'' \<and> ov_fields n k \<noteq> None \<and> k \<in> da_declared incoming \<and> file k \<noteq> None then file k
       else ov_template n k)"
    "k \<in> ov_declared n' \<longleftrightarrow> k \<in> ov_declared n \<or>
      k \<in> set ks \<and> k \<noteq> ''env'' \<and> in_scope reset incoming est k \<and> k \<in> da_declared incoming"
    "ov_declared_env n' = ov_declared_env n"
  using assms
  by (induction ks arbitrary: m n) (auto simp: merge_key_def split: option.splits if_splits)

lemma establish_env_frame:
  "k \<noteq> ''env'' \<Longrightarrow> ov_fields (establish_env n incoming) k = ov_fields n k"
  "ov_template (establish_env n incoming) = ov_template n"
  "ov_declared (establish_env n incoming) = ov_declared n"
  "ov_declared_env (establish_env n incoming) = ov_declared_env n \<union> da_declared_env incoming"
  by (auto simp: establish_env_def Let_def split: option.splits json.splits)

lemma establish_env_idem: "establish_env (establish_env n incoming) incoming = establish_env n incoming"
proof (cases "\<exists>env. ov_fields n ''env'' = Some (JObject env)")
  case True
  then obtain env where env: "ov_fields n ''env'' = Some (JObject env)" by blast
  let ?e = "\<lambda>k. if k \<in> da_declared_env incoming \<and> env k \<noteq> Some JNull then None else env k"
  have "(\<lambda>k. if k \<in> da_declared_env incoming \<and> ?e k \<noteq> Some JNull then None else ?e k) = ?e" by auto
  then show ?thesis using env by (auto simp: establish_env_def Let_def Un_assoc)
next
  case False
  then show ?thesis by (auto simp: establish_env_def Let_def split: option.splits json.splits)
qed

lemma merge_env_frame:
  assumes "merge_env reset stored incoming overrides file (m, n) = (m', n')"
  shows "k \<noteq> ''env'' \<Longrightarrow> m' k = m k" "k \<noteq> ''env'' \<Longrightarrow> ov_fields n' k = ov_fields n k"
    "ov_template n' = ov_template n" "ov_declared n' = ov_declared n"
  using assms by (auto simp: merge_env_def establish_env_frame split: if_splits)

text \<open>A second load of the same file.\<close>

lemma scope_again:
  assumes f: "fold (merge_key reset incoming (established overrides) file) ks (obj, overrides) = (m, n)"
    and n1: "\<forall>k. k \<noteq> ''env'' \<longrightarrow> ov_fields n1 k = ov_fields n k" "ov_declared n1 = ov_declared n"
    and k: "k \<in> set ks" "k \<noteq> ''env''"
  shows "in_scope reset incoming (established n1) k \<Longrightarrow> in_scope reset incoming (established overrides) k \<and>
    (reset = DepthNone \<or> reset = DepthEnv \<longrightarrow> False)"
proof -
  assume s: "in_scope reset incoming (established n1) k"
  have "k \<in> established overrides \<Longrightarrow> k \<notin> established n1 \<Longrightarrow> in_scope reset incoming (established overrides) k"
    using fold_merge(2,4)[OF f, of k] n1 k by (auto simp: established_def)
  moreover have "in_scope reset incoming (established overrides) k \<Longrightarrow> k \<in> da_declared incoming \<Longrightarrow> k \<in> established n1"
    using fold_merge(4)[OF f, of k] n1 k by (auto simp: established_def)
  ultimately show ?thesis using s by (cases reset) (auto simp: in_scope_def)
qed

lemma keys_again:
  assumes f: "fold (merge_key reset incoming (established overrides) file) ks (obj, overrides) = (m, n)"
    and n1: "\<forall>k. k \<noteq> ''env'' \<longrightarrow> m1 k = m k \<and> ov_fields n1 k = ov_fields n k" "ov_declared n1 = ov_declared n"
      "ov_template n1 = ov_template n"
    and g: "fold (merge_key reset incoming (established n1) file) ks (m1, n1) = (m2, n2)"
  shows "m2 = m1 \<and> n2 = n1"
proof -
  note s = scope_again[OF f _ n1(2)]
  note F = fold_merge[OF f] and G = fold_merge[OF g]
  have sc: "in_scope reset incoming (established n1) k \<Longrightarrow> in_scope reset incoming (established overrides) k"
    if "k \<in> set ks" "k \<noteq> ''env''" for k using s that n1(1) by blast
  have "m2 k = m1 k" for k
  proof (cases "k \<in> set ks \<and> k \<noteq> ''env''")
    case True
    then show ?thesis using G(1)[of k] F(1)[of k] n1(1) sc[of k] by auto
  qed (use G(1)[of k] in auto)
  moreover have "ov_fields n2 k = ov_fields n1 k" for k
  proof (cases "k \<in> set ks \<and> k \<noteq> ''env''")
    case True
    then show ?thesis using G(2)[of k] F(2)[of k] n1(1) sc[of k] by simp
  qed (use G(2)[of k] in auto)
  moreover have "ov_template n2 k = ov_template n1 k" for k
  proof (cases "k \<in> set ks \<and> k \<noteq> ''env''")
    case True
    then show ?thesis using G(3)[of k] F(2,3)[of k] n1(1,3) sc[of k] by auto
  qed (use G(3)[of k] in auto)
  moreover have "k \<in> ov_declared n2 \<longleftrightarrow> k \<in> ov_declared n1" for k
  proof (cases "k \<in> set ks \<and> k \<noteq> ''env''")
    case True
    then show ?thesis using G(4)[of k] F(4)[of k] n1(2) sc[of k] by auto
  qed (use G(4)[of k] in auto)
  ultimately show ?thesis using G(5) by (auto intro!: AppOverrides.equality)
qed

lemma append_env_again:
  assumes "da_declared_env incoming \<subseteq> ov_declared_env overrides"
  shows "append_env stored incoming overrides = app_env stored"
proof -
  have "fold (\<lambda>key env. if key \<in> ov_declared_env overrides \<or> key \<in> overridden_env overrides then env
         else (case map_of (app_env (da_config incoming)) key of Some value \<Rightarrow> AList.update key value env | None \<Rightarrow> env)) ks e = e"
    if "set ks \<subseteq> ov_declared_env overrides" for ks e
    using that by (induction ks) auto
  moreover have "set (sorted_list_of_set (da_declared_env incoming)) \<subseteq> ov_declared_env overrides"
    using assms by (cases "finite (da_declared_env incoming)") auto
  ultimately show ?thesis unfolding append_env_def by blast
qed

lemma merge_objects_again:
  assumes m: "merge_objects reset stored incoming overrides obj file defaults = (m1, n1)"
    and env: "reset = DepthNone \<Longrightarrow> m1 ''env'' = Some (env_value (app_env c1))"
  shows "merge_objects reset c1 incoming n1 m1 file defaults = (m1, n1)"
proof -
  let ?ks = "sorted_list_of_set (dom defaults)"
  obtain m n where f: "fold (merge_key reset incoming (established overrides) file) ?ks (obj, overrides) = (m, n)"
    by (cases "fold (merge_key reset incoming (established overrides) file) ?ks (obj, overrides)")
  have e: "merge_env reset stored incoming overrides file (m, n) = (m1, n1)" using m f by (simp add: merge_objects_def)
  note fr = merge_env_frame[OF e]
  obtain m2 n2 where g: "fold (merge_key reset incoming (established n1) file) ?ks (m1, n1) = (m2, n2)"
    by (cases "fold (merge_key reset incoming (established n1) file) ?ks (m1, n1)")
  have same: "m2 = m1" "n2 = n1" using keys_again[OF f _ fr(4,3) g] fr(1,2) by blast+
  have "merge_env reset c1 incoming n1 file (m1, n1) = (m1, n1)"
  proof (cases reset)
    case DepthNone
    have n1: "n1 = establish_env n incoming" using e DepthNone by (simp add: merge_env_def)
    have "append_env c1 incoming n1 = app_env c1" using n1 by (intro append_env_again) (simp add: establish_env_frame)
    then show ?thesis using env[OF DepthNone] n1 DepthNone by (simp add: merge_env_def establish_env_idem fun_upd_idem)
  next
    case DepthEnv
    have "n1 = establish_env (n\<lparr> ov_fields := (ov_fields n)(''env'' := None) \<rparr>) incoming"
      and m1: "m1 ''env'' = Some (case file ''env'' of Some v \<Rightarrow> v | None \<Rightarrow> JObject Map.empty)"
      using e DepthEnv by (auto simp: merge_env_def)
    then have "n1 = n1\<lparr> ov_fields := (ov_fields n1)(''env'' := None) \<rparr>" "establish_env n1 incoming = n1"
      using establish_env_idem by (auto simp: establish_env_def Let_def)
    then show ?thesis using m1 DepthEnv by (simp add: merge_env_def fun_upd_idem)
  next
    case DepthAll
    have "n1 = establish_env (n\<lparr> ov_fields := (ov_fields n)(''env'' := None) \<rparr>) incoming"
      and m1: "m1 ''env'' = Some (case file ''env'' of Some v \<Rightarrow> v | None \<Rightarrow> JObject Map.empty)"
      using e DepthAll by (auto simp: merge_env_def)
    then have "n1 = n1\<lparr> ov_fields := (ov_fields n1)(''env'' := None) \<rparr>" "establish_env n1 incoming = n1"
      using establish_env_idem by (auto simp: establish_env_def Let_def)
    then show ?thesis using m1 DepthAll by (simp add: merge_env_def fun_upd_idem)
  qed (simp_all add: merge_env_def)
  then show ?thesis using g same by (simp add: merge_objects_def)
qed

lemma append_env_keeps:
  assumes "v \<in> ov_declared_env overrides \<or> v \<in> overridden_env overrides \<or> v \<notin> da_declared_env incoming"
  shows "map_of (append_env stored incoming overrides) v = map_of (app_env stored) v"
proof -
  have "map_of (fold (\<lambda>key env. if key \<in> ov_declared_env overrides \<or> key \<in> overridden_env overrides then env
         else (case map_of (app_env (da_config incoming)) key of Some value \<Rightarrow> AList.update key value env | None \<Rightarrow> env)) ks e) v = map_of e v"
    if "set ks \<subseteq> da_declared_env incoming" for ks e
    using that assms by (induction ks arbitrary: e) (auto simp: map_of_alist_update split: option.splits)
  moreover have "set (sorted_list_of_set (da_declared_env incoming)) \<subseteq> da_declared_env incoming"
    by (cases "finite (da_declared_env incoming)") auto
  ultimately show ?thesis unfolding append_env_def by blast
qed

lemma env_value_inject: "env_value a = env_value b \<Longrightarrow> map_of a v = map_of b v"
proof -
  assume "env_value a = env_value b"
  then have "map_option JString (map_of a v) = map_option JString (map_of b v)" by (simp add: env_value_def fun_eq_iff)
  then show ?thesis by (cases "map_of a v"; cases "map_of b v") auto
qed

subsection \<open>Through serde\<close>

lemma merge_declared_Inr:
  assumes "merge_declared sd stored incoming overrides reset = Inr (c, n)"
  obtains obj fobj defaults m where "to_object sd stored = Inr obj" "to_object sd (da_config incoming) = Inr fobj"
    "to_object sd (minimal [] []) = Inr defaults" "merge_objects reset stored incoming overrides obj fobj defaults = (m, n)"
    "from_object sd m = Inr c"
proof -
  from assms obtain obj fobj defaults where a: "to_object sd stored = Inr obj" "to_object sd (da_config incoming) = Inr fobj"
    "to_object sd (minimal [] []) = Inr defaults"
    "(case merge_objects reset stored incoming overrides obj fobj defaults of
        (merged, next) \<Rightarrow> and_then (from_object sd merged) (\<lambda>merged. Inr (merged, next))) = Inr (c, n)"
    unfolding merge_declared_def and_then_Inr by blast
  obtain m n' where "merge_objects reset stored incoming overrides obj fobj defaults = (m, n')"
    by (cases "merge_objects reset stored incoming overrides obj fobj defaults")
  with a show thesis by (intro that[of obj fobj defaults m]) (auto simp: and_then_Inr)
qed

lemma merge_objects_keys:
  assumes m: "merge_objects reset stored incoming overrides obj file defaults = (m1, n1)" and k: "k \<noteq> ''env''"
  shows "m1 k = (if k \<in> set (sorted_list_of_set (dom defaults)) \<and> in_scope reset incoming (established overrides) k \<and> file k \<noteq> None
      then file k else obj k)"
    "ov_fields n1 k = (if k \<in> set (sorted_list_of_set (dom defaults)) \<and> in_scope reset incoming (established overrides) k
      then None else ov_fields overrides k)"
proof -
  let ?ks = "sorted_list_of_set (dom defaults)"
  obtain m n where f: "fold (merge_key reset incoming (established overrides) file) ?ks (obj, overrides) = (m, n)"
    by (cases "fold (merge_key reset incoming (established overrides) file) ?ks (obj, overrides)")
  have e: "merge_env reset stored incoming overrides file (m, n) = (m1, n1)" using m f by (simp add: merge_objects_def)
  note fr = merge_env_frame(1,2)[OF e k] and F = fold_merge(1,2)[OF f, of k]
  show "m1 k = (if k \<in> set ?ks \<and> in_scope reset incoming (established overrides) k \<and> file k \<noteq> None then file k else obj k)"
    using fr(1) F(1) k by simp
  show "ov_fields n1 k = (if k \<in> set ?ks \<and> in_scope reset incoming (established overrides) k then None else ov_fields overrides k)"
    using fr(2) F(2) k by simp
qed

lemma merge_objects_env:
  assumes m: "merge_objects reset stored incoming overrides obj file defaults = (m1, n1)"
  shows "m1 ''env'' =
    (case reset of
       DepthNone \<Rightarrow> Some (env_value (append_env stored incoming overrides))
     | DepthFile \<Rightarrow> obj ''env''
     | DepthPolicy \<Rightarrow> obj ''env''
     | _ \<Rightarrow> Some (case file ''env'' of Some v \<Rightarrow> v | None \<Rightarrow> JObject Map.empty))"
proof -
  let ?ks = "sorted_list_of_set (dom defaults)"
  obtain m n where f: "fold (merge_key reset incoming (established overrides) file) ?ks (obj, overrides) = (m, n)"
    by (cases "fold (merge_key reset incoming (established overrides) file) ?ks (obj, overrides)")
  have e: "merge_env reset stored incoming overrides file (m, n) = (m1, n1)" using m f by (simp add: merge_objects_def)
  show ?thesis using e fold_merge(1)[OF f, of "''env''"] by (cases reset) (auto simp: merge_env_def)
qed

text \<open>The merged config serializes to the merged object.\<close>

lemma merged_object:
  assumes sd: "serde_ok sd" and o: "to_object sd stored = Inr obj" "to_object sd (da_config incoming) = Inr file"
    and m: "merge_objects reset stored incoming overrides obj file defaults = (m1, n1)" and c: "from_object sd m1 = Inr c"
  shows "to_object sd c = Inr m1"
proof -
  have "\<exists>c' obj'. to_object sd c' = Inr obj' \<and> obj' k = m1 k" if "k \<noteq> ''env''" for k
    using merge_objects_keys(1)[OF m that] o by (cases "m1 k = obj k") auto
  moreover have "obj ''env'' = Some (env_value (app_env stored))" "file ''env'' = Some (env_value (app_env (da_config incoming)))"
    using sd o unfolding serde_ok_def by blast+
  then have "\<exists>env. m1 ''env'' = Some (env_value env)" using merge_objects_env[OF m] by (cases reset) auto
  ultimately show ?thesis using sd c unfolding serde_ok_def by blast
qed

subsection \<open>Properties\<close>

text \<open>
  C34. Loading a Flockfile twice is loading it once. At every reset depth, merging the same
  declaration into the outcome of a load gives the same config and the same override record
  again: a second load finds its own keys established and neither reverts nor re-reports them.
\<close>

theorem load_is_idempotent:
  assumes sd: "serde_ok sd" and m: "merge_declared sd stored incoming overrides reset = Inr (c, n)"
  shows "merge_declared sd c incoming n reset = Inr (c, n)"
proof -
  from m obtain obj fobj defaults m1 where o: "to_object sd stored = Inr obj" "to_object sd (da_config incoming) = Inr fobj"
    "to_object sd (minimal [] []) = Inr defaults" "merge_objects reset stored incoming overrides obj fobj defaults = (m1, n)"
    "from_object sd m1 = Inr c" by (rule merge_declared_Inr)
  have c: "to_object sd c = Inr m1" by (rule merged_object[OF sd o(1,2,4,5)])
  then have "m1 ''env'' = Some (env_value (app_env c))" using sd unfolding serde_ok_def by blast
  then have "merge_objects reset c incoming n m1 fobj defaults = (m1, n)" by (intro merge_objects_again[OF o(4)])
  then show ?thesis using c o by (simp add: merge_declared_def)
qed

text \<open>A serde over a few configs of a few fields, to run the merge on.\<close>

definition object_of :: "AppConfig \<Rightarrow> object" where
  "object_of c =
     [''cwd'' \<mapsto> (case app_cwd c of None \<Rightarrow> JNull | Some d \<Rightarrow> JString d), ''env'' \<mapsto> env_value (app_env c),
      ''max_restarts'' \<mapsto> JNumber (show_nat (unat (app_max_restarts c))), ''name'' \<mapsto> JString (app_name c)]"

definition table_serde :: "AppConfig list \<Rightarrow> serde" where
  "table_serde cs =
     \<lparr> to_object = (\<lambda>c. if c \<in> set cs then Inr (object_of c) else Inl ''not in the table''),
       from_object = (\<lambda>obj. case find (\<lambda>c. object_of c = obj) cs of Some c \<Rightarrow> Inr c | None \<Rightarrow> Inl ''not in the table'') \<rparr>"

lemma table_serde_ok: "serde_ok (table_serde cs)"
proof -
  have "to_object (table_serde cs) c = Inr obj" if f: "from_object (table_serde cs) obj = Inr c" for c obj
  proof -
    have "find (\<lambda>c. object_of c = obj) cs = Some c" using f by (simp add: table_serde_def split: option.splits)
    then have "c \<in> set cs" "object_of c = obj" by (auto simp: find_Some_iff)
    then show ?thesis by (simp add: table_serde_def)
  qed
  moreover have "obj ''env'' = Some (env_value (app_env c))" if "to_object (table_serde cs) c = Inr obj" for c obj
    using that by (simp add: table_serde_def object_of_def split: if_splits) auto
  ultimately show ?thesis unfolding serde_ok_def by blast
qed

definition tuned :: AppConfig where
  "tuned = (minimal ''web'' ''./srv'')\<lparr> app_max_restarts := 3, app_env := [(''PORT'', ''80'')] \<rparr>"

definition web_file :: DeclaredApp where
  "web_file = \<lparr> da_config = (minimal ''web'' ''./srv'')\<lparr> app_max_restarts := 9, app_cwd := Some ''/srv'' \<rparr>,
     da_declared = {''name'', ''script'', ''max_restarts'', ''cwd''}, da_declared_env = {} \<rparr>"

definition web_edits :: AppOverrides where
  "web_edits = \<lparr> ov_fields = [''max_restarts'' \<mapsto> JNumber ''3''], ov_declared = {''name'', ''script''}, ov_declared_env = {},
     ov_template = Map.empty \<rparr>"

definition merged_web :: AppConfig where
  "merged_web = tuned\<lparr> app_cwd := Some ''/srv'' \<rparr>"

definition web_serde :: serde where
  "web_serde = table_serde [minimal [] [], tuned, da_config web_file, merged_web]"

lemma object_keys: "sorted_list_of_set (dom (object_of c)) = [''cwd'', ''env'', ''max_restarts'', ''name'']"
proof -
  have "dom (object_of c) = set [''cwd'', ''env'', ''max_restarts'', ''name'']" by (auto simp: object_of_def)
  moreover have "sorted_list_of_set (set [''cwd'', ''env'', ''max_restarts'', ''name'']) = [''cwd'', ''env'', ''max_restarts'', ''name'']"
    by (subst sorted_list_of_set_sort_remdups) code_simp
  ultimately show ?thesis by simp
qed

lemma web_objects:
  "merge_objects DepthNone tuned web_file web_edits (object_of tuned) (object_of (da_config web_file)) (object_of d) =
    (object_of merged_web,
     web_edits\<lparr> ov_declared := {''cwd'', ''name'', ''script''}, ov_template := [''max_restarts'' \<mapsto> JNumber (show_nat 9)] \<rparr>)"
  unfolding merge_objects_def object_keys
  by (simp add: merge_key_def in_scope_def established_def merge_env_def append_env_def establish_env_def web_file_def web_edits_def
      merged_web_def tuned_def minimal_def object_of_def fun_eq_iff)

lemmas web_defs = object_of_def minimal_def merged_web_def tuned_def web_file_def

lemma web_distinct: "object_of (minimal [] []) \<noteq> object_of merged_web" "object_of tuned \<noteq> object_of merged_web"
    "object_of (da_config web_file) \<noteq> object_of merged_web"
proof -
  have "object_of (minimal [] []) ''cwd'' \<noteq> object_of merged_web ''cwd''" "object_of tuned ''cwd'' \<noteq> object_of merged_web ''cwd''"
    "object_of (da_config web_file) ''max_restarts'' \<noteq> object_of merged_web ''max_restarts''"
    by (simp_all add: web_defs)
  then show "object_of (minimal [] []) \<noteq> object_of merged_web" "object_of tuned \<noteq> object_of merged_web"
    "object_of (da_config web_file) \<noteq> object_of merged_web" by metis+
qed

lemma web_merge:
  "\<exists>n. merge_declared web_serde tuned web_file web_edits DepthNone = Inr (merged_web, n) \<and> ov_fields n ''max_restarts'' = Some (JNumber ''3'')"
  using web_distinct web_objects by (simp add: merge_declared_def web_serde_def table_serde_def web_edits_def)

theorem load_is_idempotent_witness:
  "\<exists>n. merge_declared web_serde merged_web web_file n DepthNone = Inr (merged_web, n)"
proof -
  obtain n where n: "merge_declared web_serde tuned web_file web_edits DepthNone = Inr (merged_web, n)" using web_merge by blast
  have "serde_ok web_serde" unfolding web_serde_def by (rule table_serde_ok)
  from load_is_idempotent[OF this n] show ?thesis by blast
qed

text \<open>
  The \<open>env\<close> override after a plain load: it gives up the variables the file declares, but for those
  an operator removed.
\<close>

lemma plain_env_override:
  assumes m: "merge_objects DepthNone stored incoming overrides obj fobj defaults = (m1, n)"
    and env: "ov_fields overrides ''env'' = Some (JObject env)"
  shows "overridden_env n = {v \<in> dom env. v \<notin> da_declared_env incoming \<or> env v = Some JNull}"
proof -
  let ?ks = "sorted_list_of_set (dom defaults)"
  obtain m2 n2 where f: "fold (merge_key DepthNone incoming (established overrides) fobj) ?ks (obj, overrides) = (m2, n2)"
    by (cases "fold (merge_key DepthNone incoming (established overrides) fobj) ?ks (obj, overrides)")
  have e: "ov_fields n2 ''env'' = Some (JObject env)" using env fold_merge(2)[OF f, of "''env''"] by simp
  let ?e = "\<lambda>k. if k \<in> da_declared_env incoming \<and> env k \<noteq> Some JNull then None else env k"
  have "n = establish_env n2 incoming" using m f by (simp add: merge_objects_def merge_env_def)
  then have "overridden_env n = dom ?e"
    using e by (auto simp: establish_env_def overridden_env_def Let_def)
  then show ?thesis by (auto split: if_splits)
qed



end
