(* ===== verification/Stores.thy ===== *)
theory Stores
  imports Template Config_Merge
begin

text \<open>
  The three versioned stores under \<open>$SHEP_HOME\<close> and what they share (\<open>shep-core/src/\<close>:
  \<open>versioned_file.rs\<close>, \<open>atomic_file.rs\<close>, \<open>kv.rs\<close>, \<open>overrides.rs\<close>, \<open>secrets/store.rs\<close>).

  A file is absent, is not the JSON its store writes, or holds a decoded value; the bytes of the
  JSON are serde's. What the operating system refuses during one operation is a \<open>faults\<close> record,
  one entry per call that can fail, so that every operation is a function of the file and of the
  faults it meets. The locale \<open>versioned_store\<close> is what the three promise their callers.
\<close>

subsection \<open>Files and faults\<close>

datatype 'f disk = Absent | Undecodable string | Contents 'f

record faults =
  fault_lock :: "string option"
  fault_read :: "string option"
  fault_stage :: "string option"
  fault_install :: "string option"
  fault_sync :: "string option"

definition no_faults :: faults where
  "no_faults = \<lparr> fault_lock = None, fault_read = None, fault_stage = None, fault_install = None, fault_sync = None \<rparr>"

definition attempt :: "string option \<Rightarrow> string + unit" where
  "attempt fault = (case fault of None \<Rightarrow> Inr () | Some e \<Rightarrow> Inl e)"

lemma attempt_simps [simp]:
  "attempt None = Inr ()" "attempt (Some e) = Inl e" "attempt fault = Inr u \<longleftrightarrow> fault = None"
  by (simp_all add: attempt_def split: option.splits)

subsection \<open>Reading and replacing\<close>

datatype ReadError = ReadIo string | ReadDecode string | ReadFuture u32

definition read_versioned :: "faults \<Rightarrow> ('f \<Rightarrow> u32) \<Rightarrow> 'f \<Rightarrow> u32 \<Rightarrow> 'f disk \<Rightarrow> ReadError + 'f" where
  "read_versioned q version_of dflt current d =
     (case fault_read q of
        Some e \<Rightarrow> Inl (ReadIo e)
      | None \<Rightarrow>
          (case d of
             Absent \<Rightarrow> Inr dflt
           | Undecodable e \<Rightarrow> Inl (ReadDecode e)
           | Contents f \<Rightarrow> if version_of f > current then Inl (ReadFuture (version_of f)) else Inr f))"

definition stage_json :: "faults \<Rightarrow> string + unit" where
  "stage_json q = attempt (fault_stage q)"

definition install :: "faults \<Rightarrow> 'f \<Rightarrow> 'f disk \<Rightarrow> (string + unit) \<times> 'f disk" where
  "install q f d = on_ok (attempt (fault_install q)) d (\<lambda>_. (Inr (), Contents f))"

definition sync_dir :: "faults \<Rightarrow> string + unit" where
  "sync_dir q = attempt (fault_sync q)"

definition publish :: "faults \<Rightarrow> 'f \<Rightarrow> 'f disk \<Rightarrow> (string + unit) \<times> 'f disk" where
  "publish q f d = (case install q f d of (r, d) \<Rightarrow> on_ok r d (\<lambda>_. (sync_dir q, d)))"

definition write_json :: "faults \<Rightarrow> 'f \<Rightarrow> 'f disk \<Rightarrow> (string + unit) \<times> 'f disk" where
  "write_json q f d = on_ok (stage_json q) d (\<lambda>_. publish q f d)"

subsection \<open>The key/value store\<close>

definition KV_VERSION :: u32 where "KV_VERSION = 1"
definition KV_MAX_KEY_BYTES :: nat where "KV_MAX_KEY_BYTES = 128"
definition KV_MAX_VALUE_BYTES :: nat where "KV_MAX_VALUE_BYTES = 4096"

record KvFile =
  kvf_version :: u32
  kvf_entries :: "(string \<times> string) list"

definition kv_default :: KvFile where
  "kv_default = \<lparr> kvf_version = 0, kvf_entries = [] \<rparr>"

datatype KvError = KvIo string | KvDecode string | InvalidKey string | ValueTooLong string nat | KvFutureVersion u32

primrec kv_error_from :: "ReadError \<Rightarrow> KvError" where
  "kv_error_from (ReadIo e) = KvIo e"
| "kv_error_from (ReadDecode e) = KvDecode e"
| "kv_error_from (ReadFuture v) = KvFutureVersion v"

definition check_key :: "string \<Rightarrow> KvError + unit" where
  "check_key key =
     ensure (key \<noteq> [] \<and> length key \<le> KV_MAX_KEY_BYTES \<and> \<not> (key \<noteq> [] \<and> hd key = CHR ''.'') \<and> list_all is_name_byte key)
       (InvalidKey key)"

definition kv_read_file :: "faults \<Rightarrow> KvFile disk \<Rightarrow> KvError + KvFile" where
  "kv_read_file q d = map_err kv_error_from (read_versioned q kvf_version kv_default KV_VERSION d)"

definition kv_write_file :: "faults \<Rightarrow> KvFile \<Rightarrow> KvFile disk \<Rightarrow> (KvError + unit) \<times> KvFile disk" where
  "kv_write_file q f d = map_prod (map_err KvIo) id (write_json q f d)"

definition kv_lock :: "faults \<Rightarrow> KvError + unit" where
  "kv_lock q = map_err KvIo (attempt (fault_lock q))"

definition kv_all :: "faults \<Rightarrow> KvFile disk \<Rightarrow> KvError + (string \<times> string) list" where
  "kv_all q d = and_then (kv_lock q) (\<lambda>_. map_sum id kvf_entries (kv_read_file q d))"

definition kv_get :: "faults \<Rightarrow> string \<Rightarrow> KvFile disk \<Rightarrow> KvError + string option" where
  "kv_get q key d = and_then (check_key key) (\<lambda>_. map_sum id (\<lambda>entries. map_of entries key) (kv_all q d))"

definition kv_set :: "faults \<Rightarrow> string \<Rightarrow> string \<Rightarrow> KvFile disk \<Rightarrow> (KvError + unit) \<times> KvFile disk" where
  "kv_set q key v d =
     on_ok (check_key key) d (\<lambda>_.
     on_ok (ensure (length v \<le> KV_MAX_VALUE_BYTES) (ValueTooLong key (length v))) d (\<lambda>_.
     on_ok (kv_lock q) d (\<lambda>_.
     on_ok (kv_read_file q d) d (\<lambda>file.
       kv_write_file q (file\<lparr> kvf_version := KV_VERSION, kvf_entries := AList.update key v (kvf_entries file) \<rparr>) d))))"

definition kv_unset :: "faults \<Rightarrow> string \<Rightarrow> KvFile disk \<Rightarrow> (KvError + bool) \<times> KvFile disk" where
  "kv_unset q key d =
     on_ok (check_key key) d (\<lambda>_.
     on_ok (kv_lock q) d (\<lambda>_.
     on_ok (kv_read_file q d) d (\<lambda>file.
       (let was_present = map_of (kvf_entries file) key \<noteq> None in
        if was_present
        then (case kv_write_file q (file\<lparr> kvf_version := KV_VERSION, kvf_entries := AList.delete key (kvf_entries file) \<rparr>) d of
                (r, d) \<Rightarrow> on_ok r d (\<lambda>_. (Inr was_present, d)))
        else (Inr was_present, d)))))"

definition kv_clear :: "faults \<Rightarrow> KvFile disk \<Rightarrow> (KvError + nat) \<times> KvFile disk" where
  "kv_clear q d =
     on_ok (kv_lock q) d (\<lambda>_.
     on_ok (kv_read_file q d) d (\<lambda>file.
       (let count = min (length (kvf_entries file)) (2 ^ 32 - 1) in
        if count > 0
        then (case kv_write_file q \<lparr> kvf_version = KV_VERSION, kvf_entries = [] \<rparr> d of
                (r, d) \<Rightarrow> on_ok r d (\<lambda>_. (Inr count, d)))
        else (Inr count, d))))"

subsection \<open>The override store\<close>

definition OVERRIDES_VERSION :: u32 where "OVERRIDES_VERSION = 1"

record OverridesFile =
  ovf_version :: u32
  ovf_apps :: "(string \<times> AppOverrides) list"

definition overrides_default :: OverridesFile where
  "overrides_default = \<lparr> ovf_version = 0, ovf_apps = [] \<rparr>"

definition no_overrides :: AppOverrides where
  "no_overrides = \<lparr> ov_fields = Map.empty, ov_declared = {}, ov_declared_env = {}, ov_template = Map.empty \<rparr>"

datatype OverridesError = OvIo string | OvDecode string | OvFutureVersion u32

primrec overrides_error_from :: "ReadError \<Rightarrow> OverridesError" where
  "overrides_error_from (ReadIo e) = OvIo e"
| "overrides_error_from (ReadDecode e) = OvDecode e"
| "overrides_error_from (ReadFuture v) = OvFutureVersion v"

primrec overrides_error_display :: "OverridesError \<Rightarrow> string" where
  "overrides_error_display (OvIo e) = ''overrides store I/O failed: '' @ e"
| "overrides_error_display (OvDecode e) = ''overrides store failed to parse: '' @ e"
| "overrides_error_display (OvFutureVersion v) =
     ''overrides store is version '' @ show_nat (unat v) @ '', newer than this build understands''"

definition holds :: "OverridesFile \<Rightarrow> string \<Rightarrow> AppOverrides option \<Rightarrow> bool" where
  "holds file nm rec \<longleftrightarrow> ovf_version file = OVERRIDES_VERSION \<and> map_of (ovf_apps file) nm = rec"

definition overrides_read_file :: "faults \<Rightarrow> OverridesFile disk \<Rightarrow> OverridesError + OverridesFile" where
  "overrides_read_file q d = map_err overrides_error_from (read_versioned q ovf_version overrides_default OVERRIDES_VERSION d)"

definition overrides_write_file ::
  "faults \<Rightarrow> OverridesFile \<Rightarrow> OverridesFile disk \<Rightarrow> (OverridesError + unit) \<times> OverridesFile disk" where
  "overrides_write_file q f d = map_prod (map_err OvIo) id (write_json q f d)"

definition overrides_lock :: "faults \<Rightarrow> OverridesError + unit" where
  "overrides_lock q = map_err OvIo (attempt (fault_lock q))"

definition overrides_all :: "faults \<Rightarrow> OverridesFile disk \<Rightarrow> OverridesError + (string \<times> AppOverrides) list" where
  "overrides_all q d = and_then (overrides_lock q) (\<lambda>_. map_sum id ovf_apps (overrides_read_file q d))"

definition overrides_get :: "faults \<Rightarrow> string \<Rightarrow> OverridesFile disk \<Rightarrow> OverridesError + AppOverrides option" where
  "overrides_get q nm d = map_sum id (\<lambda>apps. map_of apps nm) (overrides_all q d)"

definition overrides_put ::
  "faults \<Rightarrow> string \<Rightarrow> AppOverrides \<Rightarrow> OverridesFile disk \<Rightarrow> (OverridesError + unit) \<times> OverridesFile disk" where
  "overrides_put q nm v d =
     on_ok (overrides_lock q) d (\<lambda>_.
     on_ok (overrides_read_file q d) d (\<lambda>file.
       if holds file nm (Some v) then (Inr (), d)
       else overrides_write_file q
              (file\<lparr> ovf_version := OVERRIDES_VERSION, ovf_apps := AList.update nm v (ovf_apps file) \<rparr>) d))"

definition overrides_remove :: "faults \<Rightarrow> string \<Rightarrow> OverridesFile disk \<Rightarrow> (OverridesError + bool) \<times> OverridesFile disk" where
  "overrides_remove q nm d =
     on_ok (overrides_lock q) d (\<lambda>_.
     on_ok (overrides_read_file q d) d (\<lambda>file.
       (let was_present = map_of (ovf_apps file) nm \<noteq> None in
        if was_present
        then (case overrides_write_file q
                     (file\<lparr> ovf_version := OVERRIDES_VERSION, ovf_apps := AList.delete nm (ovf_apps file) \<rparr>) d of
                (r, d) \<Rightarrow> on_ok r d (\<lambda>_. (Inr was_present, d)))
        else (Inr was_present, d))))"

type_synonym changes = "(string \<times> AppOverrides option) list"

definition apply_change :: "string \<times> AppOverrides option \<Rightarrow> (string \<times> AppOverrides) list \<Rightarrow> (string \<times> AppOverrides) list" where
  "apply_change = (\<lambda>(nm, change) apps. case change of Some v \<Rightarrow> AList.update nm v apps | None \<Rightarrow> AList.delete nm apps)"

definition overrides_update ::
  "faults \<Rightarrow> changes \<Rightarrow> OverridesFile disk \<Rightarrow> (OverridesError + unit) \<times> OverridesFile disk" where
  "overrides_update q changes d =
     (if changes = [] then (Inr (), d)
      else
        on_ok (overrides_lock q) d (\<lambda>_.
        on_ok (overrides_read_file q d) d (\<lambda>file.
          if list_all (\<lambda>(nm, change). holds file nm change) changes then (Inr (), d)
          else overrides_write_file q
                 (file\<lparr> ovf_apps := fold apply_change changes (ovf_apps file), ovf_version := OVERRIDES_VERSION \<rparr>) d)))"

subsection \<open>The secret store\<close>

definition SECRETS_VERSION :: u32 where "SECRETS_VERSION = 1"
definition MAX_VALUE_BYTES :: nat where "MAX_VALUE_BYTES = 4096"

record SecretFile =
  sf_version :: u32
  sf_entries :: "(string \<times> (string \<times> string) list) list"

definition secrets_default :: SecretFile where
  "secrets_default = \<lparr> sf_version = 0, sf_entries = [] \<rparr>"

datatype SecretError =
  SecIo string | Unsynced string | SecDecode string | SecInvalidKey string | InvalidEnvironment string |
  SecValueTooLong string nat | SecFutureVersion u32

primrec secret_error_from :: "ReadError \<Rightarrow> SecretError" where
  "secret_error_from (ReadIo e) = SecIo e"
| "secret_error_from (ReadDecode e) = SecDecode e"
| "secret_error_from (ReadFuture v) = SecFutureVersion v"

definition secret_check_name :: "string \<Rightarrow> (string \<Rightarrow> SecretError) \<Rightarrow> SecretError + unit" where
  "secret_check_name v refuse = ensure (is_name v) (refuse v)"

definition check_value :: "string \<Rightarrow> string \<Rightarrow> SecretError + unit" where
  "check_value key v = ensure (length v \<le> MAX_VALUE_BYTES) (SecValueTooLong key (length v))"

definition secrets_read_file :: "faults \<Rightarrow> SecretFile disk \<Rightarrow> SecretError + SecretFile" where
  "secrets_read_file q d = map_err secret_error_from (read_versioned q sf_version secrets_default SECRETS_VERSION d)"

definition secrets_write_file :: "faults \<Rightarrow> SecretFile \<Rightarrow> SecretFile disk \<Rightarrow> (SecretError + unit) \<times> SecretFile disk" where
  "secrets_write_file q f d =
     on_ok (map_err SecIo (stage_json q)) d (\<lambda>_.
       (case install q f d of (r, d) \<Rightarrow> on_ok (map_err SecIo r) d (\<lambda>_. (map_err Unsynced (sync_dir q), d))))"

definition secrets_lock :: "faults \<Rightarrow> SecretError + unit" where
  "secrets_lock q = map_err SecIo (attempt (fault_lock q))"

definition secrets_all :: "faults \<Rightarrow> SecretFile disk \<Rightarrow> SecretError + (string \<times> (string \<times> string) list) list" where
  "secrets_all q d = map_sum id sf_entries (secrets_read_file q d)"

definition slot_value :: "(string \<times> (string \<times> string) list) list \<Rightarrow> string \<Rightarrow> string \<Rightarrow> string option" where
  "slot_value entries key environment =
     (case map_of entries key of None \<Rightarrow> None | Some by_environment \<Rightarrow> map_of by_environment environment)"

definition secrets_get :: "faults \<Rightarrow> string \<Rightarrow> string \<Rightarrow> SecretFile disk \<Rightarrow> SecretError + string option" where
  "secrets_get q key environment d =
     and_then (secret_check_name key SecInvalidKey) (\<lambda>_.
     and_then (secret_check_name environment InvalidEnvironment) (\<lambda>_.
       map_sum id (\<lambda>entries. slot_value entries key environment) (secrets_all q d)))"

text \<open>\<open>entry(key).or_default().insert(environment, value)\<close>.\<close>

definition put_secret ::
  "string \<Rightarrow> string \<Rightarrow> string \<Rightarrow> (string \<times> (string \<times> string) list) list \<Rightarrow> (string \<times> (string \<times> string) list) list" where
  "put_secret environment key v entries =
     AList.update key (AList.update environment v (case map_of entries key of None \<Rightarrow> [] | Some m \<Rightarrow> m)) entries"

definition secrets_set ::
  "faults \<Rightarrow> string \<Rightarrow> string \<Rightarrow> string \<Rightarrow> SecretFile disk \<Rightarrow> (SecretError + unit) \<times> SecretFile disk" where
  "secrets_set q key environment v d =
     on_ok (secret_check_name key SecInvalidKey) d (\<lambda>_.
     on_ok (secret_check_name environment InvalidEnvironment) d (\<lambda>_.
     on_ok (check_value key v) d (\<lambda>_.
     on_ok (secrets_lock q) d (\<lambda>_.
     on_ok (secrets_read_file q d) d (\<lambda>file.
       secrets_write_file q
         (file\<lparr> sf_version := SECRETS_VERSION, sf_entries := put_secret environment key v (sf_entries file) \<rparr>) d)))))"

definition secrets_set_many ::
  "faults \<Rightarrow> string \<Rightarrow> (string \<times> string) list \<Rightarrow> SecretFile disk \<Rightarrow> (SecretError + unit) \<times> SecretFile disk" where
  "secrets_set_many q environment entries d =
     (if entries = [] then (Inr (), d)
      else
        on_ok (secret_check_name environment InvalidEnvironment) d (\<lambda>_.
        on_ok (first_error (\<lambda>(key, v).
                 and_then (secret_check_name key SecInvalidKey) (\<lambda>_. check_value key v)) entries) d (\<lambda>_.
        on_ok (secrets_lock q) d (\<lambda>_.
        on_ok (secrets_read_file q d) d (\<lambda>file.
          secrets_write_file q
            (file\<lparr> sf_version := SECRETS_VERSION,
                   sf_entries := fold (\<lambda>(key, v). put_secret environment key v) entries (sf_entries file) \<rparr>) d)))))"

text \<open>Removing \<open>environment\<close> from what \<open>key\<close> holds, and the key with its last environment.\<close>

definition drop_secret ::
  "string \<Rightarrow> string \<Rightarrow> (string \<times> string) list \<Rightarrow> (string \<times> (string \<times> string) list) list \<Rightarrow> (string \<times> (string \<times> string) list) list" where
  "drop_secret environment key by_environment entries =
     (let by_environment = AList.delete environment by_environment in
      if by_environment = [] then AList.delete key entries else AList.update key by_environment entries)"

definition secrets_unset ::
  "faults \<Rightarrow> string \<Rightarrow> string \<Rightarrow> SecretFile disk \<Rightarrow> (SecretError + bool) \<times> SecretFile disk" where
  "secrets_unset q key environment d =
     on_ok (secret_check_name key SecInvalidKey) d (\<lambda>_.
     on_ok (secret_check_name environment InvalidEnvironment) d (\<lambda>_.
     on_ok (secrets_lock q) d (\<lambda>_.
     on_ok (secrets_read_file q d) d (\<lambda>file.
       (case map_of (sf_entries file) key of
          None \<Rightarrow> (Inr False, d)
        | Some by_environment \<Rightarrow>
            (let was_present = map_of by_environment environment \<noteq> None
             in if was_present
                then (case secrets_write_file q
                             (file\<lparr> sf_version := SECRETS_VERSION,
                                    sf_entries := drop_secret environment key by_environment (sf_entries file) \<rparr>) d of
                        (r, d) \<Rightarrow> on_ok r d (\<lambda>_. (Inr was_present, d)))
                else (Inr was_present, d)))))))"

subsection \<open>What every store promises\<close>

definition readable :: "('f \<Rightarrow> u32) \<Rightarrow> u32 \<Rightarrow> 'f disk \<Rightarrow> bool" where
  "readable version_of current d \<longleftrightarrow>
     (case d of Absent \<Rightarrow> True | Undecodable _ \<Rightarrow> False | Contents f \<Rightarrow> version_of f \<le> current)"

text \<open>
  Every operation leaves the file alone or replaces a readable one by a whole file of the current
  version, and an operation that fails has replaced nothing unless the directory flush, which comes
  after the rename, is what failed.
\<close>

locale versioned_store =
  fixes version_of :: "'f \<Rightarrow> u32" and current :: u32
    and perform :: "'op \<Rightarrow> faults \<Rightarrow> 'f disk \<Rightarrow> ('e + 'r) \<times> 'f disk"
  assumes replaces: "perform oper q d = (r, d') \<Longrightarrow> d' \<noteq> d \<Longrightarrow>
      readable version_of current d \<and> (\<exists>f. d' = Contents f \<and> version_of f = current)"
    and refused: "perform oper q d = (Inl e, d') \<Longrightarrow> fault_sync q = None \<Longrightarrow> d' = d"
begin

definition after :: "('op \<times> faults) list \<Rightarrow> 'f disk \<Rightarrow> 'f disk" where
  "after ops d = fold (\<lambda>(oper, q) d. snd (perform oper q d)) ops d"

lemma after_unreadable: "\<not> readable version_of current d \<Longrightarrow> after ops d = d"
proof (induction ops)
  case (Cons x ops)
  obtain oper q where x: "x = (oper, q)" by (cases x)
  have "snd (perform oper q d) = d" using replaces[of oper q d] Cons.prems by (cases "perform oper q d") auto
  then show ?case using Cons x by (simp add: after_def)
qed (simp add: after_def)

lemma after_readable:
  assumes "readable version_of current d"
  shows "readable version_of current (after ops d)
    \<and> (after ops d = d \<or> (\<exists>f. after ops d = Contents f \<and> version_of f = current))"
  using assms
proof (induction ops arbitrary: d)
  case (Cons x ops)
  obtain oper q where x: "x = (oper, q)" by (cases x)
  let ?d = "snd (perform oper q d)"
  have step: "?d = d \<or> (\<exists>f. ?d = Contents f \<and> version_of f = current)"
    using replaces[of oper q d] by (cases "perform oper q d") auto
  then have r: "readable version_of current ?d" using Cons.prems by (auto simp: readable_def)
  have "after (x # ops) d = after ops ?d" using x by (simp add: after_def)
  then show ?case using Cons.IH[OF r] step by auto
qed (simp add: after_def)

lemma refused_leaves: "fault_sync q = None \<Longrightarrow> fst (perform oper q d) = Inl e \<Longrightarrow> snd (perform oper q d) = d"
  using refused[of oper q d] by (cases "perform oper q d") auto

end

subsection \<open>The stores keep it\<close>

lemma read_versioned_Inr:
  "read_versioned q version_of dflt current d = Inr f \<longleftrightarrow>
    fault_read q = None \<and> (d = Absent \<and> f = dflt \<or> d = Contents f \<and> version_of f \<le> current)"
  by (auto simp: read_versioned_def split: option.splits disk.splits if_splits)

lemma read_versioned_readable: "read_versioned q version_of dflt current d = Inr f \<Longrightarrow> readable version_of current d"
  by (auto simp: read_versioned_Inr readable_def)

lemma write_json_cases:
  "write_json q f d = (case stage_json q of Inl e \<Rightarrow> (Inl e, d)
     | Inr _ \<Rightarrow> (case fault_install q of Some e \<Rightarrow> (Inl e, d) | None \<Rightarrow> (sync_dir q, Contents f)))"
  by (auto simp: write_json_def publish_def install_def on_ok_def split: sum.splits option.splits)

lemma write_json_writes: "write_json q f d = (r, d') \<Longrightarrow> d' = d \<or> d' = Contents f"
  by (auto simp: write_json_cases split: sum.splits option.splits)

lemma write_json_Inr: "write_json q f d = (Inr u, d') \<longleftrightarrow> fault_stage q = None \<and> fault_install q = None \<and> fault_sync q = None \<and> d' = Contents f"
  by (auto simp: write_json_cases stage_json_def sync_dir_def split: sum.splits option.splits)

lemma write_json_refused: "write_json q f d = (Inl e, d') \<Longrightarrow> fault_sync q = None \<Longrightarrow> d' = d"
  by (auto simp: write_json_cases sync_dir_def split: sum.splits option.splits)

lemmas write_json_facts = write_json_writes write_json_refused

text \<open>The shape every mutating operation has: read under the lock, then write once.\<close>

definition careful :: "('f \<Rightarrow> u32) \<Rightarrow> u32 \<Rightarrow> faults \<Rightarrow> 'f disk \<Rightarrow> ('e + 'r) \<times> 'f disk \<Rightarrow> bool" where
  "careful version_of current q d out \<longleftrightarrow>
     (snd out \<noteq> d \<longrightarrow> readable version_of current d \<and> (\<exists>f. snd out = Contents f \<and> version_of f = current)) \<and>
     (isl (fst out) \<and> fault_sync q = None \<longrightarrow> snd out = d)"

lemma careful_quiet [simp]: "careful version_of current q d (r, d)"
  by (simp add: careful_def)

lemma careful_on_ok:
  "(\<And>x. r = Inr x \<Longrightarrow> careful version_of current q d (k x)) \<Longrightarrow> careful version_of current q d (on_ok r d k)"
  by (cases r) simp_all

lemma careful_then:
  "careful version_of current q d out \<Longrightarrow>
    careful version_of current q d (case out of (r, d) \<Rightarrow> on_ok r d (\<lambda>_. (Inr x, d)))"
  by (cases out; cases "fst out") (auto simp: careful_def)

lemma careful_write:
  assumes "readable version_of current d" "version_of f = current"
  shows "careful version_of current q d (map_prod (map_err g) id (write_json q f d))"
proof -
  obtain r d' where w: "write_json q f d = (r, d')" by fastforce
  show ?thesis using assms w write_json_writes[OF w] write_json_refused[of q f d _ d']
    by (cases r) (auto simp: careful_def)
qed

lemma careful_secrets_write:
  assumes "readable sf_version SECRETS_VERSION d" "sf_version f = SECRETS_VERSION"
  shows "careful sf_version SECRETS_VERSION q d (secrets_write_file q f d)"
  using assms by (auto simp: secrets_write_file_def install_def careful_def on_ok_def sync_dir_def split: sum.splits option.splits)

lemma read_files_readable:
  "kv_read_file q d = Inr file1 \<Longrightarrow> readable kvf_version KV_VERSION d"
  "overrides_read_file q d2 = Inr file2 \<Longrightarrow> readable ovf_version OVERRIDES_VERSION d2"
  "secrets_read_file q d3 = Inr file3 \<Longrightarrow> readable sf_version SECRETS_VERSION d3"
  by (auto simp: kv_read_file_def overrides_read_file_def secrets_read_file_def intro: read_versioned_readable)

lemmas careful_intros = careful_on_ok careful_then careful_write careful_secrets_write read_files_readable

lemma kv_careful:
  "careful kvf_version KV_VERSION q d (kv_set q key v d)"
  "careful kvf_version KV_VERSION q d (kv_unset q key d)"
  "careful kvf_version KV_VERSION q d (kv_clear q d)"
  unfolding kv_set_def kv_unset_def kv_clear_def kv_write_file_def Let_def
  by (auto intro!: careful_intros split: if_splits)

lemma overrides_careful:
  "careful ovf_version OVERRIDES_VERSION q d (overrides_put q nm rec d)"
  "careful ovf_version OVERRIDES_VERSION q d (overrides_remove q nm d)"
  "careful ovf_version OVERRIDES_VERSION q d (overrides_update q changes d)"
  unfolding overrides_put_def overrides_remove_def overrides_update_def overrides_write_file_def Let_def
  by (auto intro!: careful_intros split: if_splits)

lemma secrets_careful:
  "careful sf_version SECRETS_VERSION q d (secrets_set q key environment v d)"
  "careful sf_version SECRETS_VERSION q d (secrets_set_many q environment entries d)"
  "careful sf_version SECRETS_VERSION q d (secrets_unset q key environment d)"
  unfolding secrets_set_def secrets_set_many_def secrets_unset_def Let_def
  by (auto intro!: careful_intros split: if_splits option.splits)

text \<open>The mutating operations of each store, by request.\<close>

definition discard :: "('e + 'a) \<times> 'd \<Rightarrow> ('e + unit) \<times> 'd" where
  "discard out = map_prod (map_sum id (\<lambda>_. ())) id out"

datatype kv_op = KvSet string string | KvUnset string | KvClear

primrec kv_perform :: "kv_op \<Rightarrow> faults \<Rightarrow> KvFile disk \<Rightarrow> (KvError + unit) \<times> KvFile disk" where
  "kv_perform (KvSet key v) q d = kv_set q key v d"
| "kv_perform (KvUnset key) q d = discard (kv_unset q key d)"
| "kv_perform KvClear q d = discard (kv_clear q d)"

datatype overrides_op = OvPut string AppOverrides | OvRemove string | OvUpdate changes

primrec overrides_perform ::
  "overrides_op \<Rightarrow> faults \<Rightarrow> OverridesFile disk \<Rightarrow> (OverridesError + unit) \<times> OverridesFile disk" where
  "overrides_perform (OvPut nm v) q d = overrides_put q nm v d"
| "overrides_perform (OvRemove nm) q d = discard (overrides_remove q nm d)"
| "overrides_perform (OvUpdate changes) q d = overrides_update q changes d"

datatype secrets_op = SecSet string string string | SecSetMany string "(string \<times> string) list" | SecUnset string string

primrec secrets_perform :: "secrets_op \<Rightarrow> faults \<Rightarrow> SecretFile disk \<Rightarrow> (SecretError + unit) \<times> SecretFile disk" where
  "secrets_perform (SecSet key environment v) q d = secrets_set q key environment v d"
| "secrets_perform (SecSetMany environment entries) q d = secrets_set_many q environment entries d"
| "secrets_perform (SecUnset key environment) q d = discard (secrets_unset q key environment d)"

lemma careful_discard: "careful version_of current q d out \<Longrightarrow> careful version_of current q d (discard out)"
  by (cases out; cases "fst out") (auto simp: careful_def discard_def)

lemma performs_careful:
  "careful kvf_version KV_VERSION q d1 (kv_perform op1 q d1)"
  "careful ovf_version OVERRIDES_VERSION q d2 (overrides_perform op2 q d2)"
  "careful sf_version SECRETS_VERSION q d3 (secrets_perform op3 q d3)"
    apply (cases op1; simp add: kv_careful careful_discard)
   apply (cases op2; simp add: overrides_careful careful_discard)
  by (cases op3; simp add: secrets_careful careful_discard)

lemma carefulD:
  assumes "careful version_of current q d (r, d')"
  shows "d' \<noteq> d \<Longrightarrow> readable version_of current d \<and> (\<exists>f. d' = Contents f \<and> version_of f = current)"
    "r = Inl e \<Longrightarrow> fault_sync q = None \<Longrightarrow> d' = d"
  using assms by (auto simp: careful_def)

interpretation kv: versioned_store kvf_version KV_VERSION kv_perform
proof
  fix oper q d r d' e
  show "kv_perform oper q d = (r, d') \<Longrightarrow> d' \<noteq> d \<Longrightarrow> readable kvf_version KV_VERSION d \<and> (\<exists>f. d' = Contents f \<and> kvf_version f = KV_VERSION)"
    "kv_perform oper q d = (Inl e, d') \<Longrightarrow> fault_sync q = None \<Longrightarrow> d' = d"
    using performs_careful(1)[of q d oper] by (auto dest: carefulD)
qed

interpretation ovs: versioned_store ovf_version OVERRIDES_VERSION overrides_perform
proof
  fix oper q d r d' e
  show "overrides_perform oper q d = (r, d') \<Longrightarrow> d' \<noteq> d \<Longrightarrow> readable ovf_version OVERRIDES_VERSION d \<and> (\<exists>f. d' = Contents f \<and> ovf_version f = OVERRIDES_VERSION)"
    "overrides_perform oper q d = (Inl e, d') \<Longrightarrow> fault_sync q = None \<Longrightarrow> d' = d"
    using performs_careful(2)[of q d oper] by (auto dest: carefulD)
qed

interpretation sec: versioned_store sf_version SECRETS_VERSION secrets_perform
proof
  fix oper q d r d' e
  show "secrets_perform oper q d = (r, d') \<Longrightarrow> d' \<noteq> d \<Longrightarrow> readable sf_version SECRETS_VERSION d \<and> (\<exists>f. d' = Contents f \<and> sf_version f = SECRETS_VERSION)"
    "secrets_perform oper q d = (Inl e, d') \<Longrightarrow> fault_sync q = None \<Longrightarrow> d' = d"
    using performs_careful(3)[of q d oper] by (auto dest: carefulD)
qed

subsection \<open>Properties\<close>

text \<open>
  C17. A store this build cannot read is never rewritten: whatever operations run on it, and
  whatever they meet, a file of a newer version and a file that does not decode stay as they are,
  in the key/value store, the override store and the secret store alike.
\<close>

theorem newer_store_is_never_clobbered:
  "\<not> readable kvf_version KV_VERSION k \<Longrightarrow> \<not> readable ovf_version OVERRIDES_VERSION v \<Longrightarrow> \<not> readable sf_version SECRETS_VERSION s \<Longrightarrow>
    fold (\<lambda>(oper, q) d. snd (kv_perform oper q d)) kops k = k
    \<and> fold (\<lambda>(oper, q) d. snd (overrides_perform oper q d)) vops v = v
    \<and> fold (\<lambda>(oper, q) d. snd (secrets_perform oper q d)) sops s = s"
  using kv.after_unreadable ovs.after_unreadable sec.after_unreadable
  by (simp add: kv.after_def ovs.after_def sec.after_def)

theorem newer_store_is_never_clobbered_witness:
  "fold (\<lambda>(oper, q) d. snd (kv_perform oper q d)) [(KvSet ''a'' ''b'', no_faults), (KvClear, no_faults)] (Undecodable ''eof'') = Undecodable ''eof''
    \<and> fold (\<lambda>(oper, q) d. snd (overrides_perform oper q d)) [(OvRemove ''web'', no_faults)]
        (Contents \<lparr> ovf_version = 2, ovf_apps = [(''web'', no_overrides)] \<rparr>) = Contents \<lparr> ovf_version = 2, ovf_apps = [(''web'', no_overrides)] \<rparr>
    \<and> fold (\<lambda>(oper, q) d. snd (secrets_perform oper q d)) [(SecUnset ''K'' ''all'', no_faults)]
        (Contents \<lparr> sf_version = 7, sf_entries = [] \<rparr>) = Contents \<lparr> sf_version = 7, sf_entries = [] \<rparr>"
  by (rule newer_store_is_never_clobbered) (simp_all add: readable_def OVERRIDES_VERSION_def SECRETS_VERSION_def word_le_nat_alt)

text \<open>
  What an error of the secret store says. \<open>out0\<close> is the outcome had the directory flush not failed.
\<close>

definition tells :: "SecretFile disk \<Rightarrow> (SecretError + 'r) \<times> SecretFile disk \<Rightarrow> (SecretError + 'r) \<times> SecretFile disk \<Rightarrow> bool" where
  "tells d out out0 \<longleftrightarrow>
     (case fst out of
        Inl (Unsynced _) \<Rightarrow> \<not> isl (fst out0) \<and> snd out0 = snd out
      | Inl _ \<Rightarrow> snd out = d
      | Inr _ \<Rightarrow> True)"

lemma tells_refuse [simp]: "\<forall>m. e \<noteq> Unsynced m \<Longrightarrow> tells d (Inl e, d) out0" "tells d (Inr x, d') out0"
  by (cases e) (auto simp: tells_def)

lemma tells_on_ok:
  "(\<And>m. r \<noteq> Inl (Unsynced m)) \<Longrightarrow> (\<And>x. tells d (k x) (k0 x)) \<Longrightarrow> tells d (on_ok r d k) (on_ok r d k0)"
  by (cases r) auto

lemma tells_write: "tells d (secrets_write_file q f d) (secrets_write_file (q\<lparr> fault_sync := None \<rparr>) f d)"
  by (auto simp: tells_def secrets_write_file_def install_def stage_json_def on_ok_def sync_dir_def map_err_def attempt_def
      split: sum.splits option.splits)

lemma tells_then:
  "tells d out out0 \<Longrightarrow>
    tells d (case out of (r, d) \<Rightarrow> on_ok r d (\<lambda>_. (Inr x, d))) (case out0 of (r, d) \<Rightarrow> on_ok r d (\<lambda>_. (Inr x, d)))"
  by (cases out; cases out0; cases "fst out"; cases "fst out0") (auto simp: tells_def split: SecretError.splits)

lemma tells_discard: "tells d out out0 \<Longrightarrow> tells d (discard out) (discard out0)"
  by (cases out; cases out0; cases "fst out"; cases "fst out0") (auto simp: tells_def discard_def split: SecretError.splits)

lemma reads_synced [simp]:
  "secrets_lock (q\<lparr> fault_sync := None \<rparr>) = secrets_lock q"
  "secrets_read_file (q\<lparr> fault_sync := None \<rparr>) d = secrets_read_file q d"
  by (simp_all add: secrets_lock_def secrets_read_file_def read_versioned_def)

lemma never_unsynced [simp]:
  "secret_check_name n SecInvalidKey \<noteq> Inl (Unsynced m)" "secret_check_name n InvalidEnvironment \<noteq> Inl (Unsynced m)"
  "check_value key v \<noteq> Inl (Unsynced m)" "secrets_lock q \<noteq> Inl (Unsynced m)" "secrets_read_file q d \<noteq> Inl (Unsynced m)"
  by (auto simp: secret_check_name_def check_value_def ensure_def secrets_lock_def secrets_read_file_def map_err_def
      split: sum.splits) (metis ReadError.exhaust SecretError.distinct secret_error_from.simps)

lemma entries_never_unsynced [simp]:
  "first_error (\<lambda>(key, v). and_then (secret_check_name key SecInvalidKey) (\<lambda>_. check_value key v)) entries \<noteq> Inl (Unsynced m)"
  by (induction entries) (auto simp: and_then_Inl)

lemma perform_tells: "tells d (secrets_perform oper q d) (secrets_perform oper (q\<lparr> fault_sync := None \<rparr>) d)"
  by (cases oper)
    (auto simp: secrets_set_def secrets_set_many_def secrets_unset_def Let_def
      intro!: tells_on_ok tells_write tells_then tells_discard split: option.splits)

text \<open>
  C18. An error of the secret store tells what the store holds. \<open>Unsynced\<close> means the change is in
  place: the file is the one a run without the failed directory flush leaves. Every other error
  means nothing was written.
\<close>

theorem secret_errors_tell_what_was_stored:
  "secrets_perform oper q d = (Inl e, d') \<Longrightarrow>
    (if \<exists>m. e = Unsynced m then secrets_perform oper (q\<lparr> fault_sync := None \<rparr>) d = (Inr (), d') else d' = d)"
  using perform_tells[of d oper q]
  by (cases "secrets_perform oper (q\<lparr> fault_sync := None \<rparr>) d"; cases "fst (secrets_perform oper (q\<lparr> fault_sync := None \<rparr>) d)")
    (auto simp: tells_def split: SecretError.splits)

theorem secret_errors_tell_what_was_stored_witness:
  "secrets_perform (SecSet ''K'' ''all'' ''v'') (no_faults\<lparr> fault_sync := None \<rparr>) Absent =
    (Inr (), Contents \<lparr> sf_version = 1, sf_entries = [(''K'', [(''all'', ''v'')])] \<rparr>)"
proof -
  have "is_name ''K''" "is_name ''all''" by (simp_all add: is_name_def MAX_KEY_BYTES_def is_name_byte_def is_ascii_alphanumeric_def)
  then have "secrets_perform (SecSet ''K'' ''all'' ''v'') (no_faults\<lparr> fault_sync := Some ''EIO'' \<rparr>) Absent =
    (Inl (Unsynced ''EIO''), Contents \<lparr> sf_version = 1, sf_entries = [(''K'', [(''all'', ''v'')])] \<rparr>)"
    by (simp add: secrets_set_def secret_check_name_def check_value_def MAX_VALUE_BYTES_def secrets_lock_def secrets_read_file_def
        read_versioned_def secrets_default_def secrets_write_file_def install_def stage_json_def sync_dir_def put_secret_def no_faults_def
        SECRETS_VERSION_def)
  from secret_errors_tell_what_was_stored[OF this] show ?thesis by (simp add: no_faults_def)
qed

text \<open>
  The override store does not keep that promise: when only the directory flush after the
  rename fails, \<open>overrides::update\<close> answers the same I/O error as when nothing was written, and the
  whole batch is in the store. The key/value store does the same.
\<close>

lemma flush_failure_reads_as_nothing_written:
  "overrides_update (no_faults\<lparr> fault_sync := Some m \<rparr>) [(nm, Some rec)] Absent =
     (Inl (OvIo m), Contents \<lparr> ovf_version = OVERRIDES_VERSION, ovf_apps = [(nm, rec)] \<rparr>)
   \<and> overrides_update (no_faults\<lparr> fault_install := Some m \<rparr>) [(nm, Some rec)] Absent = (Inl (OvIo m), Absent)
   \<and> kv_set (no_faults\<lparr> fault_sync := Some m \<rparr>) ''k'' ''v'' Absent =
     (Inl (KvIo m), Contents \<lparr> kvf_version = KV_VERSION, kvf_entries = [(''k'', ''v'')] \<rparr>)"
proof -
  have "check_key ''k'' = Inr ()"
    by (simp add: check_key_def KV_MAX_KEY_BYTES_def is_name_byte_def is_ascii_alphanumeric_def)
  then show ?thesis
    by (simp add: overrides_update_def overrides_lock_def overrides_read_file_def read_versioned_def no_faults_def overrides_default_def
        holds_def OVERRIDES_VERSION_def overrides_write_file_def write_json_cases stage_json_def sync_dir_def apply_change_def
        kv_set_def kv_lock_def kv_read_file_def kv_default_def kv_write_file_def KV_MAX_VALUE_BYTES_def)
qed

text \<open>A batch of changes, name by name.\<close>

lemma map_of_apply_changes:
  "distinct (map fst changes) \<Longrightarrow>
    map_of (fold apply_change changes apps) nm = (case map_of changes nm of Some change \<Rightarrow> change | None \<Rightarrow> map_of apps nm)"
proof (induction changes arbitrary: apps)
  case (Cons c changes)
  obtain k change where c: "c = (k, change)" by (cases c)
  have n: "map_of changes k = None" using Cons.prems c by (simp add: map_of_eq_None_iff)
  have step: "map_of (apply_change (k, change) apps) nm = (if nm = k then change else map_of apps nm)"
    by (cases change) (simp_all add: apply_change_def map_of_alist_update map_of_alist_delete)
  show ?case using Cons.IH[of "apply_change c apps"] Cons.prems c n step by (auto split: option.splits)
qed simp

lemma overrides_get_contents:
  "ovf_version f \<le> OVERRIDES_VERSION \<Longrightarrow> overrides_get no_faults nm (Contents f) = Inr (map_of (ovf_apps f) nm)"
  by (simp add: overrides_get_def overrides_all_def overrides_lock_def overrides_read_file_def read_versioned_def no_faults_def)

lemma overrides_get_read:
  "overrides_read_file q d = Inr file \<Longrightarrow> overrides_get no_faults nm d = Inr (map_of (ovf_apps file) nm)"
  by (auto simp: overrides_get_def overrides_all_def overrides_lock_def overrides_read_file_def read_versioned_def no_faults_def
      map_err_def split: option.splits disk.splits if_splits sum.splits)

text \<open>
  C38. A batch of override changes lands whole or not at all, whatever the file system refuses. Either
  the file is untouched, and an answer of success then means it held every change before; or every name
  of the batch now reads as the batch says and every other name as before, and the answer is success,
  or the I/O error of the one step that comes after the rename, the flush of the directory.
\<close>

theorem override_batch_is_atomic:
  assumes "overrides_update q changes d = (r, d')" "distinct (map fst changes)"
  shows "(d' = d \<and> (r = Inr () \<longrightarrow> (\<forall>(nm, change) \<in> set changes. overrides_get no_faults nm d = Inr change)))
    \<or> ((r = Inr () \<or> (\<exists>m. fault_sync q = Some m \<and> r = Inl (OvIo m))) \<and>
       (\<forall>nm. overrides_get no_faults nm d' =
          (case map_of changes nm of Some change \<Rightarrow> Inr change | None \<Rightarrow> overrides_get no_faults nm d)))"
proof (cases "overrides_lock q = Inr () \<and> (\<exists>file. overrides_read_file q d = Inr file) \<and> changes \<noteq> []")
  case False
  then show ?thesis
    using assms(1) by (auto simp: overrides_update_def on_ok_def split: sum.splits if_splits)
next
  case True
  then obtain f where f: "overrides_read_file q d = Inr f" by blast
  let ?f = "f\<lparr> ovf_apps := fold apply_change changes (ovf_apps f), ovf_version := OVERRIDES_VERSION \<rparr>"
  have get: "overrides_get no_faults nm d = Inr (map_of (ovf_apps f) nm)" for nm by (rule overrides_get_read[OF f])
  show ?thesis
  proof (cases "list_all (\<lambda>(nm, change). holds f nm change) changes")
    case held: True
    then have "\<forall>(nm, change) \<in> set changes. overrides_get no_faults nm d = Inr change"
      by (auto simp: get holds_def list_all_iff split: option.splits)
    moreover have "r = Inr ()" "d' = d" using assms(1) True held f by (auto simp: overrides_update_def)
    ultimately show ?thesis by blast
  next
    case False
    then have w: "overrides_write_file q ?f d = (r, d')" using assms(1) True f by (simp add: overrides_update_def)
    have "overrides_get no_faults nm (Contents ?f) =
        (case map_of changes nm of Some change \<Rightarrow> Inr change | None \<Rightarrow> overrides_get no_faults nm d)" for nm
      using map_of_apply_changes[OF assms(2)] by (simp add: overrides_get_contents get split: option.splits)
    then show ?thesis
      using w by (auto simp: overrides_write_file_def write_json_cases stage_json_def sync_dir_def attempt_def map_err_def
          split: option.splits)
  qed
qed

theorem override_batch_is_atomic_witness:
  "\<exists>r d'. overrides_update no_faults [(''api'', Some no_overrides), (''web'', None)] (Contents \<lparr> ovf_version = 1, ovf_apps = [(''web'', no_overrides)] \<rparr>) = (r, d')
    \<and> r = Inr () \<and> overrides_get no_faults ''api'' d' = Inr (Some no_overrides) \<and> overrides_get no_faults ''web'' d' = Inr None"
proof -
  let ?d = "Contents \<lparr> ovf_version = 1, ovf_apps = [(''web'', no_overrides)] \<rparr>" and ?changes = "[(''api'', Some no_overrides), (''web'', None)]"
  obtain r d' where u: "overrides_update no_faults ?changes ?d = (r, d')" by fastforce
  moreover have "r = Inr () \<and> d' \<noteq> ?d"
    using u by (auto simp: overrides_update_def overrides_lock_def overrides_read_file_def read_versioned_def no_faults_def
        holds_def OVERRIDES_VERSION_def overrides_write_file_def write_json_cases stage_json_def sync_dir_def apply_change_def)
  ultimately show ?thesis using override_batch_is_atomic[OF u] by auto
qed

subsection \<open>Slots of the secret store\<close>

lemma slot_value_put:
  "slot_value (put_secret environment key v entries) k e =
    (if k = key \<and> e = environment then Some v else slot_value entries k e)"
  by (auto simp: slot_value_def put_secret_def map_of_alist_update split: option.splits)

lemma slot_value_drop:
  assumes "map_of entries key = Some m"
  shows "slot_value (drop_secret environment key m entries) k e =
    (if k = key \<and> e = environment then None else slot_value entries k e)"
proof -
  have "map_of m e = None" if "AList.delete environment m = []" "e \<noteq> environment"
    using that map_of_alist_delete[of environment m e] by simp
  then show ?thesis
    using assms by (auto simp: drop_secret_def Let_def slot_value_def map_of_alist_update map_of_alist_delete split: option.splits)
qed

text \<open>What a reader of the file sees once a write of it has succeeded.\<close>

lemma secrets_get_read:
  assumes "fault_read q = None" "secrets_read_file q' d = Inr st"
  shows "secrets_get q k e d =
    and_then (secret_check_name k SecInvalidKey) (\<lambda>_. and_then (secret_check_name e InvalidEnvironment) (\<lambda>_.
      Inr (slot_value (sf_entries st) k e)))"
  using assms by (auto simp: secrets_get_def secrets_all_def secrets_read_file_def read_versioned_def
      split: disk.splits option.splits if_splits)

lemma secrets_get_contents:
  "fault_read q = None \<Longrightarrow> sf_version st = SECRETS_VERSION \<Longrightarrow> secrets_get q k e (Contents st) =
    and_then (secret_check_name k SecInvalidKey) (\<lambda>_. and_then (secret_check_name e InvalidEnvironment) (\<lambda>_.
      Inr (slot_value (sf_entries st) k e)))"
  by (rule secrets_get_read[of q q]) (simp_all add: secrets_read_file_def read_versioned_def)

lemma secrets_write_Inr: "secrets_write_file q f d = (Inr u, d') \<Longrightarrow> d' = Contents f"
  by (auto simp: secrets_write_file_def install_def on_ok_def split: sum.splits prod.splits)

lemma secrets_set_Inr:
  assumes "secrets_set q key environment v d = (Inr u, d')"
  obtains st where "secrets_read_file q d = Inr st" "is_name key" "is_name environment" "length v \<le> MAX_VALUE_BYTES"
    "d' = Contents (st\<lparr> sf_version := SECRETS_VERSION, sf_entries := put_secret environment key v (sf_entries st) \<rparr>)"
  using assms by (auto simp: secrets_set_def on_ok_Inr secret_check_name_def check_value_def dest!: secrets_write_Inr)

lemma secrets_unset_Inr:
  assumes "secrets_unset q key environment d = (Inr b, d')"
  shows "\<exists>st. secrets_read_file q d = Inr st \<and> (b \<longleftrightarrow> slot_value (sf_entries st) key environment \<noteq> None) \<and>
    (if b then \<exists>m. map_of (sf_entries st) key = Some m \<and>
       d' = Contents (st\<lparr> sf_version := SECRETS_VERSION, sf_entries := drop_secret environment key m (sf_entries st) \<rparr>)
     else d' = d)"
proof -
  from assms obtain st where st: "secrets_read_file q d = Inr st" by (auto simp: secrets_unset_def on_ok_Inr)
  show ?thesis
  proof (cases "map_of (sf_entries st) key")
    case None
    then show ?thesis using assms st by (auto simp: secrets_unset_def on_ok_Inr slot_value_def)
  next
    case (Some m)
    show ?thesis
    proof (cases "map_of m environment")
      case None
      then show ?thesis using assms st Some by (auto simp: secrets_unset_def on_ok_Inr slot_value_def)
    next
      case (Some v)
      obtain r d1 where w: "secrets_write_file q (st\<lparr> sf_version := SECRETS_VERSION, sf_entries := drop_secret environment key m (sf_entries st) \<rparr>) d = (r, d1)"
        by fastforce
      show ?thesis
        using assms st \<open>map_of (sf_entries st) key = Some m\<close> Some w secrets_write_Inr[of q _ d]
        by (auto simp: secrets_unset_def on_ok_Inr slot_value_def)
    qed
  qed
qed

text \<open>
  C19. A slot of the secret store holds what was last stored in it. After a \<open>set\<close> that succeeds,
  reading that key and environment gives the value, and every other slot reads as before; after
  an \<open>unset\<close> that succeeds it reads as empty, \<open>unset\<close> having said whether it held something.
\<close>

theorem secret_slots_round_trip:
  assumes "fault_read q' = None"
  shows "(secrets_set q key environment v d = (Inr (), d') \<longrightarrow>
      secrets_get q' k e d' = (if k = key \<and> e = environment then Inr (Some v) else secrets_get q' k e d))
    \<and> (secrets_unset q key environment d = (Inr b, d') \<longrightarrow>
      secrets_get q' k e d' = (if k = key \<and> e = environment then Inr None else secrets_get q' k e d)
      \<and> (b \<longleftrightarrow> secrets_get q' key environment d \<noteq> Inr None))"
proof (intro conjI impI)
  assume "secrets_set q key environment v d = (Inr (), d')"
  then obtain st where f: "secrets_read_file q d = Inr st" "is_name key" "is_name environment"
    "d' = Contents (st\<lparr> sf_version := SECRETS_VERSION, sf_entries := put_secret environment key v (sf_entries st) \<rparr>)"
    by (rule secrets_set_Inr)
  show "secrets_get q' k e d' = (if k = key \<and> e = environment then Inr (Some v) else secrets_get q' k e d)"
    using f secrets_get_contents[OF assms] secrets_get_read[OF assms f(1)]
    by (simp add: slot_value_put secret_check_name_def)
next
  assume u: "secrets_unset q key environment d = (Inr b, d')"
  then have n: "is_name key \<and> is_name environment" by (auto simp: secrets_unset_def on_ok_Inr secret_check_name_def)
  from secrets_unset_Inr[OF u] obtain st where f: "secrets_read_file q d = Inr st"
      "b \<longleftrightarrow> slot_value (sf_entries st) key environment \<noteq> None"
      "if b then \<exists>m. map_of (sf_entries st) key = Some m \<and>
         d' = Contents (st\<lparr> sf_version := SECRETS_VERSION, sf_entries := drop_secret environment key m (sf_entries st) \<rparr>)
       else d' = d" by blast
  note g = secrets_get_read[OF assms f(1)]
  show "b \<longleftrightarrow> secrets_get q' key environment d \<noteq> Inr None" using f(2) g n by (simp add: secret_check_name_def)
  show "secrets_get q' k e d' = (if k = key \<and> e = environment then Inr None else secrets_get q' k e d)"
  proof (cases b)
    case True
    then obtain m where m: "map_of (sf_entries st) key = Some m"
      "d' = Contents (st\<lparr> sf_version := SECRETS_VERSION, sf_entries := drop_secret environment key m (sf_entries st) \<rparr>)"
      using f(3) by auto
    show ?thesis using m(2) g secrets_get_contents[OF assms] slot_value_drop[OF m(1), of environment k e] n
      by (simp add: secret_check_name_def)
  next
    case False
    then show ?thesis using f(2,3) g n by (simp add: secret_check_name_def)
  qed
qed

theorem secret_slots_round_trip_witness:
  "\<exists>d. secrets_set no_faults ''K'' ''all'' ''v'' Absent = (Inr (), d) \<and> secrets_get no_faults ''K'' ''all'' d = Inr (Some ''v'')
    \<and> secrets_get no_faults ''K'' ''dev'' d = Inr None"
proof -
  have n: "is_name ''K''" "is_name ''all''" "is_name ''dev''"
    by (simp_all add: is_name_def MAX_KEY_BYTES_def is_name_byte_def is_ascii_alphanumeric_def)
  then have s: "secrets_set no_faults ''K'' ''all'' ''v'' Absent =
      (Inr (), Contents \<lparr> sf_version = 1, sf_entries = [(''K'', [(''all'', ''v'')])] \<rparr>)"
    and g: "secrets_get no_faults ''K'' ''dev'' Absent = Inr None"
    by (simp_all add: secrets_set_def secret_check_name_def check_value_def MAX_VALUE_BYTES_def secrets_lock_def secrets_read_file_def
        read_versioned_def secrets_default_def secrets_write_file_def install_def stage_json_def sync_dir_def put_secret_def no_faults_def
        SECRETS_VERSION_def secrets_get_def secrets_all_def slot_value_def)
  have "fault_read no_faults = None" by (simp add: no_faults_def)
  note t = secret_slots_round_trip[OF this, of no_faults "''K''" "''all''" "''v''" Absent]
  show ?thesis using s g t[of _ "''K''" "''all''"] t[of _ "''K''" "''dev''"] by auto
qed

text \<open>A batch, set by set.\<close>

lemma secrets_set_contents:
  assumes "is_name key" "is_name environment" "length v \<le> MAX_VALUE_BYTES" "secrets_read_file no_faults d = Inr st"
  shows "secrets_set no_faults key environment v d =
    (Inr (), Contents (st\<lparr> sf_version := SECRETS_VERSION, sf_entries := put_secret environment key v (sf_entries st) \<rparr>))"
  using assms by (simp add: secrets_set_def secret_check_name_def check_value_def secrets_lock_def secrets_write_file_def
      install_def stage_json_def sync_dir_def no_faults_def)

lemma sets_fold:
  assumes "is_name environment" "\<forall>(key, v) \<in> set entries. is_name key \<and> length v \<le> MAX_VALUE_BYTES" "sf_version st = SECRETS_VERSION"
  shows "fold (\<lambda>(key, v) d. snd (secrets_set no_faults key environment v d)) entries (Contents st) =
    Contents (st\<lparr> sf_entries := fold (\<lambda>(key, v). put_secret environment key v) entries (sf_entries st) \<rparr>)"
  using assms(2,3)
proof (induction entries arbitrary: st)
  case (Cons x entries)
  obtain key v where x: "x = (key, v)" by (cases x)
  have r: "secrets_read_file no_faults (Contents st) = Inr st"
    using Cons.prems by (simp add: secrets_read_file_def read_versioned_def no_faults_def)
  have "snd (secrets_set no_faults key environment v (Contents st)) =
      Contents (st\<lparr> sf_version := SECRETS_VERSION, sf_entries := put_secret environment key v (sf_entries st) \<rparr>)"
    using Cons.prems x assms(1) secrets_set_contents[OF _ assms(1) _ r] by simp
  then show ?case using Cons x by simp
qed simp

lemma secrets_set_refused:
  "isl (fst (secrets_set no_faults key environment v d)) \<longleftrightarrow>
    \<not> (is_name key \<and> is_name environment \<and> length v \<le> MAX_VALUE_BYTES \<and> \<not> isl (secrets_read_file no_faults d))"
proof (cases "is_name key \<and> is_name environment \<and> length v \<le> MAX_VALUE_BYTES \<and> \<not> isl (secrets_read_file no_faults d)")
  case True
  then obtain st where "secrets_read_file no_faults d = Inr st" by (cases "secrets_read_file no_faults d") auto
  then show ?thesis using True secrets_set_contents by simp
next
  case False
  then show ?thesis
    by (auto simp: secrets_set_def secret_check_name_def check_value_def ensure_def on_ok_def secrets_lock_def no_faults_def split: sum.splits)
qed

text \<open>
  A batch of secrets is its single writes, or nothing. If one of them would be refused on its
  own, the batch is refused and the store is untouched; otherwise the store is the one the writes
  leave one after the other, so a repeated key keeps its last value.
\<close>

theorem secret_batch_is_its_sets:
  "secrets_set_many no_faults environment entries d =
    (if list_ex (\<lambda>(key, v). isl (fst (secrets_set no_faults key environment v d))) entries
     then (fst (secrets_set_many no_faults environment entries d), d)
     else (Inr (), fold (\<lambda>(key, v) d. snd (secrets_set no_faults key environment v d)) entries d))
   \<and> (isl (fst (secrets_set_many no_faults environment entries d)) \<longleftrightarrow>
      list_ex (\<lambda>(key, v). isl (fst (secrets_set no_faults key environment v d))) entries)"
proof (cases entries)
  case Nil
  then show ?thesis by (simp add: secrets_set_many_def)
next
  case (Cons x rest)
  let ?valid = "\<forall>(key, v) \<in> set entries. is_name key \<and> length v \<le> MAX_VALUE_BYTES"
  have fe: "first_error (\<lambda>(key, v). and_then (secret_check_name key SecInvalidKey) (\<lambda>_. check_value key v)) entries = Inr () \<longleftrightarrow> ?valid"
    by (auto simp: first_error_Inr and_then_Inr secret_check_name_def check_value_def)
  have ex: "list_ex (\<lambda>(key, v). isl (fst (secrets_set no_faults key environment v d))) entries \<longleftrightarrow>
      \<not> (?valid \<and> is_name environment \<and> \<not> isl (secrets_read_file no_faults d))"
    using Cons by (auto simp: list_ex_iff secrets_set_refused)
  show ?thesis
  proof (cases "?valid \<and> is_name environment \<and> \<not> isl (secrets_read_file no_faults d)")
    case True
    then obtain st where f: "secrets_read_file no_faults d = Inr st" by (cases "secrets_read_file no_faults d") auto
    obtain key v where x: "x = (key, v)" by (cases x)
    let ?f1 = "st\<lparr> sf_version := SECRETS_VERSION, sf_entries := put_secret environment key v (sf_entries st) \<rparr>"
    have "secrets_set no_faults key environment v d = (Inr (), Contents ?f1)"
      using True Cons x by (intro secrets_set_contents[OF _ _ _ f]) auto
    then have "fold (\<lambda>(key, v) d. snd (secrets_set no_faults key environment v d)) entries d =
        Contents (?f1\<lparr> sf_entries := fold (\<lambda>(key, v). put_secret environment key v) rest (sf_entries ?f1) \<rparr>)"
      using True Cons x sets_fold[of environment rest ?f1] by simp
    moreover have "secrets_set_many no_faults environment entries d =
        (Inr (), Contents (st\<lparr> sf_version := SECRETS_VERSION,
           sf_entries := fold (\<lambda>(key, v). put_secret environment key v) entries (sf_entries st) \<rparr>))"
      using True Cons f fe by (simp add: secrets_set_many_def secret_check_name_def secrets_lock_def secrets_write_file_def
          install_def stage_json_def sync_dir_def no_faults_def)
    ultimately show ?thesis using ex True Cons x by simp
  next
    case False
    have "\<exists>e. secrets_set_many no_faults environment entries d = (Inl e, d)"
      using False Cons fe
      by (cases "secrets_read_file no_faults d";
          cases "first_error (\<lambda>(key, v). and_then (secret_check_name key SecInvalidKey) (\<lambda>_. check_value key v)) entries")
        (auto simp: secrets_set_many_def secret_check_name_def ensure_def secrets_lock_def no_faults_def)
    then show ?thesis using ex False by auto
  qed
qed

end
