(* ===== verification/Selector.thy ===== *)
theory Selector
  imports Core_Types
begin

text \<open>
  Target selection (\<open>shep-core/src/selector.rs\<close>): the grammar every CLI verb and RPC filter
  parses, what a parsed selector matches, and its wire form \<open>SelectorSpec\<close>.

  The \<open>regex\<close> and \<open>globset\<close> crates are parameters: a compiled regex is its source and
  the set of names it matches, and \<open>pattern_crates\<close> holds the three constructors the
  code calls.
\<close>

subsection \<open>Selectors\<close>

datatype regex = Regex_of (re_as_str: string) (re_is_match: "string \<Rightarrow> bool")

record pattern_crates =
  regex_new :: "string \<Rightarrow> string + regex"
  regex_new_bounded :: "string \<Rightarrow> string + regex"
  glob_regex :: "string \<Rightarrow> string + string"

datatype ProcessSelector =
  All | Id u32 | Name string | Regex regex | Fold string | Instance string u32

datatype SelectorError = Empty | EmptyFold | BadRegex string | BadGlob string

definition is_glob :: "string \<Rightarrow> bool" where
  "is_glob input \<longleftrightarrow> list_ex (\<lambda>c. c \<in> set ''*?[{'') input"

definition glob_to_regex :: "pattern_crates \<Rightarrow> string \<Rightarrow> SelectorError + regex" where
  "glob_to_regex P input =
     and_then (map_err BadGlob (glob_regex P input)) (\<lambda>source.
       let source = (case strip_prefix ''(?-u)'' source of Some rest \<Rightarrow> rest | None \<Rightarrow> source) in
       map_err BadRegex (regex_new P source))"

definition parse_u32_digits :: "string \<Rightarrow> u32 option" where
  "parse_u32_digits s =
     (if s = [] \<or> \<not> list_all is_ascii_digit s then None else parse_uint s)"

definition instance_form :: "string \<Rightarrow> (string \<times> u32) option" where
  "instance_form input =
     (case rsplit_once CHR '':'' input of
        None \<Rightarrow> None
      | Some (name, slot) \<Rightarrow>
          if name = [] then None else map_option (Pair name) (parse_u32_digits slot))"

definition selector_parse :: "pattern_crates \<Rightarrow> string \<Rightarrow> SelectorError + ProcessSelector" where
  "selector_parse P input =
     (if input = [] then Inl SelectorError.Empty
      else if input = ''all'' then Inr All
      else case strip_prefix ''fold:'' input of
        Some fd \<Rightarrow> if fd = [] then Inl EmptyFold else Inr (Fold fd)
      | None \<Rightarrow>
        if 2 \<le> length input \<and> hd input = CHR ''/'' \<and> last input = CHR ''/'' then
          and_then (map_err BadRegex (regex_new P (butlast (tl input)))) (\<lambda>re. Inr (Regex re))
        else case parse_u32_digits input of
          Some i \<Rightarrow> Inr (Id i)
        | None \<Rightarrow>
          if is_glob input then and_then (glob_to_regex P input) (\<lambda>re. Inr (Regex re))
          else case instance_form input of
            Some (name, slot) \<Rightarrow> Inr (Instance name slot)
          | None \<Rightarrow> Inr (Name input))"

fun is_exact :: "ProcessSelector \<Rightarrow> bool" where
  "is_exact (Id _) = True"
| "is_exact (Name _) = True"
| "is_exact (Instance _ _) = True"
| "is_exact All = False"
| "is_exact (Regex _) = False"
| "is_exact (Fold _) = False"

fun selector_matches ::
  "ProcessSelector \<Rightarrow> string \<Rightarrow> u32 \<Rightarrow> string option \<Rightarrow> u32 option \<Rightarrow> bool" where
  "selector_matches All name i fd inst = True"
| "selector_matches (Id want) name i fd inst = (want = i)"
| "selector_matches (Name want) name i fd inst = (want = name)"
| "selector_matches (Regex re) name i fd inst = re_is_match re name"
| "selector_matches (Fold want) name i fd inst = (fd = Some want)"
| "selector_matches (Instance want slot) name i fd inst = (want = name \<and> inst = Some slot)"

subsection \<open>The wire form\<close>

datatype SelectorSpec =
  SAll | SId u32 | SName string | SRegex string | SFold string | SInstance string u32

fun selector_try_from :: "pattern_crates \<Rightarrow> SelectorSpec \<Rightarrow> SelectorError + ProcessSelector" where
  "selector_try_from P SAll = Inr All"
| "selector_try_from P (SId i) = Inr (Id i)"
| "selector_try_from P (SName n) = Inr (Name n)"
| "selector_try_from P (SFold f) = Inr (Fold f)"
| "selector_try_from P (SInstance n s) = Inr (Instance n s)"
| "selector_try_from P (SRegex src) =
     and_then (map_err BadRegex (regex_new_bounded P src)) (\<lambda>re. Inr (Regex re))"

fun selector_spec_from :: "ProcessSelector \<Rightarrow> SelectorSpec" where
  "selector_spec_from All = SAll"
| "selector_spec_from (Id i) = SId i"
| "selector_spec_from (Name n) = SName n"
| "selector_spec_from (Regex re) = SRegex (re_as_str re)"
| "selector_spec_from (Fold f) = SFold f"
| "selector_spec_from (Instance n s) = SInstance n s"

subsection \<open>Which text names which sheep\<close>

lemma parse_u32_digits_show [simp]: "parse_u32_digits (show_nat (unat (w :: u32))) = Some w"
  by (simp add: parse_u32_digits_def show_nat_digits)

lemma digit_not_special:
  "is_ascii_digit c \<Longrightarrow> c \<notin> {CHR '':'', CHR ''/'', CHR ''*'', CHR ''?'', CHR ''['', CHR ''{'', CHR ''f'', CHR ''a''}"
  by (auto simp: is_ascii_digit_def)

lemma show_nat_not_special:
  "c \<in> {CHR '':'', CHR ''/'', CHR ''*'', CHR ''?'', CHR ''['', CHR ''{'', CHR ''f'', CHR ''a''} \<Longrightarrow>
     c \<notin> set (show_nat n)"
  using show_nat_digits[of n] digit_not_special by (auto simp: list_all_iff)

text \<open>
  A name the config validator lets through and that no earlier form of the grammar claims:
  what \<open>shep <verb> <name>\<close> needs for the verb to reach exactly the app of that name.
\<close>

definition plain_name :: "string \<Rightarrow> bool" where
  "plain_name n \<longleftrightarrow> n \<noteq> [] \<and> n \<noteq> ''all'' \<and> CHR '':'' \<notin> set n \<and> hd n \<noteq> CHR ''/'' \<and>
     \<not> is_glob n \<and> \<not> list_all is_ascii_digit n"

lemma strip_prefix_no_colon:
  "CHR '':'' \<notin> set n \<Longrightarrow> strip_prefix ''fold:'' n = None"
proof (rule ccontr)
  assume n: "CHR '':'' \<notin> set n" and "strip_prefix ''fold:'' n \<noteq> None"
  then obtain r where "n = ''fold:'' @ r" by (auto simp: strip_prefix_Some)
  then show False using n by simp
qed

lemma rsplit_once_None: "d \<notin> set s \<Longrightarrow> rsplit_once d s = None"
  by (metis in_set_conv_decomp not_None_eq prod.collapse rsplit_once_Some)

lemma selector_parse_plain_name:
  "plain_name n \<Longrightarrow> selector_parse P n = Inr (Name n)"
  by (simp add: selector_parse_def plain_name_def strip_prefix_no_colon parse_u32_digits_def
      instance_form_def rsplit_once_None)

lemma selector_parse_id: "selector_parse P (show_nat (unat i)) = Inr (Id i)"
proof -
  let ?s = "show_nat (unat i)"
  have "CHR ''/'' \<notin> set ?s" "CHR '':'' \<notin> set ?s" "CHR ''a'' \<notin> set ?s"
    by (rule show_nat_not_special; simp)+
  moreover have "hd ?s \<in> set ?s" by simp
  ultimately have "hd ?s \<noteq> CHR ''/''" "strip_prefix ''fold:'' ?s = None" "?s \<noteq> ''all''"
    using strip_prefix_no_colon by (metis, blast, auto)
  then show ?thesis by (simp add: selector_parse_def)
qed

lemma selector_parse_instance:
  assumes "plain_name n \<or> (n \<noteq> [] \<and> list_all is_ascii_digit n)" and "n \<noteq> ''fold''"
  shows "selector_parse P (n @ '':'' @ show_nat (unat slot)) = Inr (Instance n slot)"
proof -
  let ?t = "show_nat (unat slot)" and ?s = "n @ '':'' @ show_nat (unat slot)"
  have n: "n \<noteq> []" "CHR '':'' \<notin> set n" "hd n \<noteq> CHR ''/''" "\<not> is_glob n"
    using assms(1) digit_not_special
    by (auto simp: plain_name_def is_glob_def list_all_iff list_ex_iff)
  have split: "rsplit_once CHR '':'' ?s = Some (n, ?t)"
    using show_nat_not_special[of "CHR '':''"] by (simp add: rsplit_once_Some)
  have "strip_prefix ''fold:'' ?s = None"
  proof (rule ccontr)
    assume "strip_prefix ''fold:'' ?s \<noteq> None"
    then obtain r where "n @ CHR '':'' # ?t = ''fold'' @ CHR '':'' # r"
      by (auto simp: strip_prefix_Some)
    then have "split_once CHR '':'' (n @ CHR '':'' # ?t) = Some (''fold'', r)"
      by (simp add: split_once_Some)
    moreover have "split_once CHR '':'' (n @ CHR '':'' # ?t) = Some (n, ?t)"
      using n by (simp add: split_once_Some)
    ultimately show False using assms(2) by simp
  qed
  moreover have "?s \<noteq> ''all''" by (auto simp: append_eq_Cons_conv)
  moreover have "\<not> is_glob ?s"
    using n show_nat_not_special[of _ "unat slot"] by (auto simp: is_glob_def list_ex_iff)
  moreover have "parse_u32_digits ?s = None"
    using digit_not_special[of "CHR '':''"] by (auto simp: parse_u32_digits_def)
  ultimately show ?thesis
    using n split by (simp add: selector_parse_def instance_form_def)
qed

subsection \<open>Properties\<close>

text \<open>
  What an operator types reaches exactly what it names. An id reaches the sheep of that
  id, a name no earlier form of the grammar claims reaches the instances of that app, and
  \<open>name:slot\<close> reaches that instance of that app, whatever the fold.
\<close>

lemma selector_exact_reach:
  assumes "plain_name n" "n \<noteq> ''fold''"
  shows "selector_parse P (show_nat (unat i)) = Inr (Id i) \<and>
    selector_parse P n = Inr (Name n) \<and>
    selector_parse P (n @ '':'' @ show_nat (unat slot)) = Inr (Instance n slot) \<and>
    (selector_matches (Id i) nm j fd inst \<longleftrightarrow> j = i) \<and>
    (selector_matches (Name n) nm j fd inst \<longleftrightarrow> nm = n) \<and>
    (selector_matches (Instance n slot) nm j fd inst \<longleftrightarrow> nm = n \<and> inst = Some slot)"
  using selector_parse_id[of P i] selector_parse_plain_name[OF assms(1), of P]
    selector_parse_instance[of n P slot] assms
  by auto

definition no_patterns :: pattern_crates where
  "no_patterns = \<lparr> regex_new = \<lambda>_. Inl ''none'', regex_new_bounded = \<lambda>_. Inl ''none'',
     glob_regex = \<lambda>_. Inl ''none'' \<rparr>"

lemma plain_name_web: "plain_name ''web''"
  by (simp add: plain_name_def is_glob_def is_ascii_digit_def)

text \<open>
  A selector survives the wire: compiling its wire form gives back a selector that
  matches the same sheep. It rests on the bounded regex builder rebuilding, from the source
  of a regex it accepts, one that matches the same names.
\<close>

lemma selector_wire_round_trip:
  assumes "\<And>re. sel = Regex re \<Longrightarrow>
    \<exists>re'. regex_new_bounded P (re_as_str re) = Inr re' \<and> re_is_match re' = re_is_match re"
  shows "\<exists>sel'. selector_try_from P (selector_spec_from sel) = Inr sel' \<and>
    is_exact sel' = is_exact sel \<and> selector_matches sel' = selector_matches sel"
proof (cases sel)
  case (Regex re)
  then obtain re' where "regex_new_bounded P (re_as_str re) = Inr re'" "re_is_match re' = re_is_match re"
    using assms by blast
  then show ?thesis
    using Regex by (intro exI[of _ "Regex re'"]) (auto simp: map_err_def fun_eq_iff)
qed auto

definition literal_patterns :: pattern_crates where
  "literal_patterns = \<lparr> regex_new = \<lambda>s. Inr (Regex_of s ((=) s)),
     regex_new_bounded = \<lambda>s. Inr (Regex_of s ((=) s)), glob_regex = \<lambda>s. Inr s \<rparr>"

end
