(* ===== verification/Action_Waits.thy ===== *)
theory Action_Waits
  imports Shep_Prelude
begin

text \<open>
  What one sheep still owes on its shepherd channel (\<open>supervisor/manual.rs\<close>): the action
  waits armed against it and the replies its app can still send that no wait wants. A
  one-shot sender is identified by the stamp of the wait that owns it.
\<close>

subsection \<open>The state and its operations\<close>

record PendingAction =
  pa_stamp :: nat
  pa_action :: string
  pa_waiter :: bool

record AbandonedReply =
  ab_stamp :: nat
  ab_action :: string

record ActionWaits =
  live :: "PendingAction list"
  abandoned :: "AbandonedReply list"

definition MAX_ABANDONED_ACTION_REPLIES :: nat where
  "MAX_ABANDONED_ACTION_REPLIES = 64"

definition no_waits :: ActionWaits where
  "no_waits = \<lparr> live = [], abandoned = [] \<rparr>"

definition arm :: "PendingAction \<Rightarrow> ActionWaits \<Rightarrow> ActionWaits" where
  "arm p w = w\<lparr> live := live w @ [p] \<rparr>"

text \<open>Removing the first match, what \<open>position\<close> followed by \<open>remove\<close> does.\<close>

fun remove_first :: "('a \<Rightarrow> bool) \<Rightarrow> 'a list \<Rightarrow> 'a list" where
  "remove_first P [] = []"
| "remove_first P (x # xs) = (if P x then xs else x # remove_first P xs)"

text \<open>Taking the waiter of the first live wait that satisfies \<open>P\<close> and still has one.\<close>

fun take_waiter :: "(PendingAction \<Rightarrow> bool) \<Rightarrow> PendingAction list \<Rightarrow> nat option \<times> PendingAction list" where
  "take_waiter P [] = (None, [])"
| "take_waiter P (p # ps) =
     (if P p \<and> pa_waiter p then (Some (pa_stamp p), p\<lparr> pa_waiter := False \<rparr> # ps)
      else map_prod id ((#) p) (take_waiter P ps))"

definition answer :: "string \<Rightarrow> nat option \<Rightarrow> ActionWaits \<Rightarrow> nat option \<times> ActionWaits" where
  "answer action stamp w =
     (case stamp of
        Some st \<Rightarrow>
          (case take_waiter (\<lambda>p. pa_stamp p = st) (live w) of
             (Some waiter, live') \<Rightarrow> (Some waiter, w\<lparr> live := live' \<rparr>)
           | (None, _) \<Rightarrow>
               (None, w\<lparr> abandoned := remove_first (\<lambda>d. ab_stamp d = st) (abandoned w) \<rparr>))
      | None \<Rightarrow>
          if list_ex (\<lambda>d. ab_action d = action) (abandoned w)
          then (None, w\<lparr> abandoned := remove_first (\<lambda>d. ab_action d = action) (abandoned w) \<rparr>)
          else (case take_waiter (\<lambda>p. pa_action p = action) (live w) of
                  (waiter, live') \<Rightarrow> (waiter, w\<lparr> live := live' \<rparr>)))"

definition resolve :: "nat \<Rightarrow> ActionWaits \<Rightarrow> nat option \<times> ActionWaits" where
  "resolve stamp w =
     (case find (\<lambda>p. pa_stamp p = stamp) (live w) of
        None \<Rightarrow> (None, w)
      | Some pending \<Rightarrow>
          (let w = w\<lparr> live := remove_first (\<lambda>p. pa_stamp p = stamp) (live w) \<rparr>;
               w = (if pa_waiter pending then
                      (let owed = abandoned w @
                             [\<lparr> ab_stamp = pa_stamp pending, ab_action = pa_action pending \<rparr>]
                       in w\<lparr> abandoned :=
                            (if MAX_ABANDONED_ACTION_REPLIES < length owed then tl owed else owed) \<rparr>)
                    else w)
           in (Some (pa_stamp pending), w)))"

text \<open>The stamps answered \<open>NoChannel\<close>, and the emptied state.\<close>

definition abandon_all :: "ActionWaits \<Rightarrow> nat list \<times> ActionWaits" where
  "abandon_all w = (map pa_stamp (live w), \<lparr> live = [], abandoned = [] \<rparr>)"

subsection \<open>Well-formedness\<close>

text \<open>
  Stamps come off one counter: no two waits or debts share one, and all are below the
  counter. The debts never outgrow their cap.
\<close>

definition stamps_ok :: "nat \<Rightarrow> nat list \<Rightarrow> nat list \<Rightarrow> bool" where
  "stamps_ok n waits debts \<longleftrightarrow>
     distinct waits \<and> distinct debts \<and> set waits \<inter> set debts = {} \<and>
     (\<forall>st \<in> set waits. st < n) \<and> (\<forall>st \<in> set debts. st < n) \<and>
     length debts \<le> MAX_ABANDONED_ACTION_REPLIES"

definition waits_ok :: "nat \<Rightarrow> ActionWaits \<Rightarrow> bool" where
  "waits_ok next_stamp w \<longleftrightarrow>
     stamps_ok next_stamp (map pa_stamp (live w)) (map ab_stamp (abandoned w))"

lemma stamps_ok_drop:
  "stamps_ok n ws ds \<Longrightarrow> set ws' \<subseteq> set ws \<Longrightarrow> set ds' \<subseteq> set ds \<Longrightarrow> distinct ws' \<Longrightarrow>
   distinct ds' \<Longrightarrow> length ds' \<le> length ds \<Longrightarrow> stamps_ok n ws' ds'"
  unfolding stamps_ok_def by (meson disjoint_iff le_trans subsetD)

lemma set_remove_first: "set (remove_first P xs) \<subseteq> set xs"
  by (induction xs) auto

lemma distinct_remove_first: "distinct (map f xs) \<Longrightarrow> distinct (map f (remove_first P xs))"
  using set_remove_first by (induction xs) (auto dest!: subsetD[OF set_remove_first])

lemma length_remove_first: "length (remove_first P xs) \<le> length xs"
  by (induction xs) auto

lemma stamps_take_waiter [simp]: "map pa_stamp (snd (take_waiter P ps)) = map pa_stamp ps"
  by (induction ps) auto

lemma remove_first_stamps:
  "set (map f (remove_first P xs)) \<subseteq> set (map f xs)"
  using set_remove_first by fastforce

lemma waits_ok_no_waits: "waits_ok n no_waits"
  by (simp add: waits_ok_def stamps_ok_def no_waits_def)

lemma waits_ok_mono: "waits_ok n w \<Longrightarrow> n \<le> m \<Longrightarrow> waits_ok m w"
  by (force simp: waits_ok_def stamps_ok_def)

lemma waits_ok_arm:
  assumes "waits_ok n w"
  shows "waits_ok (Suc n) (arm \<lparr> pa_stamp = n, pa_action = a, pa_waiter = v \<rparr> w)"
  using assms by (force simp: waits_ok_def stamps_ok_def arm_def)

lemma waits_ok_debt:
  assumes "waits_ok n w"
  shows "waits_ok n (w\<lparr> abandoned := remove_first P (abandoned w) \<rparr>)"
  using assms unfolding waits_ok_def
  by (rule stamps_ok_drop)
    (use assms remove_first_stamps[of ab_stamp P "abandoned w"] in
      \<open>simp_all add: waits_ok_def stamps_ok_def length_remove_first distinct_remove_first\<close>)

lemma waits_ok_wait:
  "waits_ok n w \<Longrightarrow> waits_ok n (w\<lparr> live := snd (take_waiter P (live w)) \<rparr>)"
  by (simp add: waits_ok_def)

lemma waits_ok_answer: "waits_ok n w \<Longrightarrow> waits_ok n (snd (answer a st w))"
proof -
  assume ok: "waits_ok n w"
  have wait: "take_waiter P (live w) = (r, l) \<Longrightarrow> waits_ok n (w\<lparr> live := l \<rparr>)" for P r l
    using waits_ok_wait[OF ok, of P] by simp
  show ?thesis
    by (auto simp: answer_def waits_ok_debt[OF ok] intro: wait split: option.splits prod.splits)
qed

lemma remove_first_gone:
  "distinct (map f xs) \<Longrightarrow> y \<notin> set (map f (remove_first (\<lambda>x. f x = y) xs))"
  by (induction xs) auto

lemma waits_ok_resolve:
  assumes ok: "waits_ok n w"
  shows "waits_ok n (snd (resolve st w))"
proof (cases "find (\<lambda>p. pa_stamp p = st) (live w)")
  case (Some p)
  then have "st \<in> set (map pa_stamp (live w))" and p: "pa_stamp p = st"
    by (auto simp: find_Some_iff)
  then have st: "st < n" "st \<notin> set (map ab_stamp (abandoned w))"
    using ok unfolding waits_ok_def stamps_ok_def by blast+
  let ?rest = "map pa_stamp (remove_first (\<lambda>p. pa_stamp p = st) (live w))"
  let ?owed = "map ab_stamp (abandoned w) @ [st]"
  have base: "stamps_ok n ?rest (map ab_stamp (abandoned w))"
    using ok unfolding waits_ok_def
    by (rule stamps_ok_drop)
      (use ok remove_first_stamps[of pa_stamp _ "live w"] in
        \<open>simp_all add: waits_ok_def stamps_ok_def distinct_remove_first\<close>)
  have gone: "st \<notin> set ?rest"
    using ok by (intro remove_first_gone) (simp add: waits_ok_def stamps_ok_def)
  have full: "stamps_ok n ?rest (if MAX_ABANDONED_ACTION_REPLIES < length ?owed then tl ?owed else ?owed)"
    using base st gone by (cases "abandoned w") (auto simp: stamps_ok_def)
  show ?thesis
    using base full Some p by (auto simp: resolve_def Let_def waits_ok_def map_tl)
qed (simp add: resolve_def ok)

subsection \<open>Routing by order\<close>

text \<open>
  An app that echoes no stamp answers each action it is sent once and in order. The contract
  of a component that matches such replies by name: it keeps, for every action, the queue of
  answers the app owes, each with whether somebody still waits for it, and a reply takes the
  head of its action's queue.
\<close>

type_synonym owed_queue = "(nat \<times> bool) list"

fun head_waiter :: "owed_queue \<Rightarrow> nat option" where
  "head_waiter ((st, True) # _) = Some st"
| "head_waiter _ = None"

definition ended :: "nat \<Rightarrow> owed_queue \<Rightarrow> owed_queue" where
  "ended st q = map (\<lambda>(t, waiting). (t, waiting \<and> t \<noteq> st)) q"

datatype 'a wait_op = Send 'a nat | Answered 'a | Finish nat

text \<open>The queues themselves, as a machine.\<close>

fun queue_step :: "'a wait_op \<Rightarrow> ('a \<Rightarrow> owed_queue) \<Rightarrow> nat option \<times> ('a \<Rightarrow> owed_queue)" where
  "queue_step (Send a st) q = (None, q(a := q a @ [(st, True)]))"
| "queue_step (Answered a) q = (head_waiter (q a), q(a := tl (q a)))"
| "queue_step (Finish st) q = (None, \<lambda>a. ended st (q a))"

fun queue_run :: "'a wait_op list \<Rightarrow> ('a \<Rightarrow> owed_queue) \<Rightarrow> nat option list" where
  "queue_run [] q = []"
| "queue_run (op # ops) q = (case queue_step op q of (r, q') \<Rightarrow> r # queue_run ops q')"

locale reply_matching =
  fixes owed :: "'a \<Rightarrow> 's \<Rightarrow> owed_queue"
    and send :: "'a \<Rightarrow> nat \<Rightarrow> 's \<Rightarrow> 's"
    and reply :: "'a \<Rightarrow> 's \<Rightarrow> nat option \<times> 's"
    and finish :: "nat \<Rightarrow> 's \<Rightarrow> 's"
    and ok :: "'a wait_op \<Rightarrow> 's \<Rightarrow> bool"
    and good :: "'s \<Rightarrow> bool"
  assumes good_step: "good s \<Longrightarrow> ok (Send a st) s \<Longrightarrow> good (send a st s)"
    "good s \<Longrightarrow> good (snd (reply a s))" "good s \<Longrightarrow> good (finish st s)"
    and owed_send: "owed b (send a st s) = (if a = b then owed b s @ [(st, True)] else owed b s)"
    and reply_head: "good s \<Longrightarrow> fst (reply a s) = head_waiter (owed a s)"
    and owed_reply: "good s \<Longrightarrow> owed b (snd (reply a s)) = (if a = b then tl (owed b s) else owed b s)"
    and owed_finish: "good s \<Longrightarrow> ok (Finish st) s \<Longrightarrow> owed b (finish st s) = ended st (owed b s)"
begin

fun step :: "'a wait_op \<Rightarrow> 's \<Rightarrow> nat option \<times> 's" where
  "step (Send a st) s = (None, send a st s)"
| "step (Answered a) s = reply a s"
| "step (Finish st) s = (None, finish st s)"

fun steps :: "'a wait_op list \<Rightarrow> 's \<Rightarrow> nat option list" where
  "steps [] s = []"
| "steps (op # ops) s = (case step op s of (r, s') \<Rightarrow> r # steps ops s')"

fun allowed :: "'a wait_op list \<Rightarrow> 's \<Rightarrow> bool" where
  "allowed [] s = True"
| "allowed (op # ops) s = (ok op s \<and> allowed ops (snd (step op s)))"

lemma step_simulates:
  assumes "good s" "ok op s"
  shows "fst (step op s) = fst (queue_step op (\<lambda>a. owed a s))"
    "(\<lambda>a. owed a (snd (step op s))) = snd (queue_step op (\<lambda>a. owed a s))"
    "good (snd (step op s))"
  using assms by (cases op; auto simp: fun_eq_iff owed_send reply_head owed_reply owed_finish good_step)+

theorem steps_refine:
  "good s \<Longrightarrow> allowed ops s \<Longrightarrow> steps ops s = queue_run ops (\<lambda>a. owed a s)"
proof (induction ops arbitrary: s)
  case (Cons op ops)
  then have "steps ops (snd (step op s)) = queue_run ops (\<lambda>a. owed a (snd (step op s)))"
    using step_simulates(3) by simp
  then show ?case using Cons.prems step_simulates[of s op] by (simp add: split_beta)
qed simp

end

text \<open>
  The waits of one sheep meet it. A wait may be ended only while the debts have room, and no
  wait for the same action that is older may still be waiting: waits for one action end oldest
  first, as their common timeout has it.
\<close>

definition outstanding :: "string \<Rightarrow> ActionWaits \<Rightarrow> owed_queue" where
  "outstanding a w =
     map (\<lambda>d. (ab_stamp d, False)) (filter (\<lambda>d. ab_action d = a) (abandoned w)) @
     map (\<lambda>p. (pa_stamp p, True)) (filter (\<lambda>p. pa_action p = a \<and> pa_waiter p) (live w))"

definition unique_stamps :: "ActionWaits \<Rightarrow> bool" where
  "unique_stamps w \<longleftrightarrow> distinct (map ab_stamp (abandoned w) @ map pa_stamp (live w))"

fun in_order :: "string wait_op \<Rightarrow> ActionWaits \<Rightarrow> bool" where
  "in_order (Send a st) w \<longleftrightarrow> st \<notin> set (map ab_stamp (abandoned w) @ map pa_stamp (live w))"
| "in_order (Answered a) w \<longleftrightarrow> True"
| "in_order (Finish st) w \<longleftrightarrow> length (abandoned w) < MAX_ABANDONED_ACTION_REPLIES \<and>
     (case find (\<lambda>p. pa_stamp p = st) (live w) of
        None \<Rightarrow> True
      | Some p \<Rightarrow> pa_waiter p \<longrightarrow>
          find (\<lambda>q. pa_action q = pa_action p \<and> pa_waiter q) (live w) = Some p)"

abbreviation send_action :: "string \<Rightarrow> nat \<Rightarrow> ActionWaits \<Rightarrow> ActionWaits" where
  "send_action a st \<equiv> arm \<lparr> pa_stamp = st, pa_action = a, pa_waiter = True \<rparr>"

lemma filter_remove_first:
  "(\<And>x. x \<in> set xs \<Longrightarrow> P x \<Longrightarrow> \<not> Q x) \<Longrightarrow> filter Q (remove_first P xs) = filter Q xs"
  by (induction xs) auto

lemma filter_remove_first_same: "filter P (remove_first P xs) = tl (filter P xs)"
  by (induction xs) auto

lemma filter_remove_found:
  "find Q xs = Some x \<Longrightarrow> distinct (map f xs) \<Longrightarrow> filter Q (remove_first (\<lambda>y. f y = f x) xs) = tl (filter Q xs)"
proof (induction xs)
  case (Cons y ys)
  show ?case
  proof (cases "Q y")
    case False
    then have "x \<in> set ys" using Cons.prems(1) by (auto simp: find_Some_iff)
    then have "f y \<noteq> f x" using Cons.prems(2) by auto
    then show ?thesis using Cons False by simp
  qed (use Cons.prems in auto)
qed simp

lemma take_waiter_Some:
  "fst (take_waiter P ps) = Some st \<Longrightarrow> \<exists>p \<in> set ps. P p \<and> pa_waiter p \<and> pa_stamp p = st"
  by (induction ps) (auto split: if_splits)

lemma take_waiter_gone:
  "distinct (map pa_stamp ps) \<Longrightarrow> fst (take_waiter P ps) = Some st \<Longrightarrow>
    q \<in> set (snd (take_waiter P ps)) \<Longrightarrow> pa_stamp q = st \<Longrightarrow> \<not> pa_waiter q"
proof (induction ps)
  case (Cons p ps)
  show ?case
  proof (cases "P p \<and> pa_waiter p")
    case True
    then show ?thesis using Cons.prems by (force simp: image_iff)
  next
    case False
    then have rest: "fst (take_waiter P ps) = Some st" using Cons.prems(2) by (auto simp: map_prod_def split: prod.splits)
    then have "st \<in> pa_stamp ` set ps" using take_waiter_Some by blast
    then have "pa_stamp p \<noteq> st" using Cons.prems(1) by auto
    then show ?thesis using Cons False rest by (auto simp: map_prod_def split: prod.splits)
  qed
qed simp

lemma take_waiter_same:
  "map pa_stamp (filter (\<lambda>p. pa_action p = a \<and> pa_waiter p) (snd (take_waiter (\<lambda>p. pa_action p = a) ps))) =
     tl (map pa_stamp (filter (\<lambda>p. pa_action p = a \<and> pa_waiter p) ps))"
  by (induction ps) auto

lemma take_waiter_other:
  "a \<noteq> b \<Longrightarrow> filter (\<lambda>p. pa_action p = b \<and> pa_waiter p) (snd (take_waiter (\<lambda>p. pa_action p = a) ps)) =
     filter (\<lambda>p. pa_action p = b \<and> pa_waiter p) ps"
  by (induction ps) auto

lemma take_waiter_fst:
  "fst (take_waiter P ps) = map_option pa_stamp (find (\<lambda>p. P p \<and> pa_waiter p) ps)"
  by (induction ps) auto

lemma find_filter: "find P xs = (case filter P xs of [] \<Rightarrow> None | x # _ \<Rightarrow> Some x)"
  by (induction xs) auto

text \<open>A reply takes the head of its action's queue, and only of that.\<close>

lemma outstanding_reply:
  "fst (answer a None w) = head_waiter (outstanding a w)"
  "outstanding b (snd (answer a None w)) = (if a = b then tl (outstanding b w) else outstanding b w)"
proof -
  let ?D = "filter (\<lambda>d. ab_action d = a) (abandoned w)"
  have debt: "list_ex (\<lambda>d. ab_action d = a) (abandoned w) \<longleftrightarrow> ?D \<noteq> []"
    by (auto simp: list_ex_iff filter_empty_conv)
  have pairs: "map (\<lambda>p. (pa_stamp p, True)) ps = map (\<lambda>st. (st, True)) (map pa_stamp ps)" for ps
    by simp
  show "fst (answer a None w) = head_waiter (outstanding a w)"
    using debt by (cases ?D) (auto simp: answer_def outstanding_def split_beta take_waiter_fst find_filter split: list.splits)
  show "outstanding b (snd (answer a None w)) = (if a = b then tl (outstanding b w) else outstanding b w)"
  proof (cases "?D = []")
    case True
    then show ?thesis
      using debt take_waiter_same[of a "live w"] take_waiter_other[of a b "live w"]
      by (cases "a = b") (simp_all add: answer_def outstanding_def split_beta pairs map_tl del: map_map)
  next
    case False
    then show ?thesis
      using debt filter_remove_first_same[of "\<lambda>d. ab_action d = a" "abandoned w"]
        filter_remove_first[of "abandoned w" "\<lambda>d. ab_action d = a" "\<lambda>d. ab_action d = b"]
      by (cases "a = b") (simp_all add: answer_def outstanding_def map_tl tl_append2)
  qed
qed

lemma ended_fresh: "(st, True) \<notin> set q \<Longrightarrow> ended st q = q"
  by (auto simp: ended_def intro!: map_idI)

lemma find_stampD: "find (\<lambda>p. pa_stamp p = st) ps = Some p \<Longrightarrow> p \<in> set ps \<and> pa_stamp p = st"
  by (auto simp: find_Some_iff)

lemma same_stamp: "distinct (map f xs) \<Longrightarrow> x \<in> set xs \<Longrightarrow> y \<in> set xs \<Longrightarrow> f x = f y \<Longrightarrow> x = y"
  by (simp add: distinct_map inj_on_def)

text \<open>Ending a wait marks its place in the queue.\<close>

lemma outstanding_finish:
  assumes u: "unique_stamps w" and o: "in_order (Finish st) w"
  shows "outstanding b (snd (resolve st w)) = ended st (outstanding b w)"
proof (cases "find (\<lambda>p. pa_stamp p = st) (live w)")
  case None
  then have "\<forall>p \<in> set (live w). pa_stamp p \<noteq> st" by (simp add: find_None_iff)
  then show ?thesis using None by (subst ended_fresh) (auto simp: resolve_def outstanding_def)
next
  case (Some p)
  have p: "p \<in> set (live w)" "pa_stamp p = st" using find_stampD[OF Some] by simp_all
  have d: "distinct (map pa_stamp (live w))" using u by (simp add: unique_stamps_def)
  have one: "q = p" if "q \<in> set (live w)" "pa_stamp q = st" for q using same_stamp[OF d that(1) p(1)] that p by simp
  let ?L = "\<lambda>c. filter (\<lambda>q. pa_action q = c \<and> pa_waiter q) (live w)"
  have gone: "filter (\<lambda>q. pa_action q = c \<and> pa_waiter q) (remove_first (\<lambda>q. pa_stamp q = st) (live w)) = ?L c"
    if "pa_action p \<noteq> c \<or> \<not> pa_waiter p" for c
    using that one by (intro filter_remove_first) blast
  have fresh: "ended st (outstanding c w) = outstanding c w" if "pa_action p \<noteq> c \<or> \<not> pa_waiter p" for c
    using that one by (intro ended_fresh) (auto simp: outstanding_def)
  show ?thesis
  proof (cases "pa_waiter p \<and> pa_action p = b")
    case True
    then have f: "find (\<lambda>q. pa_action q = b \<and> pa_waiter q) (live w) = Some p" using o Some by simp
    then obtain rest where L: "?L b = p # rest" by (auto simp: find_filter split: list.splits)
    have "filter (\<lambda>q. pa_action q = b \<and> pa_waiter q) (remove_first (\<lambda>q. pa_stamp q = st) (live w)) = rest"
      using filter_remove_found[OF f d] L p(2) by simp
    moreover have "distinct (map pa_stamp (?L b))" using d by (simp add: distinct_map_filter)
    then have "\<forall>q \<in> set rest. pa_stamp q \<noteq> st" using L p(2) by (auto simp: image_iff)
    ultimately show ?thesis
      using True o Some p(2) L by (simp add: resolve_def outstanding_def ended_def Let_def)
  next
    case False
    then show ?thesis
      using gone[of b] fresh[of b] o Some by (simp add: resolve_def outstanding_def Let_def)
  qed
qed

lemma unique_answer: "unique_stamps w \<Longrightarrow> unique_stamps (snd (answer a None w))"
  using remove_first_stamps[of ab_stamp "\<lambda>d. ab_action d = a" "abandoned w"]
  by (auto simp: answer_def unique_stamps_def split_beta distinct_remove_first simp del: set_map)

lemma unique_resolve:
  assumes u: "unique_stamps w"
  shows "unique_stamps (snd (resolve st w))"
proof (cases "find (\<lambda>p. pa_stamp p = st) (live w)")
  case (Some p)
  have d: "distinct (map pa_stamp (live w))" using u by (simp add: unique_stamps_def)
  have p: "st \<in> set (map pa_stamp (live w))" "pa_stamp p = st" using find_stampD[OF Some] by auto
  have "st \<notin> set (map pa_stamp (remove_first (\<lambda>p. pa_stamp p = st) (live w)))" by (rule remove_first_gone[OF d])
  moreover have "st \<notin> set (map ab_stamp (abandoned w))" using u p by (auto simp: unique_stamps_def)
  ultimately show ?thesis
    using u Some p remove_first_stamps[of pa_stamp "\<lambda>p. pa_stamp p = st" "live w"] distinct_remove_first[OF d]
    by (cases "abandoned w") (auto simp: resolve_def Let_def unique_stamps_def simp del: set_map)
qed (simp add: resolve_def u)

interpretation sheep_waits: reply_matching outstanding send_action "\<lambda>a. answer a None" "\<lambda>st w. snd (resolve st w)"
  in_order unique_stamps
proof
  fix w :: ActionWaits and a b :: string and st :: nat
  show "unique_stamps w \<Longrightarrow> in_order (Send a st) w \<Longrightarrow> unique_stamps (send_action a st w)"
    by (auto simp: unique_stamps_def arm_def)
  show "outstanding b (send_action a st w) = (if a = b then outstanding b w @ [(st, True)] else outstanding b w)"
    by (simp add: outstanding_def arm_def)
qed (simp_all add: unique_answer unique_resolve outstanding_reply outstanding_finish)

text \<open>A run of the waits themselves.\<close>

fun wait_step :: "string wait_op \<Rightarrow> ActionWaits \<Rightarrow> nat option \<times> ActionWaits" where
  "wait_step (Send a st) w = (None, send_action a st w)"
| "wait_step (Answered a) w = answer a None w"
| "wait_step (Finish st) w = (None, snd (resolve st w))"

fun wait_run :: "string wait_op list \<Rightarrow> ActionWaits \<Rightarrow> nat option list" where
  "wait_run [] w = []"
| "wait_run (op # ops) w = (case wait_step op w of (r, w') \<Rightarrow> r # wait_run ops w')"

fun orderly :: "string wait_op list \<Rightarrow> ActionWaits \<Rightarrow> bool" where
  "orderly [] w = True"
| "orderly (op # ops) w = (in_order op w \<and> orderly ops (snd (wait_step op w)))"

lemma wait_step_eq: "wait_step op w = sheep_waits.step op w"
  by (cases op) simp_all

lemma wait_run_eq: "wait_run ops w = sheep_waits.steps ops w"
  by (induction ops arbitrary: w) (simp_all add: wait_step_eq split: prod.splits)

lemma orderly_eq: "orderly ops w = sheep_waits.allowed ops w"
  by (induction ops arbitrary: w) (simp_all add: wait_step_eq)

text \<open>
  C32. Replies that carry no stamp are matched by order: over any run of actions sent, replies
  received and waits ended, each reply reaches exactly the wait that the queue of owed answers
  for its action has at its head, or nobody when that wait has ended. (Stamps are fresh, waits
  for one action end oldest first, and a debt is added only while fewer than 64 are held.)
\<close>

theorem unstamped_replies_in_order:
  assumes "orderly ops no_waits"
  shows "wait_run ops no_waits = queue_run ops (\<lambda>a. [])"
  using sheep_waits.steps_refine[of no_waits ops] assms
  by (simp add: wait_run_eq orderly_eq unique_stamps_def no_waits_def outstanding_def)

theorem unstamped_replies_in_order_witness:
  "wait_run [Send ''gc'' 1, Send ''gc'' 2, Finish 1, Answered ''gc'', Answered ''gc''] no_waits =
     [None, None, None, None, Some 2]"
  using unstamped_replies_in_order[of "[Send ''gc'' 1, Send ''gc'' 2, Finish 1, Answered ''gc'', Answered ''gc'']"]
  by (simp add: no_waits_def arm_def resolve_def ended_def MAX_ABANDONED_ACTION_REPLIES_def answer_def)

text \<open>
  A reply that echoes its stamp reaches the live wait that carries it while that wait has
  not been answered, whatever else is owed; a second one with the same stamp reaches nobody.
\<close>

lemma stamped_reply_reaches_its_wait:
  assumes "waits_ok n w" "p \<in> set (live w)" "pa_waiter p"
  shows "fst (answer a (Some (pa_stamp p)) w) = Some (pa_stamp p) \<and>
    fst (answer b (Some (pa_stamp p)) (snd (answer a (Some (pa_stamp p)) w))) = None"
proof -
  let ?P = "\<lambda>q. pa_stamp q = pa_stamp p"
  have d: "distinct (map pa_stamp (live w))" using assms(1) by (simp add: waits_ok_def stamps_ok_def)
  have "fst (take_waiter ?P (live w)) \<noteq> None" using assms(2,3) by (auto simp: take_waiter_fst find_None_iff)
  then obtain st live' where t: "take_waiter ?P (live w) = (Some st, live')" by (cases "take_waiter ?P (live w)") auto
  then have st: "st = pa_stamp p" using take_waiter_Some[of ?P "live w" st] by auto
  have "\<forall>q \<in> set live'. ?P q \<longrightarrow> \<not> pa_waiter q"
    using take_waiter_gone[OF d, of ?P "pa_stamp p"] t st by auto
  then have "fst (take_waiter ?P live') = None" by (auto simp: take_waiter_fst find_None_iff)
  then show ?thesis using t st by (auto simp: answer_def split: prod.splits)
qed

end
