(* ===== verification/Flock.thy ===== *)
theory Flock
  imports Assemble Stores Selector Action_Waits "HOL-Library.Sublist" "HOL-Library.Option_ord" "HOL-Library.Product_Lexorder"
begin

text \<open>
  The supervisor's state (\<open>shep-daemon/src/supervisor/\<close>: \<open>mod.rs\<close>, \<open>slot.rs\<close>, \<open>types.rs\<close>,
  \<open>manual.rs\<close>, \<open>reload.rs\<close>, and \<open>entry.rs\<close> beside them), what a listing row says of it
  (\<open>wire.rs\<close>), and the primitive updates the handlers are written with.

  Ids, instance slots, epochs and stamps are counters that only grow and are natural
  numbers here; a channel sender is whether it is held. A \<open>ResolvedApp\<close> is the config it
  wraps. What the actor does to the outside is appended to its trace \<open>out\<close>; a failed
  \<open>expect\<close> sets \<open>panicked\<close>, and a failed \<open>debug_assert\<close>, which only a debug build
  checks, sets \<open>debug_failed\<close>.
\<close>

subsection \<open>Entries\<close>

datatype DogSource = BuiltIn | Adopted string

datatype SpawnIdentity = Unresolved | Resolved "Credentials option"

datatype ReloadState = RNone | Drainee "nat option" | Replacement

record ProcessEntry =
  e_id :: nat
  e_spec :: AppConfig
  e_pending :: "AppConfig option"
  e_pending_reidentifies :: bool
  e_overridden :: "string list"
  e_instance :: nat
  e_status :: ProcStatus
  e_pid :: "nat option"
  e_restarts :: u32
  e_started_at :: "nat option"
  e_budget :: RestartBudget
  e_reload :: ReloadState
  e_credentials :: SpawnIdentity
  e_out_file :: string
  e_err_file :: string
  e_dog :: "DogSource option"
  e_last_exit :: "ExitOutcome option"
  e_spawn_failure :: "string option"

subsection \<open>Slots\<close>

datatype ManualKind = MStop | MRestart | MDelete

datatype CommandOrigin = Operator | Automatic

record PendingManual =
  m_kind :: ManualKind
  m_origin :: CommandOrigin

record SheepSlot =
  sl_entry :: ProcessEntry
  sl_ctl :: bool
  sl_log_ctl :: bool
  sl_to_child :: bool
  sl_signals :: bool
  sl_to_stdin :: bool
  sl_pty :: bool
  sl_manual :: "PendingManual option"
  sl_pending_delete :: bool
  sl_epoch :: nat
  sl_ready_tx :: bool
  sl_actions :: ActionWaits
  sl_ready_failed :: bool
  sl_restart_due :: "nat option"

definition slot_new :: "ProcessEntry \<Rightarrow> SheepSlot" where
  "slot_new en =
     \<lparr> sl_entry = en, sl_ctl = False, sl_log_ctl = False, sl_to_child = False,
       sl_signals = False, sl_to_stdin = False, sl_pty = False, sl_manual = None,
       sl_pending_delete = False, sl_epoch = 0, sl_ready_tx = False, sl_actions = no_waits,
       sl_ready_failed = False, sl_restart_due = None \<rparr>"

definition upd_entry :: "(ProcessEntry \<Rightarrow> ProcessEntry) \<Rightarrow> SheepSlot \<Rightarrow> SheepSlot" where
  "upd_entry f sl = sl\<lparr> sl_entry := f (sl_entry sl) \<rparr>"

definition clear_lifecycle :: "ProcStatus \<Rightarrow> SheepSlot \<Rightarrow> SheepSlot" where
  "clear_lifecycle st sl =
     sl\<lparr> sl_entry := (sl_entry sl)\<lparr> e_status := st, e_pid := None, e_started_at := None,
                                    e_last_exit := None \<rparr>,
         sl_ctl := False, sl_to_child := False, sl_signals := False, sl_to_stdin := False,
         sl_pty := False, sl_ready_tx := False \<rparr>"

abbreviation slot_app :: "SheepSlot \<Rightarrow> AppConfig" where
  "slot_app sl \<equiv> e_spec (sl_entry sl)"

abbreviation slot_name :: "SheepSlot \<Rightarrow> string" where
  "slot_name sl \<equiv> app_name (e_spec (sl_entry sl))"

abbreviation slot_status :: "SheepSlot \<Rightarrow> ProcStatus" where
  "slot_status sl \<equiv> e_status (sl_entry sl)"

subsection \<open>Reload jobs\<close>

datatype ReloadMode = Overlap | Serial

definition reload_mode_of_source :: "AppConfig \<Rightarrow> ReadinessSource \<Rightarrow> ReloadMode" where
  "reload_mode_of_source config source =
     (case source of
        Probe _ \<Rightarrow> if \<not> app_reuse_port config \<and> app_listen config = [] then Serial else Overlap
      | _ \<Rightarrow> Overlap)"

datatype ReloadPhase = DrainFirst | AwaitReady | DrainOld | Verify

record ReloadSwap =
  sw_old_id :: nat
  sw_new_id :: "nat option"
  sw_phase :: ReloadPhase

record ReloadJob =
  j_queue :: "nat list"
  j_mode :: ReloadMode
  j_swap :: ReloadSwap
  j_deadline :: nat

definition RELOAD_DEADLINE_SLACK :: duration where
  "RELOAD_DEADLINE_SLACK = 5000000000"

definition swap_budget :: "AppConfig \<Rightarrow> duration" where
  "swap_budget config =
     as_duration (app_listen_timeout config) + as_duration (app_graceful_timeout config) +
     RELOAD_DEADLINE_SLACK"

definition reload_eligible :: "SheepSlot \<Rightarrow> bool" where
  "reload_eligible sl \<longleftrightarrow> slot_status sl = Online \<or> sl_ready_failed sl"

definition restored_status :: "SheepSlot \<Rightarrow> ProcStatus" where
  "restored_status sl = (if sl_ready_failed sl then Starting else Online)"

subsection \<open>Listing rows\<close>

record ProcessInfo =
  i_id :: nat
  i_name :: string
  i_status :: ProcStatus
  i_pid :: "nat option"
  i_restarts :: u32
  i_uptime_ms :: nat
  i_fold :: "string option"
  i_depends_on :: "string list"
  i_out_file :: string
  i_err_file :: string
  i_dog :: "DogSource option"
  i_last_exit :: "ExitOutcome option"
  i_spawn_failure :: "string option"
  i_smit :: "string option"
  i_instance :: "nat option"
  i_pending :: "string list option"
  i_overridden :: "string list option"
  i_max_memory :: "u64 option"
  i_log_timestamps :: "bool option"
  i_sandbox_refused :: "bool option"
  i_reload_deadline_ms :: "nat option"
  i_disabled :: "bool option"

type_synonym Smits = "(string \<times> (nat \<times> string)) list"

definition pending_fields :: "ProcessEntry \<Rightarrow> string list" where
  "pending_fields en =
     (case e_pending en of None \<Rightarrow> [] | Some parked \<Rightarrow> drifted_fields (e_spec en) parked)"

definition sandbox_refused :: "ProcessEntry \<Rightarrow> bool option" where
  "sandbox_refused en =
     (if e_status en = Errored
      then Some (e_spawn_failure en = None \<and>
                 is_sandbox_refusal (e_spec en)
                   (case e_last_exit en of None \<Rightarrow> None | Some ex \<Rightarrow> exit_code ex))
      else None)"

definition nonempty :: "'a list \<Rightarrow> 'a list option" where
  "nonempty xs = (if xs = [] then None else Some xs)"

definition to_info :: "nat \<Rightarrow> ProcessEntry \<Rightarrow> Smits \<Rightarrow> ProcessInfo" where
  "to_info now en smits =
     \<lparr> i_id = e_id en, i_name = app_name (e_spec en), i_status = e_status en, i_pid = e_pid en,
       i_restarts = e_restarts en,
       i_uptime_ms = (case e_started_at en of None \<Rightarrow> 0 | Some t \<Rightarrow> (now - t) div 1000000),
       i_fold = app_fold (e_spec en), i_depends_on = app_depends_on (e_spec en),
       i_out_file = e_out_file en, i_err_file = e_err_file en, i_dog = e_dog en,
       i_last_exit = e_last_exit en, i_spawn_failure = e_spawn_failure en,
       i_smit = map_option snd (map_of smits (app_name (e_spec en))),
       i_instance = Some (e_instance en), i_pending = nonempty (pending_fields en),
       i_overridden = nonempty (e_overridden en),
       i_max_memory = map_option bytes (app_max_memory (e_spec en)),
       i_log_timestamps = (if app_log_timestamps (e_spec en) then None else Some False),
       i_sandbox_refused = sandbox_refused en, i_reload_deadline_ms = None, i_disabled = None \<rparr>"

definition flock_key :: "ProcessInfo \<Rightarrow> string \<times> nat option \<times> nat" where
  "flock_key i = (i_name i, i_instance i, i_id i)"

definition sort_flock :: "ProcessInfo list \<Rightarrow> ProcessInfo list" where
  "sort_flock rows = sort_key flock_key rows"

subsection \<open>What the actor tells the outside\<close>

datatype ProcessEventKind =
  EvStart | EvOnline | EvExit | EvRestart | EvReload | EvReloaded | EvReloadAbandoned |
  EvStop | EvDelete | EvErrored | EvSandboxRefused

datatype SupervisorError =
  NotFound | SpawnFailed string | CannotStart string | ReloadInFlight string |
  ReopenFailed string | FlushFailed string | NoPty string | PtyFailed string |
  InvalidScale string | IsADog string | InvalidEnv string | InvalidField string | Overrides string |
  Disabled string | NoSuchSheep string | EnvChanged string | EngineStopped

primrec supervisor_error_display :: "SupervisorError \<Rightarrow> string" where
  "supervisor_error_display NotFound = ''selector matched no registered sheep''"
| "supervisor_error_display (SpawnFailed msg) = ''spawn failed: '' @ msg"
| "supervisor_error_display (CannotStart msg) = ''start refused: '' @ msg"
| "supervisor_error_display (ReloadInFlight nm) = nm @ '' is already being reloaded''"
| "supervisor_error_display (ReopenFailed msg) = ''log reopen failed: '' @ msg"
| "supervisor_error_display (FlushFailed msg) = ''log flush failed: '' @ msg"
| "supervisor_error_display (NoPty nm) = ''sheep '' @ nm @ '' has no pty: set pty = true''"
| "supervisor_error_display (PtyFailed msg) = msg"
| "supervisor_error_display (InvalidScale msg) = ''cannot scale: '' @ msg"
| "supervisor_error_display (IsADog msg) = ''refused: '' @ msg"
| "supervisor_error_display (InvalidEnv msg) = ''cannot set that env key: '' @ msg"
| "supervisor_error_display (InvalidField msg) = ''cannot set that field: '' @ msg"
| "supervisor_error_display (Overrides msg) = ''overrides store unusable: '' @ msg"
| "supervisor_error_display (Disabled nm) = nm @ '' is disabled; `shep enable '' @ nm @ ''` clears that and starts it''"
| "supervisor_error_display (NoSuchSheep nm) = ''no sheep named '' @ nm"
| "supervisor_error_display (EnvChanged keys) =
     ''the env changed since the copy was reviewed ('' @ keys @ ''); nothing was written''"
| "supervisor_error_display EngineStopped = ''supervisor engine has shut down''"

text \<open>
  Who hears an answer: a caller by its reply channel, nobody, or the handler itself, which made
  the channel and reads it back.
\<close>

datatype caller = Caller nat | Dropped | Awaited

datatype ReplyKind = RInfo caller | RIds caller | RShutdown caller

record Scaled =
  sc_instances :: "ProcessInfo list"
  sc_app :: AppConfig
  sc_requested :: nat
  sc_shortfall :: "string option"

text \<open>What the config commands answer.\<close>

record Applied =
  ap_name :: string
  ap_applied :: "string list"
  ap_pending :: "string list"
  ap_refused :: "string option"
  ap_app :: "AppConfig option"

record FieldSet =
  fs_app :: AppConfig
  fs_value :: json
  fs_pending :: bool
  fs_warning :: "string option"

record EnvBatch =
  eb_app :: "AppConfig option"
  eb_set :: "string list"
  eb_unchanged :: "string list"
  eb_collisions :: "string list"

datatype EnvCopyKind = Added | Changed | Removed

record EnvCopyChange =
  ec_key :: string
  ec_kind :: EnvCopyKind
  ec_old :: "string option"
  ec_new :: "string option"
  ec_seal :: u64

record EnvCopy =
  cp_app :: "AppConfig option"
  cp_changes :: "EnvCopyChange list"

record SheepConfigView =
  cv_name :: string
  cv_config :: AppConfig
  cv_env_keys :: "string list"
  cv_env_secrets :: "string list"
  cv_overridden :: "string list"
  cv_pending :: "string list"

record SheepDogRead =
  dr_table :: "string option"
  dr_environment :: string

text \<open>
  What a trigger, a signal and a line to stdin come to for one sheep
  (\<open>shep-core/src/protocol/request/outcomes.rs\<close>; \<open>TimedOut\<close> of an action is \<open>ActionTimedOut\<close>).
\<close>

datatype ActionOutcome = Replied string | NoChannel | Skipped | ActionTimedOut | DogNoChannel

datatype SignalOutcome = Delivered | NotRunning | SignalFailed string | NotALamb

datatype LineOutcome = LineSent | NoStdin | NotWritten string

record 'o OutcomeRow =
  row_id :: nat
  row_name :: string
  row_outcome :: 'o

type_synonym ActionReply = "ActionOutcome OutcomeRow"
type_synonym SignalReply = "SignalOutcome OutcomeRow"
type_synonym LineReply = "LineOutcome OutcomeRow"

text \<open>What is asked of a terminal, and whether a flock could be handed to a successor.\<close>

datatype PtyAsk = AskAttach u16 u16 | AskInput "u8 list" | AskResize u16 u16

datatype Fitness = Carryable | RefusedFor string

datatype answer_body =
  Infos "SupervisorError + ProcessInfo list"
| Ids "SupervisorError + nat list"
| OneInfo "SupervisorError + ProcessInfo"
| ScaledBody "SupervisorError + Scaled"
| Listing "ProcessInfo list"
| AppliedBody "Applied list"
| ConfigBody "SupervisorError + SheepConfigView option"
| EnvBody "SupervisorError + AppConfig option"
| BatchBody "SupervisorError + EnvBatch option"
| FieldBody "SupervisorError + FieldSet option"
| CopyBody "SupervisorError + EnvCopy"
| TablesBody "(string \<times> string) list"
| DogReadBody "SheepDogRead option"
| DriftBody "SupervisorError + (string \<times> string list) list"
| DirsBody "(nat \<times> string) list"
| TriggerBody "SupervisorError + ActionReply list"
| SignalBody "SupervisorError + SignalReply list"
| LineBody "SupervisorError + LineReply list"
| PtyBody "SupervisorError + nat"
| FitnessBody "SupervisorError + Fitness"
| Told bool
| Done

datatype effect =
  Emit ProcessEventKind ProcessInfo bool
| Reply caller answer_body
| Kill nat duration
| Spawned nat nat
| ScheduleRestart nat nat "duration option"
| ArmReadiness nat nat bool ReadinessSource duration
| WakeReadiness nat
| ArmDeadline string nat duration
| SpawnVerify string nat ReadinessSource duration
| ArmExtras nat
| DisarmExtras nat string
| RearmName string "(nat \<times> SpawnSpec) list"
| WriteMemoryMax nat "u64 option"
| WriteCpuMax nat "string option"
| WritePidsMax nat "u32 option"
| DogSettingsChanged string string
| ActionBody nat string
| ActionDone nat ActionOutcome
| ActionTask nat nat ShepherdMessage duration
| TriggerTask "ActionReply list" "(nat \<times> string \<times> nat) list" caller
| SendSignal nat OperatorSignal
| SignalTask "SignalReply list" "(nat \<times> string) list" caller
| SendStdin nat string
| SendLineTask "LineReply list" "(nat \<times> string) list" caller
| SendChild nat ShepherdMessage
| PtyTask nat string PtyAsk caller
| ReopenTask "ProcessInfo list" "(nat \<times> ProcessInfo) list" caller
| FlushTask "ProcessInfo list" "nat list" "string list" caller
| LabelLamb nat u32 string

subsection \<open>The actor\<close>

record PendingReply =
  pr_remaining :: "nat list"
  pr_results :: "ProcessInfo list"
  pr_reply :: ReplyKind

type_synonym DogIndex = "(string \<times> (string \<times> string) list) list"

type_synonym listen_table = "(string \<times> string) list"

record actor =
  sheep :: "(nat \<times> SheepSlot) list"
  next_id :: nat
  next_deadline :: nat
  next_action_stamp :: nat
  pending_replies :: "PendingReply list"
  shutting_down :: bool
  smits :: Smits
  reloads :: "(string \<times> ReloadJob) list"
  disabled :: "string list"
  listeners :: "(string \<times> listen_table) list"
  listeners_before :: "(string \<times> listen_table option) list"
  dog_binaries :: "(string \<times> string) list"
  cgroup_base :: bool
  cgroup_unavailable :: "string option"
  oom_baselines :: "(nat \<times> nat) list"
  overrides_file :: "OverridesFile disk"
  announced :: DogIndex
  out :: "effect list"
  panicked :: bool
  debug_failed :: bool

text \<open>
  The collaborators a handler consults while it handles one message: clocks, the passwd
  database, the environment and the secret stores, the cgroup files, sockets, the file system, serde,
  and the process runner. Within one message the runner is asked about each id at most once;
  a \<open>_closed\<close> says whether the other end of a channel is gone and a \<open>w_try\<close> what \<open>try_send\<close> on it
  gives;
  \<open>w_store_read\<close> and \<open>w_store_write\<close> are what the operating system refuses a read and a
  rewrite of the override store.
\<close>

datatype TrySend = Queued | QueueFull | QueueClosed

datatype Metadata = IsDirectory | NotADirectory | MetadataMissing | MetadataError

datatype Preflight = PUnknown | PImpossible string | PDoubtful string

record world =
  w_now :: nat
  w_due :: "duration \<Rightarrow> nat option"
  w_resolve :: "AppConfig \<Rightarrow> string + Credentials option"
  w_paths :: ShepPaths
  w_var :: "string \<Rightarrow> string option"
  w_secret_view :: "AppConfig \<Rightarrow> SecretView"
  w_bound_from :: "listen_table \<Rightarrow> listen_table \<Rightarrow> bool"
  w_bind :: "listen_table option \<Rightarrow> listen_table \<Rightarrow> AssembleError option"
  w_oom_kills :: "nat \<Rightarrow> nat"
  w_spawn :: "nat \<Rightarrow> SpawnSpec \<Rightarrow> string + nat"
  w_has_pty :: "nat \<Rightarrow> bool"
  w_preflight :: "SpawnSpec \<Rightarrow> Preflight"
  w_store_read :: faults
  w_store_write :: faults
  w_serde :: serde
  w_metadata :: "string \<Rightarrow> Metadata"
  w_write_cpu_max :: "nat \<Rightarrow> string option \<Rightarrow> bool"
  w_write_pids_max :: "nat \<Rightarrow> u32 option \<Rightarrow> bool"
  w_host_environment :: string
  w_seal :: "string option \<Rightarrow> string option \<Rightarrow> u64"
  w_liveness_epoch :: "nat \<Rightarrow> nat"
  w_channel_closed :: "nat \<Rightarrow> bool"
  w_stdin_closed :: "nat \<Rightarrow> bool"
  w_pty_closed :: "nat \<Rightarrow> bool"
  w_try_signal :: "nat \<Rightarrow> TrySend"
  w_try_stdin :: "nat \<Rightarrow> TrySend"
  w_try_child :: "nat \<Rightarrow> TrySend"
  w_platform :: platform

definition w_assemble :: "world \<Rightarrow> AppConfig \<Rightarrow> nat \<Rightarrow> Credentials option \<Rightarrow> AssembleError + SpawnSpec" where
  "w_assemble w app inst credentials = assemble (w_var w) app inst (w_paths w) credentials (w_secret_view w app)"

definition w_describe :: "world \<Rightarrow> AppConfig \<Rightarrow> nat \<Rightarrow> Credentials option \<Rightarrow> SpawnSpec" where
  "w_describe w app inst credentials = describe (w_var w) app inst (w_paths w) credentials (w_secret_view w app)"

subsection \<open>Primitive updates\<close>

definition get_slot :: "actor \<Rightarrow> nat \<Rightarrow> SheepSlot option" where
  "get_slot s i = map_of (sheep s) i"

definition upd_slot :: "nat \<Rightarrow> (SheepSlot \<Rightarrow> SheepSlot) \<Rightarrow> actor \<Rightarrow> actor" where
  "upd_slot i f s = s\<lparr> sheep := map (\<lambda>(k, sl). (k, if k = i then f sl else sl)) (sheep s) \<rparr>"

definition put_slot :: "nat \<Rightarrow> SheepSlot \<Rightarrow> actor \<Rightarrow> actor" where
  "put_slot i sl s = s\<lparr> sheep := AList.update i sl (sheep s) \<rparr>"

definition del_slot :: "nat \<Rightarrow> actor \<Rightarrow> actor" where
  "del_slot i s = s\<lparr> sheep := AList.delete i (sheep s) \<rparr>"

definition effect :: "effect \<Rightarrow> actor \<Rightarrow> actor" where
  "effect e s = s\<lparr> out := out s @ [e] \<rparr>"

definition panic :: "actor \<Rightarrow> actor" where
  "panic s = s\<lparr> panicked := True \<rparr>"

definition debug_assert :: "bool \<Rightarrow> actor \<Rightarrow> actor" where
  "debug_assert b s = (if b then s else s\<lparr> debug_failed := True \<rparr>)"

definition emit :: "ProcessEventKind \<Rightarrow> ProcessInfo \<Rightarrow> bool \<Rightarrow> actor \<Rightarrow> actor" where
  "emit ev info manually s = effect (Emit ev info manually) s"

definition get_job :: "actor \<Rightarrow> string \<Rightarrow> ReloadJob option" where
  "get_job s nm = map_of (reloads s) nm"

definition put_job :: "string \<Rightarrow> ReloadJob \<Rightarrow> actor \<Rightarrow> actor" where
  "put_job nm job s = s\<lparr> reloads := AList.update nm job (reloads s) \<rparr>"

definition del_job :: "string \<Rightarrow> actor \<Rightarrow> actor" where
  "del_job nm s = s\<lparr> reloads := AList.delete nm (reloads s) \<rparr>"

definition upd_job :: "string \<Rightarrow> (ReloadJob \<Rightarrow> ReloadJob) \<Rightarrow> actor \<Rightarrow> actor" where
  "upd_job nm f s = s\<lparr> reloads := map (\<lambda>(k, j). (k, if k = nm then f j else j)) (reloads s) \<rparr>"

definition extend_set :: "'a list \<Rightarrow> 'a list \<Rightarrow> 'a list" where
  "extend_set xs ys = fold List.insert xs ys"

text \<open>The row a handler would return after a failed \<open>expect\<close>; no caller ever sees it.\<close>

definition no_info :: ProcessInfo where
  "no_info = to_info 0
     \<lparr> e_id = 0, e_spec = minimal [] [], e_pending = None, e_pending_reidentifies = False,
       e_overridden = [], e_instance = 0, e_status = Errored, e_pid = None, e_restarts = 0,
       e_started_at = None, e_budget = budget_default, e_reload = RNone,
       e_credentials = Unresolved, e_out_file = [], e_err_file = [], e_dog = None,
       e_last_exit = None, e_spawn_failure = None \<rparr> []"

text \<open>\<open>to_info\<close> of the slot \<open>i\<close>, where the code has the slot in hand.\<close>

definition info_of :: "world \<Rightarrow> nat \<Rightarrow> actor \<Rightarrow> ProcessInfo" where
  "info_of w i s =
     (case get_slot s i of None \<Rightarrow> no_info | Some sl \<Rightarrow> to_info (w_now w) (sl_entry sl) (smits s))"

text \<open>\<open>expect\<close> on the slot \<open>i\<close>.\<close>

definition expect_slot :: "nat \<Rightarrow> actor \<Rightarrow> actor" where
  "expect_slot i s = (if get_slot s i = None then panic s else s)"

definition set_status :: "world \<Rightarrow> nat \<Rightarrow> ProcStatus \<Rightarrow> actor \<Rightarrow> ProcessInfo \<times> actor" where
  "set_status w i st s =
     (let s = expect_slot i s;
          s = upd_slot i (upd_entry (\<lambda>e. e\<lparr> e_status := st \<rparr>)) s
      in (info_of w i s, s))"

definition arm_extras :: "nat \<Rightarrow> actor \<Rightarrow> actor" where
  "arm_extras i s = (case get_slot s i of None \<Rightarrow> s | Some _ \<Rightarrow> effect (ArmExtras i) s)"

definition disarm_extras :: "nat \<Rightarrow> string \<Rightarrow> actor \<Rightarrow> actor" where
  "disarm_extras i nm s = effect (DisarmExtras i nm) s"

definition went_online :: "nat \<Rightarrow> ProcessInfo \<Rightarrow> bool \<Rightarrow> actor \<Rightarrow> actor" where
  "went_online i info manually s =
     (let s = upd_slot i (\<lambda>sl. sl\<lparr> sl_ready_failed := False \<rparr>) s;
          s = emit EvOnline info manually s
      in arm_extras i s)"

definition schedule_restart :: "nat \<Rightarrow> nat \<Rightarrow> duration option \<Rightarrow> actor \<Rightarrow> actor" where
  "schedule_restart i epoch delay s = effect (ScheduleRestart i epoch delay) s"

fun send_reply :: "ReplyKind \<Rightarrow> SupervisorError + ProcessInfo list \<Rightarrow> actor \<Rightarrow> actor" where
  "send_reply (RInfo c) outcome s = effect (Reply c (Infos outcome)) s"
| "send_reply (RIds c) outcome s =
     effect (Reply c (Ids (case outcome of Inl e \<Rightarrow> Inl e | Inr infos \<Rightarrow> Inr (map i_id infos)))) s"
| "send_reply (RShutdown c) outcome s = effect (Reply c Done) s"

fun is_shutdown :: "ReplyKind \<Rightarrow> bool" where
  "is_shutdown (RShutdown _) = True"
| "is_shutdown _ = False"

text \<open>
  \<open>resolve_pending\<close>: the loop over the pending replies, as a recursion over them. It
  answers and drops each one this exit empties.
\<close>

fun resolve_loop :: "nat \<Rightarrow> ProcessInfo \<Rightarrow> PendingReply list \<Rightarrow> actor \<Rightarrow> bool \<times> actor" where
  "resolve_loop i info [] s = (False, s)"
| "resolve_loop i info (p # ps) s =
     (let p = (if i \<in> set (pr_remaining p)
               then p\<lparr> pr_remaining := removeAll i (pr_remaining p),
                       pr_results := pr_results p @ [info] \<rparr>
               else p)
      in if pr_remaining p = []
         then (let s = send_reply (pr_reply p) (Inr (sort_flock (pr_results p))) s;
                   (b, s) = resolve_loop i info ps s
               in (is_shutdown (pr_reply p) \<or> b, s))
         else resolve_loop i info ps (s\<lparr> pending_replies := pending_replies s @ [p] \<rparr>))"

definition resolve_pending :: "nat \<Rightarrow> ProcessInfo \<Rightarrow> actor \<Rightarrow> bool \<times> actor" where
  "resolve_pending i info s =
     resolve_loop i info (pending_replies s) (s\<lparr> pending_replies := [] \<rparr>)"

subsection \<open>How the primitives act\<close>

text \<open>What each primitive leaves alone, and what it does to the slot it names.\<close>

lemma upd_slot_frame [simp]:
  "next_id (upd_slot i f s) = next_id s"
  "next_deadline (upd_slot i f s) = next_deadline s"
  "next_action_stamp (upd_slot i f s) = next_action_stamp s"
  "pending_replies (upd_slot i f s) = pending_replies s"
  "shutting_down (upd_slot i f s) = shutting_down s"
  "smits (upd_slot i f s) = smits s"
  "reloads (upd_slot i f s) = reloads s"
  "disabled (upd_slot i f s) = disabled s"
  "listeners (upd_slot i f s) = listeners s"
  "listeners_before (upd_slot i f s) = listeners_before s"
  "dog_binaries (upd_slot i f s) = dog_binaries s"
  "cgroup_base (upd_slot i f s) = cgroup_base s"
  "cgroup_unavailable (upd_slot i f s) = cgroup_unavailable s"
  "oom_baselines (upd_slot i f s) = oom_baselines s"
  "overrides_file (upd_slot i f s) = overrides_file s"
  "announced (upd_slot i f s) = announced s"
  "out (upd_slot i f s) = out s"
  "panicked (upd_slot i f s) = panicked s"
  "debug_failed (upd_slot i f s) = debug_failed s"
  by (simp_all add: upd_slot_def)

lemma put_slot_frame [simp]:
  "next_id (put_slot i sl s) = next_id s"
  "next_deadline (put_slot i sl s) = next_deadline s"
  "next_action_stamp (put_slot i sl s) = next_action_stamp s"
  "pending_replies (put_slot i sl s) = pending_replies s"
  "shutting_down (put_slot i sl s) = shutting_down s"
  "smits (put_slot i sl s) = smits s"
  "reloads (put_slot i sl s) = reloads s"
  "disabled (put_slot i sl s) = disabled s"
  "listeners (put_slot i sl s) = listeners s"
  "listeners_before (put_slot i sl s) = listeners_before s"
  "dog_binaries (put_slot i sl s) = dog_binaries s"
  "cgroup_base (put_slot i sl s) = cgroup_base s"
  "cgroup_unavailable (put_slot i sl s) = cgroup_unavailable s"
  "oom_baselines (put_slot i sl s) = oom_baselines s"
  "overrides_file (put_slot i sl s) = overrides_file s"
  "announced (put_slot i sl s) = announced s"
  "out (put_slot i sl s) = out s"
  "panicked (put_slot i sl s) = panicked s"
  "debug_failed (put_slot i sl s) = debug_failed s"
  by (simp_all add: put_slot_def)

lemma del_slot_frame [simp]:
  "next_id (del_slot i s) = next_id s"
  "next_deadline (del_slot i s) = next_deadline s"
  "next_action_stamp (del_slot i s) = next_action_stamp s"
  "pending_replies (del_slot i s) = pending_replies s"
  "shutting_down (del_slot i s) = shutting_down s"
  "smits (del_slot i s) = smits s"
  "reloads (del_slot i s) = reloads s"
  "disabled (del_slot i s) = disabled s"
  "listeners (del_slot i s) = listeners s"
  "listeners_before (del_slot i s) = listeners_before s"
  "dog_binaries (del_slot i s) = dog_binaries s"
  "cgroup_base (del_slot i s) = cgroup_base s"
  "cgroup_unavailable (del_slot i s) = cgroup_unavailable s"
  "oom_baselines (del_slot i s) = oom_baselines s"
  "overrides_file (del_slot i s) = overrides_file s"
  "announced (del_slot i s) = announced s"
  "out (del_slot i s) = out s"
  "panicked (del_slot i s) = panicked s"
  "debug_failed (del_slot i s) = debug_failed s"
  by (simp_all add: del_slot_def)

lemma effect_frame [simp]:
  "sheep (effect e s) = sheep s"
  "next_id (effect e s) = next_id s"
  "next_deadline (effect e s) = next_deadline s"
  "next_action_stamp (effect e s) = next_action_stamp s"
  "pending_replies (effect e s) = pending_replies s"
  "shutting_down (effect e s) = shutting_down s"
  "smits (effect e s) = smits s"
  "reloads (effect e s) = reloads s"
  "disabled (effect e s) = disabled s"
  "listeners (effect e s) = listeners s"
  "listeners_before (effect e s) = listeners_before s"
  "dog_binaries (effect e s) = dog_binaries s"
  "cgroup_base (effect e s) = cgroup_base s"
  "cgroup_unavailable (effect e s) = cgroup_unavailable s"
  "oom_baselines (effect e s) = oom_baselines s"
  "overrides_file (effect e s) = overrides_file s"
  "announced (effect e s) = announced s"
  "panicked (effect e s) = panicked s"
  "debug_failed (effect e s) = debug_failed s"
  by (simp_all add: effect_def)

lemma panic_frame [simp]:
  "sheep (panic s) = sheep s"
  "next_id (panic s) = next_id s"
  "next_deadline (panic s) = next_deadline s"
  "next_action_stamp (panic s) = next_action_stamp s"
  "pending_replies (panic s) = pending_replies s"
  "shutting_down (panic s) = shutting_down s"
  "smits (panic s) = smits s"
  "reloads (panic s) = reloads s"
  "disabled (panic s) = disabled s"
  "listeners (panic s) = listeners s"
  "listeners_before (panic s) = listeners_before s"
  "dog_binaries (panic s) = dog_binaries s"
  "cgroup_base (panic s) = cgroup_base s"
  "cgroup_unavailable (panic s) = cgroup_unavailable s"
  "oom_baselines (panic s) = oom_baselines s"
  "overrides_file (panic s) = overrides_file s"
  "announced (panic s) = announced s"
  "out (panic s) = out s"
  "debug_failed (panic s) = debug_failed s"
  by (simp_all add: panic_def)

lemma debug_assert_frame [simp]:
  "sheep (debug_assert b s) = sheep s"
  "next_id (debug_assert b s) = next_id s"
  "next_deadline (debug_assert b s) = next_deadline s"
  "next_action_stamp (debug_assert b s) = next_action_stamp s"
  "pending_replies (debug_assert b s) = pending_replies s"
  "shutting_down (debug_assert b s) = shutting_down s"
  "smits (debug_assert b s) = smits s"
  "reloads (debug_assert b s) = reloads s"
  "disabled (debug_assert b s) = disabled s"
  "listeners (debug_assert b s) = listeners s"
  "listeners_before (debug_assert b s) = listeners_before s"
  "dog_binaries (debug_assert b s) = dog_binaries s"
  "cgroup_base (debug_assert b s) = cgroup_base s"
  "cgroup_unavailable (debug_assert b s) = cgroup_unavailable s"
  "oom_baselines (debug_assert b s) = oom_baselines s"
  "overrides_file (debug_assert b s) = overrides_file s"
  "announced (debug_assert b s) = announced s"
  "out (debug_assert b s) = out s"
  "panicked (debug_assert b s) = panicked s"
  by (simp_all add: debug_assert_def)

lemma put_job_frame [simp]:
  "sheep (put_job nm j s) = sheep s"
  "next_id (put_job nm j s) = next_id s"
  "next_deadline (put_job nm j s) = next_deadline s"
  "next_action_stamp (put_job nm j s) = next_action_stamp s"
  "pending_replies (put_job nm j s) = pending_replies s"
  "shutting_down (put_job nm j s) = shutting_down s"
  "smits (put_job nm j s) = smits s"
  "disabled (put_job nm j s) = disabled s"
  "listeners (put_job nm j s) = listeners s"
  "listeners_before (put_job nm j s) = listeners_before s"
  "dog_binaries (put_job nm j s) = dog_binaries s"
  "cgroup_base (put_job nm j s) = cgroup_base s"
  "cgroup_unavailable (put_job nm j s) = cgroup_unavailable s"
  "oom_baselines (put_job nm j s) = oom_baselines s"
  "overrides_file (put_job nm j s) = overrides_file s"
  "announced (put_job nm j s) = announced s"
  "out (put_job nm j s) = out s"
  "panicked (put_job nm j s) = panicked s"
  "debug_failed (put_job nm j s) = debug_failed s"
  by (simp_all add: put_job_def)

lemma del_job_frame [simp]:
  "sheep (del_job nm s) = sheep s"
  "next_id (del_job nm s) = next_id s"
  "next_deadline (del_job nm s) = next_deadline s"
  "next_action_stamp (del_job nm s) = next_action_stamp s"
  "pending_replies (del_job nm s) = pending_replies s"
  "shutting_down (del_job nm s) = shutting_down s"
  "smits (del_job nm s) = smits s"
  "disabled (del_job nm s) = disabled s"
  "listeners (del_job nm s) = listeners s"
  "listeners_before (del_job nm s) = listeners_before s"
  "dog_binaries (del_job nm s) = dog_binaries s"
  "cgroup_base (del_job nm s) = cgroup_base s"
  "cgroup_unavailable (del_job nm s) = cgroup_unavailable s"
  "oom_baselines (del_job nm s) = oom_baselines s"
  "overrides_file (del_job nm s) = overrides_file s"
  "announced (del_job nm s) = announced s"
  "out (del_job nm s) = out s"
  "panicked (del_job nm s) = panicked s"
  "debug_failed (del_job nm s) = debug_failed s"
  by (simp_all add: del_job_def)

lemma upd_job_frame [simp]:
  "sheep (upd_job nm g s) = sheep s"
  "next_id (upd_job nm g s) = next_id s"
  "next_deadline (upd_job nm g s) = next_deadline s"
  "next_action_stamp (upd_job nm g s) = next_action_stamp s"
  "pending_replies (upd_job nm g s) = pending_replies s"
  "shutting_down (upd_job nm g s) = shutting_down s"
  "smits (upd_job nm g s) = smits s"
  "disabled (upd_job nm g s) = disabled s"
  "listeners (upd_job nm g s) = listeners s"
  "listeners_before (upd_job nm g s) = listeners_before s"
  "dog_binaries (upd_job nm g s) = dog_binaries s"
  "cgroup_base (upd_job nm g s) = cgroup_base s"
  "cgroup_unavailable (upd_job nm g s) = cgroup_unavailable s"
  "oom_baselines (upd_job nm g s) = oom_baselines s"
  "overrides_file (upd_job nm g s) = overrides_file s"
  "announced (upd_job nm g s) = announced s"
  "out (upd_job nm g s) = out s"
  "panicked (upd_job nm g s) = panicked s"
  "debug_failed (upd_job nm g s) = debug_failed s"
  by (simp_all add: upd_job_def)

lemma emit_frame [simp]:
  "sheep (emit ev info m s) = sheep s"
  "next_id (emit ev info m s) = next_id s"
  "next_deadline (emit ev info m s) = next_deadline s"
  "next_action_stamp (emit ev info m s) = next_action_stamp s"
  "pending_replies (emit ev info m s) = pending_replies s"
  "shutting_down (emit ev info m s) = shutting_down s"
  "smits (emit ev info m s) = smits s"
  "reloads (emit ev info m s) = reloads s"
  "disabled (emit ev info m s) = disabled s"
  "listeners (emit ev info m s) = listeners s"
  "listeners_before (emit ev info m s) = listeners_before s"
  "dog_binaries (emit ev info m s) = dog_binaries s"
  "cgroup_base (emit ev info m s) = cgroup_base s"
  "cgroup_unavailable (emit ev info m s) = cgroup_unavailable s"
  "oom_baselines (emit ev info m s) = oom_baselines s"
  "overrides_file (emit ev info m s) = overrides_file s"
  "announced (emit ev info m s) = announced s"
  "panicked (emit ev info m s) = panicked s"
  "debug_failed (emit ev info m s) = debug_failed s"
  by (simp_all add: emit_def)

lemma disarm_extras_frame [simp]:
  "sheep (disarm_extras i nm s) = sheep s"
  "next_id (disarm_extras i nm s) = next_id s"
  "next_deadline (disarm_extras i nm s) = next_deadline s"
  "next_action_stamp (disarm_extras i nm s) = next_action_stamp s"
  "pending_replies (disarm_extras i nm s) = pending_replies s"
  "shutting_down (disarm_extras i nm s) = shutting_down s"
  "smits (disarm_extras i nm s) = smits s"
  "reloads (disarm_extras i nm s) = reloads s"
  "disabled (disarm_extras i nm s) = disabled s"
  "listeners (disarm_extras i nm s) = listeners s"
  "listeners_before (disarm_extras i nm s) = listeners_before s"
  "dog_binaries (disarm_extras i nm s) = dog_binaries s"
  "cgroup_base (disarm_extras i nm s) = cgroup_base s"
  "cgroup_unavailable (disarm_extras i nm s) = cgroup_unavailable s"
  "oom_baselines (disarm_extras i nm s) = oom_baselines s"
  "overrides_file (disarm_extras i nm s) = overrides_file s"
  "announced (disarm_extras i nm s) = announced s"
  "panicked (disarm_extras i nm s) = panicked s"
  "debug_failed (disarm_extras i nm s) = debug_failed s"
  by (simp_all add: disarm_extras_def)

lemma arm_extras_frame [simp]:
  "sheep (arm_extras i s) = sheep s"
  "next_id (arm_extras i s) = next_id s"
  "next_deadline (arm_extras i s) = next_deadline s"
  "next_action_stamp (arm_extras i s) = next_action_stamp s"
  "pending_replies (arm_extras i s) = pending_replies s"
  "shutting_down (arm_extras i s) = shutting_down s"
  "smits (arm_extras i s) = smits s"
  "reloads (arm_extras i s) = reloads s"
  "disabled (arm_extras i s) = disabled s"
  "listeners (arm_extras i s) = listeners s"
  "listeners_before (arm_extras i s) = listeners_before s"
  "dog_binaries (arm_extras i s) = dog_binaries s"
  "cgroup_base (arm_extras i s) = cgroup_base s"
  "cgroup_unavailable (arm_extras i s) = cgroup_unavailable s"
  "oom_baselines (arm_extras i s) = oom_baselines s"
  "overrides_file (arm_extras i s) = overrides_file s"
  "announced (arm_extras i s) = announced s"
  "panicked (arm_extras i s) = panicked s"
  "debug_failed (arm_extras i s) = debug_failed s"
  by (simp_all add: arm_extras_def split: option.splits)

lemma schedule_restart_frame [simp]:
  "sheep (schedule_restart i ep d s) = sheep s"
  "next_id (schedule_restart i ep d s) = next_id s"
  "next_deadline (schedule_restart i ep d s) = next_deadline s"
  "next_action_stamp (schedule_restart i ep d s) = next_action_stamp s"
  "pending_replies (schedule_restart i ep d s) = pending_replies s"
  "shutting_down (schedule_restart i ep d s) = shutting_down s"
  "smits (schedule_restart i ep d s) = smits s"
  "reloads (schedule_restart i ep d s) = reloads s"
  "disabled (schedule_restart i ep d s) = disabled s"
  "listeners (schedule_restart i ep d s) = listeners s"
  "listeners_before (schedule_restart i ep d s) = listeners_before s"
  "dog_binaries (schedule_restart i ep d s) = dog_binaries s"
  "cgroup_base (schedule_restart i ep d s) = cgroup_base s"
  "cgroup_unavailable (schedule_restart i ep d s) = cgroup_unavailable s"
  "oom_baselines (schedule_restart i ep d s) = oom_baselines s"
  "overrides_file (schedule_restart i ep d s) = overrides_file s"
  "announced (schedule_restart i ep d s) = announced s"
  "panicked (schedule_restart i ep d s) = panicked s"
  "debug_failed (schedule_restart i ep d s) = debug_failed s"
  by (simp_all add: schedule_restart_def)

lemma send_reply_frame [simp]:
  "sheep (send_reply r oc s) = sheep s"
  "next_id (send_reply r oc s) = next_id s"
  "next_deadline (send_reply r oc s) = next_deadline s"
  "next_action_stamp (send_reply r oc s) = next_action_stamp s"
  "pending_replies (send_reply r oc s) = pending_replies s"
  "shutting_down (send_reply r oc s) = shutting_down s"
  "smits (send_reply r oc s) = smits s"
  "reloads (send_reply r oc s) = reloads s"
  "disabled (send_reply r oc s) = disabled s"
  "listeners (send_reply r oc s) = listeners s"
  "listeners_before (send_reply r oc s) = listeners_before s"
  "dog_binaries (send_reply r oc s) = dog_binaries s"
  "cgroup_base (send_reply r oc s) = cgroup_base s"
  "cgroup_unavailable (send_reply r oc s) = cgroup_unavailable s"
  "oom_baselines (send_reply r oc s) = oom_baselines s"
  "overrides_file (send_reply r oc s) = overrides_file s"
  "announced (send_reply r oc s) = announced s"
  "panicked (send_reply r oc s) = panicked s"
  "debug_failed (send_reply r oc s) = debug_failed s"
  by (cases r; simp)+

lemma get_slot_cong: "sheep s' = sheep s \<Longrightarrow> get_slot s' = get_slot s"
  by (simp add: get_slot_def fun_eq_iff)

lemma get_job_cong: "reloads s' = reloads s \<Longrightarrow> get_job s' = get_job s"
  by (simp add: get_job_def fun_eq_iff)

lemma get_slot_frame [simp]:
  "get_slot (effect e s) = get_slot s"
  "get_slot (panic s) = get_slot s"
  "get_slot (debug_assert b s) = get_slot s"
  "get_slot (put_job nm j s) = get_slot s"
  "get_slot (del_job nm s) = get_slot s"
  "get_slot (upd_job nm g s) = get_slot s"
  "get_slot (emit ev info m s) = get_slot s"
  "get_slot (disarm_extras i nm s) = get_slot s"
  "get_slot (arm_extras i s) = get_slot s"
  "get_slot (schedule_restart i ep d s) = get_slot s"
  "get_slot (send_reply r oc s) = get_slot s"
  "get_slot (s\<lparr> next_id := v0 \<rparr>) = get_slot s"
  "get_slot (s\<lparr> next_deadline := v1 \<rparr>) = get_slot s"
  "get_slot (s\<lparr> next_action_stamp := v2 \<rparr>) = get_slot s"
  "get_slot (s\<lparr> pending_replies := v3 \<rparr>) = get_slot s"
  "get_slot (s\<lparr> shutting_down := v4 \<rparr>) = get_slot s"
  "get_slot (s\<lparr> smits := v5 \<rparr>) = get_slot s"
  "get_slot (s\<lparr> reloads := v6 \<rparr>) = get_slot s"
  "get_slot (s\<lparr> disabled := v7 \<rparr>) = get_slot s"
  "get_slot (s\<lparr> listeners := v8 \<rparr>) = get_slot s"
  "get_slot (s\<lparr> listeners_before := v9 \<rparr>) = get_slot s"
  "get_slot (s\<lparr> dog_binaries := v10 \<rparr>) = get_slot s"
  "get_slot (s\<lparr> cgroup_base := v11 \<rparr>) = get_slot s"
  "get_slot (s\<lparr> cgroup_unavailable := v12 \<rparr>) = get_slot s"
  "get_slot (s\<lparr> oom_baselines := v13 \<rparr>) = get_slot s"
  "get_slot (s\<lparr> overrides_file := vo \<rparr>) = get_slot s"
  "get_slot (s\<lparr> announced := va \<rparr>) = get_slot s"
  "get_slot (s\<lparr> out := v14 \<rparr>) = get_slot s"
  "get_slot (s\<lparr> panicked := v15 \<rparr>) = get_slot s"
  "get_slot (s\<lparr> debug_failed := v16 \<rparr>) = get_slot s"
  by (rule get_slot_cong; simp)+

lemma get_job_frame [simp]:
  "get_job (effect e s) = get_job s"
  "get_job (panic s) = get_job s"
  "get_job (debug_assert b s) = get_job s"
  "get_job (upd_slot i f s) = get_job s"
  "get_job (put_slot i sl s) = get_job s"
  "get_job (del_slot i s) = get_job s"
  "get_job (emit ev info m s) = get_job s"
  "get_job (disarm_extras i nm s) = get_job s"
  "get_job (arm_extras i s) = get_job s"
  "get_job (schedule_restart i ep d s) = get_job s"
  "get_job (send_reply r oc s) = get_job s"
  "get_job (s\<lparr> sheep := v0 \<rparr>) = get_job s"
  "get_job (s\<lparr> next_id := v1 \<rparr>) = get_job s"
  "get_job (s\<lparr> next_deadline := v2 \<rparr>) = get_job s"
  "get_job (s\<lparr> next_action_stamp := v3 \<rparr>) = get_job s"
  "get_job (s\<lparr> pending_replies := v4 \<rparr>) = get_job s"
  "get_job (s\<lparr> shutting_down := v5 \<rparr>) = get_job s"
  "get_job (s\<lparr> smits := v6 \<rparr>) = get_job s"
  "get_job (s\<lparr> disabled := v7 \<rparr>) = get_job s"
  "get_job (s\<lparr> listeners := v8 \<rparr>) = get_job s"
  "get_job (s\<lparr> listeners_before := v9 \<rparr>) = get_job s"
  "get_job (s\<lparr> dog_binaries := v10 \<rparr>) = get_job s"
  "get_job (s\<lparr> cgroup_base := v11 \<rparr>) = get_job s"
  "get_job (s\<lparr> cgroup_unavailable := v12 \<rparr>) = get_job s"
  "get_job (s\<lparr> oom_baselines := v13 \<rparr>) = get_job s"
  "get_job (s\<lparr> overrides_file := vo \<rparr>) = get_job s"
  "get_job (s\<lparr> announced := va \<rparr>) = get_job s"
  "get_job (s\<lparr> out := v14 \<rparr>) = get_job s"
  "get_job (s\<lparr> panicked := v15 \<rparr>) = get_job s"
  "get_job (s\<lparr> debug_failed := v16 \<rparr>) = get_job s"
  by (rule get_job_cong; simp)+

lemma map_of_map_if:
  "map_of (map (\<lambda>(k, v). (k, if k = i then f v else v)) xs) k =
     (if k = i then map_option f (map_of xs k) else map_of xs k)"
  by (induction xs) auto

lemma get_slot_upd [simp]:
  "get_slot (upd_slot i f s) k = (if k = i then map_option f (get_slot s k) else get_slot s k)"
  by (simp add: get_slot_def upd_slot_def map_of_map_if)

lemma get_slot_put [simp]:
  "get_slot (put_slot i sl s) k = (if k = i then Some sl else get_slot s k)"
  by (simp add: get_slot_def put_slot_def map_of_alist_update)

lemma get_slot_del [simp]:
  "get_slot (del_slot i s) k = (if k = i then None else get_slot s k)"
  by (simp add: get_slot_def del_slot_def map_of_alist_delete)

lemma get_job_put [simp]:
  "get_job (put_job nm j s) k = (if k = nm then Some j else get_job s k)"
  by (simp add: get_job_def put_job_def map_of_alist_update)

lemma get_job_del [simp]:
  "get_job (del_job nm s) k = (if k = nm then None else get_job s k)"
  by (simp add: get_job_def del_job_def map_of_alist_delete)

lemma get_job_upd [simp]:
  "get_job (upd_job nm g s) k = (if k = nm then map_option g (get_job s k) else get_job s k)"
  by (simp add: get_job_def upd_job_def map_of_map_if)

text \<open>The keys of the flock stay distinct under every primitive.\<close>

definition keys_ok :: "actor \<Rightarrow> bool" where
  "keys_ok s \<longleftrightarrow> distinct (map fst (sheep s)) \<and> distinct (map fst (reloads s))"

lemma map_fst_map_if: "map fst (map (\<lambda>(k, v). (k, if k = i then f v else v)) xs) = map fst xs"
  by (induction xs) auto

lemma keys_ok_simps [simp]:
  "keys_ok (upd_slot i f s) = keys_ok s"
  "keys_ok (upd_job nm g s) = keys_ok s"
  "keys_ok s \<Longrightarrow> keys_ok (put_slot i sl s)"
  "keys_ok s \<Longrightarrow> keys_ok (del_slot i s)"
  "keys_ok s \<Longrightarrow> keys_ok (put_job nm j s)"
  "keys_ok s \<Longrightarrow> keys_ok (del_job nm s)"
  by (simp_all add: keys_ok_def upd_slot_def upd_job_def map_fst_map_if put_slot_def del_slot_def
      put_job_def del_job_def distinct_update AList.distinct_delete del: map_map)

lemma keys_ok_cong: "sheep s' = sheep s \<Longrightarrow> reloads s' = reloads s \<Longrightarrow> keys_ok s' = keys_ok s"
  by (simp add: keys_ok_def)

lemma keys_ok_frame [simp]:
  "keys_ok (effect e s) = keys_ok s"
  "keys_ok (panic s) = keys_ok s"
  "keys_ok (debug_assert b s) = keys_ok s"
  "keys_ok (emit ev info m s) = keys_ok s"
  "keys_ok (disarm_extras i nm s) = keys_ok s"
  "keys_ok (arm_extras i s) = keys_ok s"
  "keys_ok (schedule_restart i ep d s) = keys_ok s"
  "keys_ok (send_reply r oc s) = keys_ok s"
  "keys_ok (s\<lparr> next_id := v0 \<rparr>) = keys_ok s"
  "keys_ok (s\<lparr> next_deadline := v1 \<rparr>) = keys_ok s"
  "keys_ok (s\<lparr> next_action_stamp := v2 \<rparr>) = keys_ok s"
  "keys_ok (s\<lparr> pending_replies := v3 \<rparr>) = keys_ok s"
  "keys_ok (s\<lparr> shutting_down := v4 \<rparr>) = keys_ok s"
  "keys_ok (s\<lparr> smits := v5 \<rparr>) = keys_ok s"
  "keys_ok (s\<lparr> disabled := v6 \<rparr>) = keys_ok s"
  "keys_ok (s\<lparr> listeners := v7 \<rparr>) = keys_ok s"
  "keys_ok (s\<lparr> listeners_before := v8 \<rparr>) = keys_ok s"
  "keys_ok (s\<lparr> dog_binaries := v9 \<rparr>) = keys_ok s"
  "keys_ok (s\<lparr> cgroup_base := v10 \<rparr>) = keys_ok s"
  "keys_ok (s\<lparr> cgroup_unavailable := v11 \<rparr>) = keys_ok s"
  "keys_ok (s\<lparr> oom_baselines := v12 \<rparr>) = keys_ok s"
  "keys_ok (s\<lparr> overrides_file := vo \<rparr>) = keys_ok s"
  "keys_ok (s\<lparr> announced := va \<rparr>) = keys_ok s"
  "keys_ok (s\<lparr> out := v13 \<rparr>) = keys_ok s"
  "keys_ok (s\<lparr> panicked := v14 \<rparr>) = keys_ok s"
  "keys_ok (s\<lparr> debug_failed := v15 \<rparr>) = keys_ok s"
  by (rule keys_ok_cong; simp)+

lemma get_slot_in_sheep:
  "keys_ok s \<Longrightarrow> get_slot s i = Some sl \<longleftrightarrow> (i, sl) \<in> set (sheep s)"
  by (simp add: keys_ok_def get_slot_def)

lemma get_slot_key: "get_slot s i \<noteq> None \<longleftrightarrow> i \<in> fst ` set (sheep s)"
  by (simp add: get_slot_def map_of_eq_None_iff)

subsection \<open>Invariants of the flock\<close>

text \<open>
  A slot with nothing running in it: every handle is dropped and nothing waits on an
  exit. \<open>at_rest\<close> is what a handled exit leaves before its status is decided.
\<close>

definition at_rest :: "SheepSlot \<Rightarrow> bool" where
  "at_rest sl \<longleftrightarrow> \<not> sl_ctl sl \<and> \<not> sl_to_child sl \<and> \<not> sl_signals sl \<and> \<not> sl_to_stdin sl \<and>
     \<not> sl_pty sl \<and> e_pid (sl_entry sl) = None \<and> e_started_at (sl_entry sl) = None \<and>
     sl_manual sl = None \<and> \<not> sl_pending_delete sl \<and> \<not> sl_ready_failed sl"

definition in_service :: "SheepSlot \<Rightarrow> bool" where
  "in_service sl \<longleftrightarrow> sl_ctl sl \<and> sl_to_child sl \<and> sl_signals sl \<and> sl_to_stdin sl \<and>
     e_pid (sl_entry sl) \<noteq> None \<and> e_started_at (sl_entry sl) \<noteq> None \<and>
     (sl_pending_delete sl \<longrightarrow> sl_manual sl \<noteq> None) \<and>
     slot_status sl \<in> {Starting, Online, Stopping}"

definition resting_status :: "SheepSlot \<Rightarrow> bool" where
  "resting_status sl \<longleftrightarrow> slot_status sl \<in> {Stopped, Errored, WaitingRestart}"

definition parked_ok :: "SheepSlot \<Rightarrow> bool" where
  "parked_ok sl \<longleftrightarrow>
     e_pending (sl_entry sl) = None \<or> app_name (the (e_pending (sl_entry sl))) = slot_name sl"

definition slot_base :: "nat \<Rightarrow> nat \<Rightarrow> nat \<Rightarrow> SheepSlot \<Rightarrow> bool" where
  "slot_base n st i sl \<longleftrightarrow> e_id (sl_entry sl) = i \<and> i < n \<and> waits_ok st (sl_actions sl) \<and>
     parked_ok sl"

definition slot_ok :: "nat \<Rightarrow> nat \<Rightarrow> nat \<Rightarrow> SheepSlot \<Rightarrow> bool" where
  "slot_ok n st i sl \<longleftrightarrow> slot_base n st i sl \<and>
     (in_service sl \<or> at_rest sl \<and> resting_status sl \<and> e_reload (sl_entry sl) = RNone)"

text \<open>
  The flock while the exits of the ids in \<open>X\<close> are being handled, and with none in hand.
\<close>

definition slot_fit :: "nat set \<Rightarrow> nat \<Rightarrow> nat \<Rightarrow> nat \<Rightarrow> SheepSlot \<Rightarrow> bool" where
  "slot_fit X n st i sl \<longleftrightarrow> slot_base n st i sl \<and> (if i \<in> X then at_rest sl else slot_ok n st i sl)"

text \<open>
  A reload job names ids of its own app only: its drainee wears the marker for as long as it
  is registered, its replacement never does, and a swap past \<open>DrainFirst\<close> has a replacement.
\<close>

definition wears_drainee :: "SheepSlot \<Rightarrow> bool" where
  "wears_drainee sl \<longleftrightarrow> (case e_reload (sl_entry sl) of Drainee _ \<Rightarrow> True | _ \<Rightarrow> False)"

definition job_ids :: "ReloadJob \<Rightarrow> nat set" where
  "job_ids job = insert (sw_old_id (j_swap job)) (set (j_queue job) \<union> set_option (sw_new_id (j_swap job)))"

definition owned :: "actor \<Rightarrow> string \<Rightarrow> nat \<Rightarrow> bool" where
  "owned s nm i \<longleftrightarrow> i < next_id s \<and> (\<forall>sl. get_slot s i = Some sl \<longrightarrow> slot_name sl = nm)"

definition job_ok :: "actor \<Rightarrow> string \<Rightarrow> ReloadJob \<Rightarrow> bool" where
  "job_ok s nm job \<longleftrightarrow> (\<forall>i \<in> job_ids job. owned s nm i) \<and>
     (\<forall>sl. get_slot s (sw_old_id (j_swap job)) = Some sl \<longrightarrow> wears_drainee sl) \<and>
     (\<forall>n sl. sw_new_id (j_swap job) = Some n \<longrightarrow> get_slot s n = Some sl \<longrightarrow> \<not> wears_drainee sl) \<and>
     (sw_phase (j_swap job) \<noteq> DrainFirst \<longrightarrow> sw_new_id (j_swap job) \<noteq> None)"

definition jobs_ok :: "actor \<Rightarrow> bool" where
  "jobs_ok s \<longleftrightarrow> (\<forall>nm job. get_job s nm = Some job \<longrightarrow> job_ok s nm job)"

lemma jobs_ok_cong:
  "get_slot s' = get_slot s \<Longrightarrow> get_job s' = get_job s \<Longrightarrow> next_id s' = next_id s \<Longrightarrow> jobs_ok s' = jobs_ok s"
  by (simp add: jobs_ok_def job_ok_def owned_def)

lemma jobs_ok_frame [simp]:
  "jobs_ok (effect e s) = jobs_ok s"
  "jobs_ok (panic s) = jobs_ok s"
  "jobs_ok (debug_assert b s) = jobs_ok s"
  "jobs_ok (emit ev info m s) = jobs_ok s"
  "jobs_ok (disarm_extras i nm s) = jobs_ok s"
  "jobs_ok (arm_extras i s) = jobs_ok s"
  "jobs_ok (schedule_restart i ep d s) = jobs_ok s"
  "jobs_ok (send_reply r oc s) = jobs_ok s"
  "jobs_ok (s\<lparr> next_deadline := v1 \<rparr>) = jobs_ok s"
  "jobs_ok (s\<lparr> next_action_stamp := v2 \<rparr>) = jobs_ok s"
  "jobs_ok (s\<lparr> pending_replies := v3 \<rparr>) = jobs_ok s"
  "jobs_ok (s\<lparr> shutting_down := v4 \<rparr>) = jobs_ok s"
  "jobs_ok (s\<lparr> smits := v5 \<rparr>) = jobs_ok s"
  "jobs_ok (s\<lparr> disabled := v6 \<rparr>) = jobs_ok s"
  "jobs_ok (s\<lparr> listeners := v7 \<rparr>) = jobs_ok s"
  "jobs_ok (s\<lparr> listeners_before := v8 \<rparr>) = jobs_ok s"
  "jobs_ok (s\<lparr> dog_binaries := v9 \<rparr>) = jobs_ok s"
  "jobs_ok (s\<lparr> cgroup_base := v10 \<rparr>) = jobs_ok s"
  "jobs_ok (s\<lparr> cgroup_unavailable := v11 \<rparr>) = jobs_ok s"
  "jobs_ok (s\<lparr> oom_baselines := v12 \<rparr>) = jobs_ok s"
  "jobs_ok (s\<lparr> overrides_file := vo \<rparr>) = jobs_ok s"
  "jobs_ok (s\<lparr> announced := va \<rparr>) = jobs_ok s"
  "jobs_ok (s\<lparr> out := v13 \<rparr>) = jobs_ok s"
  "jobs_ok (s\<lparr> panicked := v14 \<rparr>) = jobs_ok s"
  "jobs_ok (s\<lparr> debug_failed := v15 \<rparr>) = jobs_ok s"
  by (rule jobs_ok_cong; simp)+

definition flock_but :: "nat set \<Rightarrow> actor \<Rightarrow> bool" where
  "flock_but X s \<longleftrightarrow> keys_ok s \<and> jobs_ok s \<and>
     (\<forall>i sl. get_slot s i = Some sl \<longrightarrow> slot_fit X (next_id s) (next_action_stamp s) i sl)"

abbreviation flock_ok :: "actor \<Rightarrow> bool" where
  "flock_ok s \<equiv> flock_but {} s"

definition running :: "actor \<Rightarrow> nat \<Rightarrow> bool" where
  "running s i \<longleftrightarrow> (case get_slot s i of None \<Rightarrow> False | Some sl \<Rightarrow> sl_ctl sl)"

text \<open>An id whose kill somebody has claimed: it is running and its next exit is spoken for.\<close>

definition claimed :: "actor \<Rightarrow> nat \<Rightarrow> bool" where
  "claimed s i \<longleftrightarrow>
     (case get_slot s i of None \<Rightarrow> False | Some sl \<Rightarrow> sl_ctl sl \<and> sl_manual sl \<noteq> None)"

text \<open>
  Every deferred reply waits on somebody, and on nobody whose exit is not already on its
  way: the ids outside \<open>E\<close> are all claimed.
\<close>

definition pend_ok :: "nat set \<Rightarrow> actor \<Rightarrow> bool" where
  "pend_ok E s \<longleftrightarrow> (\<forall>p \<in> set (pending_replies s). pr_remaining p \<noteq> [] \<and>
     (\<forall>i \<in> set (pr_remaining p). i \<in> E \<or> claimed s i))"

text \<open>Processes started under an id, by the trace, less the one still running under it.\<close>

fun spawns_of :: "nat \<Rightarrow> effect list \<Rightarrow> nat" where
  "spawns_of i [] = 0"
| "spawns_of i (Spawned k pid # es) = (if k = i then 1 else 0) + spawns_of i es"
| "spawns_of i (e # es) = spawns_of i es"

definition balance :: "nat \<Rightarrow> actor \<Rightarrow> int" where
  "balance i s = int (spawns_of i (out s)) - (if running s i then 1 else 0)"

lemma spawns_of_append [simp]: "spawns_of i (xs @ ys) = spawns_of i xs + spawns_of i ys"
  by (induction i xs rule: spawns_of.induct) auto

definition quiet :: "effect \<Rightarrow> bool" where
  "quiet e \<longleftrightarrow> (case e of Spawned _ _ \<Rightarrow> False | _ \<Rightarrow> True)"

lemma quiet_simps [simp]:
  "quiet (Emit ev info m)" "quiet (Reply c b)" "quiet (Kill i d)" "\<not> quiet (Spawned i pid)"
  "quiet (ScheduleRestart i ep dl)" "quiet (ArmReadiness i ep m src d)" "quiet (WakeReadiness i)"
  "quiet (ArmDeadline nm st d)" "quiet (SpawnVerify nm i src d)" "quiet (ArmExtras i)"
  "quiet (DisarmExtras i nm)" "quiet (RearmName nm specs)" "quiet (WriteMemoryMax i mm)" "quiet (WriteCpuMax i cm)"
  "quiet (WritePidsMax i pm)" "quiet (DogSettingsChanged dg nm)" "quiet (ActionBody st bd)" "quiet (ActionDone st oc)"
  "quiet (ActionTask i st sm d)" "quiet (TriggerTask rows waits c)" "quiet (SendSignal i sg)"
  "quiet (SignalTask srows names c)" "quiet (SendStdin i line)" "quiet (SendLineTask lrows names c)"
  "quiet (SendChild i sm)" "quiet (PtyTask i nm ask c)" "quiet (ReopenTask infos pumps c)"
  "quiet (FlushTask infos ids paths c)" "quiet (LabelLamb i lamb lbl)"
  by (simp_all add: quiet_def)

lemma spawns_of_quiet [simp]: "quiet e \<Longrightarrow> spawns_of i [e] = 0"
  by (cases e) simp_all

lemma spawns_of_effect [simp]: "spawns_of i (out (effect e s)) = spawns_of i (out s) + spawns_of i [e]"
  by (simp add: effect_def)

lemma spawns_frame [simp]:
  "spawns_of i (out (emit ev info m s)) = spawns_of i (out s)"
  "spawns_of i (out (disarm_extras k nm s)) = spawns_of i (out s)"
  "spawns_of i (out (arm_extras k s)) = spawns_of i (out s)"
  "spawns_of i (out (schedule_restart k ep d s)) = spawns_of i (out s)"
  by (simp_all add: emit_def disarm_extras_def arm_extras_def schedule_restart_def
      split: option.splits)

lemma spawns_send_reply [simp]: "spawns_of i (out (send_reply r oc s)) = spawns_of i (out s)"
  by (cases r) simp_all

text \<open>Effects are only ever added to the trace.\<close>

lemma prefix_effect [simp]: "prefix es (out s) \<Longrightarrow> prefix es (out (effect e s))"
  by (simp add: effect_def)

lemma prefix_frame [simp]:
  "prefix es (out s) \<Longrightarrow> prefix es (out (emit ev info m s))"
  "prefix es (out s) \<Longrightarrow> prefix es (out (disarm_extras k nm s))"
  "prefix es (out s) \<Longrightarrow> prefix es (out (arm_extras k s))"
  "prefix es (out s) \<Longrightarrow> prefix es (out (schedule_restart k ep d s))"
  by (simp_all add: emit_def disarm_extras_def arm_extras_def schedule_restart_def split: option.splits)

lemma prefix_send_reply [simp]: "prefix es (out s) \<Longrightarrow> prefix es (out (send_reply r oc s))"
  by (cases r) simp_all

lemma running_cong: "get_slot s' i = get_slot s i \<Longrightarrow> running s' i = running s i"
  by (simp add: running_def)

lemma claimed_cong: "get_slot s' i = get_slot s i \<Longrightarrow> claimed s' i = claimed s i"
  by (simp add: claimed_def)

lemma claimed_running: "claimed s i \<Longrightarrow> running s i"
  by (auto simp: claimed_def running_def split: option.splits)

lemma slot_fit_outside [simp]: "i \<notin> X \<Longrightarrow> slot_fit X n st i sl = slot_ok n st i sl"
  by (auto simp: slot_fit_def slot_ok_def)

lemma flock_butD:
  "flock_but X s \<Longrightarrow> get_slot s i = Some sl \<Longrightarrow> slot_fit X (next_id s) (next_action_stamp s) i sl"
  "flock_but X s \<Longrightarrow> keys_ok s"
  "flock_but X s \<Longrightarrow> jobs_ok s"
  by (auto simp: flock_but_def)

lemma flock_okD:
  "flock_ok s \<Longrightarrow> get_slot s i = Some sl \<Longrightarrow> slot_ok (next_id s) (next_action_stamp s) i sl"
  using flock_butD(1)[of "{}"] by simp

lemma flock_but_slot_base:
  "flock_but X s \<Longrightarrow> get_slot s i = Some sl \<Longrightarrow> slot_base (next_id s) (next_action_stamp s) i sl"
  using flock_butD(1) by (auto simp: slot_fit_def)

lemma flock_but_fresh: "flock_but X s \<Longrightarrow> next_id s \<le> i \<Longrightarrow> get_slot s i = None"
  by (rule ccontr) (auto dest!: flock_but_slot_base simp: slot_base_def)

lemma slot_ok_resting:
  "slot_ok n st i sl \<Longrightarrow> \<not> sl_ctl sl \<Longrightarrow> at_rest sl \<and> resting_status sl \<and> e_reload (sl_entry sl) = RNone"
  by (auto simp: slot_ok_def in_service_def)

lemma slot_ok_running: "slot_ok n st i sl \<Longrightarrow> sl_ctl sl \<Longrightarrow> in_service sl"
  by (auto simp: slot_ok_def at_rest_def)

text \<open>
  An operation that touches at most the slot \<open>i\<close> (and the trace, the sockets and the
  baselines): the frame every per-sheep operation is proved to have.
\<close>

definition alike :: "SheepSlot \<Rightarrow> SheepSlot \<Rightarrow> bool" where
  "alike sl sl' \<longleftrightarrow> slot_name sl' = slot_name sl \<and> wears_drainee sl' = wears_drainee sl"

lemma alike_refl [simp]: "alike sl sl"
  by (simp add: alike_def)

lemma alike_trans: "alike sl sl' \<Longrightarrow> alike sl' sl'' \<Longrightarrow> alike sl sl''"
  by (simp add: alike_def)

lemma alike_entry:
  "e_spec (sl_entry sl') = e_spec (sl_entry sl) \<Longrightarrow> e_reload (sl_entry sl') = e_reload (sl_entry sl) \<Longrightarrow>
    alike sl sl'"
  by (simp add: alike_def wears_drainee_def)

definition touch :: "nat \<Rightarrow> actor \<Rightarrow> actor \<Rightarrow> bool" where
  "touch i s s' \<longleftrightarrow> (\<forall>k. k \<noteq> i \<longrightarrow> get_slot s' k = get_slot s k) \<and>
     (\<forall>sl'. get_slot s' i = Some sl' \<longrightarrow> (\<exists>sl. get_slot s i = Some sl \<and> alike sl sl')) \<and>
     (keys_ok s \<longrightarrow> keys_ok s') \<and>
     pending_replies s' = pending_replies s \<and> shutting_down s' = shutting_down s \<and>
     next_id s' = next_id s \<and> next_action_stamp s' = next_action_stamp s \<and>
     reloads s' = reloads s \<and> disabled s' = disabled s \<and> smits s' = smits s \<and>
     (\<forall>k. k \<noteq> i \<longrightarrow> spawns_of k (out s') = spawns_of k (out s)) \<and> prefix (out s) (out s')"

lemma touch_refl [simp]: "touch i s s"
  by (simp add: touch_def)

lemma touch_trans: "touch i s s' \<Longrightarrow> touch i s' s'' \<Longrightarrow> touch i s s''"
  by (simp add: touch_def) (blast intro: alike_trans prefix_order.trans)

lemma touch_upd_slot:
  "(\<And>sl. get_slot s i = Some sl \<Longrightarrow> alike sl (f sl)) \<Longrightarrow> touch i s (upd_slot i f s)"
  by (auto simp: touch_def)

lemma touch_simps [simp]:
  "touch i s (del_slot i s)" "touch i s (panic s)"
  "touch i s (emit ev info m s)" "touch i s (disarm_extras k nm s)" "touch i s (arm_extras k s)"
  "touch i s (schedule_restart k ep d s)" "touch i s (send_reply r oc s)"
  "quiet e \<Longrightarrow> touch i s (effect e s)" "touch i s (effect (Spawned i pid) s)"
  by (simp_all add: touch_def)

lemma touch_slot:
  assumes "touch i s s'" "get_slot s' k = Some sl'"
  obtains sl where "get_slot s k = Some sl" "alike sl sl'"
  using assms by (cases "k = i") (auto simp: touch_def)

lemma touch_job_ok:
  assumes "touch i s s'" "job_ok s nm job"
  shows "job_ok s' nm job"
proof -
  have n: "next_id s' = next_id s" using assms(1) by (simp add: touch_def)
  have "owned s' nm k" if "owned s nm k" for k
    unfolding owned_def n using that touch_slot[OF assms(1)] by (metis owned_def alike_def)
  moreover have "wears_drainee sl'" if "\<forall>sl. get_slot s k = Some sl \<longrightarrow> wears_drainee sl" "get_slot s' k = Some sl'" for k sl'
    using that touch_slot[OF assms(1) that(2)] by (metis alike_def)
  moreover have "\<not> wears_drainee sl'" if "\<forall>sl. get_slot s k = Some sl \<longrightarrow> \<not> wears_drainee sl" "get_slot s' k = Some sl'" for k sl'
    using that touch_slot[OF assms(1) that(2)] by (metis alike_def)
  ultimately show ?thesis using assms(2) unfolding job_ok_def by blast
qed

lemma touch_jobs_ok:
  assumes "touch i s s'" "jobs_ok s"
  shows "jobs_ok s'"
proof -
  have "get_job s' = get_job s" using assms(1) by (intro get_job_cong) (simp add: touch_def)
  then show ?thesis using assms(2) touch_job_ok[OF assms(1)] by (simp add: jobs_ok_def)
qed

text \<open>Once the slot under treatment is put right, or gone, so is the flock.\<close>

lemma touch_flock_but:
  assumes "flock_but X s" "touch i s s'" "X - {i} \<subseteq> Y" "Y - {i} \<subseteq> X"
    and "\<And>sl. get_slot s' i = Some sl \<Longrightarrow> slot_fit Y (next_id s) (next_action_stamp s) i sl"
  shows "flock_but Y s'"
proof -
  have "slot_fit Y (next_id s) (next_action_stamp s) k sl" if "get_slot s' k = Some sl" for k sl
  proof (cases "k = i")
    case False
    then have "slot_fit X (next_id s) (next_action_stamp s) k sl" "k \<in> X \<longleftrightarrow> k \<in> Y"
      using that assms(1-4) flock_butD(1) by (auto simp: touch_def)
    then show ?thesis by (simp add: slot_fit_def)
  qed (use that assms(5) in simp)
  moreover have "keys_ok s'" using assms(1,2) by (auto simp: flock_but_def touch_def)
  moreover have "jobs_ok s'" using touch_jobs_ok[OF assms(2)] flock_butD(3)[OF assms(1)] .
  ultimately show ?thesis using assms(2) by (simp add: flock_but_def touch_def)
qed

lemma touch_pend_ok:
  assumes "pend_ok E s" "touch i s s'" "claimed s i \<Longrightarrow> i \<in> E' \<or> claimed s' i" "E \<subseteq> E'"
  shows "pend_ok E' s'"
proof -
  have step: "claimed s k \<Longrightarrow> k \<in> E' \<or> claimed s' k" for k
    using assms(2,3) by (cases "k = i") (auto simp: touch_def claimed_def)
  have pr: "pending_replies s' = pending_replies s" using assms(2) by (simp add: touch_def)
  show ?thesis using assms(1,4) step unfolding pend_ok_def pr by blast
qed

lemma touch_balance: "touch i s s' \<Longrightarrow> k \<noteq> i \<Longrightarrow> balance k s' = balance k s"
  by (simp add: balance_def touch_def running_def)

subsection \<open>Answering deferred replies\<close>

text \<open>\<open>resolve_pending\<close> drops \<open>i\<close> from every deferred reply and answers those it empties.\<close>

definition without_id :: "nat \<Rightarrow> ProcessInfo \<Rightarrow> PendingReply \<Rightarrow> PendingReply" where
  "without_id i info p =
     (if i \<in> set (pr_remaining p)
      then p\<lparr> pr_remaining := removeAll i (pr_remaining p), pr_results := pr_results p @ [info] \<rparr>
      else p)"

lemma resolve_loop_spec:
  "snd (resolve_loop i info ps s) = s' \<Longrightarrow>
     pending_replies s' = pending_replies s @
       filter (\<lambda>p. pr_remaining p \<noteq> []) (map (without_id i info) ps) \<and>
     s'\<lparr> pending_replies := [], out := [] \<rparr> = s\<lparr> pending_replies := [], out := [] \<rparr> \<and>
     (\<forall>k. spawns_of k (out s') = spawns_of k (out s))"
proof (induction ps arbitrary: s)
  case (Cons p ps)
  let ?p = "without_id i info p"
  show ?case
  proof (cases "pr_remaining ?p = []")
    case True
    let ?s = "send_reply (pr_reply ?p) (Inr (sort_flock (pr_results ?p))) s"
    have "s' = snd (resolve_loop i info ps ?s)"
      using Cons.prems True by (simp add: without_id_def Let_def split_beta)
    moreover have "?s\<lparr> pending_replies := [], out := [] \<rparr> = s\<lparr> pending_replies := [], out := [] \<rparr>"
      by (cases "pr_reply ?p") (simp_all add: effect_def)
    ultimately show ?thesis using Cons.IH[of ?s] True by simp
  next
    case False
    let ?s = "s\<lparr> pending_replies := pending_replies s @ [?p] \<rparr>"
    have "s' = snd (resolve_loop i info ps ?s)"
      using Cons.prems False by (simp add: without_id_def Let_def)
    then show ?thesis using Cons.IH[of ?s] False by simp
  qed
qed simp

lemma resolve_pending_spec:
  assumes "resolve_pending i info s = (b, s')"
  shows "pending_replies s' = filter (\<lambda>p. pr_remaining p \<noteq> []) (map (without_id i info) (pending_replies s))"
    and "s'\<lparr> pending_replies := [], out := [] \<rparr> = s\<lparr> pending_replies := [], out := [] \<rparr>"
    and "spawns_of k (out s') = spawns_of k (out s)"
  using resolve_loop_spec[of i info "pending_replies s" "s\<lparr> pending_replies := [] \<rparr>" s'] assms
  by (simp_all add: resolve_pending_def)

text \<open>Its answers, in the order the replies were deferred, and whether one ends the run loop.\<close>

fun answer_of :: "PendingReply \<Rightarrow> effect" where
  "answer_of p = (case pr_reply p of
     RInfo c \<Rightarrow> Reply c (Infos (Inr (sort_flock (pr_results p))))
   | RIds c \<Rightarrow> Reply c (Ids (Inr (map i_id (sort_flock (pr_results p)))))
   | RShutdown c \<Rightarrow> Reply c Done)"

lemma resolve_loop_out:
  "out (snd (resolve_loop i info ps s)) = out s @
     map answer_of (filter (\<lambda>p. pr_remaining p = []) (map (without_id i info) ps)) \<and>
   fst (resolve_loop i info ps s) =
     list_ex (\<lambda>p. is_shutdown (pr_reply p) \<and> pr_remaining (without_id i info p) = []) ps"
proof (induction ps arbitrary: s)
  case (Cons p ps)
  have "out (send_reply (pr_reply q) (Inr (sort_flock (pr_results q))) s) = out s @ [answer_of q]" for q s
    by (cases "pr_reply q") (simp_all add: effect_def)
  then show ?case using Cons by (simp add: without_id_def Let_def split_beta)
qed simp

lemma resolve_pending_out:
  "out (snd (resolve_pending i info s)) = out s @
     map answer_of (filter (\<lambda>p. pr_remaining p = []) (map (without_id i info) (pending_replies s)))"
  using resolve_loop_out by (simp add: resolve_pending_def)

lemma prefix_resolve [simp]: "prefix es (out s) \<Longrightarrow> prefix es (out (snd (resolve_pending i info s)))"
  by (simp add: resolve_pending_out)

lemma resolve_pending_stop:
  "fst (resolve_pending i info s) =
     list_ex (\<lambda>p. is_shutdown (pr_reply p) \<and> pr_remaining (without_id i info p) = []) (pending_replies s)"
  using resolve_loop_out by (simp add: resolve_pending_def)

lemma resolve_pending_frame:
  assumes "resolve_pending i info s = (b, s')"
  shows "sheep s' = sheep s" "next_id s' = next_id s" "next_deadline s' = next_deadline s"
    "next_action_stamp s' = next_action_stamp s" "shutting_down s' = shutting_down s"
    "smits s' = smits s" "reloads s' = reloads s" "disabled s' = disabled s"
    "panicked s' = panicked s" "debug_failed s' = debug_failed s"
proof -
  note resolve_pending_spec(2)[OF assms]
  then show "sheep s' = sheep s" "next_id s' = next_id s" "next_deadline s' = next_deadline s"
    "next_action_stamp s' = next_action_stamp s" "shutting_down s' = shutting_down s"
    "smits s' = smits s" "reloads s' = reloads s" "disabled s' = disabled s"
    "panicked s' = panicked s" "debug_failed s' = debug_failed s"
    by (cases s; cases s'; simp)+
qed

lemma pend_ok_resolve:
  assumes "pend_ok (insert i E) s" "resolve_pending i info s = (b, s')"
  shows "pend_ok E s'"
proof -
  have "claimed s' k = claimed s k" for k
    using resolve_pending_frame(1)[OF assms(2)] by (simp add: claimed_def get_slot_def)
  moreover have "i \<notin> set (pr_remaining (without_id i info p))"
    "set (pr_remaining (without_id i info p)) \<subseteq> set (pr_remaining p)" for p
    by (auto simp: without_id_def)
  ultimately show ?thesis
    using assms(1) unfolding pend_ok_def resolve_pending_spec(1)[OF assms(2)] by fastforce
qed

lemma flock_resolve:
  assumes "resolve_pending i info s = (b, s')"
  shows "flock_but X s' = flock_but X s" and "balance k s' = balance k s" and "get_slot s' = get_slot s"
  using resolve_pending_frame[OF assms] resolve_pending_spec(3)[OF assms]
  by (simp_all add: flock_but_def keys_ok_def get_slot_def balance_def running_def fun_eq_iff
      jobs_ok_def job_ok_def owned_def get_job_def)

end
