(* ===== verification/Lifecycle.thy ===== *)
theory Lifecycle
  imports Flock
begin

text \<open>
  Respawning a sheep and arming the command that asked for it
  (\<open>supervisor/actor_lifecycle.rs\<close>), with what it needs of the disabled mark
  (\<open>actor_disable.rs\<close>), the listening sockets (\<open>actor_listen.rs\<close>) and spawn assembly
  (\<open>actor_spawn.rs\<close>).
\<close>

subsection \<open>The disabled mark and selection\<close>

datatype Sweep = SwEnabled | SwDisabled | SwAny

fun sweep_reaches :: "Sweep \<Rightarrow> bool \<Rightarrow> bool" where
  "sweep_reaches SwEnabled dis = (\<not> dis)"
| "sweep_reaches SwDisabled dis = dis"
| "sweep_reaches SwAny dis = True"

definition is_disabled_id :: "actor \<Rightarrow> nat \<Rightarrow> bool" where
  "is_disabled_id s i =
     (case get_slot s i of None \<Rightarrow> False | Some sl \<Rightarrow> slot_name sl \<in> set (disabled s))"

definition refuse_disabled :: "actor \<Rightarrow> string list \<Rightarrow> SupervisorError + unit" where
  "refuse_disabled s names =
     (case find (\<lambda>nm. nm \<in> set (disabled s)) names of
        Some nm \<Rightarrow> Inl (Disabled nm)
      | None \<Rightarrow> Inr ())"

definition slot_selected :: "ProcessSelector \<Rightarrow> nat \<times> SheepSlot \<Rightarrow> bool" where
  "slot_selected sel kv = (case kv of (i, sl) \<Rightarrow>
     selector_matches sel (slot_name sl) (word_of_nat i) (app_fold (slot_app sl))
       (Some (word_of_nat (e_instance (sl_entry sl)))))"

definition reached_ids :: "actor \<Rightarrow> ProcessSelector \<Rightarrow> Sweep \<Rightarrow> nat list" where
  "reached_ids s sel sweep =
     sort (map fst (filter (slot_selected sel)
       (filter (\<lambda>(i, sl). is_exact sel \<or>
           (e_dog (sl_entry sl) = None \<and> sweep_reaches sweep (is_disabled_id s i)))
         (sheep s))))"

definition matching_ids :: "actor \<Rightarrow> ProcessSelector \<Rightarrow> nat list" where
  "matching_ids s sel = reached_ids s sel SwEnabled"

definition ids_of_name :: "actor \<Rightarrow> string \<Rightarrow> nat list" where
  "ids_of_name s nm =
     map snd (sort (map (\<lambda>(i, sl). (e_instance (sl_entry sl), i))
       (filter (\<lambda>(i, sl). slot_name sl = nm) (sheep s))))"

subsection \<open>Listening sockets\<close>

definition listen_for :: "world \<Rightarrow> AppConfig \<Rightarrow> actor \<Rightarrow> (AssembleError + unit) \<times> actor" where
  "listen_for w config s =
     (if app_listen config = []
      then (Inr (), s\<lparr> listeners := AList.delete (app_name config) (listeners s) \<rparr>)
      else
        (let held = map_of (listeners s) (app_name config) in
         if (case held of Some t \<Rightarrow> w_bound_from w t (app_listen config) | None \<Rightarrow> False)
         then (Inr (), s)
         else case w_bind w held (app_listen config) of
                Some err \<Rightarrow> (Inl err, s)
              | None \<Rightarrow>
                  (Inr (), s\<lparr> listeners :=
                     AList.update (app_name config) (app_listen config) (listeners s) \<rparr>)))"

definition restore_listeners :: "string \<Rightarrow> actor \<Rightarrow> actor" where
  "restore_listeners nm s =
     (case map_of (listeners_before s) nm of
        Some (Some before) \<Rightarrow>
          s\<lparr> listeners_before := AList.delete nm (listeners_before s),
             listeners := AList.update nm before (listeners s) \<rparr>
      | Some None \<Rightarrow>
          s\<lparr> listeners_before := AList.delete nm (listeners_before s),
             listeners := AList.delete nm (listeners s) \<rparr>
      | None \<Rightarrow> s)"

definition wanted_status :: "ProcStatus \<Rightarrow> bool" where
  "wanted_status st \<longleftrightarrow> st \<in> {Starting, Online, Stopping, WaitingRestart}"

definition prune_listeners :: "actor \<Rightarrow> actor" where
  "prune_listeners s =
     (if listeners s = [] \<and> listeners_before s = [] then s
      else
        (let wanted = map (\<lambda>(i, sl). slot_name sl) (filter (\<lambda>(i, sl). wanted_status (slot_status sl)) (sheep s))
         in s\<lparr> listeners := filter (\<lambda>(nm, _). nm \<in> set wanted) (listeners s),
               listeners_before :=
                 filter (\<lambda>(nm, _). get_job s nm \<noteq> None) (listeners_before s) \<rparr>))"

subsection \<open>Assembly and identity\<close>

definition assemble_for_spawn ::
  "world \<Rightarrow> actor \<Rightarrow> AppConfig \<Rightarrow> nat \<Rightarrow> Credentials option \<Rightarrow> AssembleError + SpawnSpec" where
  "assemble_for_spawn w s app inst credentials =
     and_then (w_assemble w app inst credentials) (\<lambda>spec.
       if map_of (app_dogs app) SANDBOX_DOG = None then Inr spec
       else case map_of (dog_binaries s) SANDBOX_DOG of
              Some dog \<Rightarrow>
                if SANDBOX_DOG \<notin> set (disabled s) then Inr (through_dog spec dog (sp_home (w_paths w)) (app_name app))
                else Inl (DogMissing SANDBOX_DOG)
            | None \<Rightarrow> Inl (DogMissing SANDBOX_DOG))"

text \<open>The setting that needs a cgroup, as an operator writes it, if one does.\<close>

definition cgroup_setting :: "AppConfig \<Rightarrow> string option" where
  "cgroup_setting config =
     (if app_memory_enforce config = Kernel then Some ''memory_enforce = \"kernel\"''
      else if app_max_cpu_cores config \<noteq> None then Some ''max_cpu_cores''
      else if app_max_tasks config \<noteq> None then Some ''max_tasks''
      else None)"

definition cgroup_placement ::
  "world \<Rightarrow> AppConfig \<Rightarrow> nat \<Rightarrow> actor \<Rightarrow> (AssembleError + unit) \<times> actor" where
  "cgroup_placement w config i s =
     (case cgroup_setting config of
        None \<Rightarrow> (Inr (), s)
      | Some setting \<Rightarrow>
          if \<not> cgroup_base s
          then (Inl (CgroupUnavailable setting
                  (case cgroup_unavailable s of
                     Some reason \<Rightarrow> reason | None \<Rightarrow> ''this host has no cgroup v2'')), s)
          else if app_memory_enforce config = Kernel
          then (Inr (), s\<lparr> oom_baselines := AList.update i (w_oom_kills w i) (oom_baselines s) \<rparr>)
          else (Inr (), s))"

text \<open>The chain every spawn runs: assemble, place in a cgroup, bind the sockets.\<close>

definition assembled ::
  "world \<Rightarrow> AppConfig \<Rightarrow> nat \<Rightarrow> nat \<Rightarrow> Credentials option \<Rightarrow> actor \<Rightarrow>
   (AssembleError + SpawnSpec) \<times> actor" where
  "assembled w app i inst credentials s =
     (case assemble_for_spawn w s app inst credentials of
        Inl err \<Rightarrow> (Inl err, s)
      | Inr spec \<Rightarrow>
          (case cgroup_placement w app i s of
             (Inl err, s) \<Rightarrow> (Inl err, s)
           | (Inr _, s) \<Rightarrow>
               (case listen_for w app s of
                  (Inl err, s) \<Rightarrow> (Inl err, s)
                | (Inr _, s) \<Rightarrow> (Inr spec, s))))"

definition intended_spec :: "actor \<Rightarrow> nat \<Rightarrow> AppConfig option" where
  "intended_spec s i =
     map_option (\<lambda>sl. case e_pending (sl_entry sl) of Some p \<Rightarrow> p | None \<Rightarrow> slot_app sl)
       (get_slot s i)"

definition intended_credentials ::
  "world \<Rightarrow> SheepSlot \<Rightarrow> string + Credentials option" where
  "intended_credentials w sl =
     (case e_credentials (sl_entry sl) of
        Resolved credentials \<Rightarrow>
          if \<not> e_pending_reidentifies (sl_entry sl) then Inr credentials
          else w_resolve w (case e_pending (sl_entry sl) of Some p \<Rightarrow> p | None \<Rightarrow> slot_app sl)
      | Unresolved \<Rightarrow>
          w_resolve w (case e_pending (sl_entry sl) of Some p \<Rightarrow> p | None \<Rightarrow> slot_app sl))"

definition credentials_for_spawn ::
  "world \<Rightarrow> nat \<Rightarrow> actor \<Rightarrow> (string + Credentials option) \<times> actor" where
  "credentials_for_spawn w i s =
     (case get_slot s i of
        None \<Rightarrow> (Inl [], panic s)
      | Some sl \<Rightarrow>
          (case e_credentials (sl_entry sl) of
             Resolved credentials \<Rightarrow> (Inr credentials, s)
           | Unresolved \<Rightarrow>
               (case w_resolve w (slot_app sl) of
                  Inl err \<Rightarrow> (Inl err, s)
                | Inr credentials \<Rightarrow>
                    (Inr credentials,
                     upd_slot i (upd_entry (\<lambda>e. e\<lparr> e_credentials := Resolved credentials \<rparr>)) s))))"

definition promote_entry :: "AppConfig \<Rightarrow> ProcessEntry \<Rightarrow> ProcessEntry" where
  "promote_entry parked e =
     e\<lparr> e_pending := None,
        e_credentials := (if e_pending_reidentifies e then Unresolved else e_credentials e),
        e_pending_reidentifies := False,
        e_spec := parked \<rparr>"

definition promote_pending :: "nat \<Rightarrow> actor \<Rightarrow> actor" where
  "promote_pending i s =
     (case get_slot s i of
        None \<Rightarrow> s
      | Some sl \<Rightarrow>
          (case e_pending (sl_entry sl) of
             None \<Rightarrow> s
           | Some parked \<Rightarrow> upd_slot i (upd_entry (promote_entry parked)) s))"

subsection \<open>Respawning\<close>

definition respawn_failed :: "world \<Rightarrow> nat \<Rightarrow> bool \<Rightarrow> string \<Rightarrow> actor \<Rightarrow> ProcessInfo \<times> actor" where
  "respawn_failed w i manually reason s =
     (let s = expect_slot i s;
          s = upd_slot i (\<lambda>sl. upd_entry
                (\<lambda>e. e\<lparr> e_spawn_failure := Some (app_name (e_spec e) @ '': '' @ reason) \<rparr>)
                (clear_lifecycle Errored sl)) s;
          info = info_of w i s;
          s = emit EvErrored info manually s;
          s = disarm_extras i (i_name info) s
      in (info, s))"

definition refuse_spawn ::
  "world \<Rightarrow> nat \<Rightarrow> bool \<Rightarrow> AssembleError \<Rightarrow> actor \<Rightarrow> ProcessInfo \<times> actor" where
  "refuse_spawn w i manually err s =
     (if \<not> is_retriable err then respawn_failed w i manually (assemble_error_display err) s
      else case get_slot s i of
        None \<Rightarrow> (no_info, panic s)
      | Some sl \<Rightarrow>
          (let budget = note_failed_start (e_budget (sl_entry sl));
               s = upd_slot i (upd_entry (\<lambda>e. e\<lparr> e_budget := budget \<rparr>)) s;
               delay = restart_delay (slot_app sl) (unstable_count budget)
           in if exhausted budget (app_max_restarts (slot_app sl))
              then respawn_failed w i manually (assemble_error_display err) s
              else
                (let epoch = sl_epoch sl;
                     s = upd_slot i (\<lambda>sl. (clear_lifecycle WaitingRestart sl)\<lparr> sl_restart_due :=
                           w_due w (case delay of None \<Rightarrow> 0 | Some d \<Rightarrow> d) \<rparr>) s;
                     info = info_of w i s;
                     s = emit EvExit info manually s;
                     s = schedule_restart i epoch delay s
                 in (info, s))))"

text \<open>The \<open>Stop\<close> half of \<open>apply_immediate\<close>, which a dropped respawn also takes.\<close>

definition apply_stop :: "world \<Rightarrow> nat \<Rightarrow> bool \<Rightarrow> actor \<Rightarrow> ProcessInfo option \<times> actor" where
  "apply_stop w i manually s =
     (case get_slot s i of
        None \<Rightarrow> (None, s)
      | Some sl \<Rightarrow>
          if slot_status sl = WaitingRestart \<or> slot_status sl = Errored then
            (let s = upd_slot i (upd_entry (\<lambda>e. e\<lparr> e_status := Stopped \<rparr>)) s;
                 info = info_of w i s;
                 s = emit EvStop info manually s;
                 s = disarm_extras i (i_name info) s
             in (Some info, s))
          else (Some (info_of w i s), s))"

definition gated_app :: "AppConfig \<Rightarrow> bool" where
  "gated_app app \<longleftrightarrow> of_normalized app \<noteq> Heuristic"

text \<open>The slot a successful respawn leaves.\<close>

definition respawned_slot :: "world \<Rightarrow> nat \<Rightarrow> SpawnSpec \<Rightarrow> bool \<Rightarrow> bool \<Rightarrow> SheepSlot \<Rightarrow> SheepSlot" where
  "respawned_slot w pid spec gated pty sl =
     sl\<lparr> sl_entry := (sl_entry sl)\<lparr> e_status := (if gated then Starting else Online),
           e_pid := Some pid, e_spawn_failure := None, e_started_at := Some (w_now w),
           e_restarts := e_restarts (sl_entry sl) + 1,
           e_out_file := ss_out_file spec, e_err_file := ss_err_file spec \<rparr>,
         sl_ready_failed := False, sl_ctl := True, sl_log_ctl := True, sl_to_child := True,
         sl_signals := True, sl_to_stdin := True, sl_pty := pty,
         sl_epoch := sl_epoch sl + 1, sl_ready_tx := gated \<rparr>"

definition respawn_spawned ::
  "world \<Rightarrow> nat \<Rightarrow> bool \<Rightarrow> AppConfig \<Rightarrow> SpawnSpec \<Rightarrow> nat \<Rightarrow> nat \<Rightarrow> actor \<Rightarrow> ProcessInfo \<times> actor" where
  "respawn_spawned w i manually app spec next_epoch pid s =
     (let gated = gated_app app;
          s = effect (Spawned i pid) s;
          s = (if gated
               then effect (ArmReadiness i next_epoch manually (of_normalized app)
                      (as_duration (app_listen_timeout app))) s
               else s);
          s = expect_slot i s;
          s = upd_slot i (respawned_slot w pid spec gated (w_has_pty w i)) s;
          info = info_of w i s;
          s = emit EvRestart info manually s;
          s = (if gated then s else went_online i info manually s)
      in (info, s))"

definition respawn :: "world \<Rightarrow> nat \<Rightarrow> bool \<Rightarrow> actor \<Rightarrow> ProcessInfo \<times> actor" where
  "respawn w i manually s =
     (if is_disabled_id s i then
        (case get_slot s i of
           None \<Rightarrow> (no_info, panic s)
         | Some sl \<Rightarrow>
             if slot_status sl = WaitingRestart then
               (case apply_stop w i False s of
                  (Some info, s) \<Rightarrow> (info, s)
                | (None, s) \<Rightarrow> (info_of w i s, expect_slot i s))
             else (info_of w i s, s))
      else
        (let s = promote_pending i s in
         case credentials_for_spawn w i s of
           (Inl err, s) \<Rightarrow> respawn_failed w i manually err s
         | (Inr credentials, s) \<Rightarrow>
             (case get_slot s i of
                None \<Rightarrow> (no_info, panic s)
              | Some sl \<Rightarrow>
                  (let app = slot_app sl;
                       next_epoch = sl_epoch sl + 1
                   in case assembled w app i (e_instance (sl_entry sl)) credentials s of
                        (Inl err, s) \<Rightarrow> refuse_spawn w i manually err s
                      | (Inr spec, s) \<Rightarrow>
                          (case w_spawn w i spec of
                             Inr pid \<Rightarrow> respawn_spawned w i manually app spec next_epoch pid s
                           | Inl error \<Rightarrow> respawn_failed w i manually error s)))))"

subsection \<open>Manual commands\<close>

definition claim_manual :: "nat \<Rightarrow> PendingManual \<Rightarrow> LadderCap \<Rightarrow> actor \<Rightarrow> actor" where
  "claim_manual i man cap s =
     (case get_slot s i of
        None \<Rightarrow> s
      | Some sl \<Rightarrow>
          (case map_option m_origin (sl_manual sl) of
             None \<Rightarrow>
               (let s = upd_slot i (\<lambda>sl. sl\<lparr> sl_manual := Some man \<rparr>) s
                in if sl_ctl sl then effect (Kill i (ladder_cap_of cap (slot_app sl))) s else s)
           | Some Automatic \<Rightarrow>
               if m_origin man = Operator
               then upd_slot i (\<lambda>sl. sl\<lparr> sl_manual := Some man \<rparr>) s
               else s
           | Some Operator \<Rightarrow> s))"

definition apply_immediate ::
  "world \<Rightarrow> nat \<Rightarrow> ManualKind \<Rightarrow> CommandOrigin \<Rightarrow> actor \<Rightarrow> ProcessInfo option \<times> actor" where
  "apply_immediate w i kind origin s =
     (let manually = (origin = Operator) in
      case kind of
        MStop \<Rightarrow> apply_stop w i manually s
      | MDelete \<Rightarrow>
          (case get_slot s i of
             None \<Rightarrow> (None, s)
           | Some sl \<Rightarrow>
               (let info = info_of w i s;
                    s = del_slot i s;
                    s = emit EvDelete info manually s;
                    s = disarm_extras i (i_name info) s
                in (Some info, s)))
      | MRestart \<Rightarrow>
          (case get_slot s i of
             None \<Rightarrow> (None, s)
           | Some sl \<Rightarrow>
               (let s = upd_slot i (upd_entry (\<lambda>e. e\<lparr> e_budget := budget_reset (e_budget e) \<rparr>)) s;
                    (info, s) = respawn w i manually s
                in (Some info, s))))"

text \<open>The app whose swap \<open>id\<close> is half of while that swap has not committed.\<close>

definition uncommitted_swap_of :: "actor \<Rightarrow> nat \<Rightarrow> string option" where
  "uncommitted_swap_of s i =
     map_option fst (find (\<lambda>(nm, job). sw_phase (j_swap job) = AwaitReady \<and>
       (sw_old_id (j_swap job) = i \<or> sw_new_id (j_swap job) = Some i)) (reloads s))"

definition in_an_uncommitted_swap :: "actor \<Rightarrow> nat \<Rightarrow> bool" where
  "in_an_uncommitted_swap s i \<longleftrightarrow> uncommitted_swap_of s i \<noteq> None"

fun manual_loop ::
  "world \<Rightarrow> ManualKind \<Rightarrow> CommandOrigin \<Rightarrow> nat list \<Rightarrow> nat list \<Rightarrow> ProcessInfo list \<Rightarrow> actor \<Rightarrow>
   nat list \<times> ProcessInfo list \<times> actor" where
  "manual_loop w kind origin [] remaining results s = (remaining, results, s)"
| "manual_loop w kind origin (i # ids) remaining results s =
     (if origin = Automatic \<and> in_an_uncommitted_swap s i
      then manual_loop w kind origin ids remaining results s
      else if (case get_slot s i of None \<Rightarrow> False | Some sl \<Rightarrow> sl_ctl sl) then
        (let s = claim_manual i \<lparr> m_kind = kind, m_origin = origin \<rparr> StopCap s;
             s = (if kind = MDelete then upd_slot i (\<lambda>sl. sl\<lparr> sl_pending_delete := True \<rparr>) s else s)
         in manual_loop w kind origin ids (List.insert i remaining) results s)
      else case apply_immediate w i kind origin s of
             (Some info, s) \<Rightarrow> manual_loop w kind origin ids remaining (results @ [info]) s
           | (None, s) \<Rightarrow> manual_loop w kind origin ids remaining results s)"

definition begin_manual_ids ::
  "world \<Rightarrow> nat list \<Rightarrow> ManualKind \<Rightarrow> CommandOrigin \<Rightarrow> ReplyKind \<Rightarrow> actor \<Rightarrow> actor" where
  "begin_manual_ids w matched kind origin reply s =
     (case manual_loop w kind origin matched [] [] s of
        (remaining, results, s) \<Rightarrow>
          if remaining = [] then send_reply reply (Inr (sort_flock results)) s
          else s\<lparr> pending_replies := pending_replies s @
                    [\<lparr> pr_remaining = remaining, pr_results = results, pr_reply = reply \<rparr>] \<rparr>)"

definition built_in_dog_name :: "actor \<Rightarrow> nat \<Rightarrow> string option" where
  "built_in_dog_name s i =
     (case get_slot s i of
        None \<Rightarrow> None
      | Some sl \<Rightarrow> if e_dog (sl_entry sl) = Some BuiltIn then Some (slot_name sl) else None)"

definition built_in_dog_refusal :: "string \<Rightarrow> string" where
  "built_in_dog_refusal nm = nm @ '' is built in: `shep disable '' @ nm @ ''`''"

definition begin_manual ::
  "world \<Rightarrow> ProcessSelector \<Rightarrow> ManualKind \<Rightarrow> CommandOrigin \<Rightarrow> ReplyKind \<Rightarrow> actor \<Rightarrow> actor" where
  "begin_manual w sel kind origin reply s =
     (let matched = matching_ids s sel in
      if matched = [] then send_reply reply (Inl NotFound) s
      else case (if kind = MDelete then List.map_filter (built_in_dog_name s) matched else []) of
             nm # _ \<Rightarrow> send_reply reply (Inl (IsADog (built_in_dog_refusal nm))) s
           | [] \<Rightarrow> begin_manual_ids w matched kind origin reply s)"

subsection \<open>Per-sheep operations keep the flock in order\<close>

lemmas slot_parts = slot_base_def parked_ok_def alike_def wears_drainee_def

definition rest_slot :: "nat \<Rightarrow> actor \<Rightarrow> bool" where
  "rest_slot i s \<longleftrightarrow> (\<exists>sl. get_slot s i = Some sl \<and>
     slot_base (next_id s) (next_action_stamp s) i sl \<and> at_rest sl \<and> e_reload (sl_entry sl) = RNone)"

text \<open>
  A step on the slot \<open>i\<close> that has nothing running in it: it leaves it so (\<open>prepares\<close>),
  or leaves a slot in order, running or not (\<open>settles\<close>). Neither fails an \<open>expect\<close>, and
  neither starts a process it does not register as running.
\<close>

definition prepares :: "nat \<Rightarrow> actor \<Rightarrow> actor \<Rightarrow> bool" where
  "prepares i s s' \<longleftrightarrow> touch i s s' \<and> rest_slot i s' \<and> balance i s' = balance i s \<and>
     panicked s' = panicked s \<and> debug_failed s' = debug_failed s"

definition settles :: "nat \<Rightarrow> actor \<Rightarrow> actor \<Rightarrow> bool" where
  "settles i s s' \<longleftrightarrow> touch i s s' \<and>
     (\<exists>sl. get_slot s' i = Some sl \<and> slot_ok (next_id s) (next_action_stamp s) i sl) \<and>
     balance i s' = balance i s \<and> panicked s' = panicked s \<and> debug_failed s' = debug_failed s"

lemma prepares_refl: "rest_slot i s \<Longrightarrow> prepares i s s"
  by (simp add: prepares_def)

lemma prepares_settles: "prepares i s s' \<Longrightarrow> settles i s' s'' \<Longrightarrow> settles i s s''"
  using touch_trans[of i s s' s''] by (auto simp: prepares_def settles_def touch_def)

lemma prepares_trans: "prepares i s s' \<Longrightarrow> prepares i s' s'' \<Longrightarrow> prepares i s s''"
  using touch_trans[of i s s' s''] by (auto simp: prepares_def)

lemma rest_slot_frame: "get_slot s' i = get_slot s i \<Longrightarrow> next_id s' = next_id s \<Longrightarrow>
    next_action_stamp s' = next_action_stamp s \<Longrightarrow> rest_slot i s' = rest_slot i s"
  by (simp add: rest_slot_def)

lemma listen_for_frame [simp]:
  "get_slot (snd (listen_for w c s)) = get_slot s" "next_id (snd (listen_for w c s)) = next_id s"
  "keys_ok (snd (listen_for w c s)) = keys_ok s" "out (snd (listen_for w c s)) = out s"
  "pending_replies (snd (listen_for w c s)) = pending_replies s"
  "shutting_down (snd (listen_for w c s)) = shutting_down s"
  "next_action_stamp (snd (listen_for w c s)) = next_action_stamp s"
  "next_deadline (snd (listen_for w c s)) = next_deadline s"
  "reloads (snd (listen_for w c s)) = reloads s" "disabled (snd (listen_for w c s)) = disabled s"
  "smits (snd (listen_for w c s)) = smits s" "panicked (snd (listen_for w c s)) = panicked s"
  "debug_failed (snd (listen_for w c s)) = debug_failed s"
  by (auto simp: listen_for_def Let_def split: option.splits)

lemma cgroup_placement_frame [simp]:
  "get_slot (snd (cgroup_placement w c i s)) = get_slot s"
  "next_id (snd (cgroup_placement w c i s)) = next_id s"
  "keys_ok (snd (cgroup_placement w c i s)) = keys_ok s" "out (snd (cgroup_placement w c i s)) = out s"
  "pending_replies (snd (cgroup_placement w c i s)) = pending_replies s"
  "shutting_down (snd (cgroup_placement w c i s)) = shutting_down s"
  "next_action_stamp (snd (cgroup_placement w c i s)) = next_action_stamp s"
  "next_deadline (snd (cgroup_placement w c i s)) = next_deadline s"
  "reloads (snd (cgroup_placement w c i s)) = reloads s"
  "disabled (snd (cgroup_placement w c i s)) = disabled s"
  "smits (snd (cgroup_placement w c i s)) = smits s"
  "panicked (snd (cgroup_placement w c i s)) = panicked s"
  "debug_failed (snd (cgroup_placement w c i s)) = debug_failed s"
  by (auto simp: cgroup_placement_def split: option.splits)

text \<open>Assembling a spawn touches the sockets and the baselines only.\<close>

lemma assembled_frame:
  assumes "assembled w app i inst cr s = (r, s')"
  shows "get_slot s' = get_slot s" "next_id s' = next_id s" "keys_ok s' = keys_ok s" "out s' = out s"
    "pending_replies s' = pending_replies s" "shutting_down s' = shutting_down s"
    "next_action_stamp s' = next_action_stamp s" "next_deadline s' = next_deadline s"
    "reloads s' = reloads s" "disabled s' = disabled s" "smits s' = smits s"
    "panicked s' = panicked s" "debug_failed s' = debug_failed s"
proof -
  have "s' = s \<or> s' = snd (cgroup_placement w app i s) \<or>
      s' = snd (listen_for w app (snd (cgroup_placement w app i s)))"
    using assms by (auto simp: assembled_def split: sum.splits prod.splits)
  then show "get_slot s' = get_slot s" "next_id s' = next_id s" "keys_ok s' = keys_ok s"
    "out s' = out s" "pending_replies s' = pending_replies s" "shutting_down s' = shutting_down s"
    "next_action_stamp s' = next_action_stamp s" "next_deadline s' = next_deadline s"
    "reloads s' = reloads s" "disabled s' = disabled s" "smits s' = smits s"
    "panicked s' = panicked s" "debug_failed s' = debug_failed s"
    by (elim disjE; simp)+
qed

lemma assembled_touch: "assembled w app i inst cr s = (r, s') \<Longrightarrow> touch k s s'"
  by (simp add: touch_def assembled_frame)

lemma assembled_prepares:
  "assembled w app i inst cr s = (r, s') \<Longrightarrow> rest_slot i s \<Longrightarrow> prepares i s s'"
  by (simp add: prepares_def assembled_touch assembled_frame rest_slot_def balance_def running_def)

lemma promote_pending_prepares: "rest_slot i s \<Longrightarrow> prepares i s (promote_pending i s)"
  by (auto simp: prepares_def promote_pending_def rest_slot_def balance_def running_def slot_parts
      upd_entry_def promote_entry_def at_rest_def alike_def wears_drainee_def parked_ok_def
      intro!: touch_upd_slot split: option.splits)

lemma credentials_prepares:
  "credentials_for_spawn w i s = (r, s') \<Longrightarrow> rest_slot i s \<Longrightarrow> prepares i s s'"
  by (auto simp: prepares_def credentials_for_spawn_def rest_slot_def balance_def running_def
      slot_parts upd_entry_def at_rest_def parked_ok_def intro!: touch_upd_slot alike_entry
      split: option.split_asm SpawnIdentity.split_asm sum.split_asm)

lemma respawn_failed_settles: "rest_slot i s \<Longrightarrow> settles i s (snd (respawn_failed w i m r s))"
  by (auto simp: settles_def respawn_failed_def Let_def rest_slot_def balance_def running_def
      expect_slot_def touch_def slot_ok_def slot_parts upd_entry_def clear_lifecycle_def at_rest_def
      resting_status_def)

lemma refuse_spawn_settles: "rest_slot i s \<Longrightarrow> settles i s (snd (refuse_spawn w i m err s))"
proof -
  assume rs: "rest_slot i s"
  then obtain sl where sl: "get_slot s i = Some sl" by (auto simp: rest_slot_def)
  let ?b = "note_failed_start (e_budget (sl_entry sl))"
  let ?s = "upd_slot i (upd_entry (\<lambda>e. e\<lparr> e_budget := ?b \<rparr>)) s"
  have p: "prepares i s ?s"
    using rs by (auto simp: prepares_def rest_slot_def balance_def running_def slot_parts
        upd_entry_def at_rest_def intro!: touch_upd_slot)
  then have "rest_slot i ?s" by (simp add: prepares_def)
  then have failed: "settles i s (snd (respawn_failed w i m r ?s))" for r
    using prepares_settles[OF p] respawn_failed_settles by blast
  have wait: "settles i s (schedule_restart i ep d (emit EvExit info m
      (upd_slot i (\<lambda>sl. (clear_lifecycle WaitingRestart sl)\<lparr> sl_restart_due := due \<rparr>) ?s)))" for ep d info due
    using rs by (auto simp: settles_def rest_slot_def balance_def running_def touch_def slot_ok_def
        slot_parts upd_entry_def clear_lifecycle_def at_rest_def resting_status_def)
  show ?thesis
    using rs sl failed wait respawn_failed_settles
    by (simp add: refuse_spawn_def Let_def)
qed

lemma apply_stop_settles:
  assumes "rest_slot i s" "get_slot s i = Some sl" "resting_status sl"
  shows "settles i s (snd (apply_stop w i m s))" "fst (apply_stop w i m s) \<noteq> None"
  using assms
  by (auto simp: settles_def apply_stop_def Let_def rest_slot_def balance_def running_def touch_def
      slot_ok_def slot_parts upd_entry_def at_rest_def resting_status_def)

lemma respawn_spawned_settles:
  "rest_slot i s \<Longrightarrow> settles i s (snd (respawn_spawned w i m app spec ep pid s))"
  by (auto simp: settles_def respawn_spawned_def Let_def rest_slot_def balance_def running_def
      expect_slot_def touch_def slot_ok_def slot_parts respawned_slot_def at_rest_def in_service_def
      went_online_def)

lemma rest_slotD: "rest_slot i s \<Longrightarrow> \<exists>sl. get_slot s i = Some sl"
  by (auto simp: rest_slot_def)

text \<open>A respawn into an empty slot settles it, whatever the collaborators answer.\<close>

lemma respawn_settles:
  assumes "rest_slot i s" "is_disabled_id s i \<Longrightarrow> \<forall>sl. get_slot s i = Some sl \<longrightarrow> resting_status sl"
  shows "settles i s (snd (respawn w i m s))"
proof (cases "is_disabled_id s i")
  case True
  then obtain sl where sl: "get_slot s i = Some sl" "resting_status sl"
    using assms rest_slotD by blast
  have "settles i s s"
    using sl assms(1) by (auto simp: settles_def rest_slot_def slot_ok_def)
  then show ?thesis
    using True sl apply_stop_settles[OF assms(1) sl, of w False]
    by (auto simp: respawn_def split: prod.splits option.splits)
next
  case False
  let ?s1 = "promote_pending i s"
  have p1: "prepares i s ?s1" by (rule promote_pending_prepares[OF assms(1)])
  obtain r s2 where c: "credentials_for_spawn w i ?s1 = (r, s2)" by fastforce
  have p2: "prepares i s s2"
    using credentials_prepares[OF c] p1 prepares_trans by (auto simp: prepares_def)
  then have r2: "rest_slot i s2" by (simp add: prepares_def)
  then obtain sl where sl: "get_slot s2 i = Some sl" using rest_slotD by blast
  show ?thesis
  proof (cases r)
    case (Inl err)
    then show ?thesis
      using False c prepares_settles[OF p2 respawn_failed_settles[OF r2]] by (simp add: respawn_def)
  next
    case (Inr cr)
    obtain a s3 where a: "assembled w (slot_app sl) i (e_instance (sl_entry sl)) cr s2 = (a, s3)"
      by fastforce
    have p3: "prepares i s s3" using prepares_trans[OF p2 assembled_prepares[OF a r2]] .
    then have r3: "rest_slot i s3" by (simp add: prepares_def)
    show ?thesis
      using False c Inr sl a prepares_settles[OF p3 refuse_spawn_settles[OF r3]]
        prepares_settles[OF p3 respawn_failed_settles[OF r3]]
        prepares_settles[OF p3 respawn_spawned_settles[OF r3]]
      by (simp add: respawn_def Let_def split: sum.splits)
  qed
qed

subsection \<open>Commands keep the flock in order\<close>

text \<open>
  What every operation does to a flock in order but for the ids in \<open>X\<close>, whose exits are
  in hand: it leaves it so, starts no process it does not register as running, drops none,
  and takes nobody's claim away. Ids are only ever handed out upwards.
\<close>

definition keeps_but :: "nat set \<Rightarrow> actor \<Rightarrow> actor \<Rightarrow> bool" where
  "keeps_but X s s' \<longleftrightarrow> flock_but X s' \<and> (\<forall>i. balance i s' = balance i s) \<and>
     (\<forall>k. claimed s k \<longrightarrow> claimed s' k) \<and> pending_replies s' = pending_replies s \<and>
     shutting_down s' = shutting_down s \<and> next_id s \<le> next_id s' \<and> panicked s' = panicked s \<and>
     prefix (out s) (out s')"

abbreviation keeps :: "actor \<Rightarrow> actor \<Rightarrow> bool" where
  "keeps \<equiv> keeps_but {}"

lemma keeps_refl: "flock_but X s \<Longrightarrow> keeps_but X s s"
  by (simp add: keeps_but_def)

lemma keeps_trans: "keeps_but Y s s' \<Longrightarrow> keeps_but X s' s'' \<Longrightarrow> keeps_but X s s''"
  by (auto simp: keeps_but_def intro: prefix_order.trans)

lemma keeps_flock: "keeps_but X s s' \<Longrightarrow> flock_but X s'"
  by (simp add: keeps_but_def)

lemma keeps_pend_ok: "keeps_but X s s' \<Longrightarrow> pend_ok E s \<Longrightarrow> pend_ok E s'"
proof -
  assume k: "keeps_but X s s'" and p: "pend_ok E s"
  from k have pr: "pending_replies s' = pending_replies s" by (simp add: keeps_but_def)
  from k have "claimed s j \<Longrightarrow> claimed s' j" for j by (simp add: keeps_but_def)
  then show ?thesis using p unfolding pend_ok_def pr by blast
qed

lemma touch_keeps:
  assumes "flock_but X s" "touch i s s'" "X - {i} \<subseteq> Y" "Y - {i} \<subseteq> X"
    and "\<And>sl. get_slot s' i = Some sl \<Longrightarrow> slot_fit Y (next_id s) (next_action_stamp s) i sl"
    and "balance i s' = balance i s" and "claimed s i \<Longrightarrow> claimed s' i" and "panicked s' = panicked s"
  shows "keeps_but Y s s'"
proof -
  have "flock_but Y s'" using touch_flock_but assms(1-5) by blast
  moreover have "balance k s' = balance k s" for k
    using touch_balance[OF assms(2)] assms(6) by (cases "k = i") auto
  moreover have "claimed s k \<Longrightarrow> claimed s' k" for k
    using assms(2,7) by (cases "k = i") (auto simp: touch_def claimed_def)
  ultimately show ?thesis using assms(2,8) by (auto simp: keeps_but_def touch_def)
qed

lemma flock_rest_slot:
  assumes "flock_ok s" "get_slot s i = Some sl" "\<not> sl_ctl sl"
  shows "rest_slot i s" "resting_status sl" "\<not> claimed s i"
proof -
  have "slot_ok (next_id s) (next_action_stamp s) i sl" using flock_okD assms by blast
  note ok = this slot_ok_resting[OF this assms(3)]
  then show "rest_slot i s" using assms(2) by (auto simp: rest_slot_def slot_ok_def)
  show "resting_status sl" using ok by simp
  show "\<not> claimed s i" using assms by (simp add: claimed_def)
qed

text \<open>Settling the one slot whose exit is in hand puts the whole flock right.\<close>

lemma settles_keeps:
  assumes "flock_but X s" "X \<subseteq> {i}" "settles i s s'" "\<not> claimed s i"
  shows "keeps s s'"
  by (rule touch_keeps[OF assms(1)]) (use assms(2-4) in \<open>auto simp: settles_def\<close>)

lemma apply_immediate_keeps:
  assumes "flock_ok s" "\<not> running s i" "apply_immediate w i kind origin s = (r, s')"
  shows "keeps s s'"
proof (cases "get_slot s i")
  case None
  then have "s' = s" using assms(3)
    by (auto simp: apply_immediate_def apply_stop_def Let_def split: ManualKind.splits)
  then show ?thesis using assms(1) keeps_refl by simp
next
  case (Some sl)
  then have ctl: "\<not> sl_ctl sl" using assms(2) by (simp add: running_def)
  note rest = flock_rest_slot[OF assms(1) Some ctl]
  show ?thesis
  proof (cases kind)
    case MStop
    then have "s' = snd (apply_stop w i (origin = Operator) s)"
      using assms(3) by (auto simp: apply_immediate_def Let_def)
    then show ?thesis
      using settles_keeps[OF assms(1) _ apply_stop_settles(1)[OF rest(1) Some rest(2)] rest(3)] by simp
  next
    case MDelete
    then have "s' = disarm_extras i (i_name (info_of w i s))
        (emit EvDelete (info_of w i s) (origin = Operator) (del_slot i s))"
      using assms(3) Some by (auto simp: apply_immediate_def Let_def)
    then show ?thesis
      using assms(1) rest(3) ctl Some
      by (intro touch_keeps[of "{}" s i]) (auto simp: touch_def balance_def running_def)
  next
    case MRestart
    let ?s = "upd_slot i (upd_entry (\<lambda>e. e\<lparr> e_budget := budget_reset (e_budget e) \<rparr>)) s"
    have p: "prepares i s ?s"
      using rest(1) by (auto simp: prepares_def rest_slot_def balance_def running_def slot_parts
          upd_entry_def at_rest_def intro!: touch_upd_slot)
    have "settles i ?s (snd (respawn w i (origin = Operator) ?s))"
      using p rest(2) Some by (intro respawn_settles) (auto simp: prepares_def resting_status_def upd_entry_def)
    moreover have "s' = snd (respawn w i (origin = Operator) ?s)"
      using assms(3) Some MRestart by (auto simp: apply_immediate_def Let_def split: prod.splits)
    ultimately show ?thesis
      using settles_keeps[OF assms(1) _ prepares_settles[OF p] rest(3)] by simp
  qed
qed

lemma claim_manual_slot:
  "get_slot (claim_manual i m cap s) k =
     (if k = i then map_option (\<lambda>sl. case sl_manual sl of
          None \<Rightarrow> sl\<lparr> sl_manual := Some m \<rparr>
        | Some m' \<Rightarrow> if m_origin m' = Automatic \<and> m_origin m = Operator
                     then sl\<lparr> sl_manual := Some m \<rparr> else sl) (get_slot s i)
      else get_slot s k)"
  by (auto simp: claim_manual_def Let_def split: option.splits CommandOrigin.splits)

lemma claim_manual_touch: "touch i s (claim_manual i m cap s)"
  by (auto simp: claim_manual_def Let_def touch_def alike_entry split: option.splits CommandOrigin.splits)

lemma claim_manual_panicked [simp]: "panicked (claim_manual i m cap s) = panicked s"
  by (auto simp: claim_manual_def Let_def split: option.splits CommandOrigin.splits)

lemma claim_manual_prefix [simp]: "prefix es (out s) \<Longrightarrow> prefix es (out (claim_manual i m cap s))"
  by (auto simp: claim_manual_def Let_def split: option.splits CommandOrigin.splits)

lemma claim_manual_spawns [simp]: "spawns_of k (out (claim_manual i m cap s)) = spawns_of k (out s)"
  by (auto simp: claim_manual_def Let_def split: option.splits CommandOrigin.splits)

text \<open>A claim on a running sheep is a claim, whoever holds it; nothing else about it moves.\<close>

lemma claim_manual_claimed: "running s i \<Longrightarrow> claimed (claim_manual i m cap s) i"
  by (auto simp: claimed_def running_def claim_manual_slot split: option.splits)

lemma claim_manual_running [simp]: "running (claim_manual i m cap s) k = running s k"
  by (auto simp: running_def claim_manual_slot split: option.splits)

lemma running_not_excepted:
  assumes "flock_but X s" "running s i"
  shows "i \<notin> X"
proof -
  obtain sl where "get_slot s i = Some sl" "sl_ctl sl"
    using assms(2) by (auto simp: running_def split: option.splits)
  then show ?thesis using flock_butD(1)[OF assms(1), of i sl] by (auto simp: slot_fit_def at_rest_def)
qed

lemma running_slot_ok:
  assumes "flock_but X s" "running s i"
  obtains sl where "get_slot s i = Some sl" "sl_ctl sl" "in_service sl" "i \<notin> X"
    "slot_ok (next_id s) (next_action_stamp s) i sl"
proof -
  obtain sl where sl: "get_slot s i = Some sl" "sl_ctl sl"
    using assms(2) by (auto simp: running_def split: option.splits)
  have "i \<notin> X" by (rule running_not_excepted[OF assms])
  then have "slot_ok (next_id s) (next_action_stamp s) i sl"
    using flock_butD(1)[OF assms(1) sl(1)] by simp
  then show ?thesis using that sl slot_ok_running \<open>i \<notin> X\<close> by blast
qed

lemma claim_manual_keeps:
  assumes "flock_but X s" "running s i"
  shows "keeps_but X s (claim_manual i m cap s)"
proof (rule touch_keeps[OF assms(1) claim_manual_touch])
  show "balance i (claim_manual i m cap s) = balance i s" by (simp add: balance_def)
  show "claimed (claim_manual i m cap s) i" by (rule claim_manual_claimed[OF assms(2)])
  obtain sl where sl: "get_slot s i = Some sl" "sl_ctl sl" "in_service sl" "i \<notin> X"
    "slot_ok (next_id s) (next_action_stamp s) i sl"
    by (rule running_slot_ok[OF assms])
  fix sl' assume "get_slot (claim_manual i m cap s) i = Some sl'"
  then show "slot_fit X (next_id s) (next_action_stamp s) i sl'"
    using sl by (auto simp: claim_manual_slot slot_ok_def slot_parts in_service_def
        split: option.splits if_splits)
qed auto

text \<open>
  An update of one slot that leaves its process alone, keeps its claim, and leaves a status
  fit for it.
\<close>

definition gentle :: "SheepSlot \<Rightarrow> SheepSlot \<Rightarrow> bool" where
  "gentle sl sl' \<longleftrightarrow> e_id (sl_entry sl') = e_id (sl_entry sl) \<and> sl_ctl sl' = sl_ctl sl \<and>
     sl_to_child sl' = sl_to_child sl \<and> sl_signals sl' = sl_signals sl \<and>
     sl_to_stdin sl' = sl_to_stdin sl \<and> sl_pty sl' = sl_pty sl \<and>
     e_pid (sl_entry sl') = e_pid (sl_entry sl) \<and>
     e_started_at (sl_entry sl') = e_started_at (sl_entry sl) \<and>
     (sl_manual sl' = None \<longleftrightarrow> sl_manual sl = None) \<and> e_pending (sl_entry sl') = e_pending (sl_entry sl) \<and>
     alike sl sl' \<and>
     (sl_pending_delete sl' \<longrightarrow> sl_pending_delete sl \<or> sl_manual sl \<noteq> None) \<and>
     (sl_ready_failed sl' \<longrightarrow> sl_ready_failed sl \<or> sl_ctl sl) \<and>
     (sl_ctl sl \<and> slot_status sl \<in> {Starting, Online, Stopping} \<longrightarrow>
        slot_status sl' \<in> {Starting, Online, Stopping}) \<and>
     (\<not> sl_ctl sl \<and> resting_status sl \<longrightarrow> resting_status sl') \<and>
     (e_reload (sl_entry sl) = RNone \<and> \<not> sl_ctl sl \<longrightarrow> e_reload (sl_entry sl') = RNone) \<and>
     (\<forall>st. waits_ok st (sl_actions sl) \<longrightarrow> waits_ok st (sl_actions sl'))"

lemma gentle_base: "gentle sl sl' \<Longrightarrow> slot_base n st i sl \<Longrightarrow> slot_base n st i sl'"
  by (simp add: gentle_def slot_parts alike_def)

lemma gentle_rest:
  "gentle sl sl' \<Longrightarrow> at_rest sl \<Longrightarrow> at_rest sl'"
  "gentle sl sl' \<Longrightarrow> at_rest sl \<Longrightarrow> resting_status sl \<Longrightarrow> resting_status sl'"
  "gentle sl sl' \<Longrightarrow> at_rest sl \<Longrightarrow> e_reload (sl_entry sl) = RNone \<Longrightarrow> e_reload (sl_entry sl') = RNone"
  by (simp_all add: gentle_def at_rest_def)

lemma gentle_service: "gentle sl sl' \<Longrightarrow> in_service sl \<Longrightarrow> in_service sl'"
  unfolding gentle_def in_service_def by (elim conjE, intro conjI) auto

lemma gentle_fit:
  assumes "gentle sl sl'" "slot_fit X n st i sl"
  shows "slot_fit X n st i sl'"
proof (cases "i \<in> X")
  case True
  then show ?thesis
    using assms(2) gentle_base[OF assms(1)] gentle_rest(1)[OF assms(1)] by (simp add: slot_fit_def)
next
  case False
  then show ?thesis
    using assms(2) gentle_base[OF assms(1)] gentle_rest[OF assms(1)] gentle_service[OF assms(1)]
    by (simp add: slot_ok_def) blast
qed

lemma upd_slot_keeps:
  assumes "flock_but X s" "\<And>sl. get_slot s i = Some sl \<Longrightarrow> gentle sl (f sl)"
  shows "keeps_but X s (upd_slot i f s)"
proof (rule touch_keeps[OF assms(1)])
  fix sl' assume "get_slot (upd_slot i f s) i = Some sl'"
  then obtain sl where sl: "get_slot s i = Some sl" "sl' = f sl" by auto
  have fit: "slot_fit X (next_id s) (next_action_stamp s) i sl" using flock_butD(1)[OF assms(1) sl(1)] .
  then show "slot_fit X (next_id s) (next_action_stamp s) i sl'"
    using gentle_fit[OF assms(2)[OF sl(1)] fit] sl(2) by simp
qed (use assms(2) in \<open>auto simp: balance_def running_def claimed_def gentle_def split: option.splits
      intro!: touch_upd_slot\<close>)

text \<open>An operation that leaves the slots, the counters and the deferred replies alone.\<close>

lemma frame_keeps:
  assumes "flock_but X s" "get_slot s' = get_slot s" "keys_ok s'" "next_id s' = next_id s"
    "next_action_stamp s' = next_action_stamp s" "pending_replies s' = pending_replies s"
    "shutting_down s' = shutting_down s" "\<And>k. spawns_of k (out s') = spawns_of k (out s)"
    "jobs_ok s'" "panicked s' = panicked s" "prefix (out s) (out s')"
  shows "keeps_but X s s'"
  using assms by (simp add: keeps_but_def flock_but_def balance_def running_def claimed_def)

lemma mark_delete_keeps:
  assumes "flock_but X s" "claimed s i"
  shows "keeps_but X s (upd_slot i (\<lambda>sl. sl\<lparr> sl_pending_delete := True \<rparr>) s)"
  using assms by (intro upd_slot_keeps) (auto simp: gentle_def claimed_def alike_entry split: option.splits)

lemma manual_loop_keeps:
  assumes "flock_ok s" "manual_loop w kind origin ids remaining results s = (rem, res, s')"
  shows "keeps s s' \<and> (\<forall>i \<in> set rem. i \<in> set remaining \<or> claimed s' i)"
  using assms
proof (induction ids arbitrary: remaining results s)
  case Nil
  then show ?case using keeps_refl by simp
next
  case (Cons i ids)
  show ?case
  proof (cases "origin = Automatic \<and> in_an_uncommitted_swap s i")
    case True
    then show ?thesis using Cons by simp
  next
    case swap: False
    show ?thesis
    proof (cases "running s i")
      case True
      let ?s1 = "claim_manual i \<lparr> m_kind = kind, m_origin = origin \<rparr> StopCap s"
      let ?s2 = "if kind = MDelete then upd_slot i (\<lambda>sl. sl\<lparr> sl_pending_delete := True \<rparr>) ?s1 else ?s1"
      have k1: "keeps s ?s1" by (rule claim_manual_keeps[OF Cons.prems(1) True])
      have c1: "claimed ?s1 i" by (rule claim_manual_claimed[OF True])
      have k2: "keeps s ?s2"
        using k1 keeps_trans[OF k1 mark_delete_keeps[OF keeps_flock[OF k1] c1]]
        by (cases "kind = MDelete") simp_all
      have c2: "claimed ?s2 i" using c1 by (auto simp: claimed_def split: option.splits)
      have "manual_loop w kind origin ids (List.insert i remaining) results ?s2 = (rem, res, s')"
        using Cons.prems(2) swap True by (simp add: running_def Let_def split: option.splits)
      then have ih: "keeps ?s2 s'" "\<forall>j \<in> set rem. j \<in> set (List.insert i remaining) \<or> claimed s' j"
        using Cons.IH[OF keeps_flock[OF k2]] by blast+
      then have "claimed s' i" using c2 unfolding keeps_but_def by blast
      then show ?thesis using keeps_trans[OF k2 ih(1)] ih(2) by auto
    next
      case False
      obtain r s1 where a: "apply_immediate w i kind origin s = (r, s1)" by fastforce
      have k1: "keeps s s1" by (rule apply_immediate_keeps[OF Cons.prems(1) False a])
      have "\<exists>res'. manual_loop w kind origin ids remaining res' s1 = (rem, res, s')"
        using Cons.prems(2) swap False a by (auto simp: running_def split: option.splits)
      then show ?thesis using Cons.IH[OF keeps_flock[OF k1]] keeps_trans[OF k1] by blast
    qed
  qed
qed

text \<open>
  The state invariant at the end of every command, \<open>flock_ok\<close> and \<open>pend_ok\<close>. A message that reports no
  exit keeps the balance and every deferred reply, and its effects are added to the trace.
\<close>

definition steady :: "actor \<Rightarrow> bool" where
  "steady s \<longleftrightarrow> flock_ok s \<and> pend_ok {} s"

definition evolves :: "actor \<Rightarrow> actor \<Rightarrow> bool" where
  "evolves s s' \<longleftrightarrow> steady s' \<and> (\<forall>i. balance i s' = balance i s) \<and> panicked s' = panicked s \<and>
     prefix (out s) (out s') \<and> prefix (pending_replies s) (pending_replies s')"

lemma steadyD: "steady s \<Longrightarrow> flock_ok s" "steady s \<Longrightarrow> pend_ok {} s"
  by (simp_all add: steady_def)

lemma evolves_refl: "steady s \<Longrightarrow> evolves s s"
  by (simp add: evolves_def)

lemma evolves_steady: "evolves s s' \<Longrightarrow> steady s'"
  by (simp add: evolves_def)

lemma evolves_trans: "evolves s s' \<Longrightarrow> evolves s' s'' \<Longrightarrow> evolves s s''"
  by (auto simp: evolves_def intro: prefix_order.trans)

lemma keeps_evolves: "steady s \<Longrightarrow> keeps s s' \<Longrightarrow> evolves s s'"
  using keeps_pend_ok[of "{}" s s' "{}"] by (auto simp: evolves_def steady_def keeps_but_def)

lemma quiet_effect_keeps: "flock_but X s \<Longrightarrow> quiet e \<Longrightarrow> keeps_but X s (effect e s)"
  by (rule frame_keeps) (auto dest: flock_butD)

lemma send_reply_keeps: "flock_but X s \<Longrightarrow> keeps_but X s (send_reply r oc s)"
  by (cases r) (simp_all add: quiet_effect_keeps)

lemma begin_manual_ids_evolves:
  assumes "steady s"
  shows "evolves s (begin_manual_ids w ids kind origin reply s)"
proof -
  obtain rem res s' where l: "manual_loop w kind origin ids [] [] s = (rem, res, s')"
    by (metis prod_cases3)
  have k: "keeps s s'" "\<forall>i \<in> set rem. claimed s' i"
    using manual_loop_keeps[OF steadyD(1)[OF assms] l] by auto
  show ?thesis
  proof (cases "rem = []")
    case True
    then show ?thesis
      using l keeps_evolves[OF assms keeps_trans[OF k(1) send_reply_keeps[OF keeps_flock[OF k(1)]]]]
      by (simp add: begin_manual_ids_def)
  next
    case False
    then have "begin_manual_ids w ids kind origin reply s = s'\<lparr> pending_replies :=
        pending_replies s' @ [\<lparr> pr_remaining = rem, pr_results = res, pr_reply = reply \<rparr>] \<rparr>"
      using l by (simp add: begin_manual_ids_def)
    moreover have "evolves s s'" using keeps_evolves[OF assms k(1)] .
    ultimately show ?thesis
      using False k(2)
      by (auto simp: evolves_def steady_def flock_but_def pend_ok_def balance_def running_def claimed_def)
  qed
qed

lemma begin_manual_evolves:
  "steady s \<Longrightarrow> evolves s (begin_manual w sel kind origin reply s)"
  using keeps_evolves send_reply_keeps begin_manual_ids_evolves
  by (auto simp: begin_manual_def Let_def steady_def split: list.splits)

end
