(* ===== verification/Reload.thy ===== *)
theory Reload
  imports Lifecycle
begin

text \<open>
  Reloads (\<open>supervisor/actor_reload.rs\<close>, \<open>actor_reload_done.rs\<close>): replacing a sheep's
  process one instance at a time, with the old one kept until the new one has proved
  itself (overlap), or drained first where a probe could be answered by the wrong
  instance (serial).
\<close>

subsection \<open>Lookups\<close>

definition reload_of :: "actor \<Rightarrow> nat \<Rightarrow> string option" where
  "reload_of s i =
     map_option fst (find (\<lambda>(nm, job). sw_old_id (j_swap job) = i \<or> sw_new_id (j_swap job) = Some i)
       (reloads s))"

definition serial_drain_of :: "actor \<Rightarrow> nat \<Rightarrow> string option" where
  "serial_drain_of s i =
     map_option fst (find (\<lambda>(nm, job). sw_phase (j_swap job) = DrainFirst \<and> sw_old_id (j_swap job) = i)
       (reloads s))"

definition set_reload :: "ReloadState \<Rightarrow> SheepSlot \<Rightarrow> SheepSlot" where
  "set_reload r = upd_entry (\<lambda>e. e\<lparr> e_reload := r \<rparr>)"

definition clear_reload :: "nat \<Rightarrow> actor \<Rightarrow> actor" where
  "clear_reload i s = upd_slot i (set_reload RNone) s"

definition emit_reload_abandoned :: "world \<Rightarrow> nat \<Rightarrow> actor \<Rightarrow> actor" where
  "emit_reload_abandoned w i s =
     (case get_slot s i of
        None \<Rightarrow> s
      | Some _ \<Rightarrow> emit EvReloadAbandoned (info_of w i s) True s)"

text \<open>\<open>None\<close> where the \<open>expect\<close> that finds the instance fails.\<close>

definition reload_mode_of :: "actor \<Rightarrow> nat \<Rightarrow> ReloadMode option" where
  "reload_mode_of s i =
     map_option (\<lambda>config. reload_mode_of_source config (of_normalized config)) (intended_spec s i)"

definition post_drain_probe :: "actor \<Rightarrow> nat \<Rightarrow> ReloadMode \<Rightarrow> ReadinessSource option" where
  "post_drain_probe s new_id mode =
     (if mode \<noteq> Overlap then None
      else case get_slot s new_id of
        None \<Rightarrow> None
      | Some sl \<Rightarrow>
          (case of_normalized (slot_app sl) of
             Probe p \<Rightarrow> Some (Probe p)
           | _ \<Rightarrow> None))"

subsection \<open>Starting a swap\<close>

definition arm_reload_deadline :: "string \<Rightarrow> nat \<Rightarrow> actor \<Rightarrow> actor" where
  "arm_reload_deadline nm i s =
     (case get_slot s i of
        None \<Rightarrow> panic s
      | Some sl \<Rightarrow>
          (let stamp = next_deadline s;
               s = s\<lparr> next_deadline := stamp + 1 \<rparr>;
               s = (if get_job s nm = None then panic s else s);
               s = upd_job nm (\<lambda>job. job\<lparr> j_deadline := stamp \<rparr>) s
           in effect (ArmDeadline nm stamp (swap_budget (slot_app sl))) s))"

definition replacement_entry ::
  "world \<Rightarrow> nat \<Rightarrow> AppConfig \<Rightarrow> Credentials option \<Rightarrow> SpawnSpec \<Rightarrow> nat \<Rightarrow> ProcessEntry \<Rightarrow> ProcessEntry" where
  "replacement_entry w new_id app credentials spec pid old =
     \<lparr> e_id = new_id, e_spec = app, e_pending = None, e_pending_reidentifies = False,
       e_overridden = e_overridden old, e_instance = e_instance old, e_status = Starting,
       e_pid = Some pid, e_restarts = e_restarts old, e_started_at = Some (w_now w),
       e_budget = budget_default, e_reload = Replacement, e_credentials = Resolved credentials,
       e_out_file = ss_out_file spec, e_err_file = ss_err_file spec, e_dog = e_dog old,
       e_last_exit = e_last_exit old, e_spawn_failure = None \<rparr>"

definition running_slot :: "world \<Rightarrow> bool \<Rightarrow> ProcessEntry \<Rightarrow> SheepSlot" where
  "running_slot w gated en =
     (slot_new en)\<lparr> sl_ctl := True, sl_log_ctl := True, sl_to_child := True, sl_signals := True,
        sl_to_stdin := True, sl_pty := w_has_pty w (e_id en), sl_ready_tx := gated \<rparr>"

definition spawn_replacement ::
  "world \<Rightarrow> nat \<Rightarrow> ReloadMode \<Rightarrow> actor \<Rightarrow> (string + nat) \<times> actor" where
  "spawn_replacement w old_id mode s =
     (case get_slot s old_id of
        None \<Rightarrow> (Inl [], panic s)
      | Some old \<Rightarrow>
        if is_disabled_id s old_id
        then (Inl (slot_name old @ '' is disabled; `shep enable` brings it back''), s)
        else case intended_credentials w old of
          Inl err \<Rightarrow> (Inl err, s)
        | Inr credentials \<Rightarrow>
          (let app = (case e_pending (sl_entry old) of Some p \<Rightarrow> p | None \<Rightarrow> slot_app old);
               inst = e_instance (sl_entry old);
               new_id = next_id s;
               s = s\<lparr> next_id := new_id + 1 \<rparr>;
               nm = app_name app;
               held_before = map_of (listeners s) nm
           in case assembled w app new_id inst credentials s of
             (Inl err, s) \<Rightarrow> (Inl (assemble_error_display err), s)
           | (Inr spec, s) \<Rightarrow>
             (let s = s\<lparr> listeners_before := AList.update nm held_before (listeners_before s) \<rparr>;
                  s = upd_slot old_id (upd_entry (\<lambda>e. e\<lparr> e_status := Stopping,
                        e_reload := Drainee (Some new_id) \<rparr>)) s
              in case w_spawn w new_id spec of
                Inr pid \<Rightarrow>
                  (let en = replacement_entry w new_id app credentials spec pid (sl_entry old);
                       info = to_info (w_now w) en (smits s);
                       s = effect (Spawned new_id pid) s;
                       s = effect (ArmReadiness new_id 0 True (of_normalized app)
                             (as_duration (app_listen_timeout app))) s;
                       s = put_slot new_id (running_slot w True en) s;
                       s = (if mode = Overlap then emit EvReload (info_of w old_id s) True s else s);
                       s = emit EvStart info True s
                   in (Inr new_id, s))
              | Inl error \<Rightarrow>
                  (let s = (if mode = Overlap
                            then upd_slot old_id (\<lambda>sl. upd_entry (\<lambda>e. e\<lparr>
                                   e_status := restored_status sl, e_reload := RNone \<rparr>) sl) s
                            else s);
                       s = restore_listeners nm s
                   in (Inl error, s)))))"

definition begin_serial_drain :: "world \<Rightarrow> string \<Rightarrow> nat \<Rightarrow> nat list \<Rightarrow> actor \<Rightarrow> actor" where
  "begin_serial_drain w nm old_id queue s =
     (let s = expect_slot old_id s;
          s = upd_slot old_id (upd_entry (\<lambda>e. e\<lparr> e_status := Stopping, e_reload := Drainee None \<rparr>)) s;
          info = info_of w old_id s;
          s = put_job nm \<lparr> j_queue = queue, j_mode = Serial,
                j_swap = \<lparr> sw_old_id = old_id, sw_new_id = None, sw_phase = DrainFirst \<rparr>,
                j_deadline = 0 \<rparr> s;
          s = arm_reload_deadline nm old_id s;
          s = emit EvReload info True s
      in claim_manual old_id \<lparr> m_kind = MStop, m_origin = Operator \<rparr> DrainCap s)"

definition replaceable :: "actor \<Rightarrow> nat \<Rightarrow> bool" where
  "replaceable s i =
     (case get_slot s i of None \<Rightarrow> False | Some sl \<Rightarrow> reload_eligible sl \<and> sl_manual sl = None)"

fun advance_loop :: "world \<Rightarrow> string \<Rightarrow> nat list \<Rightarrow> actor \<Rightarrow> actor" where
  "advance_loop w nm [] s = del_job nm s"
| "advance_loop w nm (old_id # queue) s =
     (if \<not> replaceable s old_id then advance_loop w nm queue s
      else if reload_mode_of s old_id = None then panic s
      else if reload_mode_of s old_id = Some Serial then begin_serial_drain w nm old_id queue s
      else case spawn_replacement w old_id Overlap s of
        (Inr new_id, s) \<Rightarrow>
          (let s = put_job nm \<lparr> j_queue = queue, j_mode = Overlap,
                     j_swap = \<lparr> sw_old_id = old_id, sw_new_id = Some new_id, sw_phase = AwaitReady \<rparr>,
                     j_deadline = 0 \<rparr> s
           in arm_reload_deadline nm new_id s)
      | (Inl error, s) \<Rightarrow>
          (let s = del_job nm s in emit_reload_abandoned w old_id s))"

definition advance_reload :: "world \<Rightarrow> string \<Rightarrow> nat list \<Rightarrow> actor \<Rightarrow> actor" where
  "advance_reload w nm queue s =
     (if shutting_down s then del_job nm s else advance_loop w nm queue s)"

subsection \<open>Accepting a reload\<close>

definition accepted_row :: "world \<Rightarrow> actor \<Rightarrow> nat \<Rightarrow> ProcessInfo" where
  "accepted_row w s i =
     (case get_slot s i of
        None \<Rightarrow> no_info
      | Some sl \<Rightarrow>
          (to_info (w_now w) (sl_entry sl) (smits s))\<lparr> i_reload_deadline_ms :=
             (if reload_eligible sl
              then Some (min (swap_budget (slot_app sl) div 1000000) (2 ^ 64 - 1))
              else None) \<rparr>)"

text \<open>
  The \<open>BTreeMap\<close> from app to its eligible instances: names in order, each with its ids
  in instance order.
\<close>

definition reload_queues :: "actor \<Rightarrow> nat list \<Rightarrow> (string \<times> nat list) list" where
  "reload_queues s matched =
     (let eligible = filter (\<lambda>i. case get_slot s i of None \<Rightarrow> False | Some sl \<Rightarrow> reload_eligible sl) matched;
          name_of = (\<lambda>i. case get_slot s i of None \<Rightarrow> [] | Some sl \<Rightarrow> slot_name sl);
          inst_of = (\<lambda>i. case get_slot s i of None \<Rightarrow> 0 | Some sl \<Rightarrow> e_instance (sl_entry sl))
      in map (\<lambda>nm. (nm, map snd (sort (map (\<lambda>i. (inst_of i, i)) (filter (\<lambda>i. name_of i = nm) eligible)))))
           (sort (remdups (map name_of eligible))))"

definition in_flight :: "actor \<Rightarrow> nat list \<Rightarrow> string option" where
  "in_flight s matched =
     (case List.map_filter (\<lambda>i. case get_slot s i of
              None \<Rightarrow> None
            | Some sl \<Rightarrow> if get_job s (slot_name sl) \<noteq> None then Some (slot_name sl) else None) matched of
        [] \<Rightarrow> None
      | nm # _ \<Rightarrow> Some nm)"

definition handle_reload :: "world \<Rightarrow> ProcessSelector \<Rightarrow> caller \<Rightarrow> actor \<Rightarrow> actor" where
  "handle_reload w sel c s =
     (let matched = matching_ids s sel in
      if matched = [] then effect (Reply c (Infos (Inl NotFound))) s
      else case (if is_exact sel
                 then refuse_disabled s (List.map_filter (\<lambda>i. map_option slot_name (get_slot s i)) matched)
                 else Inr ()) of
        Inl refusal \<Rightarrow> effect (Reply c (Infos (Inl refusal))) s
      | Inr _ \<Rightarrow>
        (case in_flight s matched of
           Some nm \<Rightarrow> effect (Reply c (Infos (Inl (ReloadInFlight nm)))) s
         | None \<Rightarrow>
             (let accepted = sort_flock (map (accepted_row w s) matched);
                  queues = reload_queues s matched;
                  s = effect (Reply c (Infos (Inr accepted))) s
              in fold (\<lambda>(nm, queue) s. advance_reload w nm queue s) queues s)))"

subsection \<open>Committing and ending\<close>

definition commit_swap_success :: "world \<Rightarrow> string \<Rightarrow> nat \<Rightarrow> nat list \<Rightarrow> actor \<Rightarrow> actor" where
  "commit_swap_success w nm new_id queue s =
     (let s = expect_slot new_id s;
          s = emit EvReloaded (info_of w new_id s) True s
      in advance_reload w nm queue s)"

definition finish_swap :: "world \<Rightarrow> string \<Rightarrow> actor \<Rightarrow> actor" where
  "finish_swap w nm s =
     (case get_job s nm of
        None \<Rightarrow> s
      | Some job \<Rightarrow>
          (let s = del_job nm s in
           case sw_new_id (j_swap job) of
             None \<Rightarrow> panic s
           | Some new_id \<Rightarrow>
               (let serving = (case get_slot s new_id of
                                 None \<Rightarrow> False | Some sl \<Rightarrow> slot_status sl = Online)
                in case (if serving then post_drain_probe s new_id (j_mode job) else None) of
                     Some source \<Rightarrow>
                       (let s = put_job nm (job\<lparr> j_swap := (j_swap job)\<lparr> sw_phase := Verify \<rparr> \<rparr>) s;
                            s = arm_reload_deadline nm new_id s
                        in case get_slot s new_id of
                             None \<Rightarrow> panic s
                           | Some sl \<Rightarrow>
                               effect (SpawnVerify nm new_id source
                                 (as_duration (app_listen_timeout (slot_app sl)))) s)
                   | None \<Rightarrow>
                       (let s = clear_reload new_id s in
                        if serving then commit_swap_success w nm new_id (j_queue job) s
                        else emit_reload_abandoned w new_id s))))"

definition begin_drain :: "world \<Rightarrow> string \<Rightarrow> actor \<Rightarrow> actor" where
  "begin_drain w nm s =
     (case get_job s nm of
        None \<Rightarrow> s
      | Some job \<Rightarrow>
          (let s = upd_job nm (\<lambda>job. job\<lparr> j_swap := (j_swap job)\<lparr> sw_phase := DrainOld \<rparr> \<rparr>) s;
               old_id = sw_old_id (j_swap job);
               s = s\<lparr> listeners_before := AList.delete nm (listeners_before s) \<rparr>
           in if get_slot s old_id = None then finish_swap w nm s
              else claim_manual old_id \<lparr> m_kind = MStop, m_origin = Operator \<rparr> DrainCap s))"

definition abort_reload :: "world \<Rightarrow> string \<Rightarrow> actor \<Rightarrow> actor" where
  "abort_reload w nm s =
     (case get_job s nm of
        None \<Rightarrow> s
      | Some job \<Rightarrow>
          (let s = del_job nm s;
               s = debug_assert (sw_phase (j_swap job) = AwaitReady) s;
               s = restore_listeners nm s;
               old_id = sw_old_id (j_swap job);
               s = (case get_slot s old_id of
                      None \<Rightarrow> s
                    | Some drainee \<Rightarrow>
                        (let s = upd_slot old_id (set_reload RNone) s;
                             s = (if sl_ctl drainee \<and> sl_manual drainee = None
                                  then upd_slot old_id (\<lambda>sl. upd_entry
                                         (\<lambda>e. e\<lparr> e_status := restored_status sl \<rparr>) sl) s
                                  else s)
                         in emit EvReloadAbandoned (info_of w old_id s) True s))
           in case sw_new_id (j_swap job) of
                None \<Rightarrow> s
              | Some new_id \<Rightarrow>
                  (case get_slot s new_id of
                     None \<Rightarrow> s
                   | Some replacement \<Rightarrow>
                       (let s = upd_slot new_id (set_reload RNone) s in
                        if \<not> sl_ctl replacement then s
                        else
                          (let s = upd_slot new_id (\<lambda>sl. sl\<lparr> sl_pending_delete := True \<rparr>) s
                           in claim_manual new_id \<lparr> m_kind = MDelete, m_origin = Operator \<rparr>
                                StopCap s)))))"

definition reload_ready_result :: "world \<Rightarrow> nat \<Rightarrow> bool \<Rightarrow> Readiness \<Rightarrow> actor \<Rightarrow> actor" where
  "reload_ready_result w new_id manually readiness s =
     (case reload_of s new_id of
        None \<Rightarrow>
          (let s = clear_reload new_id s;
               (info, s) = set_status w new_id Online s
           in went_online new_id info manually s)
      | Some nm \<Rightarrow>
          if readiness = TimedOut then
            (case get_job s nm of
               None \<Rightarrow> panic s
             | Some job \<Rightarrow>
                 if get_slot s (sw_old_id (j_swap job)) \<noteq> None then abort_reload w nm s
                 else
                   (let s = del_job nm s;
                        s = clear_reload new_id s;
                        s = (case get_slot s new_id of
                               None \<Rightarrow> s
                             | Some _ \<Rightarrow>
                                 (let s = upd_slot new_id (\<lambda>sl. sl\<lparr> sl_ready_failed := True \<rparr>) s
                                  in emit EvReloadAbandoned (info_of w new_id s) True s))
                    in arm_extras new_id s))
          else
            (let (info, s) = set_status w new_id Online s;
                 s = went_online new_id info manually s
             in begin_drain w nm s))"

definition handle_reload_verified :: "world \<Rightarrow> string \<Rightarrow> nat \<Rightarrow> Readiness \<Rightarrow> actor \<Rightarrow> actor" where
  "handle_reload_verified w nm new_id readiness s =
     (case get_job s nm of
        None \<Rightarrow> s
      | Some job \<Rightarrow>
          if sw_new_id (j_swap job) \<noteq> Some new_id \<or> sw_phase (j_swap job) \<noteq> Verify then s
          else
            (let s = del_job nm s;
                 s = clear_reload new_id s
             in if readiness = Ready then commit_swap_success w nm new_id (j_queue job) s
                else
                  (let (info, s) = set_status w new_id Starting s;
                       s = upd_slot new_id (\<lambda>sl. sl\<lparr> sl_ready_failed := True \<rparr>) s;
                       s = emit EvReloadAbandoned info True s
                   in arm_extras new_id s)))"

definition handle_reload_deadline :: "world \<Rightarrow> string \<Rightarrow> nat \<Rightarrow> actor \<Rightarrow> actor" where
  "handle_reload_deadline w nm stamp s =
     (case get_job s nm of
        None \<Rightarrow> s
      | Some job \<Rightarrow>
          if j_deadline job \<noteq> stamp then s
          else case sw_phase (j_swap job) of
            DrainFirst \<Rightarrow>
              (let s = del_job nm s;
                   s = clear_reload (sw_old_id (j_swap job)) s
               in emit_reload_abandoned w (sw_old_id (j_swap job)) s)
          | AwaitReady \<Rightarrow> abort_reload w nm s
          | _ \<Rightarrow>
              (case sw_new_id (j_swap job) of
                 None \<Rightarrow> panic s
               | Some new_id \<Rightarrow>
                   (let s = del_job nm s;
                        s = clear_reload new_id s
                    in emit_reload_abandoned w new_id s)))"

subsection \<open>Reaping the drainee\<close>

definition deregister_on_exit :: "world \<Rightarrow> nat \<Rightarrow> actor \<Rightarrow> bool \<times> actor" where
  "deregister_on_exit w i s =
     (case get_slot s i of
        None \<Rightarrow> (False, panic s)
      | Some sl \<Rightarrow>
          (let info = to_info (w_now w)
                 ((sl_entry sl)\<lparr> e_status := Stopped, e_reload := RNone \<rparr>) (smits s);
               s = del_slot i s;
               s = emit EvDelete info True s;
               s = disarm_extras i (i_name info) s
           in resolve_pending i info s))"

definition spawn_serial_replacement :: "world \<Rightarrow> string \<Rightarrow> nat \<Rightarrow> actor \<Rightarrow> actor" where
  "spawn_serial_replacement w nm old_id s =
     (case spawn_replacement w old_id Serial s of
        (Inr new_id, s) \<Rightarrow>
          (let s = (if get_job s nm = None then panic s else s);
               s = upd_job nm (\<lambda>job. job\<lparr> j_swap := (j_swap job)\<lparr> sw_new_id := Some new_id,
                     sw_phase := AwaitReady \<rparr> \<rparr>) s
           in arm_reload_deadline nm new_id s)
      | (Inl error, s) \<Rightarrow>
          (let s = del_job nm s in emit_reload_abandoned w old_id s))"

definition reap_drainee :: "world \<Rightarrow> nat \<Rightarrow> actor \<Rightarrow> bool \<times> actor" where
  "reap_drainee w old_id s =
     (let s = (case serial_drain_of s old_id of
                 None \<Rightarrow> s
               | Some nm \<Rightarrow>
                   (case get_slot s old_id of
                      None \<Rightarrow> panic s
                    | Some sl \<Rightarrow>
                        if sl_pending_delete sl then del_job nm s
                        else spawn_serial_replacement w nm old_id s));
          (terminal, s) = deregister_on_exit w old_id s
      in case reload_of s old_id of
           None \<Rightarrow> (terminal, s)
         | Some nm \<Rightarrow>
             (case get_job s nm of
                None \<Rightarrow> (terminal, panic s)
              | Some job \<Rightarrow>
                  (case sw_phase (j_swap job) of
                     AwaitReady \<Rightarrow>
                       (terminal, upd_job nm (\<lambda>job. job\<lparr> j_swap := (j_swap job)\<lparr> sw_phase := DrainOld \<rparr> \<rparr>) s)
                   | DrainFirst \<Rightarrow> (terminal, debug_assert False s)
                   | _ \<Rightarrow> (terminal, finish_swap w nm s))))"

subsection \<open>Reload jobs keep the flock in order\<close>

lemma jobs_ok_job: "flock_but X s \<Longrightarrow> get_job s nm = Some job \<Longrightarrow> job_ok s nm job"
  using flock_butD(3) by (simp add: jobs_ok_def)

lemma job_ok_frame:
  "get_slot s' = get_slot s \<Longrightarrow> next_id s' = next_id s \<Longrightarrow> job_ok s' nm job = job_ok s nm job"
  by (simp add: job_ok_def owned_def)

lemma del_job_keeps: "flock_but X s \<Longrightarrow> keeps_but X s (del_job nm s)"
  by (rule frame_keeps)
    (auto simp: jobs_ok_def job_ok_frame[where s = s and s' = "del_job nm s"] fun_eq_iff
      dest: flock_butD(2) jobs_ok_job split: if_splits)

lemma put_job_keeps: "flock_but X s \<Longrightarrow> job_ok s nm job \<Longrightarrow> keeps_but X s (put_job nm job s)"
  by (rule frame_keeps)
    (auto simp: jobs_ok_def job_ok_frame[where s = s and s' = "put_job nm job s"] fun_eq_iff
      dest: flock_butD(2) jobs_ok_job split: if_splits)

lemma upd_job_keeps:
  "flock_but X s \<Longrightarrow> (\<And>job. get_job s nm = Some job \<Longrightarrow> job_ok s nm (f job)) \<Longrightarrow>
    keeps_but X s (upd_job nm f s)"
  by (rule frame_keeps)
    (auto simp: jobs_ok_def job_ok_frame[where s = s and s' = "upd_job nm f s"] fun_eq_iff
      dest: flock_butD(2) jobs_ok_job split: if_splits)

text \<open>A change of one slot that keeps its process, its claim and its name.\<close>

lemma slot_change_keeps:
  assumes "flock_but X s" "jobs_ok (upd_slot i f s)"
    and "\<And>sl. get_slot s i = Some sl \<Longrightarrow> slot_fit X (next_id s) (next_action_stamp s) i (f sl) \<and>
      sl_ctl (f sl) = sl_ctl sl \<and> (sl_manual (f sl) = None \<longleftrightarrow> sl_manual sl = None)"
  shows "keeps_but X s (upd_slot i f s)"
proof -
  have "running (upd_slot i f s) k = running s k" "claimed (upd_slot i f s) k = claimed s k" for k
    using assms(3) by (auto simp: running_def claimed_def split: option.splits)
  moreover have "flock_but X (upd_slot i f s)"
    using assms flock_butD(1)[OF assms(1)] flock_butD(2)[OF assms(1)]
    by (auto simp: flock_but_def split: if_splits)
  ultimately show ?thesis by (simp add: keeps_but_def balance_def)
qed

lemma jobs_ok_upd_slot:
  assumes "jobs_ok s" "\<And>sl. get_slot s i = Some sl \<Longrightarrow> slot_name (f sl) = slot_name sl"
    and "\<And>nm job sl. get_job s nm = Some job \<Longrightarrow> get_slot s i = Some sl \<Longrightarrow> slot_name sl = nm \<Longrightarrow>
      (sw_old_id (j_swap job) = i \<longrightarrow> wears_drainee (f sl)) \<and> (sw_new_id (j_swap job) = Some i \<longrightarrow> \<not> wears_drainee (f sl))"
  shows "jobs_ok (upd_slot i f s)"
  unfolding jobs_ok_def
proof (intro allI impI)
  fix nm job assume "get_job (upd_slot i f s) nm = Some job"
  then have j: "get_job s nm = Some job" by simp
  then have ok: "job_ok s nm job" using assms(1) by (simp add: jobs_ok_def)
  have "owned (upd_slot i f s) nm k" if "owned s nm k" for k
    using that assms(2) by (auto simp: owned_def)
  moreover have "slot_name sl = nm" if "get_slot s i = Some sl" "i \<in> job_ids job" for sl
    using ok that by (auto simp: job_ok_def owned_def)
  ultimately show "job_ok (upd_slot i f s) nm job"
    using ok assms(3)[OF j] unfolding job_ok_def by (auto simp: job_ids_def split: if_splits)
qed

text \<open>Taking the marker off, once no job has the id as its drainee.\<close>

definition no_drain_of :: "actor \<Rightarrow> nat \<Rightarrow> bool" where
  "no_drain_of s i \<longleftrightarrow> (\<forall>nm job. get_job s nm = Some job \<longrightarrow> sw_old_id (j_swap job) \<noteq> i)"

lemma set_reload_parts [simp]:
  "sl_ctl (set_reload r sl) = sl_ctl sl" "sl_manual (set_reload r sl) = sl_manual sl"
  "e_reload (sl_entry (set_reload r sl)) = r" "slot_name (set_reload r sl) = slot_name sl"
  "slot_status (set_reload r sl) = slot_status sl"
  by (simp_all add: set_reload_def upd_entry_def)

lemma set_reload_slot [simp]:
  "slot_base n st i (set_reload r sl) = slot_base n st i sl" "at_rest (set_reload r sl) = at_rest sl"
  "in_service (set_reload r sl) = in_service sl" "resting_status (set_reload r sl) = resting_status sl"
  by (simp_all add: slot_base_def parked_ok_def at_rest_def in_service_def resting_status_def
      set_reload_def upd_entry_def)

lemma clear_fit: "slot_fit X n st i sl \<Longrightarrow> slot_fit X n st i (set_reload RNone sl)"
  by (auto simp: slot_fit_def slot_ok_def)

lemma clear_reload_keeps:
  assumes "flock_but X s" "no_drain_of s i \<or> get_slot s i = None"
  shows "keeps_but X s (clear_reload i s)"
  unfolding clear_reload_def
proof (rule slot_change_keeps[OF assms(1)])
  show "jobs_ok (upd_slot i (set_reload RNone) s)"
    using flock_butD(3)[OF assms(1)] assms(2)
    by (intro jobs_ok_upd_slot) (auto simp: no_drain_of_def wears_drainee_def)
qed (use clear_fit flock_butD(1)[OF assms(1)] in auto)

text \<open>An id of a job that has just been dropped is no other job's drainee.\<close>

lemma dropped_no_drain:
  assumes "flock_but X s" "get_job s nm = Some job" "i \<in> job_ids job"
  shows "no_drain_of (del_job nm s) i \<or> get_slot s i = None"
proof (cases "get_slot s i")
  case (Some sl)
  have "slot_name sl = nm" using jobs_ok_job[OF assms(1,2)] assms(3) Some by (auto simp: job_ok_def owned_def)
  moreover have "slot_name sl = nm'" if "get_job s nm' = Some job'" "sw_old_id (j_swap job') = i" for nm' job'
    using jobs_ok_job[OF assms(1) that(1)] that(2) Some by (auto simp: job_ok_def owned_def job_ids_def)
  ultimately show ?thesis by (auto simp: no_drain_of_def)
qed simp

lemma drop_clear_keeps:
  assumes "flock_but X s" "get_job s nm = Some job" "i \<in> job_ids job"
  shows "keeps_but X s (clear_reload i (del_job nm s))"
proof -
  have k: "keeps_but X s (del_job nm s)" by (rule del_job_keeps[OF assms(1)])
  show ?thesis
    by (rule keeps_trans[OF k clear_reload_keeps[OF keeps_flock[OF k]]])
      (use dropped_no_drain[OF assms] in simp)
qed

text \<open>Putting the marker on, when no other job could have the id as its replacement.\<close>

lemma drain_keeps:
  assumes "flock_but X s" "get_slot s i = Some sl" "sl_ctl sl \<or> i \<in> X"
    and "get_job s (slot_name sl) = None \<or> wears_drainee sl"
  shows "keeps_but X s (upd_slot i (upd_entry (\<lambda>e. e\<lparr> e_status := Stopping, e_reload := Drainee r \<rparr>)) s)"
    (is "keeps_but X s (upd_slot i ?f s)")
proof (rule slot_change_keeps[OF assms(1)])
  show "jobs_ok (upd_slot i ?f s)"
  proof (rule jobs_ok_upd_slot)
    fix nm job sl' assume a: "get_job s nm = Some job" "get_slot s i = Some sl'" "slot_name sl' = nm"
    then have "wears_drainee sl" using assms(2,4) by auto
    then have "sw_new_id (j_swap job) \<noteq> Some i"
      using jobs_ok_job[OF assms(1) a(1)] assms(2) by (auto simp: job_ok_def)
    then show "(sw_old_id (j_swap job) = i \<longrightarrow> wears_drainee (?f sl')) \<and>
        (sw_new_id (j_swap job) = Some i \<longrightarrow> \<not> wears_drainee (?f sl'))"
      by (simp add: wears_drainee_def upd_entry_def)
  qed (use flock_butD(3)[OF assms(1)] in \<open>simp_all add: upd_entry_def\<close>)
next
  fix sl' assume "get_slot s i = Some sl'"
  then show "slot_fit X (next_id s) (next_action_stamp s) i (?f sl') \<and> sl_ctl (?f sl') = sl_ctl sl' \<and>
      (sl_manual (?f sl') = None \<longleftrightarrow> sl_manual sl' = None)"
    using flock_butD(1)[OF assms(1), of i sl'] assms(2,3)
    by (auto simp: slot_fit_def slot_ok_def slot_base_def parked_ok_def at_rest_def in_service_def upd_entry_def
        split: if_splits)
qed

subsection \<open>Fresh ids\<close>

lemma bump_keeps: "flock_but X s \<Longrightarrow> keeps_but X s (s\<lparr> next_id := next_id s + 1 \<rparr>)"
proof -
  assume f: "flock_but X s"
  have "slot_fit X n st i sl \<Longrightarrow> slot_fit X (n + 1) st i sl" for n st i sl
    by (auto simp: slot_fit_def slot_ok_def slot_base_def)
  moreover have "jobs_ok (s\<lparr> next_id := next_id s + 1 \<rparr>)"
    using flock_butD(3)[OF f] unfolding jobs_ok_def job_ok_def owned_def by fastforce
  ultimately show ?thesis
    using f by (auto simp: keeps_but_def flock_but_def balance_def running_def claimed_def)
qed

definition fresh_id :: "nat set \<Rightarrow> actor \<Rightarrow> nat \<Rightarrow> bool" where
  "fresh_id X s i \<longleftrightarrow> i \<notin> X \<and> i < next_id s \<and> get_slot s i = None \<and>
     (\<forall>nm job. get_job s nm = Some job \<longrightarrow> i \<notin> job_ids job)"

lemma fresh_bump:
  assumes "flock_but X s" "\<forall>i \<in> X. i < next_id s"
  shows "fresh_id X (s\<lparr> next_id := next_id s + 1 \<rparr>) (next_id s)"
proof -
  have "next_id s \<notin> job_ids job" if "get_job s nm = Some job" for nm job
    using jobs_ok_job[OF assms(1) that] by (auto simp: job_ok_def owned_def)
  then show ?thesis using flock_but_fresh[OF assms(1), of "next_id s"] assms(2) by (auto simp: fresh_id_def)
qed

text \<open>
  A slot put under a fresh id: its process, if it has one, is the one the trace says was
  started for it.
\<close>

lemma put_fresh_keeps:
  assumes "flock_but X s" "fresh_id X s i" "slot_ok (next_id s) (next_action_stamp s) i sl"
    and "get_slot s0 = get_slot s" "get_job s0 = get_job s" "keys_ok s0" "next_id s0 = next_id s"
      "next_action_stamp s0 = next_action_stamp s" "pending_replies s0 = pending_replies s"
      "shutting_down s0 = shutting_down s" "panicked s0 = panicked s"
    and "\<And>k. spawns_of k (out s0) = spawns_of k (out s) + (if k = i \<and> sl_ctl sl then 1 else 0)"
    and "prefix (out s) (out s0)"
  shows "keeps_but X s (put_slot i sl s0)"
proof -
  have none: "get_slot s i = None" "i \<notin> X" using assms(2) by (simp_all add: fresh_id_def)
  have "job_ok (put_slot i sl s0) nm job" if j: "get_job s nm = Some job" for nm job
  proof -
    have "i \<notin> job_ids job" using assms(2) j by (auto simp: fresh_id_def)
    then show ?thesis
      using jobs_ok_job[OF assms(1) j] assms(4,7) by (auto simp: job_ok_def owned_def job_ids_def)
  qed
  then have "flock_but X (put_slot i sl s0)"
    using assms none flock_butD(1)[OF assms(1)] by (auto simp: flock_but_def jobs_ok_def)
  moreover have "balance k (put_slot i sl s0) = balance k s" for k
    using none assms(4) assms(12)[of k] by (auto simp: balance_def running_def)
  moreover have "claimed s k \<Longrightarrow> claimed (put_slot i sl s0) k" for k
    using none assms(4) by (auto simp: claimed_def)
  ultimately show ?thesis using assms(7-11,13) by (simp add: keeps_but_def)
qed

lemma running_slot_ok_new:
  assumes "e_id en = i" "i < n" "e_pending en = None" "e_pid en \<noteq> None" "e_started_at en \<noteq> None"
    "e_status en \<in> {Starting, Online}"
  shows "slot_ok n st i (running_slot w gated en)" "sl_ctl (running_slot w gated en)"
  using assms by (auto simp: running_slot_def slot_new_def slot_ok_def slot_base_def in_service_def
      parked_ok_def waits_ok_no_waits)

lemma rest_slot_ok_new:
  assumes "e_id en = i" "i < n" "e_pending en = None" "e_pid en = None" "e_started_at en = None"
    "e_status en \<in> {Stopped, Errored, WaitingRestart}" "e_reload en = RNone"
  shows "slot_ok n st i (slot_new en)" "\<not> sl_ctl (slot_new en)"
  using assms by (auto simp: slot_new_def slot_ok_def slot_base_def at_rest_def
      parked_ok_def waits_ok_no_waits resting_status_def)

lemma assembled_keeps:
  assumes "flock_but X s" "assembled w app i inst cr s = (r, s')"
  shows "keeps_but X s s'" "fresh_id Y s k \<Longrightarrow> fresh_id Y s' k"
proof -
  note fr = assembled_frame[OF assms(2)]
  have jobs: "get_job s' = get_job s" by (rule get_job_cong[OF fr(9)])
  then have "jobs_ok s'" using flock_butD(3)[OF assms(1)] jobs_ok_cong[OF fr(1) jobs fr(2)] by simp
  then show "keeps_but X s s'"
    by (intro frame_keeps[OF assms(1)]) (simp_all add: fr flock_butD(2)[OF assms(1)])
  show "fresh_id Y s k \<Longrightarrow> fresh_id Y s' k"
    using fr jobs by (simp add: fresh_id_def)
qed

lemma emit_keeps: "flock_but X s \<Longrightarrow> keeps_but X s (emit ev info m s)"
  by (rule frame_keeps) (auto dest: flock_butD)

lemma listeners_keeps:
  "flock_but X s \<Longrightarrow> keeps_but X s (s\<lparr> listeners_before := v \<rparr>)"
  "flock_but X s \<Longrightarrow> keeps_but X s (restore_listeners nm s)"
  by (rule frame_keeps; auto simp: restore_listeners_def dest: flock_butD split: option.splits)+

text \<open>A status written over a running sheep's keeps the flock in order.\<close>

lemma status_keeps:
  assumes "flock_but X s" "\<And>sl. get_slot s i = Some sl \<Longrightarrow> sl_ctl sl \<and> g sl \<in> {Starting, Online, Stopping}"
  shows "keeps_but X s (upd_slot i (\<lambda>sl. upd_entry (\<lambda>e. e\<lparr> e_status := g sl \<rparr>) sl) s)"
  using assms(2) by (intro upd_slot_keeps[OF assms(1)]) (auto simp: gentle_def upd_entry_def alike_entry)

lemma restored_status_live: "restored_status sl \<in> {Starting, Online, Stopping}"
  by (simp add: restored_status_def)

subsection \<open>Swaps keep the flock in order\<close>

lemma arm_reload_deadline_frame [simp]:
  "get_slot (arm_reload_deadline nm i s) = get_slot s"
  by (auto simp: arm_reload_deadline_def Let_def fun_eq_iff split: option.splits)

lemma arm_reload_deadline_keeps:
  assumes "flock_but X s" "get_slot s i \<noteq> None" "get_job s nm \<noteq> None"
  shows "keeps_but X s (arm_reload_deadline nm i s)"
proof -
  obtain sl where sl: "get_slot s i = Some sl" using assms(2) by auto
  let ?s1 = "s\<lparr> next_deadline := next_deadline s + 1 \<rparr>"
  have k1: "keeps_but X s ?s1" using assms(1) by (intro frame_keeps) (auto dest: flock_butD)
  let ?s2 = "upd_job nm (\<lambda>job. job\<lparr> j_deadline := next_deadline s \<rparr>) ?s1"
  have "job_ok ?s1 nm (job\<lparr> j_deadline := next_deadline s \<rparr>)" if "get_job ?s1 nm = Some job" for job
    using jobs_ok_job[OF keeps_flock[OF k1] that] by (simp add: job_ok_def job_ids_def)
  then have k2: "keeps_but X s ?s2" by (intro keeps_trans[OF k1 upd_job_keeps[OF keeps_flock[OF k1]]])
  show ?thesis
    using keeps_trans[OF k2 quiet_effect_keeps[OF keeps_flock[OF k2], of "ArmDeadline nm d b" for d b]]
      sl assms(3) by (auto simp: arm_reload_deadline_def Let_def)
qed

lemma spawn_replacement_jobs:
  "spawn_replacement w old_id mode s = (r, s') \<Longrightarrow> get_job s' = get_job s"
proof -
  have rs: "get_job (restore_listeners nm t) = get_job t" for nm t
    by (auto simp: restore_listeners_def split: option.splits)
  have as: "assembled w app i inst cr t = (a, t') \<Longrightarrow> get_job t' = get_job t" for app i inst cr t a t'
    by (rule get_job_cong[OF assembled_frame(9)])
  assume "spawn_replacement w old_id mode s = (r, s')"
  then show ?thesis
    by (auto simp: spawn_replacement_def Let_def rs dest!: as
        split: option.splits sum.splits if_splits prod.splits)
qed

text \<open>Undoing the marker of an overlap reload whose replacement never spawned.\<close>

lemma undrain_keeps:
  assumes "flock_but X s" "get_slot s i = Some sl" "sl_ctl sl" "get_job s (slot_name sl) = None"
  shows "keeps_but X s (upd_slot i (\<lambda>sl. upd_entry (\<lambda>e. e\<lparr>
           e_status := restored_status sl, e_reload := RNone \<rparr>) sl) s)"
    (is "keeps_but X s (upd_slot i ?f s)")
proof (rule slot_change_keeps[OF assms(1)])
  show "jobs_ok (upd_slot i ?f s)"
    using flock_butD(3)[OF assms(1)] assms(2,4)
    by (intro jobs_ok_upd_slot) (auto simp: upd_entry_def)
next
  fix sl' assume "get_slot s i = Some sl'"
  then show "slot_fit X (next_id s) (next_action_stamp s) i (?f sl') \<and> sl_ctl (?f sl') = sl_ctl sl' \<and>
      (sl_manual (?f sl') = None \<longleftrightarrow> sl_manual sl' = None)"
    using flock_butD(1)[OF assms(1), of i sl'] assms(2,3) restored_status_live[of sl']
    by (auto simp: slot_fit_def slot_ok_def slot_base_def parked_ok_def at_rest_def in_service_def upd_entry_def
        split: if_splits)
qed

lemma replacement_slot:
  assumes "i < n" "parked_ok old"
    and "sl = running_slot w True
      (replacement_entry w i (case e_pending (sl_entry old) of Some p \<Rightarrow> p | None \<Rightarrow> slot_app old)
         cr spec pid (sl_entry old))"
  shows "slot_ok n st i sl" "sl_ctl sl" "\<not> wears_drainee sl" "slot_name sl = slot_name old"
proof -
  show "slot_ok n st i sl" "sl_ctl sl"
    unfolding assms(3) using assms(1) by (auto intro!: running_slot_ok_new simp: replacement_entry_def)
  show "\<not> wears_drainee sl" "slot_name sl = slot_name old"
    using assms(2,3) by (auto simp: replacement_entry_def wears_drainee_def running_slot_def slot_new_def
        parked_ok_def split: option.splits)
qed

text \<open>
  What a spawned replacement leaves: both halves registered under the app's name, the old one
  wearing the drainee's marker and the new one running without it, under an id no job names.
\<close>

definition swapped :: "actor \<Rightarrow> string \<Rightarrow> nat \<Rightarrow> nat \<Rightarrow> bool" where
  "swapped s nm old_id new_id \<longleftrightarrow>
     (\<exists>old new. get_slot s old_id = Some old \<and> get_slot s new_id = Some new \<and> slot_name old = nm \<and>
       slot_name new = nm \<and> wears_drainee old \<and> \<not> wears_drainee new \<and> sl_ctl new \<and>
       old_id < next_id s \<and> new_id < next_id s)"

lemma swapped_cong:
  "get_slot s' = get_slot s \<Longrightarrow> next_id s' = next_id s \<Longrightarrow> swapped s' nm o' n = swapped s nm o' n"
  by (simp add: swapped_def)

lemma swapped_job_ok:
  "swapped s nm old_id new_id \<Longrightarrow> \<forall>i \<in> set queue. owned s nm i \<Longrightarrow>
    job_ok s nm \<lparr> j_queue = queue, j_mode = m,
      j_swap = \<lparr> sw_old_id = old_id, sw_new_id = Some new_id, sw_phase = p \<rparr>, j_deadline = d \<rparr>"
  by (auto simp: swapped_def job_ok_def job_ids_def owned_def)

lemma spawn_replacement_keeps:
  assumes f: "flock_but X s" and X: "X \<subseteq> {old_id}" and old: "get_slot s old_id = Some old"
    and live: "sl_ctl old \<or> old_id \<in> X"
    and mode: "if mode = Overlap then sl_ctl old \<and> get_job s (slot_name old) = None else wears_drainee old"
    and sp: "spawn_replacement w old_id mode s = (r, s')"
  shows "keeps_but X s s'" "r = Inr n \<Longrightarrow> swapped s' (slot_name old) old_id n"
proof -
  let ?app = "case e_pending (sl_entry old) of Some p \<Rightarrow> p | None \<Rightarrow> slot_app old"
  let ?new = "next_id s"
  let ?s1 = "s\<lparr> next_id := ?new + 1 \<rparr>"
  have base: "slot_base (next_id s) (next_action_stamp s) old_id old" by (rule flock_but_slot_base[OF f old])
  then have lt: "old_id < ?new" and parked: "parked_ok old" by (simp_all add: slot_base_def)
  have k1: "keeps_but X s ?s1" by (rule bump_keeps[OF f])
  have fresh1: "fresh_id X ?s1 ?new" using fresh_bump[OF f] X lt by auto
  have "keeps_but X s s' \<and> (r = Inr n \<longrightarrow> swapped s' (slot_name old) old_id n)"
  proof (cases "is_disabled_id s old_id \<or> (\<exists>e. intended_credentials w old = Inl e)")
    case True
    then have "s' = s \<and> (\<exists>e. r = Inl e)" using sp old by (auto simp: spawn_replacement_def split: if_splits)
    then show ?thesis using keeps_refl[OF f] by auto
  next
    case False
    then obtain cr where nd: "\<not> is_disabled_id s old_id" and cr: "intended_credentials w old = Inr cr"
      by (cases "intended_credentials w old") auto
    obtain a s2 where a: "assembled w ?app ?new (e_instance (sl_entry old)) cr ?s1 = (a, s2)" by fastforce
    note k2 = keeps_trans[OF k1 assembled_keeps(1)[OF keeps_flock[OF k1] a]]
    note fr2 = assembled_frame[OF a]
    show ?thesis
    proof (cases a)
      case (Inl e)
      then have "s' = s2" "\<exists>e. r = Inl e"
        using sp old nd cr a by (auto simp: spawn_replacement_def Let_def)
      then show ?thesis using k2 by auto
    next
      case (Inr spec)
      let ?nm = "app_name ?app"
      let ?s3 = "s2\<lparr> listeners_before := AList.update ?nm (map_of (listeners ?s1) ?nm) (listeners_before s2) \<rparr>"
      let ?s4 = "upd_slot old_id (upd_entry (\<lambda>e. e\<lparr> e_status := Stopping, e_reload := Drainee (Some ?new) \<rparr>)) ?s3"
      have old3: "get_slot ?s3 old_id = Some old" using fr2(1) old by simp
      have jobs3: "get_job ?s3 = get_job s" using get_job_cong[OF fr2(9)] by simp
      note k3 = keeps_trans[OF k2 listeners_keeps(1)[OF keeps_flock[OF k2]]]
      have k4: "keeps_but X s ?s4"
        using mode live old3 jobs3
        by (intro keeps_trans[OF k3 drain_keeps[OF keeps_flock[OF k3]]]) (auto split: if_splits)
      have fresh4: "fresh_id X ?s4 ?new"
        using fresh1 fr2 get_job_cong[OF fr2(9)] lt by (auto simp: fresh_id_def)
      show ?thesis
      proof (cases "w_spawn w ?new spec")
        case (Inl err)
        have j4: "get_job ?s4 = get_job s" using jobs3 by simp
        let ?s5 = "if mode = Overlap then upd_slot old_id (\<lambda>sl. upd_entry (\<lambda>e. e\<lparr>
            e_status := restored_status sl, e_reload := RNone \<rparr>) sl) ?s4 else ?s4"
        have k5: "keeps_but X s ?s5"
          using k4 keeps_trans[OF k4 undrain_keeps[OF keeps_flock[OF k4]]] mode old3 j4
          by (auto simp: upd_entry_def split: if_splits)
        have "(Inl err, restore_listeners ?nm ?s5) = (r, s')"
          using sp old nd cr a Inr Inl by (simp add: spawn_replacement_def Let_def split del: if_split cong: if_cong)
        then have "keeps_but X s s'" "\<exists>e. r = Inl e"
          using keeps_trans[OF k5 listeners_keeps(2)[OF keeps_flock[OF k5]], of ?nm] by auto
        then show ?thesis by auto
      next
        case (Inr pid)
        let ?en = "replacement_entry w ?new ?app cr spec pid (sl_entry old)"
        let ?sl = "running_slot w True ?en"
        let ?s5 = "effect (ArmReadiness ?new 0 True (of_normalized ?app) (as_duration (app_listen_timeout ?app)))
          (effect (Spawned ?new pid) ?s4)"
        note new = replacement_slot[where w = w and cr = cr and spec = spec and pid = pid, OF _ parked refl]
        have n4: "?new < next_id ?s4" using fresh4 by (simp add: fresh_id_def)
        have "keeps_but X ?s4 (put_slot ?new ?sl ?s5)"
          using new[OF n4] flock_butD(2)[OF keeps_flock[OF k4]]
          by (intro put_fresh_keeps[OF keeps_flock[OF k4] fresh4]) auto
        note k6 = keeps_trans[OF k4 this]
        have sw: "swapped (put_slot ?new ?sl ?s5) (slot_name old) old_id ?new"
          using new[OF n4] n4 old3 lt fr2(2)
          by (auto simp: swapped_def wears_drainee_def upd_entry_def)
        have eqs: "r = Inr ?new" "get_slot s' = get_slot (put_slot ?new ?sl ?s5)"
          "next_id s' = next_id (put_slot ?new ?sl ?s5)"
          using sp old nd cr a \<open>a = Inr spec\<close> Inr by (auto simp: spawn_replacement_def Let_def fun_eq_iff)
        have "keeps_but X s s'"
        proof -
          let ?s7 = "if mode = Overlap then emit EvReload (info_of w old_id (put_slot ?new ?sl ?s5)) True
            (put_slot ?new ?sl ?s5) else put_slot ?new ?sl ?s5"
          have k7: "keeps_but X s ?s7"
            using k6 keeps_trans[OF k6 emit_keeps[OF keeps_flock[OF k6]]] by simp
          have "(Inr ?new, emit EvStart (to_info (w_now w) ?en (smits ?s4)) True ?s7) = (r, s')"
            using sp old nd cr a \<open>a = Inr spec\<close> Inr
            by (simp add: spawn_replacement_def Let_def split del: if_split cong: if_cong)
          then show ?thesis using keeps_trans[OF k7 emit_keeps[OF keeps_flock[OF k7]]] by auto
        qed
        then show ?thesis using sw eqs(1) swapped_cong[OF eqs(2,3)] by auto
      qed
    qed
  qed
  then show "keeps_but X s s'" "r = Inr n \<Longrightarrow> swapped s' (slot_name old) old_id n" by auto
qed

lemma restore_listeners_frame [simp]:
  "get_slot (restore_listeners nm s) = get_slot s" "get_job (restore_listeners nm s) = get_job s"
  "next_id (restore_listeners nm s) = next_id s"
  by (auto simp: restore_listeners_def split: option.splits)

lemma spawn_replacement_others:
  assumes "spawn_replacement w old_id mode s = (r, s')" "k \<noteq> old_id" "k < next_id s"
  shows "get_slot s' k = get_slot s k"
proof -
  have as: "assembled w app i inst cr t = (a, t') \<Longrightarrow> get_slot t' = get_slot t" for app i inst cr t a t'
    by (rule assembled_frame(1))
  show ?thesis
    using assms by (auto simp: spawn_replacement_def Let_def dest!: as
        split: option.splits sum.splits if_splits prod.splits)
qed

lemma emit_reload_abandoned_keeps: "flock_but X s \<Longrightarrow> keeps_but X s (emit_reload_abandoned w i s)"
  using keeps_refl[of X s] emit_keeps[of X s] by (auto simp: emit_reload_abandoned_def split: option.splits)

lemma owned_upd_slot:
  "(\<And>sl. slot_name (f sl) = slot_name sl) \<Longrightarrow> owned (upd_slot i f s) nm k = owned s nm k"
  by (auto simp: owned_def)

lemma begin_serial_drain_keeps:
  assumes f: "flock_but X s" and old: "get_slot s i = Some sl" "sl_ctl sl" "get_job s (slot_name sl) = None"
    and q: "\<forall>k \<in> set queue. owned s (slot_name sl) k"
  shows "keeps_but X s (begin_serial_drain w (slot_name sl) i queue s)"
proof -
  let ?f = "upd_entry (\<lambda>e. e\<lparr> e_status := Stopping, e_reload := Drainee None \<rparr>)"
  let ?s1 = "upd_slot i ?f s"
  let ?job = "\<lparr> j_queue = queue, j_mode = Serial,
      j_swap = \<lparr> sw_old_id = i, sw_new_id = None, sw_phase = DrainFirst \<rparr>, j_deadline = 0 \<rparr>"
  let ?s2 = "put_job (slot_name sl) ?job ?s1"
  let ?s3 = "emit EvReload (info_of w i ?s1) True (arm_reload_deadline (slot_name sl) i ?s2)"
  have lt: "i < next_id s" using flock_but_slot_base[OF f old(1)] by (simp add: slot_base_def)
  have k1: "keeps_but X s ?s1" by (rule drain_keeps[OF f old(1)]) (use old in simp_all)
  have "\<forall>k \<in> set queue. owned ?s1 (slot_name sl) k" "owned ?s1 (slot_name sl) i"
    using q old(1) lt by (simp_all add: owned_upd_slot upd_entry_def owned_def[of s _ i])
  then have "job_ok ?s1 (slot_name sl) ?job"
    using old(1) by (simp add: job_ok_def job_ids_def wears_drainee_def upd_entry_def)
  then have k2: "keeps_but X s ?s2" by (rule keeps_trans[OF k1 put_job_keeps[OF keeps_flock[OF k1]]])
  have k3: "keeps_but X s (arm_reload_deadline (slot_name sl) i ?s2)"
    using old(1) by (intro keeps_trans[OF k2 arm_reload_deadline_keeps[OF keeps_flock[OF k2]]]) auto
  have k4: "keeps_but X s ?s3" by (rule keeps_trans[OF k3 emit_keeps[OF keeps_flock[OF k3]]])
  have "running ?s3 i" using old by (simp add: running_def upd_entry_def)
  then have "keeps_but X s (claim_manual i m cap ?s3)" for m cap
    by (rule keeps_trans[OF k4 claim_manual_keeps[OF keeps_flock[OF k4]]])
  then show ?thesis using old(1) by (simp add: begin_serial_drain_def expect_slot_def Let_def)
qed

lemma replaceable_running:
  assumes "flock_ok s" "replaceable s i"
  obtains sl where "get_slot s i = Some sl" "sl_ctl sl"
proof -
  obtain sl where sl: "get_slot s i = Some sl" "reload_eligible sl"
    using assms(2) by (auto simp: replaceable_def split: option.splits)
  have "sl_ctl sl"
  proof (rule ccontr)
    assume "\<not> sl_ctl sl"
    from slot_ok_resting[OF flock_okD[OF assms(1) sl(1)] this] show False
      using sl(2) by (auto simp: reload_eligible_def resting_status_def at_rest_def)
  qed
  then show ?thesis using that sl(1) by blast
qed

lemma advance_loop_keeps:
  assumes "flock_ok s" "get_job s nm = None" "\<forall>k \<in> set queue. owned s nm k"
  shows "keeps s (advance_loop w nm queue s)"
  using assms
proof (induction queue)
  case Nil
  then show ?case using del_job_keeps by simp
next
  case (Cons i queue)
  show ?case
  proof (cases "replaceable s i")
    case False
    then show ?thesis using Cons by simp
  next
    case True
    then obtain sl where sl: "get_slot s i = Some sl" "sl_ctl sl" by (rule replaceable_running[OF Cons.prems(1)])
    have nm: "slot_name sl = nm" using Cons.prems(3) sl(1) by (auto simp: owned_def)
    have mode [simp]: "reload_mode_of s i \<noteq> None" using sl(1) by (simp add: reload_mode_of_def intended_spec_def)
    show ?thesis
    proof (cases "reload_mode_of s i = Some Serial")
      case serial: True
      have "keeps s (begin_serial_drain w (slot_name sl) i queue s)"
        using Cons.prems nm by (intro begin_serial_drain_keeps[OF _ sl]) auto
      then show ?thesis using True serial nm by simp
    next
      case overlap: False
      obtain r s1 where sp: "spawn_replacement w i Overlap s = (r, s1)" by fastforce
      note k1 = spawn_replacement_keeps[OF Cons.prems(1) _ sl(1) _ _ sp]
      have kp: "keeps s s1" using sl nm Cons.prems(2) by (intro k1(1)) auto
      show ?thesis
      proof (cases r)
        case (Inl e)
        have d: "keeps s (del_job nm s1)" by (rule keeps_trans[OF kp del_job_keeps[OF keeps_flock[OF kp]]])
        show ?thesis
          using True overlap sp Inl keeps_trans[OF d emit_reload_abandoned_keeps[OF keeps_flock[OF d]]]
          by simp
      next
        case (Inr n)
        let ?job = "\<lparr> j_queue = queue, j_mode = Overlap,
            j_swap = \<lparr> sw_old_id = i, sw_new_id = Some n, sw_phase = AwaitReady \<rparr>, j_deadline = 0 \<rparr>"
        have sw: "swapped s1 nm i n" using sl nm Cons.prems(2) Inr k1(2)[of n] by auto
        have le: "next_id s \<le> next_id s1" using kp by (simp add: keeps_but_def)
        have own: "owned s1 nm k" if "owned s nm k" for k
          using that le sw spawn_replacement_others[OF sp, of k]
          by (cases "k = i") (auto simp: owned_def swapped_def)
        have "job_ok s1 nm ?job" using Cons.prems(3) own by (intro swapped_job_ok[OF sw]) auto
        then have k2: "keeps s (put_job nm ?job s1)"
          by (rule keeps_trans[OF kp put_job_keeps[OF keeps_flock[OF kp]]])
        have "keeps s (arm_reload_deadline nm n (put_job nm ?job s1))"
          using sw by (intro keeps_trans[OF k2 arm_reload_deadline_keeps[OF keeps_flock[OF k2]]])
            (auto simp: swapped_def)
        then show ?thesis using True overlap sp Inr by (simp add: Let_def)
      qed
    qed
  qed
qed

lemma advance_reload_keeps:
  "flock_ok s \<Longrightarrow> get_job s nm = None \<Longrightarrow> \<forall>k \<in> set queue. owned s nm k \<Longrightarrow>
    keeps s (advance_reload w nm queue s)"
  using advance_loop_keeps del_job_keeps by (auto simp: advance_reload_def)

text \<open>A reload of one app touches no other app's job and renames nobody.\<close>

lemma claim_manual_jobs [simp]: "get_job (claim_manual i m cap s) = get_job s"
  using claim_manual_touch[of i s m cap] by (intro get_job_cong) (simp add: touch_def)

lemma arm_reload_deadline_jobs:
  "nm' \<noteq> nm \<Longrightarrow> get_job (arm_reload_deadline nm i s) nm' = get_job s nm'"
  by (auto simp: arm_reload_deadline_def Let_def split: option.splits)

lemma emit_reload_abandoned_frame [simp]:
  "get_job (emit_reload_abandoned w i s) = get_job s" "get_slot (emit_reload_abandoned w i s) = get_slot s"
  "next_id (emit_reload_abandoned w i s) = next_id s"
  by (auto simp: emit_reload_abandoned_def split: option.splits)

definition named :: "actor \<Rightarrow> nat \<Rightarrow> string option" where
  "named s k = map_option slot_name (get_slot s k)"

lemma named_frame:
  "get_slot s' = get_slot s \<Longrightarrow> named s' = named s"
  by (simp add: named_def fun_eq_iff)

lemma named_owned:
  "named s' k = named s k \<Longrightarrow> next_id s \<le> next_id s' \<Longrightarrow> owned s nm k \<Longrightarrow> owned s' nm k"
  by (cases "get_slot s k") (auto simp: named_def owned_def)

lemma named_upd_slot:
  "(\<And>sl. slot_name (f sl) = slot_name sl) \<Longrightarrow> named (upd_slot i f s) = named s"
  by (auto simp: named_def fun_eq_iff option.map_comp o_def)

lemma named_claim_manual [simp]: "named (claim_manual i m cap s) = named s"
proof
  fix k
  have "map_option slot_name (get_slot (claim_manual i m cap s) k) = map_option slot_name (get_slot s k)"
    unfolding claim_manual_slot by (cases "get_slot s i") (auto split: option.splits)
  then show "named (claim_manual i m cap s) k = named s k" by (simp add: named_def)
qed

lemma spawn_replacement_named:
  assumes "spawn_replacement w old_id mode s = (r, s')" "k < next_id s"
  shows "named s' k = named s k"
proof -
  have as: "assembled w app i inst cr t = (a, t') \<Longrightarrow> get_slot t' = get_slot t" for app i inst cr t a t'
    by (rule assembled_frame(1))
  show ?thesis
    using assms by (auto simp: spawn_replacement_def Let_def named_def upd_entry_def option.map_comp o_def
        dest!: as split: option.splits sum.splits if_splits prod.splits)
qed

lemma begin_serial_drain_frame:
  "named (begin_serial_drain w nm i queue s) = named s"
  "nm' \<noteq> nm \<Longrightarrow> get_job (begin_serial_drain w nm i queue s) nm' = get_job s nm'"
  by (auto simp: begin_serial_drain_def Let_def expect_slot_def arm_reload_deadline_jobs
      named_frame[of "emit ev info m s" s for ev info m s] named_frame[OF arm_reload_deadline_frame]
      named_frame[of "put_job nm job s" s for nm job s] named_frame[of "panic s" s for s]
      named_upd_slot upd_entry_def fun_eq_iff)

lemma advance_loop_frame:
  "nm' \<noteq> nm \<Longrightarrow> get_job (advance_loop w nm queue s) nm' = get_job s nm'"
  "k < next_id s \<Longrightarrow> named (advance_loop w nm queue s) k = named s k"
proof (induction queue)
  case (Cons i queue)
  {
    case 1
    then show ?case
      using Cons.IH(1) by (auto simp: begin_serial_drain_frame arm_reload_deadline_jobs Let_def
          dest: spawn_replacement_jobs split: sum.splits prod.splits)
  next
    case 2
    then show ?case
      using Cons.IH(2) by (auto simp: begin_serial_drain_frame Let_def
          named_frame[OF emit_reload_abandoned_frame(2)] named_frame[OF arm_reload_deadline_frame]
          named_frame[of "del_job nm s" s for s] named_frame[of "panic s" s for s] named_frame[of "put_job nm job s" s for job s] fun_eq_iff
          dest: spawn_replacement_named split: sum.splits prod.splits)
  }
qed (simp_all add: named_def)

lemma advance_reload_frame:
  "nm' \<noteq> nm \<Longrightarrow> get_job (advance_reload w nm queue s) nm' = get_job s nm'"
  "k < next_id s \<Longrightarrow> named (advance_reload w nm queue s) k = named s k"
  by (simp_all add: advance_reload_def advance_loop_frame named_frame[of "del_job nm s" s] fun_eq_iff)

lemma advance_fold_keeps:
  assumes "flock_ok s" "distinct (map fst queues)"
    "\<forall>(nm, queue) \<in> set queues. get_job s nm = None \<and> (\<forall>k \<in> set queue. owned s nm k)"
  shows "keeps s (fold (\<lambda>(nm, queue) s. advance_reload w nm queue s) queues s)"
  using assms
proof (induction queues arbitrary: s)
  case (Cons q queues)
  obtain nm queue where q: "q = (nm, queue)" by (cases q)
  let ?s = "advance_reload w nm queue s"
  have k: "keeps s ?s" using Cons.prems q by (intro advance_reload_keeps) auto
  have le: "next_id s \<le> next_id ?s" using k by (simp add: keeps_but_def)
  have "get_job ?s nm' = None \<and> (\<forall>k \<in> set queue'. owned ?s nm' k)" if "(nm', queue') \<in> set queues" for nm' queue'
  proof -
    have "nm' \<noteq> nm" using Cons.prems(2) that q by force
    then have "get_job ?s nm' = get_job s nm'" by (rule advance_reload_frame)
    moreover have "owned ?s nm' k" if "owned s nm' k" for k
    proof -
      have "k < next_id s" using that by (simp add: owned_def)
      from named_owned[OF advance_reload_frame(2)[OF this] le that] show ?thesis .
    qed
    ultimately show ?thesis using Cons.prems(3) that by fastforce
  qed
  then have "keeps ?s (fold (\<lambda>(nm, queue) s. advance_reload w nm queue s) queues ?s)"
    using Cons.prems(2) by (intro Cons.IH[OF keeps_flock[OF k]]) auto
  then show ?case using keeps_trans[OF k] q by simp
qed (simp add: keeps_refl)

lemma reload_queues_owned:
  assumes "flock_ok s" "(nm, queue) \<in> set (reload_queues s matched)" "k \<in> set queue"
  shows "owned s nm k" "\<exists>sl. get_slot s k = Some sl \<and> slot_name sl = nm" "k \<in> set matched"
proof -
  have q: "k \<in> set matched \<and> (case get_slot s k of None \<Rightarrow> False | Some sl \<Rightarrow> reload_eligible sl) \<and>
      (case get_slot s k of None \<Rightarrow> [] | Some sl \<Rightarrow> slot_name sl) = nm"
    using assms(2,3) by (auto simp: reload_queues_def Let_def)
  then show "\<exists>sl. get_slot s k = Some sl \<and> slot_name sl = nm" "k \<in> set matched"
    by (auto split: option.splits)
  then show "owned s nm k" using flock_but_slot_base[OF assms(1)] by (auto simp: owned_def slot_base_def)
qed

lemma reload_queues_keys: "distinct (map fst (reload_queues s matched))"
  by (simp add: reload_queues_def Let_def o_def)

lemma reload_queue_named:
  assumes "(nm, queue) \<in> set (reload_queues s matched)"
  shows "\<exists>i \<in> set matched. \<exists>sl. get_slot s i = Some sl \<and> slot_name sl = nm"
  using assms by (fastforce simp: reload_queues_def Let_def split: option.splits)

lemma in_flight_none:
  assumes "in_flight s matched = None" "i \<in> set matched" "get_slot s i = Some sl"
  shows "get_job s (slot_name sl) = None"
proof (rule ccontr)
  assume "get_job s (slot_name sl) \<noteq> None"
  then have "slot_name sl \<in> set (List.map_filter (\<lambda>i. case get_slot s i of
              None \<Rightarrow> None
            | Some sl \<Rightarrow> if get_job s (slot_name sl) \<noteq> None then Some (slot_name sl) else None) matched)"
    using assms(2,3) by (force simp: List.map_filter_def image_iff)
  then show False using assms(1) by (auto simp: in_flight_def split: list.splits)
qed

lemma handle_reload_keeps:
  assumes f: "flock_ok s"
  shows "keeps s (handle_reload w sel c s)"
proof -
  have e: "keeps s (effect (Reply c b) s)" for b by (rule quiet_effect_keeps[OF f]) simp
  let ?m = "matching_ids s sel"
  have "keeps s (fold (\<lambda>(nm, queue) s. advance_reload w nm queue s) (reload_queues s ?m)
      (effect (Reply c b) s))" if fl: "in_flight s ?m = None" for b
  proof (rule keeps_trans[OF e advance_fold_keeps[OF keeps_flock[OF e] reload_queues_keys]])
    have "get_job s nm = None \<and> (\<forall>k \<in> set queue. owned s nm k)"
      if "(nm, queue) \<in> set (reload_queues s ?m)" for nm queue
      using reload_queue_named[OF that] in_flight_none[OF fl] reload_queues_owned(1)[OF f that] by metis
    then show "\<forall>(nm, queue) \<in> set (reload_queues s ?m).
        get_job (effect (Reply c b) s) nm = None \<and> (\<forall>k \<in> set queue. owned (effect (Reply c b) s) nm k)"
      by (auto simp: owned_def)
  qed
  then show ?thesis using e by (simp add: handle_reload_def Let_def split: sum.splits option.splits)
qed

subsection \<open>Ending a swap keeps the flock in order\<close>

lemma debug_assert_keeps: "flock_but X s \<Longrightarrow> keeps_but X s (debug_assert b s)"
  by (rule frame_keeps) (auto simp: debug_assert_def dest: flock_butD)

text \<open>Marking a running sheep for deletion and claiming its exit.\<close>

lemma doom_keeps:
  assumes "flock_but X s" "running s i"
  shows "keeps_but X s (claim_manual i m cap (upd_slot i (\<lambda>sl. sl\<lparr> sl_pending_delete := True \<rparr>) s))"
    (is "keeps_but X s (claim_manual i m cap ?s)")
proof (rule touch_keeps[OF assms(1)])
  have "touch i s ?s" by (rule touch_upd_slot) (simp add: alike_entry)
  then show "touch i s (claim_manual i m cap ?s)" by (rule touch_trans[OF _ claim_manual_touch])
  have r: "running ?s i" using assms(2) by (auto simp: running_def split: option.splits)
  then show "balance i (claim_manual i m cap ?s) = balance i s"
    using assms(2) by (simp add: balance_def)
  show "claimed (claim_manual i m cap ?s) i" by (rule claim_manual_claimed[OF r])
  obtain sl where sl: "get_slot s i = Some sl" "sl_ctl sl" "in_service sl" "i \<notin> X"
    "slot_ok (next_id s) (next_action_stamp s) i sl"
    by (rule running_slot_ok[OF assms])
  fix sl' assume "get_slot (claim_manual i m cap ?s) i = Some sl'"
  then obtain m' where "sl' = sl\<lparr> sl_pending_delete := True, sl_manual := Some m' \<rparr>"
    using sl(1) by (cases sl) (auto simp: claim_manual_slot split: option.splits if_splits)
  then show "slot_fit X (next_id s) (next_action_stamp s) i sl'"
    using sl(3-5) by (simp add: slot_ok_def slot_base_def parked_ok_def in_service_def)
qed auto

lemma job_memberI:
  "sw_old_id (j_swap job) \<in> job_ids job" "sw_new_id (j_swap job) = Some n \<Longrightarrow> n \<in> job_ids job"
  by (simp_all add: job_ids_def)

lemma no_drain_frame:
  "get_job s' = get_job s \<Longrightarrow> no_drain_of s' i = no_drain_of s i"
  by (simp add: no_drain_of_def)

text \<open>The drainee goes back to serving, the replacement is killed and its row goes with it.\<close>

definition abort_drainee :: "world \<Rightarrow> nat \<Rightarrow> actor \<Rightarrow> actor" where
  "abort_drainee w old_id s =
     (case get_slot s old_id of
        None \<Rightarrow> s
      | Some drainee \<Rightarrow>
          (let s = upd_slot old_id (set_reload RNone) s;
               s = (if sl_ctl drainee \<and> sl_manual drainee = None
                    then upd_slot old_id (\<lambda>sl. upd_entry
                           (\<lambda>e. e\<lparr> e_status := restored_status sl \<rparr>) sl) s
                    else s)
           in emit EvReloadAbandoned (info_of w old_id s) True s))"

definition abort_replacement :: "nat \<Rightarrow> actor \<Rightarrow> actor" where
  "abort_replacement new_id s =
     (case get_slot s new_id of
        None \<Rightarrow> s
      | Some replacement \<Rightarrow>
          (let s = upd_slot new_id (set_reload RNone) s in
           if \<not> sl_ctl replacement then s
           else claim_manual new_id \<lparr> m_kind = MDelete, m_origin = Operator \<rparr> StopCap
                  (upd_slot new_id (\<lambda>sl. sl\<lparr> sl_pending_delete := True \<rparr>) s)))"

lemma abort_reload_parts:
  "get_job s nm = Some job \<Longrightarrow> abort_reload w nm s =
     (case sw_new_id (j_swap job) of None \<Rightarrow> id | Some n \<Rightarrow> abort_replacement n)
       (abort_drainee w (sw_old_id (j_swap job)) (restore_listeners nm
         (debug_assert (sw_phase (j_swap job) = AwaitReady) (del_job nm s))))"
  by (simp add: abort_reload_def abort_drainee_def abort_replacement_def Let_def split: option.splits)

lemma abort_drainee_frame:
  "get_job (abort_drainee w i s) = get_job s"
  "k \<noteq> i \<Longrightarrow> get_slot (abort_drainee w i s) k = get_slot s k"
  by (auto simp: abort_drainee_def Let_def split: option.splits)

lemma abort_drainee_keeps:
  assumes "flock_but X s" "no_drain_of s i \<or> get_slot s i = None"
  shows "keeps_but X s (abort_drainee w i s)"
proof (cases "get_slot s i")
  case None
  then show ?thesis using keeps_refl[OF assms(1)] by (simp add: abort_drainee_def)
next
  case (Some sl)
  have k1: "keeps_but X s (upd_slot i (set_reload RNone) s)" (is "keeps_but X s ?s1")
    using clear_reload_keeps[OF assms] by (simp add: clear_reload_def)
  let ?s2 = "upd_slot i (\<lambda>sl. upd_entry (\<lambda>e. e\<lparr> e_status := restored_status sl \<rparr>) sl) ?s1"
  have k2: "keeps_but X s ?s2" if "sl_ctl sl"
    using Some that restored_status_live
    by (intro keeps_trans[OF k1 status_keeps[OF keeps_flock[OF k1]]]) auto
  have k3: "keeps_but X s (if sl_ctl sl \<and> sl_manual sl = None then ?s2 else ?s1)" using k1 k2 by simp
  show ?thesis
    using Some keeps_trans[OF k3 emit_keeps[OF keeps_flock[OF k3]]]
    by (simp add: abort_drainee_def Let_def split del: if_split cong: if_cong)
qed

lemma abort_replacement_keeps:
  assumes "flock_but X s" "no_drain_of s i \<or> get_slot s i = None"
  shows "keeps_but X s (abort_replacement i s)"
proof (cases "get_slot s i")
  case None
  then show ?thesis using keeps_refl[OF assms(1)] by (simp add: abort_replacement_def)
next
  case (Some sl)
  have k1: "keeps_but X s (upd_slot i (set_reload RNone) s)" (is "keeps_but X s ?s1")
    using clear_reload_keeps[OF assms] by (simp add: clear_reload_def)
  have "sl_ctl sl \<Longrightarrow> running ?s1 i" using Some by (simp add: running_def)
  then show ?thesis
    using k1 Some keeps_trans[OF k1 doom_keeps[OF keeps_flock[OF k1]]]
    by (simp add: abort_replacement_def Let_def)
qed

lemma abort_reload_keeps:
  assumes f: "flock_but X s"
  shows "keeps_but X s (abort_reload w nm s)"
proof (cases "get_job s nm")
  case None
  then show ?thesis using keeps_refl[OF f] by (simp add: abort_reload_def)
next
  case (Some job)
  let ?old = "sw_old_id (j_swap job)"
  let ?s1 = "debug_assert (sw_phase (j_swap job) = AwaitReady) (del_job nm s)"
  let ?s2 = "restore_listeners nm ?s1"
  let ?s3 = "abort_drainee w ?old ?s2"
  note k0 = del_job_keeps[OF f, of nm]
  note k1 = keeps_trans[OF k0 debug_assert_keeps[OF keeps_flock[OF k0]]]
  have k2: "keeps_but X s ?s2" by (rule keeps_trans[OF k1 listeners_keeps(2)[OF keeps_flock[OF k1]]])
  have free: "no_drain_of ?s2 i \<or> get_slot ?s2 i = None" if "i \<in> job_ids job" for i
    using dropped_no_drain[OF f Some that] no_drain_frame[of ?s2 "del_job nm s"] by simp
  have k3: "keeps_but X s ?s3"
    by (rule keeps_trans[OF k2 abort_drainee_keeps[OF keeps_flock[OF k2] free]]) (rule job_memberI)
  have "keeps_but X s (abort_replacement n ?s3)" if n: "sw_new_id (j_swap job) = Some n" for n
  proof (rule keeps_trans[OF k3 abort_replacement_keeps[OF keeps_flock[OF k3]]])
    show "no_drain_of ?s3 n \<or> get_slot ?s3 n = None"
      using free[OF job_memberI(2)[OF n]] no_drain_frame[OF abort_drainee_frame(1), of w ?old ?s2 n]
        abort_drainee_frame(2)[of n ?old w ?s2] by (cases "n = ?old") (auto simp: abort_drainee_def)
  qed
  then show ?thesis using k3 Some by (simp add: abort_reload_parts split: option.splits)
qed

lemma find_job:
  assumes "keys_ok s" "map_option fst (find P (reloads s)) = Some nm"
  obtains job where "get_job s nm = Some job" "P (nm, job)"
proof -
  obtain job where "find P (reloads s) = Some (nm, job)" using assms(2) by auto
  then have "(nm, job) \<in> set (reloads s)" "P (nm, job)" by (auto simp: find_Some_iff)
  then show ?thesis using that assms(1) by (simp add: get_job_def keys_ok_def)
qed

lemma reload_of_job:
  assumes "keys_ok s" "reload_of s i = Some nm"
  obtains job where "get_job s nm = Some job" "sw_old_id (j_swap job) = i \<or> sw_new_id (j_swap job) = Some i"
  using find_job[OF assms(1) assms(2)[unfolded reload_of_def]] by auto

lemma set_status_keeps:
  assumes "flock_but X s" "running s i" "st \<in> {Starting, Online, Stopping}"
  shows "keeps_but X s (snd (set_status w i st s))"
proof -
  have "get_slot s i \<noteq> None" using assms(2) by (auto simp: running_def split: option.splits)
  then show ?thesis
    using status_keeps[OF assms(1), of i "\<lambda>_. st"] assms(2,3)
    by (auto simp: set_status_def expect_slot_def Let_def running_def split: option.splits)
qed

lemma set_status_frame:
  "get_job (snd (set_status w i st s)) = get_job s" "running (snd (set_status w i st s)) k = running s k"
  by (auto simp: set_status_def expect_slot_def Let_def running_def upd_entry_def split: option.splits)

lemma arm_extras_keeps: "flock_but X s \<Longrightarrow> keeps_but X s (arm_extras i s)"
  by (rule frame_keeps) (auto dest: flock_butD)

lemma went_online_keeps: "flock_but X s \<Longrightarrow> keeps_but X s (went_online i info m s)"
proof -
  assume f: "flock_but X s"
  let ?s = "upd_slot i (\<lambda>sl. sl\<lparr> sl_ready_failed := False \<rparr>) s"
  have "keeps_but X s ?s" by (intro upd_slot_keeps[OF f]) (auto simp: gentle_def alike_entry resting_status_def)
  note k = keeps_trans[OF this emit_keeps[OF keeps_flock[OF this]]]
  show ?thesis using keeps_trans[OF k arm_extras_keeps[OF keeps_flock[OF k]]] by (simp add: went_online_def)
qed

lemma went_online_frame [simp]:
  "get_job (went_online i info m s) = get_job s" "running (went_online i info m s) k = running s k"
  by (auto simp: went_online_def Let_def running_def arm_extras_def split: option.splits)

lemma unready_keeps:
  "flock_but X s \<Longrightarrow> running s i \<Longrightarrow> keeps_but X s (upd_slot i (\<lambda>sl. sl\<lparr> sl_ready_failed := True \<rparr>) s)"
  by (intro upd_slot_keeps)
    (auto simp: gentle_def alike_entry running_def resting_status_def split: option.splits)

lemma commit_swap_success_keeps:
  assumes "flock_ok s" "get_slot s i \<noteq> None" "get_job s nm = None" "\<forall>k \<in> set queue. owned s nm k"
  shows "keeps s (commit_swap_success w nm i queue s)"
proof -
  let ?s = "emit EvReloaded (info_of w i s) True s"
  have k: "keeps s ?s" by (rule emit_keeps[OF assms(1)])
  have "keeps s (advance_reload w nm queue ?s)"
    using assms(3,4) by (intro keeps_trans[OF k advance_reload_keeps[OF keeps_flock[OF k]]]) (auto simp: owned_def)
  then show ?thesis using assms(2) by (auto simp: commit_swap_success_def expect_slot_def Let_def)
qed

lemma clear_reload_frame [simp]:
  "get_job (clear_reload i s) = get_job s" "next_id (clear_reload i s) = next_id s"
  "owned (clear_reload i s) nm k = owned s nm k" "(get_slot (clear_reload i s) k = None) = (get_slot s k = None)"
  "running (clear_reload i s) k = running s k"
  by (auto simp: clear_reload_def owned_upd_slot running_def split: option.splits)

lemma owned_del_job [simp]: "owned (del_job nm' s) nm k = owned s nm k"
  by (simp add: owned_def)

lemma running_del_job [simp]: "running (del_job nm s) k = running s k"
  by (simp add: running_def)

lemma finish_swap_keeps:
  assumes f: "flock_ok s" and n: "\<And>job. get_job s nm = Some job \<Longrightarrow> sw_new_id (j_swap job) \<noteq> None"
  shows "keeps s (finish_swap w nm s)"
proof (cases "get_job s nm")
  case None
  then show ?thesis using keeps_refl[OF f] by (simp add: finish_swap_def)
next
  case (Some job)
  obtain i where i: "sw_new_id (j_swap job) = Some i" using n[OF Some] by auto
  have ok: "job_ok s nm job" by (rule jobs_ok_job[OF f Some])
  let ?s1 = "del_job nm s"
  let ?serving = "case get_slot ?s1 i of None \<Rightarrow> False | Some sl \<Rightarrow> slot_status sl = Online"
  have k1: "keeps s ?s1" by (rule del_job_keeps[OF f])
  have k2: "keeps s (clear_reload i ?s1)" by (rule drop_clear_keeps[OF f Some job_memberI(2)[OF i]])
  have own: "\<forall>k \<in> set (j_queue job). owned s nm k" using ok by (simp add: job_ok_def job_ids_def)
  let ?p = "if ?serving then post_drain_probe ?s1 i (j_mode job) else None"
  show ?thesis
  proof (cases ?p)
    case None
    have c: "keeps s (commit_swap_success w nm i (j_queue job) (clear_reload i ?s1))" if ?serving
      using that own by (intro keeps_trans[OF k2 commit_swap_success_keeps[OF keeps_flock[OF k2]]])
        (auto split: option.splits)
    show ?thesis
      using c None Some i keeps_trans[OF k2 emit_reload_abandoned_keeps[OF keeps_flock[OF k2]]]
      by (simp add: finish_swap_def Let_def split del: if_split) (simp split: if_split)
  next
    case (Some src)
    then have sv: ?serving by (auto split: if_splits)
    then obtain sl where sl: "get_slot s i = Some sl" by (auto split: option.splits)
    let ?s2 = "put_job nm (job\<lparr> j_swap := (j_swap job)\<lparr> sw_phase := Verify \<rparr> \<rparr>) ?s1"
    have "job_ok ?s1 nm (job\<lparr> j_swap := (j_swap job)\<lparr> sw_phase := Verify \<rparr> \<rparr>)"
      using ok i by (simp add: job_ok_def job_ids_def)
    then have k2: "keeps s ?s2" by (rule keeps_trans[OF k1 put_job_keeps[OF keeps_flock[OF k1]]])
    have k3: "keeps s (arm_reload_deadline nm i ?s2)"
      using sl by (intro keeps_trans[OF k2 arm_reload_deadline_keeps[OF keeps_flock[OF k2]]]) auto
    have "keeps s (effect (SpawnVerify nm i src d) (arm_reload_deadline nm i ?s2))" for d
      by (rule keeps_trans[OF k3 quiet_effect_keeps[OF keeps_flock[OF k3]]]) simp
    then show ?thesis using \<open>get_job s nm = Some job\<close> i Some sv sl by (simp add: finish_swap_def Let_def)
  qed
qed

lemma begin_drain_keeps:
  assumes f: "flock_ok s" and n: "\<And>job. get_job s nm = Some job \<Longrightarrow> sw_new_id (j_swap job) \<noteq> None"
  shows "keeps s (begin_drain w nm s)"
proof (cases "get_job s nm")
  case None
  then show ?thesis using keeps_refl[OF f] by (simp add: begin_drain_def)
next
  case (Some job)
  have ok: "job_ok s nm job" by (rule jobs_ok_job[OF f Some])
  let ?old = "sw_old_id (j_swap job)"
  let ?s1 = "upd_job nm (\<lambda>job. job\<lparr> j_swap := (j_swap job)\<lparr> sw_phase := DrainOld \<rparr> \<rparr>) s"
  let ?s2 = "?s1\<lparr> listeners_before := AList.delete nm (listeners_before ?s1) \<rparr>"
  have k1: "keeps s ?s1"
    using ok n Some by (intro upd_job_keeps[OF f]) (auto simp: job_ok_def job_ids_def)
  have k2: "keeps s ?s2" by (rule keeps_trans[OF k1 listeners_keeps(1)[OF keeps_flock[OF k1]]])
  have fin: "keeps s (finish_swap w nm ?s2)"
    using n Some by (intro keeps_trans[OF k2 finish_swap_keeps[OF keeps_flock[OF k2]]]) auto
  have "running ?s2 ?old" if old: "get_slot s ?old = Some sl" for sl
  proof -
    have "e_reload (sl_entry sl) \<noteq> RNone" using ok old by (auto simp: job_ok_def wears_drainee_def)
    then have "sl_ctl sl" using slot_ok_resting[OF flock_okD[OF f old]] by blast
    then show ?thesis using old by (simp add: running_def)
  qed
  then have "keeps s (claim_manual ?old m cap ?s2)" if "get_slot s ?old \<noteq> None" for m cap
    using that by (intro keeps_trans[OF k2 claim_manual_keeps[OF keeps_flock[OF k2]]]) auto
  then show ?thesis using fin Some by (simp add: begin_drain_def Let_def)
qed

lemma reload_of_none: "reload_of s i = None \<Longrightarrow> keys_ok s \<Longrightarrow> no_drain_of s i"
  by (force simp: reload_of_def find_None_iff no_drain_of_def get_job_def keys_ok_def)

text \<open>A replacement that did not answer is left up, marked, with its extras armed.\<close>

lemma unready_end_keeps:
  assumes "flock_but X s" "running s i"
  shows "keeps_but X s (arm_extras i (emit ev info m (upd_slot i (\<lambda>sl. sl\<lparr> sl_ready_failed := True \<rparr>) s)))"
proof -
  note k1 = unready_keeps[OF assms]
  note k2 = keeps_trans[OF k1 emit_keeps[OF keeps_flock[OF k1]]]
  show ?thesis by (rule keeps_trans[OF k2 arm_extras_keeps[OF keeps_flock[OF k2]]])
qed

lemma reload_ready_result_keeps:
  assumes f: "flock_ok s" and r: "running s i"
    and m: "\<And>sl. get_slot s i = Some sl \<Longrightarrow> \<not> wears_drainee sl"
  shows "keeps s (reload_ready_result w i man readiness s)"
proof (cases "reload_of s i")
  case None
  let ?s1 = "clear_reload i s"
  have k1: "keeps s ?s1" using reload_of_none[OF None] flock_butD(2)[OF f] by (intro clear_reload_keeps[OF f]) simp
  have k2: "keeps s (snd (set_status w i Online ?s1))"
    using r by (intro keeps_trans[OF k1 set_status_keeps[OF keeps_flock[OF k1]]]) simp_all
  then show ?thesis
    using None keeps_trans[OF k2 went_online_keeps[OF keeps_flock[OF k2]]]
    by (simp add: reload_ready_result_def Let_def split_beta)
next
  case (Some nm)
  obtain job where job: "get_job s nm = Some job" "sw_old_id (j_swap job) = i \<or> sw_new_id (j_swap job) = Some i"
    by (rule reload_of_job[OF flock_butD(2)[OF f] Some])
  have mem: "i \<in> job_ids job" using job(2) by (auto simp: job_ids_def)
  obtain sl where sl: "get_slot s i = Some sl" using r by (auto simp: running_def split: option.splits)
  show ?thesis
  proof (cases "readiness = TimedOut")
    case True
    let ?s2 = "clear_reload i (del_job nm s)"
    have k2: "keeps s ?s2" by (rule drop_clear_keeps[OF f job(1) mem])
    have r2: "running ?s2 i" using r by simp
    have "keeps s (arm_extras i (emit ev info m' (upd_slot i (\<lambda>sl. sl\<lparr> sl_ready_failed := True \<rparr>) ?s2)))" for ev info m'
      by (rule keeps_trans[OF k2 unready_end_keeps[OF keeps_flock[OF k2] r2]])
    then show ?thesis
      using True Some job(1) sl abort_reload_keeps[OF f]
      by (simp add: reload_ready_result_def Let_def clear_reload_def)
  next
    case False
    have "sw_old_id (j_swap job) \<noteq> i"
      using jobs_ok_job[OF f job(1)] m sl by (auto simp: job_ok_def)
    then have new: "sw_new_id (j_swap job) = Some i" using job(2) by simp
    let ?s1 = "snd (set_status w i Online s)"
    let ?s2 = "\<lambda>info. went_online i info man ?s1"
    have k1: "keeps s ?s1" by (rule set_status_keeps[OF f r]) simp
    have k2: "keeps s (?s2 info)" for info by (rule keeps_trans[OF k1 went_online_keeps[OF keeps_flock[OF k1]]])
    have "keeps s (begin_drain w nm (?s2 info))" for info
      using new job(1) by (intro keeps_trans[OF k2 begin_drain_keeps[OF keeps_flock[OF k2]]])
        (auto simp: set_status_frame)
    then show ?thesis
      using False Some by (simp add: reload_ready_result_def Let_def split_beta)
  qed
qed

text \<open>
  The verdict on a replacement that is still running. A verdict on one that is gone, or at
  rest, is not covered by this lemma: see \<open>verified_wedges\<close> and \<open>verified_panics\<close> in the root
  theory.
\<close>

lemma handle_reload_verified_keeps:
  assumes f: "flock_ok s"
    and live: "\<And>job. get_job s nm = Some job \<Longrightarrow> sw_phase (j_swap job) = Verify \<Longrightarrow>
      sw_new_id (j_swap job) = Some i \<Longrightarrow> running s i"
  shows "keeps s (handle_reload_verified w nm i readiness s)"
proof (cases "\<exists>job. get_job s nm = Some job \<and> sw_new_id (j_swap job) = Some i \<and> sw_phase (j_swap job) = Verify")
  case False
  then have "handle_reload_verified w nm i readiness s = s"
    by (auto simp: handle_reload_verified_def split: option.splits)
  then show ?thesis using keeps_refl[OF f] by simp
next
  case True
  then obtain job where job: "get_job s nm = Some job" "sw_new_id (j_swap job) = Some i"
    "sw_phase (j_swap job) = Verify" by blast
  let ?s1 = "clear_reload i (del_job nm s)"
  have k1: "keeps s ?s1" by (rule drop_clear_keeps[OF f job(1) job_memberI(2)[OF job(2)]])
  have r: "running s i" using live job by blast
  then have r1: "running ?s1 i" by simp
  show ?thesis
  proof (cases "readiness = Ready")
    case True
    have "\<forall>k \<in> set (j_queue job). owned s nm k" using jobs_ok_job[OF f job(1)] by (simp add: job_ok_def job_ids_def)
    moreover have "get_slot s i \<noteq> None" using r by (auto simp: running_def split: option.splits)
    ultimately have "keeps s (commit_swap_success w nm i (j_queue job) ?s1)"
      by (intro keeps_trans[OF k1 commit_swap_success_keeps[OF keeps_flock[OF k1]]]) simp_all
    then show ?thesis using True job by (simp add: handle_reload_verified_def)
  next
    case False
    let ?s2 = "snd (set_status w i Starting ?s1)"
    have k2: "keeps s ?s2" by (rule keeps_trans[OF k1 set_status_keeps[OF keeps_flock[OF k1] r1]]) simp
    have r2: "running ?s2 i" using r1 by (simp add: set_status_frame)
    have "keeps s (arm_extras i (emit ev info m' (upd_slot i (\<lambda>sl. sl\<lparr> sl_ready_failed := True \<rparr>) ?s2)))" for ev info m'
      by (rule keeps_trans[OF k2 unready_end_keeps[OF keeps_flock[OF k2] r2]])
    then show ?thesis using False job by (simp add: handle_reload_verified_def Let_def split_beta)
  qed
qed

lemma handle_reload_deadline_keeps:
  assumes f: "flock_ok s"
  shows "keeps s (handle_reload_deadline w nm stamp s)"
proof (cases "get_job s nm")
  case None
  then show ?thesis using keeps_refl[OF f] by (simp add: handle_reload_deadline_def)
next
  case (Some job)
  have end_at: "keeps s (emit_reload_abandoned w i (clear_reload i (del_job nm s)))" if "i \<in> job_ids job" for i
  proof -
    note k = drop_clear_keeps[OF f Some that]
    show ?thesis by (rule keeps_trans[OF k emit_reload_abandoned_keeps[OF keeps_flock[OF k]]])
  qed
  have new: "\<exists>n. sw_new_id (j_swap job) = Some n" if "sw_phase (j_swap job) \<noteq> DrainFirst"
    using jobs_ok_job[OF f Some] that by (auto simp: job_ok_def)
  show ?thesis
    using Some new keeps_refl[OF f] abort_reload_keeps[OF f] end_at[OF job_memberI(1)] end_at[OF job_memberI(2)]
    by (cases "sw_phase (j_swap job)") (auto simp: handle_reload_deadline_def Let_def)
qed

end
