(* ===== verification/Exits.thy ===== *)
theory Exits
  imports Reload
begin

text \<open>
  What the actor does about a process that ended, a timer that fired and a readiness wait
  that resolved (\<open>supervisor/actor_exit.rs\<close>), with the action replies of
  \<open>actor_actions.rs\<close>.
\<close>

subsection \<open>Shutdown\<close>

definition begin_shutdown :: "caller \<Rightarrow> actor \<Rightarrow> bool \<times> actor" where
  "begin_shutdown c s =
     (let s = s\<lparr> shutting_down := True, reloads := [] \<rparr>;
          online = map fst (filter (\<lambda>(i, sl). sl_ctl sl) (sheep s))
      in if online = [] then (True, effect (Reply c Done) s)
         else
           (let s = fold (\<lambda>i. claim_manual i \<lparr> m_kind = MStop, m_origin = Operator \<rparr> StopCap) online s
            in (False, s\<lparr> pending_replies := pending_replies s @
                  [\<lparr> pr_remaining = online, pr_results = [], pr_reply = RShutdown c \<rparr>] \<rparr>)))"

subsection \<open>Exits\<close>

definition take_oom :: "world \<Rightarrow> nat \<Rightarrow> actor \<Rightarrow> bool \<times> actor" where
  "take_oom w i s =
     (case map_of (oom_baselines s) i of
        None \<Rightarrow> (False, s)
      | Some baseline \<Rightarrow>
          (let s = s\<lparr> oom_baselines := AList.delete i (oom_baselines s) \<rparr>
           in (get_slot s i \<noteq> None \<and> cgroup_base s \<and> baseline < w_oom_kills w i, s)))"

text \<open>
  The slot an exit leaves before anything is decided: every handle dropped, the verdict
  recorded, the markers taken.
\<close>

definition exited_slot :: "ExitOutcome \<Rightarrow> SheepSlot \<Rightarrow> SheepSlot" where
  "exited_slot outcome sl =
     sl\<lparr> sl_ctl := False, sl_to_child := False, sl_signals := False, sl_to_stdin := False,
         sl_pty := False, sl_actions := snd (abandon_all (sl_actions sl)),
         sl_ready_failed := False, sl_manual := None, sl_pending_delete := False,
         sl_entry := (sl_entry sl)\<lparr> e_pid := None, e_last_exit := Some outcome,
                                    e_started_at := None \<rparr> \<rparr>"

definition answer_abandoned :: "nat list \<Rightarrow> actor \<Rightarrow> actor" where
  "answer_abandoned stamps s = fold (\<lambda>st. effect (ActionDone st NoChannel)) stamps s"

text \<open>Deregistering an id at its exit under a delete.\<close>

definition delete_exited :: "world \<Rightarrow> nat \<Rightarrow> actor \<Rightarrow> ProcessInfo \<times> actor" where
  "delete_exited w i s =
     (case get_slot s i of
        None \<Rightarrow> (no_info, panic s)
      | Some sl \<Rightarrow>
          (let info = to_info (w_now w) ((sl_entry sl)\<lparr> e_status := Stopped \<rparr>) (smits s);
               s = del_slot i s;
               s = emit EvDelete info True s;
               s = disarm_extras i (i_name info) s
           in (info, s)))"

definition apply_decision ::
  "world \<Rightarrow> nat \<Rightarrow> ManualKind option \<Rightarrow> bool \<Rightarrow> Decision \<Rightarrow> actor \<Rightarrow> ProcessInfo \<times> actor" where
  "apply_decision w i kind pending_delete decision s =
     (case decision of
        Restart delay \<Rightarrow>
          (let (info, s) = set_status w i WaitingRestart s;
               s = emit EvExit info False s;
               epoch = (case get_slot s i of None \<Rightarrow> 0 | Some sl \<Rightarrow> sl_epoch sl);
               s = upd_slot i (\<lambda>sl. sl\<lparr> sl_restart_due :=
                     w_due w (case delay of None \<Rightarrow> 0 | Some d \<Rightarrow> d) \<rparr>) s;
               s = schedule_restart i epoch delay s
           in (info, s))
      | DErrored \<Rightarrow>
          (let (info, s) = set_status w i Errored s;
               s = emit EvErrored info (kind \<noteq> None) s;
               s = disarm_extras i (i_name info) s
           in (info, s))
      | SandboxRefused \<Rightarrow>
          (let (info, s) = set_status w i Errored s;
               s = emit EvSandboxRefused info False s;
               s = disarm_extras i (i_name info) s
           in (info, s))
      | CleanStop \<Rightarrow>
          if kind = Some MDelete \<or> pending_delete then delete_exited w i s
          else
            (let (info, s) = set_status w i Stopped s;
                 s = disarm_extras i (i_name info) s;
                 s = emit EvStop info (kind = Some MStop) s
             in (info, s)))"

text \<open>
  The ordinary path of an exit, once neither half of a reload has claimed it.
  \<open>started_at\<close> is the start time taken off the entry.
\<close>

definition decide_exit ::
  "world \<Rightarrow> nat \<Rightarrow> ExitOutcome \<Rightarrow> PendingManual option \<Rightarrow> bool \<Rightarrow> nat option \<Rightarrow> bool \<Rightarrow>
   actor \<Rightarrow> bool \<times> actor" where
  "decide_exit w i outcome man pending_delete started_at oom_killed s =
     (let kind = map_option m_kind man in
      case started_at of
        None \<Rightarrow>
          if kind = Some MDelete \<or> pending_delete then
            (let (info, s) = delete_exited w i s in resolve_pending i info s)
          else resolve_pending i (info_of w i s) (expect_slot i s)
      | Some t \<Rightarrow>
          if kind = Some MRestart \<and> \<not> shutting_down s \<and> \<not> pending_delete \<and> \<not> is_disabled_id s i then
            (let s = expect_slot i s;
                 s = upd_slot i (upd_entry (\<lambda>e. e\<lparr> e_budget := budget_reset (e_budget e) \<rparr>)) s;
                 manually = (map_option m_origin man = Some Operator);
                 (info, s) = respawn w i manually s
             in resolve_pending i info s)
          else case get_slot s i of
            None \<Rightarrow> (False, panic s)
          | Some sl \<Rightarrow>
              (let (budget, decision) =
                     decide_on_exit (slot_app sl) (e_budget (sl_entry sl)) (w_now w - t) outcome
                       (kind \<noteq> None) oom_killed;
                   s = upd_slot i (upd_entry (\<lambda>e. e\<lparr> e_budget := budget \<rparr>)) s;
                   (info, s) = apply_decision w i kind pending_delete decision s
               in resolve_pending i info s))"

text \<open>A replacement's exit after its swap committed with the drainee already gone ends the job.\<close>

definition end_orphaned_swap :: "world \<Rightarrow> nat \<Rightarrow> actor \<Rightarrow> actor" where
  "end_orphaned_swap w i s =
     (case reload_of s i of
        None \<Rightarrow> s
      | Some nm \<Rightarrow>
          (case get_job s nm of
             None \<Rightarrow> panic s
           | Some job \<Rightarrow>
               if get_slot s (sw_old_id (j_swap job)) = None then
                 (let s = debug_assert (map_option slot_status (get_slot s i) \<noteq> Some Online) s;
                      s = del_job nm s
                  in emit_reload_abandoned w i s)
               else s))"

definition handle_exited :: "world \<Rightarrow> nat \<Rightarrow> ExitOutcome \<Rightarrow> actor \<Rightarrow> bool \<times> actor" where
  "handle_exited w i outcome s =
     (let (oom_killed, s) = take_oom w i s in
      case get_slot s i of
        None \<Rightarrow> (False, s)
      | Some sl \<Rightarrow>
          (let man = sl_manual sl;
               pending_delete = sl_pending_delete sl;
               started_at = e_started_at (sl_entry sl);
               s = answer_abandoned (fst (abandon_all (sl_actions sl))) s;
               s = upd_slot i (exited_slot outcome) s
           in case e_reload (sl_entry sl) of
                Drainee _ \<Rightarrow>
                  (case uncommitted_swap_of s i of
                     Some nm \<Rightarrow>
                       if man \<noteq> None
                       then decide_exit w i outcome man pending_delete started_at oom_killed
                              (abort_reload w nm s)
                       else reap_drainee w i s
                   | None \<Rightarrow> reap_drainee w i s)
              | Replacement \<Rightarrow>
                  (let s = clear_reload i s in
                   case uncommitted_swap_of s i of
                     Some nm \<Rightarrow> deregister_on_exit w i (abort_reload w nm s)
                   | None \<Rightarrow>
                       decide_exit w i outcome man pending_delete started_at oom_killed
                         (end_orphaned_swap w i s))
              | RNone \<Rightarrow> decide_exit w i outcome man pending_delete started_at oom_killed s))"

subsection \<open>Restarts the daemon raises itself\<close>

definition handle_extra_restart ::
  "world \<Rightarrow> nat \<Rightarrow> nat \<Rightarrow> nat option \<Rightarrow> MemSize option \<Rightarrow> actor \<Rightarrow> actor" where
  "handle_extra_restart w i pid epoch observed s =
     (if shutting_down s then s
      else case get_slot s i of
        None \<Rightarrow> s
      | Some sl \<Rightarrow>
          if is_disabled_id s i then s
          else if e_pid (sl_entry sl) \<noteq> Some pid then s
          else if \<not> reload_eligible sl then s
          else if (case epoch of None \<Rightarrow> False | Some ep \<Rightarrow> w_liveness_epoch w i \<noteq> ep) then s
          else if (case observed of
                     None \<Rightarrow> False
                   | Some ob \<Rightarrow>
                       (case app_max_memory (slot_app sl) of
                          None \<Rightarrow> True | Some limit \<Rightarrow> bytes ob \<le> bytes limit)) then s
          else begin_manual w (Id (word_of_nat i)) MRestart Automatic (RInfo Dropped) s)"

definition handle_restart_due :: "world \<Rightarrow> nat \<Rightarrow> nat \<Rightarrow> actor \<Rightarrow> actor" where
  "handle_restart_due w i epoch s =
     (if shutting_down s then s
      else case get_slot s i of
        None \<Rightarrow> s
      | Some sl \<Rightarrow>
          if slot_status sl \<noteq> WaitingRestart then s
          else if sl_epoch sl \<noteq> epoch then s
          else snd (respawn w i False s))"

subsection \<open>Readiness and actions\<close>

definition handle_ready_signal :: "nat \<Rightarrow> actor \<Rightarrow> actor" where
  "handle_ready_signal i s =
     (case get_slot s i of
        None \<Rightarrow> s
      | Some sl \<Rightarrow>
          if sl_ready_tx sl
          then effect (WakeReadiness i) (upd_slot i (\<lambda>sl. sl\<lparr> sl_ready_tx := False \<rparr>) s)
          else s)"

definition handle_ready_result :: "world \<Rightarrow> nat \<Rightarrow> nat \<Rightarrow> bool \<Rightarrow> Readiness \<Rightarrow> actor \<Rightarrow> actor" where
  "handle_ready_result w i epoch manually readiness s =
     (if shutting_down s then s
      else case get_slot s i of
        None \<Rightarrow> s
      | Some sl \<Rightarrow>
          if sl_epoch sl \<noteq> epoch then s
          else if slot_status sl \<noteq> Starting then s
          else if e_reload (sl_entry sl) = Replacement
            then reload_ready_result w i manually readiness s
          else
            (let (info, s) = set_status w i Online s
             in went_online i info manually s))"

definition handle_action_reply :: "nat \<Rightarrow> string \<Rightarrow> string \<Rightarrow> nat option \<Rightarrow> actor \<Rightarrow> actor" where
  "handle_action_reply i action body stamp s =
     (case get_slot s i of
        None \<Rightarrow> s
      | Some sl \<Rightarrow>
          (let (waiter, acts) = answer action stamp (sl_actions sl);
               s = upd_slot i (\<lambda>sl. sl\<lparr> sl_actions := acts \<rparr>) s
           in case waiter of None \<Rightarrow> s | Some st \<Rightarrow> effect (ActionBody st body) s))"

definition handle_action_result :: "nat \<Rightarrow> nat \<Rightarrow> ActionOutcome \<Rightarrow> actor \<Rightarrow> actor" where
  "handle_action_result i stamp outcome s =
     (case get_slot s i of
        None \<Rightarrow> s
      | Some sl \<Rightarrow>
          (let (reply, acts) = resolve stamp (sl_actions sl);
               s = upd_slot i (\<lambda>sl. sl\<lparr> sl_actions := acts \<rparr>) s
           in case reply of None \<Rightarrow> s | Some st \<Rightarrow> effect (ActionDone st outcome) s))"

subsection \<open>An exit leaves the flock in order\<close>

text \<open>
  While the exit of \<open>i\<close> is in hand its slot has nothing running in it and the deferred
  replies may still name it. Settling the slot and answering the replies ends that.
\<close>

definition in_hand :: "nat \<Rightarrow> actor \<Rightarrow> bool" where
  "in_hand i s \<longleftrightarrow> flock_but {i} s \<and> pend_ok {i} s"

lemma in_handD: "in_hand i s \<Longrightarrow> flock_but {i} s" "in_hand i s \<Longrightarrow> pend_ok {i} s"
  by (simp_all add: in_hand_def)

lemma in_hand_keeps: "in_hand i s \<Longrightarrow> keeps_but {i} s s' \<Longrightarrow> in_hand i s'"
  using keeps_pend_ok keeps_flock by (auto simp: in_hand_def)

text \<open>Like \<open>evolves\<close>, but for the deferred replies, which an exit answers.\<close>

definition mends :: "actor \<Rightarrow> actor \<Rightarrow> bool" where
  "mends s s' \<longleftrightarrow> steady s' \<and> (\<forall>i. balance i s' = balance i s) \<and> panicked s' = panicked s \<and> prefix (out s) (out s')"

lemma resolve_mends:
  assumes "keeps s s1" "pend_ok {i} s"
  shows "mends s (snd (resolve_pending i info s1))"
proof -
  obtain b s' where r: "resolve_pending i info s1 = (b, s')" by fastforce
  have "pend_ok {} s'" using pend_ok_resolve[OF _ r] keeps_pend_ok[OF assms] by simp
  moreover have "flock_ok s'" "\<And>k. balance k s' = balance k s1" "panicked s' = panicked s1"
    using flock_resolve[OF r] keeps_flock[OF assms(1)] resolve_pending_frame(9)[OF r] by simp_all
  moreover have "prefix (out s) (out s')" using prefix_resolve[of "out s" s1 i info] assms(1) r by (simp add: keeps_but_def)
  ultimately show ?thesis using assms(1) r by (simp add: mends_def steady_def keeps_but_def)
qed

text \<open>
  An exit is closed once: the replies waiting on \<open>i\<close> are answered in a flock in order, and
  what follows only keeps it so.
\<close>

definition closes :: "nat \<Rightarrow> actor \<Rightarrow> bool \<times> actor \<Rightarrow> bool" where
  "closes i s r \<longleftrightarrow> (\<exists>info s1. keeps s s1 \<and> fst r = fst (resolve_pending i info s1) \<and>
     keeps (snd (resolve_pending i info s1)) (snd r))"

lemma after_evolves: "evolves s s1 \<Longrightarrow> keeps s1 s2 \<Longrightarrow> evolves s s2"
  using evolves_trans keeps_evolves evolves_steady by blast

lemma after_mends:
  assumes "mends s s1" "keeps s1 s2"
  shows "mends s s2"
  using keeps_evolves[OF _ assms(2)] assms by (auto simp: mends_def evolves_def intro: prefix_order.trans)

lemma closes_mends: "closes i s r \<Longrightarrow> pend_ok {i} s \<Longrightarrow> mends s (snd r)"
  using resolve_mends after_mends by (fastforce simp: closes_def)

lemma resolve_closes:
  assumes "keeps s s1"
  shows "closes i s (resolve_pending i info s1)"
proof -
  obtain b s2 where r: "resolve_pending i info s1 = (b, s2)" by fastforce
  then have "flock_ok s2" using flock_resolve(1)[OF r] keeps_flock[OF assms] by simp
  then have "keeps s2 s2" by (rule keeps_refl)
  with assms r show ?thesis unfolding closes_def by (intro exI[of _ info] exI[of _ s1]) simp
qed

lemma closes_after: "closes i s (b, s1) \<Longrightarrow> keeps s1 s2 \<Longrightarrow> closes i s (b, s2)"
  using keeps_trans by (fastforce simp: closes_def)

lemma keeps_closes: "keeps_but X s s' \<Longrightarrow> closes i s' r \<Longrightarrow> closes i s r"
  using keeps_trans by (fastforce simp: closes_def)

lemma closes_flock: "closes i s (b, s1) \<Longrightarrow> flock_ok s1"
  using keeps_flock by (fastforce simp: closes_def)

lemma gone_keeps:
  assumes "flock_but {i} s" "\<not> running s i"
  shows "keeps s (disarm_extras i nm (emit ev info m (del_slot i s)))"
  using assms(2)
  by (intro touch_keeps[OF assms(1), of i])
    (auto simp: touch_def balance_def running_def claimed_def split: option.splits)

lemma in_hand_rest:
  "flock_but {i} s \<Longrightarrow> get_slot s i = Some sl \<Longrightarrow> at_rest sl" "flock_but {i} s \<Longrightarrow> \<not> running s i"
proof -
  show r: "flock_but {i} s \<Longrightarrow> get_slot s i = Some sl \<Longrightarrow> at_rest sl" for sl
    using flock_butD(1)[of "{i}" s i sl] by (auto simp: slot_fit_def)
  then show "flock_but {i} s \<Longrightarrow> \<not> running s i"
    by (cases "get_slot s i") (auto simp: running_def at_rest_def)
qed

lemma deregister_closes:
  assumes "flock_but {i} s" "get_slot s i \<noteq> None"
  shows "closes i s (deregister_on_exit w i s)"
    "get_job (snd (deregister_on_exit w i s)) = get_job s"
proof -
  obtain sl where sl: "get_slot s i = Some sl" using assms(2) by auto
  let ?info = "to_info (w_now w) ((sl_entry sl)\<lparr> e_status := Stopped, e_reload := RNone \<rparr>) (smits s)"
  let ?s = "disarm_extras i (i_name ?info) (emit EvDelete ?info True (del_slot i s))"
  have d: "deregister_on_exit w i s = resolve_pending i ?info ?s"
    using sl by (simp add: deregister_on_exit_def Let_def)
  show "closes i s (deregister_on_exit w i s)"
    unfolding d using gone_keeps in_hand_rest(2) assms(1) by (intro resolve_closes) blast
  obtain b s' where r: "resolve_pending i ?info ?s = (b, s')" by fastforce
  show "get_job (snd (deregister_on_exit w i s)) = get_job s"
    using d r get_job_cong[OF resolve_pending_frame(7)[OF r]] by simp
qed

lemma spawn_serial_replacement_keeps:
  assumes f: "flock_but {i} s" and job: "get_job s nm = Some job" "sw_old_id (j_swap job) = i"
    and old: "get_slot s i = Some old"
  shows "keeps_but {i} s (spawn_serial_replacement w nm i s)"
    "get_slot (spawn_serial_replacement w nm i s) i \<noteq> None"
proof -
  have ok: "job_ok s nm job" by (rule jobs_ok_job[OF f job(1)])
  have nm: "slot_name old = nm" and dr: "wears_drainee old"
    using ok job(2) old by (auto simp: job_ok_def job_ids_def owned_def)
  obtain r s1 where sp: "spawn_replacement w i Serial s = (r, s1)" by fastforce
  have k1: "keeps_but {i} s s1" using dr old by (intro spawn_replacement_keeps(1)[OF f _ old _ _ sp]) auto
  have n1: "get_slot s1 i \<noteq> None"
    using spawn_replacement_named[OF sp, of i] flock_but_slot_base[OF f old] old
    by (auto simp: named_def slot_base_def)
  have "keeps_but {i} s (spawn_serial_replacement w nm i s) \<and>
      get_slot (spawn_serial_replacement w nm i s) i \<noteq> None"
  proof (cases r)
    case (Inl e)
    have "keeps_but {i} s (del_job nm s1)" by (rule keeps_trans[OF k1 del_job_keeps[OF keeps_flock[OF k1]]])
    then have "keeps_but {i} s (emit_reload_abandoned w i (del_job nm s1))"
      using keeps_trans[OF _ emit_reload_abandoned_keeps[OF keeps_flock]] by blast
    then show ?thesis using sp Inl n1 by (simp add: spawn_serial_replacement_def)
  next
    case (Inr n)
    have sw: "swapped s1 nm i n"
      using spawn_replacement_keeps(2)[OF f _ old _ _ sp, of n] dr Inr nm by auto
    let ?f = "\<lambda>job. job\<lparr> j_swap := (j_swap job)\<lparr> sw_new_id := Some n, sw_phase := AwaitReady \<rparr> \<rparr>"
    have j1: "get_job s1 nm = Some job" using spawn_replacement_jobs[OF sp] job(1) by simp
    have "owned s1 nm k" if "k \<in> set (j_queue job)" for k
    proof -
      have o: "owned s nm k" using ok that by (simp add: job_ok_def job_ids_def)
      then have "k < next_id s" by (simp add: owned_def)
      from named_owned[OF spawn_replacement_named[OF sp this] _ o] show ?thesis
        using k1 by (simp add: keeps_but_def)
    qed
    then have "job_ok s1 nm (?f job)" using sw job(2) by (auto simp: job_ok_def job_ids_def swapped_def owned_def)
    then have k2: "keeps_but {i} s (upd_job nm ?f s1)"
      using j1 by (intro keeps_trans[OF k1 upd_job_keeps[OF keeps_flock[OF k1]]]) auto
    have "keeps_but {i} s (arm_reload_deadline nm n (upd_job nm ?f s1))"
      using sw j1 by (intro keeps_trans[OF k2 arm_reload_deadline_keeps[OF keeps_flock[OF k2]]])
        (auto simp: swapped_def)
    then show ?thesis using sp Inr j1 n1 by (simp add: spawn_serial_replacement_def)
  qed
  then show "keeps_but {i} s (spawn_serial_replacement w nm i s)"
    "get_slot (spawn_serial_replacement w nm i s) i \<noteq> None" by blast+
qed

lemma serial_drain_of_job:
  assumes "keys_ok s" "serial_drain_of s i = Some nm"
  obtains job where "get_job s nm = Some job" "sw_old_id (j_swap job) = i"
  using find_job[OF assms(1) assms(2)[unfolded serial_drain_of_def]] by auto

lemma reap_drainee_closes:
  assumes f: "flock_but {i} s" and sl: "get_slot s i = Some sl"
  shows "closes i s (reap_drainee w i s)"
proof -
  define s1 where "s1 = (case serial_drain_of s i of
      None \<Rightarrow> s
    | Some nm \<Rightarrow> (case get_slot s i of None \<Rightarrow> panic s
        | Some sl \<Rightarrow> if sl_pending_delete sl then del_job nm s else spawn_serial_replacement w nm i s))"
  have "keeps_but {i} s s1 \<and> get_slot s1 i \<noteq> None"
  proof (cases "serial_drain_of s i")
    case None
    then show ?thesis using keeps_refl[OF f] sl by (simp add: s1_def)
  next
    case (Some nm)
    obtain job where "get_job s nm = Some job" "sw_old_id (j_swap job) = i"
      by (rule serial_drain_of_job[OF flock_butD(2)[OF f] Some])
    from spawn_serial_replacement_keeps[OF f this sl] show ?thesis
      using del_job_keeps[OF f] sl Some by (simp add: s1_def)
  qed
  then have k1: "keeps_but {i} s s1" and n1: "get_slot s1 i \<noteq> None" by simp_all
  obtain t s2 where d: "deregister_on_exit w i s1 = (t, s2)" by fastforce
  have e2: "closes i s (t, s2)"
    using keeps_closes[OF k1 deregister_closes(1)[OF keeps_flock[OF k1] n1, of w]] d by simp
  note f2 = closes_flock[OF e2]
  have reap: "reap_drainee w i s = (case reload_of s2 i of
      None \<Rightarrow> (t, s2)
    | Some nm \<Rightarrow> (case get_job s2 nm of
          None \<Rightarrow> (t, panic s2)
        | Some job \<Rightarrow> (case sw_phase (j_swap job) of
              AwaitReady \<Rightarrow> (t, upd_job nm (\<lambda>job. job\<lparr> j_swap := (j_swap job)\<lparr> sw_phase := DrainOld \<rparr> \<rparr>) s2)
            | DrainFirst \<Rightarrow> (t, debug_assert False s2)
            | _ \<Rightarrow> (t, finish_swap w nm s2))))"
    unfolding reap_drainee_def s1_def[symmetric] d Let_def by simp
  show ?thesis
  proof (cases "reload_of s2 i")
    case None
    then show ?thesis using e2 reap by simp
  next
    case (Some nm)
    obtain job where job: "get_job s2 nm = Some job" by (rule reload_of_job[OF flock_butD(2)[OF f2] Some])
    note ok = jobs_ok_job[OF f2 job]
    let ?up = "upd_job nm (\<lambda>job. job\<lparr> j_swap := (j_swap job)\<lparr> sw_phase := DrainOld \<rparr> \<rparr>) s2"
    have up: "keeps s2 ?up" if "sw_phase (j_swap job) = AwaitReady"
      using ok job that by (intro upd_job_keeps[OF f2]) (auto simp: job_ok_def job_ids_def)
    have fin: "keeps s2 (finish_swap w nm s2)" if "sw_phase (j_swap job) \<noteq> DrainFirst"
      using ok job that by (intro finish_swap_keeps[OF f2]) (auto simp: job_ok_def)
    show ?thesis
      using closes_after[OF e2 up] closes_after[OF e2 fin] closes_after[OF e2 debug_assert_keeps[OF f2]] Some job
      by (cases "sw_phase (j_swap job)") (simp_all add: reap)
  qed
qed

text \<open>The ordinary path: the decision is applied to a slot that then stands at rest.\<close>

lemma flock_rest:
  "flock_but {i} s \<Longrightarrow> get_slot s i = Some sl \<Longrightarrow> e_reload (sl_entry sl) = RNone \<Longrightarrow> rest_slot i s"
  using flock_butD(1)[of "{i}" s i sl] by (auto simp: rest_slot_def slot_fit_def)

lemma delete_exited_keeps:
  assumes "flock_but {i} s" "get_slot s i \<noteq> None"
  shows "keeps s (snd (delete_exited w i s))"
  using gone_keeps[OF assms(1) in_hand_rest(2)[OF assms(1)]] assms(2)
  by (auto simp: delete_exited_def Let_def)

lemma budget_prepares:
  "rest_slot i s \<Longrightarrow> prepares i s (upd_slot i (upd_entry (\<lambda>e. e\<lparr> e_budget := f e \<rparr>)) s)"
  by (auto simp: prepares_def rest_slot_def balance_def running_def slot_parts
      upd_entry_def at_rest_def intro!: touch_upd_slot)

lemma set_status_settles:
  assumes "rest_slot i s" "st \<in> {Stopped, Errored, WaitingRestart}"
  shows "settles i s (snd (set_status w i st s))"
  using assms by (auto simp: settles_def set_status_def expect_slot_def Let_def rest_slot_def balance_def
      running_def slot_ok_def slot_parts upd_entry_def at_rest_def resting_status_def intro!: touch_upd_slot)

lemma settles_frame:
  assumes "settles i s s'" "touch i s' s''" "get_slot s'' i = get_slot s' i"
    "\<And>k. spawns_of k (out s'') = spawns_of k (out s')" "panicked s'' = panicked s'"
    "debug_failed s'' = debug_failed s'"
  shows "settles i s s''"
  using assms touch_trans[of i s s' s''] by (simp add: settles_def balance_def running_def)

lemma settles_quiet:
  assumes "settles i s s'"
  shows "settles i s (emit ev info m s')" "settles i s (disarm_extras k nm s')"
    "settles i s (schedule_restart k ep d s')"
  by (rule settles_frame[OF assms]; simp)+

lemma settles_restart_due:
  assumes "settles i s s'"
  shows "settles i s (upd_slot i (\<lambda>sl. sl\<lparr> sl_restart_due := due \<rparr>) s')"
proof -
  obtain sl where sl: "get_slot s' i = Some sl" "slot_ok (next_id s) (next_action_stamp s) i sl"
    using assms by (auto simp: settles_def)
  have "touch i s (upd_slot i (\<lambda>sl. sl\<lparr> sl_restart_due := due \<rparr>) s')"
    by (rule touch_trans[of i s s']) (use assms in \<open>simp_all add: settles_def touch_upd_slot alike_entry\<close>)
  then show ?thesis
    using assms sl by (simp add: settles_def balance_def running_def slot_ok_def slot_base_def parked_ok_def
        at_rest_def in_service_def resting_status_def)
qed

lemma apply_decision_keeps:
  assumes f: "flock_but {i} s" and r: "rest_slot i s"
  shows "keeps s (snd (apply_decision w i kind pd decision s))"
proof -
  have nc: "\<not> claimed s i" using in_hand_rest(2)[OF f] claimed_running by blast
  have st: "keeps s s'" if "settles i s s'" for s' by (rule settles_keeps[OF f _ that nc]) simp
  have pre: "settles i s (snd (set_status w i st s))" if "st \<in> {Stopped, Errored, WaitingRestart}" for st
    by (rule set_status_settles[OF r that])
  have del: "keeps s (snd (delete_exited w i s))"
    using rest_slotD[OF r] by (intro delete_exited_keeps[OF f]) auto
  show ?thesis
    using pre[of Stopped] pre[of Errored] pre[of WaitingRestart] del
    by (cases decision) (auto simp: apply_decision_def Let_def split_beta intro!: st settles_quiet settles_restart_due)
qed

lemma decide_exit_closes:
  assumes f: "flock_but {i} s" and sl: "get_slot s i = Some sl" "e_reload (sl_entry sl) = RNone"
    and st: "started = None \<Longrightarrow> resting_status sl"
  shows "closes i s (decide_exit w i outcome man pd started oom s)"
proof -
  have r: "rest_slot i s" by (rule flock_rest[OF f sl])
  have nc: "\<not> claimed s i" using in_hand_rest(2)[OF f] claimed_running by blast
  have settled: "closes i s (resolve_pending i info s')" if "settles i s s'" for s' info
    by (rule resolve_closes[OF settles_keeps[OF f _ that nc]]) simp
  have expect: "expect_slot i s = s" using sl by (simp add: expect_slot_def)
  have del: "closes i s (resolve_pending i info (snd (delete_exited w i s)))" for info
    using sl by (intro resolve_closes[OF delete_exited_keeps[OF f]]) simp
  show ?thesis
  proof (cases started)
    case None
    have "settles i s s" using r sl st[OF None] by (auto simp: settles_def rest_slot_def slot_ok_def)
    then show ?thesis
      using None settled del expect by (simp add: decide_exit_def Let_def split_beta)
  next
    case (Some t)
    let ?b = "upd_slot i (upd_entry (\<lambda>e. e\<lparr> e_budget := budget_reset (e_budget e) \<rparr>)) s"
    have pb: "prepares i s ?b" by (rule budget_prepares[OF r])
    have dis: "is_disabled_id ?b i = is_disabled_id s i"
      using sl by (simp add: is_disabled_id_def upd_entry_def)
    have "settles i s (snd (respawn w i m ?b))" if "\<not> is_disabled_id s i" for m
      using pb that dis by (intro prepares_settles[OF pb] respawn_settles) (simp_all add: prepares_def)
    then have resp: "closes i s (resolve_pending i info (snd (respawn w i m ?b)))"
      if "\<not> is_disabled_id s i" for m info using settled that by blast
    have dec: "closes i s (resolve_pending i info (snd (apply_decision w i kind pd d
        (upd_slot i (upd_entry (\<lambda>e. e\<lparr> e_budget := b \<rparr>)) s))))" (is "closes i s (resolve_pending i info (snd (apply_decision w i kind pd d ?c)))")
      for info kind d b
    proof -
      have pc: "prepares i s ?c" by (rule budget_prepares[OF r])
      have kc: "keeps_but {i} s ?c"
        using sl by (intro upd_slot_keeps[OF f]) (auto simp: gentle_def upd_entry_def alike_entry resting_status_def)
      have "keeps ?c (snd (apply_decision w i kind pd d ?c))"
        using pc by (intro apply_decision_keeps[OF keeps_flock[OF kc]]) (simp add: prepares_def)
      then show ?thesis by (rule resolve_closes[OF keeps_trans[OF kc]])
    qed
    show ?thesis
      using Some resp dec expect sl(1) by (simp add: decide_exit_def Let_def split_beta)
  qed
qed

lemma answer_abandoned_keeps: "flock_but X s \<Longrightarrow> keeps_but X s (answer_abandoned stamps s)"
proof (induction stamps arbitrary: s)
  case (Cons st stamps)
  have k: "keeps_but X s (effect (ActionDone st NoChannel) s)" by (rule quiet_effect_keeps[OF Cons.prems]) simp
  show ?case using keeps_trans[OF k Cons.IH[OF keeps_flock[OF k]]] by (simp add: answer_abandoned_def)
qed (simp add: answer_abandoned_def keeps_refl)

lemma answer_abandoned_frame [simp]:
  "get_slot (answer_abandoned stamps s) = get_slot s" "get_job (answer_abandoned stamps s) = get_job s"
  by (induction stamps arbitrary: s) (simp_all add: answer_abandoned_def)

lemma take_oom_keeps: "flock_but X s \<Longrightarrow> keeps_but X s (snd (take_oom w i s))"
  by (rule frame_keeps) (auto simp: take_oom_def Let_def dest: flock_butD split: option.splits)

lemma take_oom_frame [simp]: "get_slot (snd (take_oom w i s)) = get_slot s"
  by (auto simp: take_oom_def Let_def split: option.splits)

text \<open>The exit itself: the slot is emptied, and the process the trace started is accounted for.\<close>

lemma exited_in_hand:
  assumes st: "steady s" and sl: "get_slot s i = Some sl"
  shows "in_hand i (upd_slot i (exited_slot outcome) s)"
    "balance k (upd_slot i (exited_slot outcome) s) = balance k s + (if k = i \<and> running s i then 1 else 0)"
proof -
  let ?s = "upd_slot i (exited_slot outcome) s"
  have t: "touch i s ?s" by (rule touch_upd_slot) (simp add: exited_slot_def alike_entry)
  have b: "slot_base (next_id s) (next_action_stamp s) i sl"
    by (rule flock_but_slot_base[OF steadyD(1)[OF st] sl])
  have "flock_but {i} ?s"
  proof (rule touch_flock_but[OF steadyD(1)[OF st] t])
    fix sl' assume "get_slot ?s i = Some sl'"
    then show "slot_fit {i} (next_id s) (next_action_stamp s) i sl'"
      using sl b by (auto simp: slot_fit_def exited_slot_def slot_base_def parked_ok_def at_rest_def
          abandon_all_def waits_ok_no_waits[unfolded no_waits_def])
  qed auto
  moreover have "pend_ok {i} ?s" by (rule touch_pend_ok[OF steadyD(2)[OF st] t]) auto
  ultimately show "in_hand i ?s" by (simp add: in_hand_def)
  show "balance k ?s = balance k s + (if k = i \<and> running s i then 1 else 0)"
    using sl by (auto simp: balance_def running_def exited_slot_def)
qed

lemma uncommitted_job:
  assumes "keys_ok s" "uncommitted_swap_of s i = Some nm"
  obtains job where "get_job s nm = Some job" "sw_phase (j_swap job) = AwaitReady"
    "sw_old_id (j_swap job) = i \<or> sw_new_id (j_swap job) = Some i"
  using find_job[OF assms(1) assms(2)[unfolded uncommitted_swap_of_def]] by auto

lemma abort_drainee_slot:
  "get_slot s i = Some sl \<Longrightarrow> \<not> sl_ctl sl \<Longrightarrow>
    get_slot (abort_drainee w k s) i = Some (if k = i then set_reload RNone sl else sl)"
  by (auto simp: abort_drainee_def Let_def split: option.splits)

lemma abort_replacement_slot:
  "get_slot s i = Some sl \<Longrightarrow> \<not> sl_ctl sl \<Longrightarrow>
    get_slot (abort_replacement k s) i = Some (if k = i then set_reload RNone sl else sl)"
  by (auto simp: abort_replacement_def Let_def claim_manual_slot split: option.splits)

lemma abort_reload_slot:
  assumes f: "flock_but {i} s" and u: "uncommitted_swap_of s i = Some nm" and sl: "get_slot s i = Some sl"
  obtains sl' where "get_slot (abort_reload w nm s) i = Some sl'" "e_reload (sl_entry sl') = RNone"
proof -
  obtain job where job: "get_job s nm = Some job"
    "sw_old_id (j_swap job) = i \<or> sw_new_id (j_swap job) = Some i"
    by (rule uncommitted_job[OF flock_butD(2)[OF f] u])
  have off: "\<not> sl_ctl sl" using in_hand_rest(1)[OF f sl] by (simp add: at_rest_def)
  have "\<exists>sl'. get_slot (abort_reload w nm s) i = Some sl' \<and> e_reload (sl_entry sl') = RNone"
    using job sl off
    by (auto simp: abort_reload_parts abort_drainee_slot abort_replacement_slot split: option.splits)
  then show ?thesis using that by blast
qed

lemma end_orphaned_keeps:
  assumes f: "flock_but X s"
  shows "keeps_but X s (end_orphaned_swap w i s)" "get_slot (end_orphaned_swap w i s) = get_slot s"
proof -
  have d: "keeps_but X s (debug_assert b s)" for b by (rule debug_assert_keeps[OF f])
  have d': "keeps_but X s (del_job nm (debug_assert b s))" for nm b
    by (rule keeps_trans[OF d del_job_keeps[OF keeps_flock[OF d]]])
  have "keeps_but X s (emit_reload_abandoned w i (del_job nm (debug_assert b s)))" for nm b
    by (rule keeps_trans[OF d' emit_reload_abandoned_keeps[OF keeps_flock[OF d']]])
  moreover have "\<exists>job. get_job s nm = Some job" if "reload_of s i = Some nm" for nm
    by (rule reload_of_job[OF flock_butD(2)[OF f] that]) blast
  ultimately show "keeps_but X s (end_orphaned_swap w i s)"
    using keeps_refl[OF f] by (fastforce simp: end_orphaned_swap_def Let_def split: option.splits)
  show "get_slot (end_orphaned_swap w i s) = get_slot s"
    by (auto simp: end_orphaned_swap_def Let_def split: option.splits)
qed

text \<open>Each way an exit is routed ends with the flock steady.\<close>

lemma exit_of_drainee:
  assumes f: "flock_but {i} s" and sl: "get_slot s i = Some sl"
  shows "closes i s (case uncommitted_swap_of s i of
      Some nm \<Rightarrow> if man \<noteq> None then decide_exit w i outcome man pd (Some t) oom (abort_reload w nm s)
                 else reap_drainee w i s
    | None \<Rightarrow> reap_drainee w i s)"
proof -
  have "closes i s (decide_exit w i outcome man pd (Some t) oom (abort_reload w nm s))"
    if u: "uncommitted_swap_of s i = Some nm" for nm
  proof -
    have k: "keeps_but {i} s (abort_reload w nm s)" by (rule abort_reload_keeps[OF f])
    obtain sl' where "get_slot (abort_reload w nm s) i = Some sl'" "e_reload (sl_entry sl') = RNone"
      by (rule abort_reload_slot[OF f u sl])
    from decide_exit_closes[OF keeps_flock[OF k] this, of "Some t"] show ?thesis
      by (intro keeps_closes[OF k]) simp
  qed
  then show ?thesis using reap_drainee_closes[OF f sl] by (auto split: option.splits)
qed

lemma exit_of_replacement:
  assumes f: "flock_but {i} s" and sl: "get_slot s i = Some sl" "e_reload (sl_entry sl) = Replacement"
  shows "closes i s (case uncommitted_swap_of (clear_reload i s) i of
      Some nm \<Rightarrow> deregister_on_exit w i (abort_reload w nm (clear_reload i s))
    | None \<Rightarrow> decide_exit w i outcome man pd (Some t) oom (end_orphaned_swap w i (clear_reload i s)))"
proof -
  let ?s = "clear_reload i s"
  have "no_drain_of s i"
    using jobs_ok_job[OF f] sl by (fastforce simp: no_drain_of_def job_ok_def wears_drainee_def)
  then have k: "keeps_but {i} s ?s" by (intro clear_reload_keeps[OF f]) simp
  have sl1: "get_slot ?s i = Some (set_reload RNone sl)" using sl(1) by (simp add: clear_reload_def)
  have "closes i ?s (deregister_on_exit w i (abort_reload w nm ?s))"
    if u: "uncommitted_swap_of ?s i = Some nm" for nm
  proof -
    have k2: "keeps_but {i} ?s (abort_reload w nm ?s)" by (rule abort_reload_keeps[OF keeps_flock[OF k]])
    have "get_slot (abort_reload w nm ?s) i \<noteq> None"
      by (rule abort_reload_slot[OF keeps_flock[OF k] u sl1, of w]) simp
    from deregister_closes(1)[OF keeps_flock[OF k2] this] show ?thesis by (rule keeps_closes[OF k2])
  qed
  moreover have "closes i ?s (decide_exit w i outcome man pd (Some t) oom (end_orphaned_swap w i ?s))"
  proof -
    note o = end_orphaned_keeps[OF keeps_flock[OF k], of w i]
    have "get_slot (end_orphaned_swap w i ?s) i = Some (set_reload RNone sl)" using o(2) sl1 by simp
    from decide_exit_closes[OF keeps_flock[OF o(1)] this, of "Some t"] show ?thesis
      by (intro keeps_closes[OF o(1)]) simp
  qed
  ultimately show ?thesis by (intro keeps_closes[OF k]) (simp split: option.splits)
qed

lemma handle_exited_closes:
  assumes st: "steady s" and sl: "get_slot s i = Some sl"
  obtains s2 where "in_hand i s2" "panicked s2 = panicked s" "pending_replies s2 = pending_replies s"
    "\<forall>k. balance k s2 = balance k s + (if k = i \<and> running s i then 1 else 0)"
    "closes i s2 (handle_exited w i outcome s)" "prefix (out s) (out s2)"
proof
  let ?s0 = "snd (take_oom w i s)"
  let ?s1 = "answer_abandoned (fst (abandon_all (sl_actions sl))) ?s0"
  let ?s2 = "upd_slot i (exited_slot outcome) ?s1"
  let ?sl = "exited_slot outcome sl"
  have k0: "keeps s ?s0" by (rule take_oom_keeps[OF steadyD(1)[OF st]])
  have k1: "keeps s ?s1" by (rule keeps_trans[OF k0 answer_abandoned_keeps[OF keeps_flock[OF k0]]])
  note st1 = evolves_steady[OF keeps_evolves[OF st k1]]
  have sl1: "get_slot ?s1 i = Some sl" using sl by simp
  have sl2: "get_slot ?s2 i = Some ?sl" using sl1 by simp
  show h: "in_hand i ?s2" by (rule exited_in_hand(1)[OF st1 sl1])
  show "panicked ?s2 = panicked s" "pending_replies ?s2 = pending_replies s" "prefix (out s) (out ?s2)"
    using k1 by (simp_all add: keeps_but_def)
  show "\<forall>k. balance k ?s2 = balance k s + (if k = i \<and> running s i then 1 else 0)"
    using exited_in_hand(2)[OF st1 sl1, where outcome = outcome] k1 sl sl1 by (simp add: keeps_but_def running_def)
  have re: "e_reload (sl_entry ?sl) = e_reload (sl_entry sl)" by (simp add: exited_slot_def)
  have ok: "slot_ok (next_id s) (next_action_stamp s) i sl" by (rule flock_okD[OF steadyD(1)[OF st] sl])
  have run: "\<exists>t. e_started_at (sl_entry sl) = Some t" if "e_reload (sl_entry sl) \<noteq> RNone"
    using ok that by (auto simp: slot_ok_def in_service_def)
  have rst: "resting_status ?sl" if "e_started_at (sl_entry sl) = None"
    using ok that by (auto simp: slot_ok_def in_service_def exited_slot_def resting_status_def)
  show "closes i ?s2 (handle_exited w i outcome s)"
  proof (cases "e_reload (sl_entry sl)")
    case RNone
    then show ?thesis
      using decide_exit_closes[OF in_handD(1)[OF h] sl2 _ rst] re sl1 by (simp add: handle_exited_def Let_def sl split_beta)
  next
    case (Drainee new_id)
    then obtain t where "e_started_at (sl_entry sl) = Some t" using run by auto
    then show ?thesis
      using exit_of_drainee[OF in_handD(1)[OF h] sl2, where t = t] Drainee by (simp add: handle_exited_def Let_def sl split_beta)
  next
    case Replacement
    then obtain t where "e_started_at (sl_entry sl) = Some t" using run by auto
    then show ?thesis
      using exit_of_replacement[OF in_handD(1)[OF h] sl2, where t = t] Replacement re
      by (simp add: handle_exited_def Let_def sl split_beta)
  qed
qed

lemma handle_exited_steady:
  assumes st: "steady s"
  shows "steady (snd (handle_exited w i outcome s)) \<and> panicked (snd (handle_exited w i outcome s)) = panicked s \<and>
    prefix (out s) (out (snd (handle_exited w i outcome s))) \<and>
    balance k (snd (handle_exited w i outcome s)) = balance k s + (if k = i \<and> running s i then 1 else 0)"
proof (cases "get_slot s i")
  case None
  have "evolves s (snd (take_oom w i s))" by (rule keeps_evolves[OF st take_oom_keeps[OF steadyD(1)[OF st]]])
  then show ?thesis using None by (simp add: handle_exited_def split_beta evolves_def running_def)
next
  case (Some sl)
  obtain s2 where s2: "in_hand i s2" "panicked s2 = panicked s" "pending_replies s2 = pending_replies s"
    "\<forall>k. balance k s2 = balance k s + (if k = i \<and> running s i then 1 else 0)"
    "closes i s2 (handle_exited w i outcome s)" "prefix (out s) (out s2)"
    by (rule handle_exited_closes[OF st Some, of w outcome])
  from closes_mends[OF s2(5) in_handD(2)[OF s2(1)]] show ?thesis
    using s2 by (auto simp: mends_def intro: prefix_order.trans)
qed

text \<open>
  What an exit does to the deferred replies: its id is struck from every one of them, those it
  empties are answered and dropped, and the loop ends if one of those was the shutdown's.
\<close>

definition strikes :: "nat \<Rightarrow> PendingReply list \<Rightarrow> bool \<Rightarrow> PendingReply list \<Rightarrow> effect list \<Rightarrow> bool" where
  "strikes i ps stop ps' es \<longleftrightarrow> (\<exists>info.
     ps' = filter (\<lambda>p. pr_remaining p \<noteq> []) (map (without_id i info) ps) \<and>
     stop = list_ex (\<lambda>p. is_shutdown (pr_reply p) \<and> pr_remaining (without_id i info p) = []) ps \<and>
     answer_of ` set (filter (\<lambda>p. pr_remaining p = []) (map (without_id i info) ps)) \<subseteq> set es)"

text \<open>The effects added to the trace between two states.\<close>

definition since :: "actor \<Rightarrow> actor \<Rightarrow> effect list" where
  "since s s' = drop (length (out s)) (out s')"

lemma since_trans:
  assumes "prefix (out s) (out s1)" "prefix (out s1) (out s2)"
  shows "since s s2 = since s s1 @ since s1 s2"
  using assms by (auto simp: since_def prefix_def)

lemma closes_strikes:
  assumes "closes i s r"
  shows "strikes i (pending_replies s) (fst r) (pending_replies (snd r)) (since s (snd r))"
proof -
  obtain info s1 where c: "keeps s s1" "fst r = fst (resolve_pending i info s1)"
    "keeps (snd (resolve_pending i info s1)) (snd r)" using assms by (auto simp: closes_def)
  obtain b s2 where e: "resolve_pending i info s1 = (b, s2)" by fastforce
  have "pending_replies (snd r) = filter (\<lambda>p. pr_remaining p \<noteq> []) (map (without_id i info) (pending_replies s))"
    using c e resolve_pending_spec(1)[OF e] by (simp add: keeps_but_def)
  moreover have "fst r = list_ex (\<lambda>p. is_shutdown (pr_reply p) \<and> pr_remaining (without_id i info p) = []) (pending_replies s)"
    using c resolve_pending_stop[of i info s1] by (simp add: keeps_but_def)
  moreover have "answer_of ` set (filter (\<lambda>p. pr_remaining p = []) (map (without_id i info) (pending_replies s))) \<subseteq> set (since s (snd r))"
  proof -
    have a: "since s1 s2 = map answer_of (filter (\<lambda>p. pr_remaining p = []) (map (without_id i info) (pending_replies s)))"
      using resolve_pending_out[of i info s1] c(1) e by (simp add: since_def keeps_but_def)
    have p: "prefix (out s) (out s1)" "prefix (out s1) (out s2)" "prefix (out s2) (out (snd r))"
      using c e prefix_resolve[of "out s1" s1 i info] by (simp_all add: keeps_but_def)
    show ?thesis
      unfolding since_trans[OF p(1) prefix_order.trans[OF p(2,3)]] since_trans[OF p(2,3)] a by auto
  qed
  ultimately show ?thesis unfolding strikes_def by blast
qed

lemma strikes_more: "strikes i ps stop ps' es \<Longrightarrow> set es \<subseteq> set es' \<Longrightarrow> strikes i ps stop ps' es'"
  unfolding strikes_def by blast

lemma handle_exited_strikes:
  assumes st: "steady s" and r: "get_slot s i \<noteq> None"
  shows "strikes i (pending_replies s) (fst (handle_exited w i oc s)) (pending_replies (snd (handle_exited w i oc s)))
    (since s (snd (handle_exited w i oc s)))"
proof -
  obtain sl where sl: "get_slot s i = Some sl" using r by blast
  obtain s2 where s2: "in_hand i s2" "pending_replies s2 = pending_replies s" "prefix (out s) (out s2)"
    "closes i s2 (handle_exited w i oc s)" by (rule handle_exited_closes[OF st sl, of w oc])
  have "prefix (out s2) (out (snd (handle_exited w i oc s)))"
    using closes_mends[OF s2(4) in_handD(2)[OF s2(1)]] by (simp add: mends_def)
  from strikes_more[OF closes_strikes[OF s2(4)]] since_trans[OF s2(3) this] s2(2) show ?thesis by simp
qed

subsection \<open>The other messages leave the flock in order\<close>

lemma claim_fold:
  assumes "flock_ok s" "\<forall>i \<in> set ids. running s i"
  shows "keeps s (fold (\<lambda>i. claim_manual i m cap) ids s) \<and>
    (\<forall>i \<in> set ids. claimed (fold (\<lambda>i. claim_manual i m cap) ids s) i)"
  using assms
proof (induction ids arbitrary: s)
  case (Cons i ids)
  let ?s = "claim_manual i m cap s" and ?t = "fold (\<lambda>i. claim_manual i m cap) ids"
  have k: "keeps s ?s" using Cons.prems by (intro claim_manual_keeps) simp_all
  have ih: "keeps ?s (?t ?s)" "\<forall>j \<in> set ids. claimed (?t ?s) j"
    using Cons.IH[OF keeps_flock[OF k]] Cons.prems(2) by simp_all
  have "claimed ?s i" using Cons.prems by (intro claim_manual_claimed) simp
  then have "claimed (?t ?s) i" using ih(1) by (simp add: keeps_but_def)
  then show ?case using keeps_trans[OF k ih(1)] ih(2) by simp
qed (simp add: keeps_refl)

lemmas claim_fold_keeps = claim_fold[THEN conjunct1] claim_fold[THEN conjunct2]

text \<open>A deferred reply may be parked on ids whose exits are on their way.\<close>

lemma park_evolves:
  assumes "evolves s s'" "\<forall>i \<in> set ids. claimed s' i" "ids \<noteq> []"
  shows "evolves s (s'\<lparr> pending_replies := pending_replies s' @
      [\<lparr> pr_remaining = ids, pr_results = res, pr_reply = r \<rparr>] \<rparr>)"
  using assms by (auto simp: evolves_def steady_def flock_but_def pend_ok_def balance_def running_def claimed_def)

lemma begin_shutdown_evolves:
  assumes st: "steady s"
  shows "evolves s (snd (begin_shutdown c s))"
proof -
  let ?s = "s\<lparr> shutting_down := True, reloads := [] \<rparr>"
  let ?ids = "map fst (filter (\<lambda>(i, sl). sl_ctl sl) (sheep ?s))"
  let ?m = "\<lparr> m_kind = MStop, m_origin = Operator \<rparr>"
  have f: "flock_ok s" and p: "pend_ok {} s" using steadyD[OF st] by simp_all
  have e1: "evolves s ?s"
    using f p by (auto simp: evolves_def steady_def flock_but_def pend_ok_def claimed_def jobs_ok_def
        get_job_def balance_def running_def keys_ok_def)
  note f1 = steadyD(1)[OF evolves_steady[OF e1]]
  have run: "\<forall>i \<in> set ?ids. running ?s i"
  proof
    fix i assume "i \<in> set ?ids"
    then obtain sl where "(i, sl) \<in> set (sheep s)" "sl_ctl sl" by auto
    then show "running ?s i" using get_slot_in_sheep[OF flock_butD(2)[OF f], of i sl] by (simp add: running_def)
  qed
  have e2: "evolves s (fold (\<lambda>i. claim_manual i ?m StopCap) ?ids ?s)"
    by (rule after_evolves[OF e1 claim_fold_keeps(1)[OF f1 run]])
  have "evolves s (effect (Reply c Done) ?s)" by (rule after_evolves[OF e1 quiet_effect_keeps[OF f1]]) simp
  then show ?thesis
    using park_evolves[OF e2 claim_fold_keeps(2)[OF f1 run]] by (simp add: begin_shutdown_def Let_def)
qed

lemma handle_extra_restart_evolves:
  "steady s \<Longrightarrow> evolves s (handle_extra_restart w i pid ep ob s)"
  using begin_manual_evolves[of s w] evolves_refl[of s]
  by (simp add: handle_extra_restart_def split: option.splits)

lemma handle_restart_due_keeps:
  assumes f: "flock_ok s"
  shows "keeps s (handle_restart_due w i ep s)"
proof (cases "get_slot s i")
  case None
  then show ?thesis using keeps_refl[OF f] by (simp add: handle_restart_due_def)
next
  case (Some sl)
  have "keeps s (snd (respawn w i False s))" if wr: "slot_status sl = WaitingRestart"
  proof -
    have ctl: "\<not> sl_ctl sl"
      using slot_ok_running[OF flock_okD[OF f Some]] wr by (auto simp: in_service_def)
    note r = flock_rest_slot[OF f Some ctl]
    have "settles i s (snd (respawn w i False s))" using r(2) Some by (intro respawn_settles[OF r(1)]) simp
    then show ?thesis using settles_keeps[OF f _ _ r(3)] by blast
  qed
  then show ?thesis using Some keeps_refl[OF f] by (simp add: handle_restart_due_def)
qed

lemma handle_ready_signal_keeps:
  assumes f: "flock_ok s"
  shows "keeps s (handle_ready_signal i s)"
proof -
  let ?s = "upd_slot i (\<lambda>sl. sl\<lparr> sl_ready_tx := False \<rparr>) s"
  have k: "keeps s ?s" by (intro upd_slot_keeps[OF f]) (auto simp: gentle_def alike_entry resting_status_def)
  have "keeps s (effect (WakeReadiness i) ?s)" by (rule keeps_trans[OF k quiet_effect_keeps[OF keeps_flock[OF k]]]) simp
  then show ?thesis using keeps_refl[OF f] by (simp add: handle_ready_signal_def split: option.splits)
qed

lemma handle_ready_result_keeps:
  assumes f: "flock_ok s"
  shows "keeps s (handle_ready_result w i ep m rd s)"
proof (cases "get_slot s i")
  case None
  then show ?thesis using keeps_refl[OF f] by (simp add: handle_ready_result_def)
next
  case (Some sl)
  have run: "running s i" if "slot_status sl = Starting"
    using slot_ok_resting[OF flock_okD[OF f Some]] that Some by (auto simp: running_def resting_status_def)
  have "keeps s (reload_ready_result w i m rd s)"
    if "slot_status sl = Starting" "e_reload (sl_entry sl) = Replacement"
    using Some that by (intro reload_ready_result_keeps[OF f run]) (auto simp: wears_drainee_def)
  moreover have "keeps s (went_online i (fst (set_status w i Online s)) m (snd (set_status w i Online s)))"
    if st: "slot_status sl = Starting"
  proof -
    have k: "keeps s (snd (set_status w i Online s))" by (rule set_status_keeps[OF f run[OF st]]) simp
    show ?thesis by (rule keeps_trans[OF k went_online_keeps[OF keeps_flock[OF k]]])
  qed
  ultimately show ?thesis using Some keeps_refl[OF f] by (simp add: handle_ready_result_def split_beta)
qed

lemma actions_keeps:
  assumes "flock_but X s" "\<And>sl st. get_slot s i = Some sl \<Longrightarrow> waits_ok st (sl_actions sl) \<Longrightarrow> waits_ok st acts"
  shows "keeps_but X s (upd_slot i (\<lambda>sl. sl\<lparr> sl_actions := acts \<rparr>) s)"
  using assms(2) by (intro upd_slot_keeps[OF assms(1)]) (auto simp: gentle_def alike_entry resting_status_def)

lemma handle_action_reply_keeps:
  assumes f: "flock_ok s"
  shows "keeps s (handle_action_reply i action body stamp s)"
proof (cases "get_slot s i")
  case (Some sl)
  obtain r acts where a: "answer action stamp (sl_actions sl) = (r, acts)" by fastforce
  have k: "keeps s (upd_slot i (\<lambda>sl. sl\<lparr> sl_actions := acts \<rparr>) s)"
    using waits_ok_answer[of _ "sl_actions sl" action stamp] a Some by (intro actions_keeps[OF f]) auto
  show ?thesis
    using Some a k keeps_trans[OF k quiet_effect_keeps[OF keeps_flock[OF k]]]
    by (auto simp: handle_action_reply_def Let_def split: option.splits)
qed (simp add: handle_action_reply_def keeps_refl f)

lemma handle_action_result_keeps:
  assumes f: "flock_ok s"
  shows "keeps s (handle_action_result i stamp oc s)"
proof (cases "get_slot s i")
  case (Some sl)
  obtain r acts where a: "resolve stamp (sl_actions sl) = (r, acts)" by fastforce
  have k: "keeps s (upd_slot i (\<lambda>sl. sl\<lparr> sl_actions := acts \<rparr>) s)"
    using waits_ok_resolve[of _ "sl_actions sl" stamp] a Some by (intro actions_keeps[OF f]) auto
  show ?thesis
    using Some a k keeps_trans[OF k quiet_effect_keeps[OF keeps_flock[OF k]]]
    by (auto simp: handle_action_result_def Let_def split: option.splits)
qed (simp add: handle_action_result_def keeps_refl f)

end
