(* ===== verification/Starting_Flock.thy ===== *)
theory Starting_Flock
  imports Exits
begin

text \<open>
  Registering, starting and scaling (\<open>supervisor/actor_spawn.rs\<close>, \<open>actor_core.rs\<close>,
  \<open>actor_scale.rs\<close>, \<open>actor_reset.rs\<close>, \<open>assemble/slots.rs\<close>).
\<close>

subsection \<open>Instance slots\<close>

text \<open>
  The inner \<open>while\<close> of \<open>instance_slots\<close>: the first slot from \<open>candidate\<close> on that is
  not taken. It ends because only finitely many are.
\<close>

function next_free :: "nat list \<Rightarrow> nat \<Rightarrow> nat" where
  "next_free existing candidate =
     (if candidate \<in> set existing then next_free existing (candidate + 1) else candidate)"
  by auto

termination
proof (relation "measure (\<lambda>(existing, c). card {x \<in> set existing. c \<le> x})")
  fix existing :: "nat list" and c :: nat
  assume "c \<in> set existing"
  then have "c \<in> {x \<in> set existing. c \<le> x}" "c \<notin> {x \<in> set existing. c + 1 \<le> x}" by simp_all
  moreover have "{x \<in> set existing. c + 1 \<le> x} \<subseteq> {x \<in> set existing. c \<le> x}" by auto
  ultimately have "{x \<in> set existing. c + 1 \<le> x} \<subset> {x \<in> set existing. c \<le> x}" by blast
  then have "card {x \<in> set existing. c + 1 \<le> x} < card {x \<in> set existing. c \<le> x}"
    by (intro psubset_card_mono) simp_all
  then show "((existing, c + 1), existing, c) \<in> measure (\<lambda>(existing, c). card {x \<in> set existing. c \<le> x})"
    by simp
qed simp

declare next_free.simps [simp del]

fun slots_from :: "nat list \<Rightarrow> nat \<Rightarrow> nat \<Rightarrow> nat list" where
  "slots_from existing 0 candidate = []"
| "slots_from existing (Suc n) candidate =
     (let c = next_free existing candidate in c # slots_from existing n (c + 1))"

definition instance_slots :: "nat list \<Rightarrow> nat \<Rightarrow> nat list" where
  "instance_slots existing count = slots_from existing count 0"

subsection \<open>Registering at rest\<close>

definition overridden_for :: "world \<Rightarrow> actor \<Rightarrow> string \<Rightarrow> string list" where
  "overridden_for w s nm =
     (case find (\<lambda>(i, sl). slot_name sl = nm) (sheep s) of
        Some (i, sl) \<Rightarrow> e_overridden (sl_entry sl)
      | None \<Rightarrow>
          (case overrides_get (w_store_read w) nm (overrides_file s) of
             Inr (Some rec) \<Rightarrow> sorted_list_of_set (dom (ov_fields rec))
           | _ \<Rightarrow> []))"

datatype Registration = Fresh ProcessInfo | AlreadyKnown ProcessInfo

fun into_info :: "Registration \<Rightarrow> ProcessInfo" where
  "into_info (Fresh info) = info"
| "into_info (AlreadyKnown info) = info"

text \<open>An entry as the three registering functions build it.\<close>

definition new_entry ::
  "nat \<Rightarrow> AppConfig \<Rightarrow> string list \<Rightarrow> nat \<Rightarrow> ProcStatus \<Rightarrow> SpawnIdentity \<Rightarrow> SpawnSpec \<Rightarrow>
   DogSource option \<Rightarrow> ProcessEntry" where
  "new_entry i app overridden inst st identity spec dog =
     \<lparr> e_id = i, e_spec = app, e_pending = None, e_pending_reidentifies = False,
       e_overridden = overridden, e_instance = inst, e_status = st, e_pid = None, e_restarts = 0,
       e_started_at = None, e_budget = budget_default, e_reload = RNone, e_credentials = identity,
       e_out_file = ss_out_file spec, e_err_file = ss_err_file spec, e_dog = dog,
       e_last_exit = None, e_spawn_failure = None \<rparr>"

definition register_without_spawning ::
  "world \<Rightarrow> AppConfig \<Rightarrow> ProcStatus \<Rightarrow> DogSource option \<Rightarrow> actor \<Rightarrow> Registration \<times> actor" where
  "register_without_spawning w app st dog s =
     (case find (\<lambda>(i, sl). slot_name sl = app_name app) (sheep s) of
        Some (i, sl) \<Rightarrow> (AlreadyKnown (to_info (w_now w) (sl_entry sl) (smits s)), s)
      | None \<Rightarrow>
          (let overridden = overridden_for w s (app_name app);
               i = next_id s;
               s = s\<lparr> next_id := i + 1 \<rparr>;
               en = new_entry i app overridden 0 st Unresolved (w_describe w app 0 None) dog;
               info = to_info (w_now w) en (smits s);
               s = put_slot i (slot_new en) s
           in (Fresh info, s)))"

definition register_at_rest :: "world \<Rightarrow> AppConfig \<Rightarrow> actor \<Rightarrow> ProcessInfo \<times> actor" where
  "register_at_rest w app s =
     map_prod into_info id (register_without_spawning w app Stopped None s)"

definition with_mark :: "actor \<Rightarrow> ProcessInfo \<Rightarrow> ProcessInfo" where
  "with_mark s info = (if i_name info \<in> set (disabled s) then info\<lparr> i_disabled := Some True \<rparr> else info)"

definition register_dog_at_rest ::
  "world \<Rightarrow> AppConfig \<Rightarrow> DogSource \<Rightarrow> string list \<Rightarrow> actor \<Rightarrow> ProcessInfo \<times> actor" where
  "register_dog_at_rest w app source dis s =
     (case register_without_spawning w app Stopped (Some source) s of
        (Fresh info, s) \<Rightarrow>
          (let s = (if i_name info \<in> set dis
                    then s\<lparr> disabled := List.insert (i_name info) (disabled s) \<rparr> else s)
           in (with_mark s info, s))
      | (AlreadyKnown info, s) \<Rightarrow> (info, s))"

text \<open>Mapping a stateful step over a list, collecting its results.\<close>

fun map_state :: "('a \<Rightarrow> 's \<Rightarrow> 'b \<times> 's) \<Rightarrow> 'a list \<Rightarrow> 's \<Rightarrow> 'b list \<times> 's" where
  "map_state f [] s = ([], s)"
| "map_state f (x # xs) s =
     (let (y, s) = f x s; (ys, s) = map_state f xs s in (y # ys, s))"

definition mark_disabled :: "AppConfig list \<Rightarrow> string list \<Rightarrow> actor \<Rightarrow> actor" where
  "mark_disabled apps names s =
     s\<lparr> disabled := extend_set (filter (\<lambda>nm. nm \<in> set names) (map app_name apps)) (disabled s) \<rparr>"

subsection \<open>Spawning a fresh instance\<close>

text \<open>What a failed spawn says it tried.\<close>

definition attempted :: "world \<Rightarrow> SpawnSpec \<Rightarrow> string" where
  "attempted w spec =
     (case w_preflight w spec of
        PDoubtful reason \<Rightarrow> reason
      | _ \<Rightarrow>
          (case ss_cwd spec of
             Some cwd \<Rightarrow> ''tried `'' @ ss_program spec @ ''` in '' @ cwd
           | None \<Rightarrow> ''tried `'' @ ss_program spec @ ''`''))"

definition spawn_fresh ::
  "world \<Rightarrow> AppConfig \<Rightarrow> nat \<Rightarrow> Credentials option \<Rightarrow> DogSource option \<Rightarrow> string list \<Rightarrow> actor \<Rightarrow>
   (string + ProcessInfo) \<times> actor" where
  "spawn_fresh w app inst credentials dog gate s =
     (let overridden = overridden_for w s (app_name app);
          i = next_id s;
          s = s\<lparr> next_id := i + 1 \<rparr>
      in case assembled w app i inst credentials s of
        (Inl err, s) \<Rightarrow>
          (let en = new_entry i app overridden inst Errored (Resolved credentials)
                      (w_describe w app inst credentials) dog;
               s = put_slot i (slot_new en) s;
               (info, s) = refuse_spawn w i True err s
           in if is_retriable err then (Inr info, s) else (Inl (assemble_error_display err), s))
      | (Inr spec, s) \<Rightarrow>
          (let source = of_normalized app;
               gated = (source \<noteq> Heuristic \<or> app_name app \<in> set gate)
           in case w_spawn w i spec of
             Inr pid \<Rightarrow>
               (let en = (new_entry i app overridden inst (if gated then Starting else Online)
                            (Resolved credentials) spec dog)
                           \<lparr> e_pid := Some pid, e_started_at := Some (w_now w) \<rparr>;
                    info = to_info (w_now w) en (smits s);
                    s = effect (Spawned i pid) s;
                    s = (if gated then effect (ArmReadiness i 0 True source
                           (as_duration (app_listen_timeout app))) s else s);
                    s = put_slot i (running_slot w gated en) s;
                    s = emit EvStart info True s;
                    s = (if gated then s else went_online i info True s)
                in (Inr info, s))
           | Inl error \<Rightarrow>
               (let message = error @ ''; '' @ attempted w spec;
                    en = (new_entry i app overridden inst Errored (Resolved credentials) spec dog)
                           \<lparr> e_spawn_failure := Some (app_name app @ '': '' @ message) \<rparr>;
                    info = to_info (w_now w) en (smits s);
                    s = put_slot i (slot_new en) s;
                    s = emit EvErrored info True s
                in (Inl message, s))))"

subsection \<open>Starting a batch\<close>

datatype BatchPolicy = AllOrNothing | PerApp

fun join :: "string \<Rightarrow> string list \<Rightarrow> string" where
  "join sep [] = []"
| "join sep [x] = x"
| "join sep (x # y # ys) = x @ sep @ join sep (y # ys)"

definition held_by_dog :: "actor \<Rightarrow> string \<Rightarrow> bool" where
  "held_by_dog s nm \<longleftrightarrow>
     list_ex (\<lambda>(i, sl). e_dog (sl_entry sl) \<noteq> None \<and> slot_name sl = nm) (sheep s)"

definition refuse_dog_names :: "actor \<Rightarrow> string list \<Rightarrow> SupervisorError + unit" where
  "refuse_dog_names s names =
     (case find (held_by_dog s) names of
        Some nm \<Rightarrow>
          Inl (IsADog (nm @ '' is a dog, so a sheep cannot take its name; rename the sheep''))
      | None \<Rightarrow> Inr ())"

text \<open>
  The check of one app before anything is registered: who it runs as, whether its
  templates render, whether its program can exec. An app that cannot resolve its identity
  leaves an \<open>Errored\<close> row under \<open>PerApp\<close> only.
\<close>

datatype checked = Ready_app "Credentials option" | Refused string | Failed string

definition check_app ::
  "world \<Rightarrow> DogSource option \<Rightarrow> BatchPolicy \<Rightarrow> AppConfig \<Rightarrow> actor \<Rightarrow> checked \<times> actor" where
  "check_app w dog policy app s =
     (case w_resolve w app of
        Inl err \<Rightarrow>
          (let reason = app_name app @ '': '' @ err in
           case policy of
             AllOrNothing \<Rightarrow> (Refused reason, s)
           | PerApp \<Rightarrow>
               (case register_without_spawning w app Errored dog s of
                  (Fresh info, s) \<Rightarrow>
                    (let s = expect_slot (i_id info) s;
                         s = upd_slot (i_id info)
                               (upd_entry (\<lambda>e. e\<lparr> e_spawn_failure := Some reason \<rparr>)) s;
                         s = emit EvErrored (info\<lparr> i_spawn_failure := Some reason \<rparr>) True s
                     in (Failed reason, s))
                | (AlreadyKnown _, s) \<Rightarrow> (Failed reason, s)))
      | Inr credentials \<Rightarrow>
          (case w_assemble w app 0 None of
             Inl err \<Rightarrow>
               if \<not> is_retriable err \<and> policy = AllOrNothing
               then (Refused (app_name app @ '': '' @ assemble_error_display err), s)
               else
                 (case w_preflight w (w_describe w app 0 None) of
                    PImpossible reason \<Rightarrow>
                      if policy = AllOrNothing then (Refused (app_name app @ '': '' @ reason), s)
                      else (Ready_app credentials, s)
                  | _ \<Rightarrow> (Ready_app credentials, s))
           | Inr spec \<Rightarrow>
               (case w_preflight w spec of
                  PImpossible reason \<Rightarrow>
                    if policy = AllOrNothing then (Refused (app_name app @ '': '' @ reason), s)
                    else (Ready_app credentials, s)
                | _ \<Rightarrow> (Ready_app credentials, s))))"

definition ready_apps :: "(AppConfig \<times> checked) list \<Rightarrow> (AppConfig \<times> Credentials option) list" where
  "ready_apps checks =
     List.map_filter (\<lambda>(app, c). case c of Ready_app cr \<Rightarrow> Some (app, cr) | _ \<Rightarrow> None) checks"

definition refusals_of :: "(AppConfig \<times> checked) list \<Rightarrow> string list" where
  "refusals_of checks = List.map_filter (\<lambda>(app, c). case c of Refused r \<Rightarrow> Some r | _ \<Rightarrow> None) checks"

definition failures_of :: "(AppConfig \<times> checked) list \<Rightarrow> string list" where
  "failures_of checks = List.map_filter (\<lambda>(app, c). case c of Failed r \<Rightarrow> Some r | _ \<Rightarrow> None) checks"

text \<open>The instances of one app, in slot order, until one fails.\<close>

fun spawn_slots ::
  "world \<Rightarrow> AppConfig \<Rightarrow> Credentials option \<Rightarrow> DogSource option \<Rightarrow> string list \<Rightarrow> nat list \<Rightarrow>
   ProcessInfo list \<Rightarrow> actor \<Rightarrow> string option \<times> ProcessInfo list \<times> actor" where
  "spawn_slots w app cr dog gate [] results s = (None, results, s)"
| "spawn_slots w app cr dog gate (inst # insts) results s =
     (case spawn_fresh w app inst cr dog gate s of
        (Inr info, s) \<Rightarrow> spawn_slots w app cr dog gate insts (results @ [info]) s
      | (Inl message, s) \<Rightarrow> (Some message, results, s))"

definition taken_slots :: "actor \<Rightarrow> string \<Rightarrow> nat list" where
  "taken_slots s nm =
     sort (map (\<lambda>(i, sl). e_instance (sl_entry sl)) (filter (\<lambda>(i, sl). slot_name sl = nm) (sheep s)))"

fun start_ready ::
  "world \<Rightarrow> DogSource option \<Rightarrow> BatchPolicy \<Rightarrow> string list \<Rightarrow> (AppConfig \<times> Credentials option) list \<Rightarrow>
   string list \<Rightarrow> ProcessInfo list \<Rightarrow> actor \<Rightarrow> (SupervisorError + ProcessInfo list) \<times> actor" where
  "start_ready w dog policy gate [] failures results s =
     (if failures \<noteq> [] then (Inl (SpawnFailed (join ''; '' failures)), s)
      else (Inr (sort_flock results), s))"
| "start_ready w dog policy gate ((app, cr) # ready) failures results s =
     (let slots = instance_slots (taken_slots s (app_name app)) (unat (app_instances app)) in
      case spawn_slots w app cr dog gate slots results s of
        (None, results, s) \<Rightarrow> start_ready w dog policy gate ready failures results s
      | (Some message, results, s) \<Rightarrow>
          (let failure = app_name app @ '': '' @ message in
           case policy of
             AllOrNothing \<Rightarrow> (Inl (SpawnFailed failure), s)
           | PerApp \<Rightarrow> start_ready w dog policy gate ready (failures @ [failure]) results s))"

definition do_start ::
  "world \<Rightarrow> AppConfig list \<Rightarrow> DogSource option \<Rightarrow> BatchPolicy \<Rightarrow> string list \<Rightarrow> actor \<Rightarrow>
   (SupervisorError + ProcessInfo list) \<times> actor" where
  "do_start w apps dog policy gate s =
     (case (if dog = None
            then and_then (refuse_dog_names s (map app_name apps))
                   (\<lambda>_. refuse_disabled s (map app_name apps))
            else Inr ()) of
        Inl err \<Rightarrow> (Inl err, s)
      | Inr _ \<Rightarrow>
          (let (checks, s) = map_state (\<lambda>app s. map_prod (Pair app) id (check_app w dog policy app s)) apps s;
               refusals = refusals_of checks
           in if refusals \<noteq> [] then
                (Inl (CannotStart (''nothing in this batch was registered; '' @
                   show_nat (length refusals) @ '' of '' @ show_nat (length apps) @
                   '' apps cannot start: '' @ join ''; '' refusals)), s)
              else start_ready w dog policy gate (ready_apps checks) (failures_of checks) [] s))"

subsection \<open>Starting a dog\<close>

definition is_at_rest :: "ProcessEntry \<Rightarrow> bool" where
  "is_at_rest en \<longleftrightarrow> e_dog en \<noteq> None \<and> e_status en = Stopped \<and> e_last_exit en = None"

definition is_disabled_dog :: "actor \<Rightarrow> ProcessEntry \<Rightarrow> bool" where
  "is_disabled_dog s en \<longleftrightarrow> e_dog en \<noteq> None \<and> app_name (e_spec en) \<in> set (disabled s)"

definition is_parked_dog :: "actor \<Rightarrow> ProcessEntry \<Rightarrow> bool" where
  "is_parked_dog s en \<longleftrightarrow> e_status en = Stopped \<and> is_disabled_dog s en"

text \<open>Rewriting the marker of every slot of the apps in \<open>names\<close> from one kind to another.\<close>

definition remark :: "string list \<Rightarrow> ManualKind \<Rightarrow> ManualKind \<Rightarrow> actor \<Rightarrow> actor" where
  "remark names from_kind to_kind s =
     s\<lparr> sheep := map (\<lambda>(i, sl). (i,
          if (case sl_manual sl of Some m \<Rightarrow> m_kind m = from_kind | None \<Rightarrow> False) \<and>
             slot_name sl \<in> set names
          then sl\<lparr> sl_manual := Some \<lparr> m_kind = to_kind, m_origin = Operator \<rparr> \<rparr>
          else sl)) (sheep s) \<rparr>"

definition cancel_dog_disable :: "string \<Rightarrow> actor \<Rightarrow> actor" where
  "cancel_dog_disable nm s =
     (if nm \<notin> set (disabled s) then s
      else remark [nm] MStop MRestart (s\<lparr> disabled := removeAll nm (disabled s) \<rparr>))"

definition do_start_dog ::
  "world \<Rightarrow> AppConfig \<Rightarrow> DogSource \<Rightarrow> actor \<Rightarrow> (SupervisorError + ProcessInfo) \<times> actor" where
  "do_start_dog w app source s =
     (if shutting_down s then (Inl EngineStopped, s)
      else
        (let nm = app_name app;
             held = find (\<lambda>(i, sl). slot_name sl = nm) (sheep s)
         in case (case held of
                    None \<Rightarrow> Inr None
                  | Some (i, sl) \<Rightarrow>
                      if is_at_rest (sl_entry sl) \<or> is_parked_dog s (sl_entry sl) \<or>
                         (e_dog (sl_entry sl) \<noteq> None \<and> slot_status sl = Errored)
                      then Inr (Some i)
                      else Inl (to_info (w_now w) (sl_entry sl) (smits s))) of
              Inl info \<Rightarrow> (Inr info, cancel_dog_disable nm s)
            | Inr resting \<Rightarrow>
                (let s = (case source of
                            Adopted path \<Rightarrow> s\<lparr> dog_binaries := AList.update nm path (dog_binaries s) \<rparr>
                          | BuiltIn \<Rightarrow> s);
                     s = s\<lparr> disabled := removeAll nm (disabled s) \<rparr>;
                     (resume, s) = (case resting of
                        None \<Rightarrow> (None, s)
                      | Some i \<Rightarrow> (Some (next_id s), (del_slot i s)\<lparr> next_id := i \<rparr>));
                     (started, s) = do_start w [app] (Some source) PerApp [] s;
                     s = (case resume of None \<Rightarrow> s | Some n \<Rightarrow> s\<lparr> next_id := n \<rparr>)
                 in case started of
                      Inl err \<Rightarrow> (Inl err, s)
                    | Inr [] \<Rightarrow> (Inl (SpawnFailed ''the dog registered no instance''), s)
                    | Inr (info # _) \<Rightarrow> (Inr info, s))))"

subsection \<open>Scaling\<close>

definition try_with_count :: "world \<Rightarrow> AppConfig \<Rightarrow> nat \<Rightarrow> NormalizeError + AppConfig" where
  "try_with_count w app n = normalize (w_platform w) (app\<lparr> app_instances := word_of_nat n \<rparr>)"

definition with_count :: "world \<Rightarrow> AppConfig \<Rightarrow> nat \<Rightarrow> AppConfig option" where
  "with_count w app n = (case try_with_count w app n of Inl _ \<Rightarrow> None | Inr a \<Rightarrow> Some a)"

definition scale_slots :: "actor \<Rightarrow> string \<Rightarrow> (nat \<times> nat) list" where
  "scale_slots s nm =
     sort (map (\<lambda>(i, sl). (e_instance (sl_entry sl), i)) (filter (\<lambda>(i, sl). slot_name sl = nm) (sheep s)))"

text \<open>
  The spawning half of a scale-up: the ids that came up, and the id and message of the
  one that did not.
\<close>

fun scale_up_loop ::
  "world \<Rightarrow> AppConfig \<Rightarrow> Credentials option \<Rightarrow> nat list \<Rightarrow> nat list \<Rightarrow> actor \<Rightarrow>
   nat list \<times> (nat \<times> string) option \<times> actor" where
  "scale_up_loop w app cr [] ids s = (ids, None, s)"
| "scale_up_loop w app cr (inst # insts) ids s =
     (let attempted_id = next_id s in
      case spawn_fresh w app inst cr None [] s of
        (Inr info, s) \<Rightarrow> scale_up_loop w app cr insts (ids @ [i_id info]) s
      | (Inl message, s) \<Rightarrow> (ids, Some (attempted_id, message), s))"

text \<open>The config write-back onto one surviving slot.\<close>

definition rescale_slot ::
  "world \<Rightarrow> AppConfig \<Rightarrow> nat \<Rightarrow> (AppConfig \<times> bool) option \<Rightarrow> SheepSlot \<Rightarrow> SheepSlot" where
  "rescale_slot w stored achieved owed sl = upd_entry (\<lambda>e.
     (let e = e\<lparr> e_spec := stored \<rparr> in
      case e_pending e of
        Some parked \<Rightarrow>
          (case with_count w parked achieved of
             Some recounted \<Rightarrow> e\<lparr> e_pending := Some recounted \<rparr>
           | None \<Rightarrow> e)
      | None \<Rightarrow>
          (case owed of
             Some (parked, reident) \<Rightarrow> e\<lparr> e_pending := Some parked, e_pending_reidentifies := reident \<rparr>
           | None \<Rightarrow> e))) sl"

definition scale_write_back ::
  "world \<Rightarrow> nat \<Rightarrow> AppConfig \<Rightarrow> nat \<Rightarrow> nat list \<Rightarrow> (nat \<times> string) option \<Rightarrow> caller \<Rightarrow> actor \<Rightarrow> actor" where
  "scale_write_back w first_id rescaled count survivors failure c s =
     (let achieved = length survivors in
      case try_with_count w rescaled achieved of
        Inl err \<Rightarrow> effect (Reply c (ScaledBody (Inl (InvalidScale (normalize_error_display err))))) s
      | Inr stored \<Rightarrow>
          (let owed = (case get_slot s first_id of
                         None \<Rightarrow> None
                       | Some sl \<Rightarrow>
                           (case e_pending (sl_entry sl) of
                              None \<Rightarrow> None
                            | Some parked \<Rightarrow>
                                Some ((case with_count w parked achieved of Some p \<Rightarrow> p | None \<Rightarrow> parked),
                                      e_pending_reidentifies (sl_entry sl))));
               touched = survivors @ (case failure of None \<Rightarrow> [] | Some (i, _) \<Rightarrow> [i]);
               s = fold (\<lambda>i. upd_slot i (rescale_slot w stored achieved owed)) touched s;
               instances = sort_flock (List.map_filter
                 (\<lambda>i. map_option (\<lambda>sl. to_info (w_now w) (sl_entry sl) (smits s)) (get_slot s i)) survivors)
           in effect (Reply c (ScaledBody (Inr \<lparr> sc_instances = instances, sc_app = stored,
                sc_requested = count, sc_shortfall = map_option snd failure \<rparr>))) s))"

definition handle_scale :: "world \<Rightarrow> string \<Rightarrow> nat \<Rightarrow> caller \<Rightarrow> actor \<Rightarrow> actor" where
  "handle_scale w nm count c s =
     (let refuse = (\<lambda>err. effect (Reply c (ScaledBody (Inl err))) s) in
      case scale_slots s nm of
        [] \<Rightarrow> refuse NotFound
      | (inst0, first_id) # rest \<Rightarrow>
        (let slots = (inst0, first_id) # rest;
             leaving = length (filter (\<lambda>(_, i).
               case get_slot s i of None \<Rightarrow> False | Some sl \<Rightarrow> sl_pending_delete sl) slots)
         in
         if count = 0 then refuse (InvalidScale
           (''an app runs at least one instance; use `shep delete '' @ nm @ ''` to remove it''))
         else if (case get_slot s first_id of None \<Rightarrow> False | Some sl \<Rightarrow> e_dog (sl_entry sl) \<noteq> None)
           then refuse (InvalidScale (nm @ '' is a dog, and a dog runs one process''))
         else if get_job s nm \<noteq> None then refuse (ReloadInFlight nm)
         else if 0 < leaving then refuse (InvalidScale (nm @ '' has '' @ show_nat leaving @
           '' instance(s) still shutting down from an earlier command; wait for them to leave '' @
           ''`shep flock` and scale again''))
         else case get_slot s first_id of
           None \<Rightarrow> panic s
         | Some first_slot \<Rightarrow>
           (case try_with_count w (slot_app first_slot) count of
              Inl err \<Rightarrow> refuse (InvalidScale (normalize_error_display err))
            | Inr rescaled \<Rightarrow>
              (let current = length slots in
               if count = current then
                 scale_write_back w first_id rescaled count (map snd slots) None c s
               else if current < count then
                 (case refuse_disabled s [nm] of
                    Inl err \<Rightarrow> refuse err
                  | Inr _ \<Rightarrow>
                    (case credentials_for_spawn w first_id s of
                       (Inl err, s) \<Rightarrow>
                         effect (Reply c (ScaledBody (Inl (CannotStart (nm @ '': '' @ err))))) s
                     | (Inr cr, s) \<Rightarrow>
                         (case scale_up_loop w rescaled cr
                                 (instance_slots (map fst slots) (count - current)) (map snd slots) s of
                            (ids, failure, s) \<Rightarrow>
                              scale_write_back w first_id rescaled count ids failure c s)))
               else
                 (let removed = map snd (drop count slots);
                      s = begin_manual_ids w removed MDelete Operator (RIds Dropped) s
                  in scale_write_back w first_id rescaled count (map snd (take count slots)) None c s)))))"

subsection \<open>Resetting\<close>

definition reset_slot :: "SheepSlot \<Rightarrow> SheepSlot" where
  "reset_slot sl = upd_entry (\<lambda>e.
     (let e = e\<lparr> e_restarts := 0, e_budget := budget_reset (e_budget e) \<rparr> in
      if e_dog e \<noteq> None \<and> e_status e = Stopped then e else e\<lparr> e_last_exit := None \<rparr>)) sl"

definition handle_reset :: "world \<Rightarrow> ProcessSelector \<Rightarrow> caller \<Rightarrow> actor \<Rightarrow> actor" where
  "handle_reset w sel c s =
     (let ids = reached_ids s sel SwAny in
      if ids = [] then effect (Reply c (Infos (Inl NotFound))) s
      else
        (let s = fold (\<lambda>i. upd_slot i reset_slot) ids s;
             rows = List.map_filter (\<lambda>i. map_option
               (\<lambda>sl. with_mark s (to_info (w_now w) (sl_entry sl) (smits s))) (get_slot s i)) ids
         in effect (Reply c (Infos (Inr (sort_flock rows)))) s))"

subsection \<open>Registering and spawning keep the flock in order\<close>

text \<open>
  A slot in order placed under one id, everything else as it was: what a registration or a
  fresh spawn does, whichever way the spawn goes. The process, if there is one, is the one the
  trace says was started.
\<close>

definition places :: "string \<Rightarrow> nat \<Rightarrow> actor \<Rightarrow> actor \<Rightarrow> bool" where
  "places nm i s s' \<longleftrightarrow> (\<forall>k. k \<noteq> i \<longrightarrow> get_slot s' k = get_slot s k \<and> spawns_of k (out s') = spawns_of k (out s)) \<and>
     (keys_ok s \<longrightarrow> keys_ok s') \<and> pending_replies s' = pending_replies s \<and>
     shutting_down s' = shutting_down s \<and> next_action_stamp s' = next_action_stamp s \<and>
     reloads s' = reloads s \<and> panicked s' = panicked s \<and> next_id s' = i + 1 \<and> prefix (out s) (out s') \<and>
     (\<exists>sl. get_slot s' i = Some sl \<and> slot_ok (i + 1) (next_action_stamp s) i sl \<and> slot_name sl = nm \<and>
        \<not> wears_drainee sl \<and>
        spawns_of i (out s') = spawns_of i (out s) + (if sl_ctl sl then 1 else 0))"

text \<open>Placing over an empty or resting slot of the same name keeps the flock in order.\<close>

lemma places_keeps:
  assumes f: "flock_ok s" and p: "places nm i s0 s1"
    and s0: "\<And>k. k \<noteq> i \<Longrightarrow> get_slot s0 k = get_slot s k" "keys_ok s0" "pending_replies s0 = pending_replies s"
      "shutting_down s0 = shutting_down s" "next_action_stamp s0 = next_action_stamp s"
      "reloads s0 = reloads s" "panicked s0 = panicked s" "\<And>k. spawns_of k (out s0) = spawns_of k (out s)"
      "prefix (out s) (out s0)"
    and n: "next_id s \<le> n" "i < n" and own: "\<And>nm' job. get_job s nm' = Some job \<Longrightarrow> i \<in> job_ids job \<Longrightarrow> nm' = nm \<and> sw_old_id (j_swap job) \<noteq> i"
    and off: "\<not> running s i"
  shows "keeps s (s1\<lparr> next_id := n \<rparr>)"
proof -
  let ?s = "s1\<lparr> next_id := n \<rparr>"
  obtain sl where sl: "get_slot s1 i = Some sl" "slot_ok (i + 1) (next_action_stamp s) i sl" "slot_name sl = nm"
    "\<not> wears_drainee sl" "spawns_of i (out s1) = spawns_of i (out s) + (if sl_ctl sl then 1 else 0)"
    using p s0(5,8) by (auto simp: places_def)
  have other: "get_slot s1 k = get_slot s k" if "k \<noteq> i" for k using p s0(1) that by (simp add: places_def)
  have mono: "slot_ok m st k x \<Longrightarrow> m \<le> n \<Longrightarrow> slot_ok n st k x" for m st k x
    by (auto simp: slot_ok_def slot_base_def)
  have "slot_ok n (next_action_stamp s) k x" if "get_slot s1 k = Some x" for k x
    using that sl(1,2) n mono[of "i + 1" _ i] mono[of "next_id s" _ k] flock_okD[OF f] other
    by (cases "k = i") auto
  moreover have "job_ok ?s nm' job" if j: "get_job s nm' = Some job" for nm' job
  proof -
    note ok = jobs_ok_job[OF f j]
    have "owned ?s nm' k" if "k \<in> job_ids job" for k
      using ok that own[OF j] sl(1,3) other n by (cases "k = i") (auto simp: job_ok_def owned_def)
    moreover have "wears_drainee x" if "get_slot s1 (sw_old_id (j_swap job)) = Some x" for x
      using ok own[OF j] that other by (cases "sw_old_id (j_swap job) = i") (auto simp: job_ok_def job_ids_def)
    moreover have "\<not> wears_drainee x" if "sw_new_id (j_swap job) = Some m" "get_slot s1 m = Some x" for m x
      using ok that other sl(1,4) by (cases "m = i") (auto simp: job_ok_def)
    ultimately show ?thesis using ok by (auto simp: job_ok_def)
  qed
  moreover have "get_job s1 = get_job s" using p s0(6) by (intro get_job_cong) (simp add: places_def)
  ultimately have "flock_ok ?s" using p s0(2,5) by (simp add: flock_but_def places_def jobs_ok_def)
  moreover have "balance k ?s = balance k s" for k
    using off sl(1,5) other p s0(8) by (cases "k = i") (auto simp: balance_def running_def places_def)
  moreover have "claimed s k \<Longrightarrow> claimed ?s k" for k
    using off claimed_running[of s k] other by (cases "k = i") (auto simp: claimed_def)
  moreover have "prefix (out s) (out ?s)" using p prefix_order.trans[OF s0(9)] by (simp add: places_def)
  ultimately show ?thesis using p s0 n by (simp add: keeps_but_def places_def)
qed

lemma places_next_keeps:
  assumes f: "flock_ok s" and p: "places nm (next_id s) s s'"
  shows "keeps s s'"
proof -
  have "keeps s (s'\<lparr> next_id := next_id s + 1 \<rparr>)"
  proof (rule places_keeps[OF f p])
    fix nm' job assume "get_job s nm' = Some job" "next_id s \<in> job_ids job"
    then show "nm' = nm \<and> sw_old_id (j_swap job) \<noteq> next_id s"
      using jobs_ok_job[OF f, of nm' job] by (auto simp: job_ok_def owned_def)
  qed (use flock_but_fresh[OF f, of "next_id s"] flock_butD(2)[OF f] in \<open>auto simp: running_def\<close>)
  moreover have "next_id s' = next_id s + 1" using p by (simp add: places_def)
  then have "s'\<lparr> next_id := next_id s + 1 \<rparr> = s'" by (cases s') simp
  ultimately show ?thesis by simp
qed

lemma new_entry_parts [simp]:
  "e_id (new_entry i app ov inst st idn spec dog) = i" "e_spec (new_entry i app ov inst st idn spec dog) = app"
  "e_pending (new_entry i app ov inst st idn spec dog) = None" "e_pid (new_entry i app ov inst st idn spec dog) = None"
  "e_started_at (new_entry i app ov inst st idn spec dog) = None"
  "e_status (new_entry i app ov inst st idn spec dog) = st"
  "e_reload (new_entry i app ov inst st idn spec dog) = RNone"
  by (simp_all add: new_entry_def)

lemma register_places:
  assumes "register_without_spawning w app st dog s = (Fresh info, s')" "st \<in> {Stopped, Errored}"
  shows "places (app_name app) (next_id s) s s'" "i_id info = next_id s"
proof -
  define en where "en = new_entry (next_id s) app (overridden_for w s (app_name app)) 0 st Unresolved
    (w_describe w app 0 None) dog"
  have e: "s' = put_slot (next_id s) (slot_new en) (s\<lparr> next_id := next_id s + 1 \<rparr>)"
    "info = to_info (w_now w) en (smits s)"
    using assms(1) by (auto simp: register_without_spawning_def Let_def en_def split: option.splits)
  have "slot_ok (next_id s + 1) (next_action_stamp s) (next_id s) (slot_new en)" "\<not> sl_ctl (slot_new en)"
    using assms(2) rest_slot_ok_new[of en "next_id s" "next_id s + 1"] by (auto simp: en_def slot_new_def)
  then show "places (app_name app) (next_id s) s s'"
    unfolding e(1) places_def by (auto simp: slot_new_def wears_drainee_def en_def)
  show "i_id info = next_id s" using e(2) by (simp add: to_info_def en_def)
qed

lemma register_known:
  "register_without_spawning w app st dog s = (AlreadyKnown info, s') \<Longrightarrow> s' = s"
  by (auto simp: register_without_spawning_def Let_def split: option.splits)

lemma register_keeps:
  assumes "flock_ok s" "register_without_spawning w app st dog s = (r, s')" "st \<in> {Stopped, Errored}"
  shows "keeps s s'"
  using assms register_places(1) register_known places_next_keeps keeps_refl by (cases r) metis+

text \<open>A settling step on the slot just placed leaves a placement.\<close>

lemma places_settles:
  assumes p: "places nm i s s1" and r: "rest_slot i s1" and st: "settles i s1 s2"
    and sp: "spawns_of i (out s1) = spawns_of i (out s)"
  shows "places nm i s s2"
proof -
  have t: "touch i s1 s2" using st by (simp add: settles_def)
  obtain sl1 where sl1: "get_slot s1 i = Some sl1" "slot_name sl1 = nm" "\<not> wears_drainee sl1"
    using p by (auto simp: places_def)
  obtain sl2 where sl2: "get_slot s2 i = Some sl2" "slot_ok (next_id s1) (next_action_stamp s1) i sl2"
    using st by (auto simp: settles_def)
  have "alike sl1 sl2" using touch_slot[OF t sl2(1)] sl1(1) by (metis option.inject)
  moreover have "balance i s2 = balance i s1" "\<not> sl_ctl sl1"
    using st r sl1(1) by (auto simp: settles_def rest_slot_def at_rest_def)
  then have "spawns_of i (out s2) = spawns_of i (out s) + (if sl_ctl sl2 then 1 else 0)"
    using sp sl1(1) sl2(1) by (simp add: balance_def running_def split: if_splits)
  moreover have "prefix (out s) (out s2)"
    using p t prefix_order.trans[of "out s" "out s1" "out s2"] by (simp add: places_def touch_def)
  ultimately show ?thesis
    using p st t sl1 sl2 by (simp add: places_def settles_def touch_def alike_def)
qed

lemma places_frame:
  assumes "places nm i s s1" "get_slot s2 = get_slot s1" "reloads s2 = reloads s1" "keys_ok s1 \<Longrightarrow> keys_ok s2"
    "pending_replies s2 = pending_replies s1" "shutting_down s2 = shutting_down s1"
    "next_action_stamp s2 = next_action_stamp s1" "panicked s2 = panicked s1" "next_id s2 = next_id s1"
    "\<And>k. spawns_of k (out s2) = spawns_of k (out s1)" "prefix (out s1) (out s2)"
  shows "places nm i s s2"
  using assms by (auto simp: places_def intro: prefix_order.trans)

lemma put_places:
  assumes "get_slot s0 = get_slot s" "reloads s0 = reloads s" "keys_ok s \<Longrightarrow> keys_ok s0"
    "pending_replies s0 = pending_replies s" "shutting_down s0 = shutting_down s"
    "next_action_stamp s0 = next_action_stamp s" "panicked s0 = panicked s" "next_id s0 = i + 1"
    "\<And>k. spawns_of k (out s0) = spawns_of k (out s) + (if k = i \<and> sl_ctl sl then 1 else 0)"
    "slot_ok (i + 1) (next_action_stamp s) i sl" "slot_name sl = nm" "\<not> wears_drainee sl"
    "prefix (out s) (out s0)"
  shows "places nm i s (put_slot i sl s0)"
  using assms by (simp add: places_def)

lemma rest_new:
  assumes "e_id en = i" "e_pending en = None" "e_pid en = None" "e_started_at en = None"
    "e_status en = Errored" "e_reload en = RNone"
  shows "slot_ok (i + 1) st i (slot_new en)" "\<not> sl_ctl (slot_new en)" "\<not> wears_drainee (slot_new en)"
    "slot_name (slot_new en) = app_name (e_spec en)"
  using rest_slot_ok_new[of en i "i + 1"] assms by (simp_all add: wears_drainee_def slot_new_def)

lemma running_new:
  assumes "e_id en = i" "e_pending en = None" "e_pid en \<noteq> None" "e_started_at en \<noteq> None"
    "e_status en \<in> {Starting, Online}" "e_reload en = RNone"
  shows "slot_ok (i + 1) st i (running_slot w gated en)" "sl_ctl (running_slot w gated en)"
    "\<not> wears_drainee (running_slot w gated en)" "slot_name (running_slot w gated en) = app_name (e_spec en)"
  using running_slot_ok_new[of en i "i + 1"] assms
  by (simp_all add: wears_drainee_def running_slot_def slot_new_def)

text \<open>The three endings of a fresh spawn: refused before exec, up, or failed to exec.\<close>

lemma spawn_refused_places:
  assumes "assembled w app i inst cr (s\<lparr> next_id := i + 1 \<rparr>) = (a, s2)" "i = next_id s"
    "en = new_entry i app ov inst Errored idn spec dog"
  shows "places (app_name app) i s (snd (refuse_spawn w i True err (put_slot i (slot_new en) s2)))"
proof -
  note fr = assembled_frame[OF assms(1)]
  note sl = rest_new[of en i, simplified assms(3), simplified]
  let ?s3 = "put_slot i (slot_new en) s2"
  have p: "places (app_name app) i s ?s3"
    using sl fr by (intro put_places) (simp_all add: assms(3))
  have r: "rest_slot i ?s3"
    using sl(1) fr by (auto simp: rest_slot_def slot_ok_def slot_base_def assms(3) in_service_def slot_new_def at_rest_def
        parked_ok_def waits_ok_no_waits)
  show ?thesis by (rule places_settles[OF p r refuse_spawn_settles[OF r]]) (simp add: fr)
qed

lemma spawn_failed_places:
  assumes "assembled w app i inst cr (s\<lparr> next_id := i + 1 \<rparr>) = (a, s2)" "i = next_id s"
    "en = (new_entry i app ov inst Errored idn spec dog)\<lparr> e_spawn_failure := Some msg \<rparr>"
  shows "places (app_name app) i s (emit ev info m (put_slot i (slot_new en) s2))"
proof -
  note fr = assembled_frame[OF assms(1)]
  note sl = rest_new[of en i, simplified assms(3), simplified]
  have "places (app_name app) i s (put_slot i (slot_new en) s2)"
    using sl fr by (intro put_places) (simp_all add: assms(3))
  then show ?thesis by (rule places_frame) simp_all
qed

lemma went_online_places:
  assumes "places nm i s s1"
  shows "places nm i s (went_online i info m s1)"
proof -
  obtain sl where sl: "get_slot s1 i = Some sl" "slot_ok (i + 1) (next_action_stamp s) i sl" "slot_name sl = nm"
    "\<not> wears_drainee sl" "spawns_of i (out s1) = spawns_of i (out s) + (if sl_ctl sl then 1 else 0)"
    using assms by (auto simp: places_def)
  let ?sl = "sl\<lparr> sl_ready_failed := False \<rparr>"
  have "gentle sl ?sl" by (auto simp: gentle_def alike_entry resting_status_def)
  from gentle_fit[OF this, of "{}"] have "slot_ok (i + 1) (next_action_stamp s) i ?sl" using sl(2) by simp
  moreover have "\<not> wears_drainee ?sl" using sl(4) by (simp add: wears_drainee_def)
  ultimately have "places nm i s (upd_slot i (\<lambda>sl. sl\<lparr> sl_ready_failed := False \<rparr>) s1)"
    using assms sl by (simp add: places_def)
  then show ?thesis unfolding went_online_def Let_def by (rule places_frame) simp_all
qed

lemma spawn_up_places:
  assumes "assembled w app i inst cr (s\<lparr> next_id := i + 1 \<rparr>) = (a, s2)" "i = next_id s" "quiet e"
    "en = (new_entry i app ov inst (if gated then Starting else Online) idn spec dog)
       \<lparr> e_pid := Some pid, e_started_at := Some t \<rparr>"
  shows "places (app_name app) i s (emit ev info m (put_slot i (running_slot w gated en)
      (if gated then effect e (effect (Spawned i pid) s2) else effect (Spawned i pid) s2)))"
proof -
  note fr = assembled_frame[OF assms(1)]
  have "e_id en = i" "e_pending en = None" "e_pid en \<noteq> None" "e_started_at en \<noteq> None"
    "e_status en \<in> {Starting, Online}" "e_reload en = RNone" "e_spec en = app"
    by (simp_all add: assms(4))
  note sl = running_new[OF this(1-6)] this(7)
  have "places (app_name app) i s (put_slot i (running_slot w gated en)
      (if gated then effect e (effect (Spawned i pid) s2) else effect (Spawned i pid) s2))"
    using sl fr assms(3) by (intro put_places) simp_all
  then show ?thesis by (rule places_frame) simp_all
qed

lemma spawn_fresh_places:
  assumes "spawn_fresh w app inst cr dog gate s = (r, s')"
  shows "places (app_name app) (next_id s) s s'"
proof -
  obtain a s2 where a: "assembled w app (next_id s) inst cr (s\<lparr> next_id := next_id s + 1 \<rparr>) = (a, s2)" by fastforce
  show ?thesis
  proof (cases a)
    case (Inl err)
    then show ?thesis
      using assms a spawn_refused_places[OF a refl refl, where err = err]
      by (auto simp: spawn_fresh_def Let_def split: prod.splits if_splits) (metis snd_conv)+
  next
    case (Inr spec)
    show ?thesis
    proof (cases "w_spawn w (next_id s) spec")
      case err: (Inl error)
      then show ?thesis
        using assms a Inr spawn_failed_places[OF a refl refl] by (auto simp: spawn_fresh_def Let_def)
    next
      case pid: (Inr pid)
      have q: "quiet (ArmReadiness (next_id s) 0 True src d)" for src d by simp
      note up = spawn_up_places[OF a refl q refl]
      show ?thesis
        using assms a Inr pid up[where gated = True, simplified]
          went_online_places[OF up[where gated = False], simplified]
        by (auto simp: spawn_fresh_def Let_def split: if_splits)
    qed
  qed
qed

subsection \<open>Batches keep the flock in order\<close>

lemma places_gentle:
  assumes p: "places nm i s s1" and g: "\<And>sl. gentle sl (f sl)"
  shows "places nm i s (upd_slot i f s1)"
proof -
  obtain sl where sl: "get_slot s1 i = Some sl" "slot_ok (i + 1) (next_action_stamp s) i sl" "slot_name sl = nm"
    "\<not> wears_drainee sl" "spawns_of i (out s1) = spawns_of i (out s) + (if sl_ctl sl then 1 else 0)"
    using p by (auto simp: places_def)
  have "slot_ok (i + 1) (next_action_stamp s) i (f sl)" using gentle_fit[OF g, of "{}" _ _ i sl] sl(2) by simp
  moreover have "alike sl (f sl)" "sl_ctl (f sl) = sl_ctl sl" using g[of sl] by (simp_all add: gentle_def)
  ultimately show ?thesis using p sl by (simp add: places_def alike_def)
qed

lemma check_app_step:
  assumes "check_app w dog policy app s = (c, s')"
  shows "s' = s \<or> (\<exists>r. c = Failed r) \<and> places (app_name app) (next_id s) s s'"
proof (cases "\<exists>info s1. policy = PerApp \<and> (\<exists>e. w_resolve w app = Inl e) \<and>
    register_without_spawning w app Errored dog s = (Fresh info, s1)")
  case True
  then obtain info s1 err where t: "policy = PerApp" "w_resolve w app = Inl err"
    "register_without_spawning w app Errored dog s = (Fresh info, s1)" by blast
  have p: "places (app_name app) (next_id s) s s1" "i_id info = next_id s"
    using register_places[OF t(3)] by simp_all
  have "get_slot s1 (next_id s) \<noteq> None" using p(1) by (auto simp: places_def)
  then have "c = Failed (app_name app @ '': '' @ err) \<and> (\<exists>info'. s' = emit EvErrored info' True (upd_slot (next_id s)
      (upd_entry (\<lambda>e. e\<lparr> e_spawn_failure := Some (app_name app @ '': '' @ err) \<rparr>)) s1))"
    using assms t p(2) by (auto simp: check_app_def Let_def expect_slot_def)
  moreover have "places (app_name app) (next_id s) s (upd_slot (next_id s)
      (upd_entry (\<lambda>e. e\<lparr> e_spawn_failure := Some (app_name app @ '': '' @ err) \<rparr>)) s1)"
    by (rule places_gentle[OF p(1)]) (auto simp: gentle_def upd_entry_def alike_entry resting_status_def)
  ultimately show ?thesis using places_frame by fastforce
next
  case False
  have "s' = s"
  proof (cases "register_without_spawning w app Errored dog s")
    case (Pair reg s1)
    then show ?thesis
      using assms False register_known[of w app Errored dog s]
      by (cases reg) (auto simp: check_app_def Let_def split: sum.splits BatchPolicy.splits Preflight.splits if_splits)
  qed
  then show ?thesis by simp
qed

lemma check_app_keeps:
  "flock_ok s \<Longrightarrow> check_app w dog policy app s = (c, s') \<Longrightarrow> keeps s s'"
  using check_app_step[of w dog policy app s c s'] places_next_keeps keeps_refl by blast

lemma map_state_keeps:
  assumes "\<And>x s. flock_ok s \<Longrightarrow> keeps s (snd (f x s))" "flock_ok s"
  shows "keeps s (snd (map_state f xs s))"
  using assms(2)
proof (induction xs arbitrary: s)
  case (Cons x xs)
  have k: "keeps s (snd (f x s))" by (rule assms(1)[OF Cons.prems])
  show ?case using keeps_trans[OF k Cons.IH[OF keeps_flock[OF k]]] by (simp add: split_beta Let_def)
qed (simp add: keeps_refl)

lemma spawn_slots_keeps:
  "flock_ok s \<Longrightarrow> spawn_slots w app cr dog gate insts res s = (m, res', s') \<Longrightarrow> keeps s s'"
proof (induction insts arbitrary: res s)
  case (Cons inst insts)
  obtain r s1 where sp: "spawn_fresh w app inst cr dog gate s = (r, s1)" by fastforce
  have k: "keeps s s1" by (rule places_next_keeps[OF Cons.prems(1) spawn_fresh_places[OF sp]])
  show ?case
    using Cons.prems(2) sp k keeps_trans[OF k Cons.IH[OF keeps_flock[OF k]]] by (auto split: sum.splits)
qed (simp add: keeps_refl)

lemma start_ready_keeps:
  "flock_ok s \<Longrightarrow> start_ready w dog policy gate ready fs res s = (r, s') \<Longrightarrow> keeps s s'"
proof (induction ready arbitrary: fs res s)
  case (Cons a ready)
  obtain app cr where a: "a = (app, cr)" by (cases a)
  obtain m res1 s1 where sp: "spawn_slots w app cr dog gate
      (instance_slots (taken_slots s (app_name app)) (unat (app_instances app))) res s = (m, res1, s1)"
    by (metis prod_cases3)
  have k: "keeps s s1" by (rule spawn_slots_keeps[OF Cons.prems(1) sp])
  show ?case
    using Cons.prems(2) a sp k keeps_trans[OF k Cons.IH[OF keeps_flock[OF k]]]
    by (auto simp: Let_def split: option.splits BatchPolicy.splits)
qed (auto simp: keeps_refl split: if_splits)

lemma do_start_keeps:
  assumes f: "flock_ok s" and d: "do_start w apps dog policy gate s = (r, s')"
  shows "keeps s s'"
proof -
  let ?f = "\<lambda>app s. map_prod (Pair app) id (check_app w dog policy app s)"
  obtain checks s1 where m: "map_state ?f apps s = (checks, s1)" by fastforce
  have "keeps s (snd (map_state ?f apps s))"
  proof (rule map_state_keeps[OF _ f])
    fix app s assume "flock_ok s"
    then show "keeps s (snd (?f app s))" using check_app_keeps[of s w dog policy app] by (metis prod.collapse snd_map_prod id_apply)
  qed
  then have k: "keeps s s1" using m by simp
  show ?thesis
    using d m k keeps_refl[OF f] keeps_trans[OF k start_ready_keeps[OF keeps_flock[OF k]]]
    by (auto simp: do_start_def Let_def split: sum.splits if_splits)
qed

subsection \<open>Sweeps over slots keep the flock in order\<close>

lemma alike_jobs_ok:
  assumes "jobs_ok s" "get_job s' = get_job s" "next_id s' = next_id s"
    and sl: "\<And>k sl'. get_slot s' k = Some sl' \<Longrightarrow> \<exists>sl. get_slot s k = Some sl \<and> alike sl sl'"
  shows "jobs_ok s'"
  unfolding jobs_ok_def assms(2)
proof (intro allI impI)
  fix nm job assume "get_job s nm = Some job"
  then have ok: "job_ok s nm job" using assms(1) by (simp add: jobs_ok_def)
  have "owned s' nm k" if "owned s nm k" for k
    unfolding owned_def assms(3) using that sl[of k] by (auto simp: owned_def alike_def)
  moreover have "wears_drainee x'" if "\<forall>x. get_slot s k = Some x \<longrightarrow> wears_drainee x" "get_slot s' k = Some x'" for k x'
    using that(1) sl[OF that(2)] by (auto simp: alike_def)
  moreover have "\<not> wears_drainee x'" if "\<forall>x. get_slot s k = Some x \<longrightarrow> \<not> wears_drainee x" "get_slot s' k = Some x'" for k x'
    using that(1) sl[OF that(2)] by (auto simp: alike_def)
  ultimately show "job_ok s' nm job" using ok unfolding job_ok_def by blast
qed

lemma map_slots_keeps:
  assumes f: "flock_but X s" and g: "\<And>sl. gentle sl (g sl)" and sl: "\<And>k. get_slot s' k = map_option g (get_slot s k)"
    and fr: "keys_ok s'" "get_job s' = get_job s" "next_id s' = next_id s" "next_action_stamp s' = next_action_stamp s"
      "pending_replies s' = pending_replies s" "shutting_down s' = shutting_down s" "panicked s' = panicked s"
      "out s' = out s"
  shows "keeps_but X s s'"
proof -
  have al: "alike x (g x)" "sl_ctl (g x) = sl_ctl x" "sl_manual (g x) = None \<longleftrightarrow> sl_manual x = None" for x
    using g[of x] by (simp_all add: gentle_def)
  have "jobs_ok s'" using al(1) sl by (intro alike_jobs_ok[OF flock_butD(3)[OF f] fr(2,3)]) auto
  moreover have "slot_fit X (next_id s) (next_action_stamp s) k x" if "get_slot s' k = Some x" for k x
    using that sl[of k] gentle_fit[OF g] flock_butD(1)[OF f] by auto
  moreover have "running s' k = running s k" "claimed s' k = claimed s k" for k
    using al(2,3) sl[of k] by (cases "get_slot s k"; simp add: running_def claimed_def)+
  ultimately show ?thesis using fr by (simp add: keeps_but_def flock_but_def balance_def)
qed

definition remark_slot :: "string list \<Rightarrow> ManualKind \<Rightarrow> ManualKind \<Rightarrow> SheepSlot \<Rightarrow> SheepSlot" where
  "remark_slot names from_kind to_kind sl =
     (if (case sl_manual sl of Some m \<Rightarrow> m_kind m = from_kind | None \<Rightarrow> False) \<and> slot_name sl \<in> set names
      then sl\<lparr> sl_manual := Some \<lparr> m_kind = to_kind, m_origin = Operator \<rparr> \<rparr> else sl)"

lemma remark_eq:
  "remark names from_kind to_kind s = s\<lparr> sheep := map (\<lambda>(i, sl). (i, remark_slot names from_kind to_kind sl)) (sheep s) \<rparr>"
  by (simp add: remark_def remark_slot_def)

lemma remark_frame [simp]:
  "get_slot (remark ns a b s) k = map_option (remark_slot ns a b) (get_slot s k)"
  "keys_ok (remark ns a b s) = keys_ok s" "get_job (remark ns a b s) = get_job s"
  "next_id (remark ns a b s) = next_id s" "out (remark ns a b s) = out s"
  "disabled (remark ns a b s) = disabled s" "pending_replies (remark ns a b s) = pending_replies s"
  "next_action_stamp (remark ns a b s) = next_action_stamp s" "panicked (remark ns a b s) = panicked s"
  "shutting_down (remark ns a b s) = shutting_down s" "reloads (remark ns a b s) = reloads s"
proof -
  show "get_slot (remark ns a b s) k = map_option (remark_slot ns a b) (get_slot s k)"
    by (simp add: remark_eq get_slot_def map_of_map)
  have "map fst (map (\<lambda>(i, sl). (i, remark_slot ns a b sl)) xs) = map fst xs" for xs :: "(nat \<times> SheepSlot) list"
    by (induction xs) auto
  then show "keys_ok (remark ns a b s) = keys_ok s" by (simp add: remark_eq keys_ok_def del: map_map)
qed (simp_all add: remark_eq)

lemma remark_gentle: "gentle sl (remark_slot ns a b sl)"
  by (auto simp: remark_slot_def gentle_def alike_entry resting_status_def split: option.splits)

lemma remark_keeps: "flock_but X s \<Longrightarrow> keeps_but X s (remark ns a b s)"
  by (rule map_slots_keeps[OF _ remark_gentle, where s = s]) (simp_all add: flock_butD(2))

lemma disabled_keeps: "flock_but X s \<Longrightarrow> keeps_but X s (s\<lparr> disabled := d \<rparr>)"
  by (rule frame_keeps) (auto dest: flock_butD)

lemma reset_slot_gentle: "gentle sl (reset_slot sl)"
  by (auto simp: reset_slot_def gentle_def upd_entry_def Let_def alike_entry resting_status_def)

lemma reset_fold_keeps: "flock_but X s \<Longrightarrow> keeps_but X s (fold (\<lambda>i. upd_slot i reset_slot) ids s)"
proof (induction ids arbitrary: s)
  case (Cons i ids)
  have k: "keeps_but X s (upd_slot i reset_slot s)" by (rule upd_slot_keeps[OF Cons.prems reset_slot_gentle])
  show ?case using keeps_trans[OF k Cons.IH[OF keeps_flock[OF k]]] by simp
qed (simp add: keeps_refl)

lemma handle_reset_keeps: "flock_ok s \<Longrightarrow> keeps s (handle_reset w sel c s)"
proof -
  assume f: "flock_ok s"
  note k = reset_fold_keeps[OF f]
  have "keeps s (effect (Reply c b) (fold (\<lambda>i. upd_slot i reset_slot) ids s))" for b ids
    by (rule keeps_trans[OF k quiet_effect_keeps[OF keeps_flock[OF k]]]) simp
  then show ?thesis using quiet_effect_keeps[OF f] by (simp add: handle_reset_def Let_def)
qed

subsection \<open>Scaling keeps the flock in order\<close>

definition known_as :: "actor \<Rightarrow> string \<Rightarrow> nat \<Rightarrow> bool" where
  "known_as s nm i \<longleftrightarrow> (\<forall>sl. get_slot s i = Some sl \<longrightarrow> slot_name sl = nm)"

lemma with_count_name:
  "try_with_count w app n = Inr app' \<Longrightarrow> app_name app' = app_name app"
  "with_count w app n = Some app' \<Longrightarrow> app_name app' = app_name app"
  using normalize_keeps(2)
  by (fastforce simp: try_with_count_def with_count_def normalize_def split: sum.splits)+

lemma rescale_slot_parts:
  "sl_ctl (rescale_slot w st a ow sl) = sl_ctl sl" "sl_manual (rescale_slot w st a ow sl) = sl_manual sl"
  "e_reload (sl_entry (rescale_slot w st a ow sl)) = e_reload (sl_entry sl)"
  "slot_name (rescale_slot w st a ow sl) = app_name st"
  "in_service (rescale_slot w st a ow sl) = in_service sl" "at_rest (rescale_slot w st a ow sl) = at_rest sl"
  "resting_status (rescale_slot w st a ow sl) = resting_status sl"
  "e_id (sl_entry (rescale_slot w st a ow sl)) = e_id (sl_entry sl)"
  "sl_actions (rescale_slot w st a ow sl) = sl_actions sl"
  by (simp_all add: rescale_slot_def upd_entry_def Let_def in_service_def at_rest_def resting_status_def
      split: option.splits)

definition owed_ok :: "string \<Rightarrow> (AppConfig \<times> bool) option \<Rightarrow> bool" where
  "owed_ok nm owed \<longleftrightarrow> (case owed of None \<Rightarrow> True | Some (parked, _) \<Rightarrow> app_name parked = nm)"

lemma rescale_parked:
  assumes sl: "parked_ok sl" "slot_name sl = app_name st" and ow: "owed_ok (app_name st) ow"
  shows "parked_ok (rescale_slot w st a ow sl)"
proof (cases "e_pending (sl_entry sl)")
  case None
  then show ?thesis
    using ow by (cases ow) (auto simp: parked_ok_def rescale_slot_def upd_entry_def owed_ok_def Let_def)
next
  case (Some parked)
  then have nm: "app_name parked = app_name st" using sl by (simp add: parked_ok_def)
  show ?thesis
  proof (cases "with_count w parked a")
    case None
    then show ?thesis using Some nm by (simp add: parked_ok_def rescale_slot_def upd_entry_def Let_def)
  next
    case (Some p)
    then have "app_name p = app_name st" using with_count_name(2)[OF Some] nm by simp
    then show ?thesis
      using Some \<open>e_pending (sl_entry sl) = Some parked\<close>
      by (simp add: parked_ok_def rescale_slot_def upd_entry_def Let_def)
  qed
qed

lemma rescale_keeps:
  assumes f: "flock_but X s" and nm: "known_as s (app_name st) i"
    and ow: "owed_ok (app_name st) ow"
  shows "keeps_but X s (upd_slot i (rescale_slot w st a ow) s)"
proof (rule slot_change_keeps[OF f])
  show "jobs_ok (upd_slot i (rescale_slot w st a ow) s)"
  proof (rule jobs_ok_upd_slot[OF flock_butD(3)[OF f]])
    fix sl assume "get_slot s i = Some sl"
    then show "slot_name (rescale_slot w st a ow sl) = slot_name sl"
      using nm by (simp add: known_as_def rescale_slot_parts)
  next
    fix nm job sl assume "get_job s nm = Some job" "get_slot s i = Some sl"
    then show "(sw_old_id (j_swap job) = i \<longrightarrow> wears_drainee (rescale_slot w st a ow sl)) \<and>
        (sw_new_id (j_swap job) = Some i \<longrightarrow> \<not> wears_drainee (rescale_slot w st a ow sl))"
      using jobs_ok_job[OF f, of nm job] by (auto simp: job_ok_def wears_drainee_def rescale_slot_parts)
  qed
next
  fix sl assume sl: "get_slot s i = Some sl"
  have "parked_ok sl" using flock_but_slot_base[OF f sl] by (simp add: slot_base_def)
  moreover have "slot_name sl = app_name st" using nm sl by (simp add: known_as_def)
  ultimately have "parked_ok (rescale_slot w st a ow sl)" by (rule rescale_parked[OF _ _ ow])
  then show "slot_fit X (next_id s) (next_action_stamp s) i (rescale_slot w st a ow sl) \<and>
      sl_ctl (rescale_slot w st a ow sl) = sl_ctl sl \<and>
      (sl_manual (rescale_slot w st a ow sl) = None \<longleftrightarrow> sl_manual sl = None)"
    using flock_butD(1)[OF f sl]
    by (cases "i \<in> X") (auto simp: slot_fit_def slot_ok_def slot_base_def rescale_slot_parts)
qed

lemma rescale_fold_keeps:
  assumes "flock_but X s" "\<forall>i \<in> set ids. known_as s (app_name st) i"
    and "owed_ok (app_name st) ow"
  shows "keeps_but X s (fold (\<lambda>i. upd_slot i (rescale_slot w st a ow)) ids s)"
  using assms(1,2)
proof (induction ids arbitrary: s)
  case (Cons i ids)
  let ?s = "upd_slot i (rescale_slot w st a ow) s"
  have k: "keeps_but X s ?s" by (rule rescale_keeps[OF Cons.prems(1) _ assms(3)]) (use Cons.prems in simp)
  have "\<forall>j \<in> set ids. known_as ?s (app_name st) j"
    using Cons.prems(2) by (auto simp: known_as_def rescale_slot_parts)
  then show ?case using keeps_trans[OF k Cons.IH[OF keeps_flock[OF k]]] by simp
qed (simp add: keeps_refl)

lemma scale_write_back_keeps:
  assumes f: "flock_ok s" and nm: "app_name rescaled = nm" "known_as s nm first_id"
    "\<forall>i \<in> set survivors. known_as s nm i" "\<And>i m. failure = Some (i, m) \<Longrightarrow> known_as s nm i"
  shows "keeps s (scale_write_back w first_id rescaled count survivors failure c s)"
proof (cases "try_with_count w rescaled (length survivors)")
  case (Inl e)
  then show ?thesis using quiet_effect_keeps[OF f] by (simp add: scale_write_back_def)
next
  case (Inr stored)
  have st: "app_name stored = nm" using with_count_name(1)[OF Inr] nm(1) by simp
  let ?a = "length survivors"
  let ?owed = "case get_slot s first_id of None \<Rightarrow> None
     | Some sl \<Rightarrow> (case e_pending (sl_entry sl) of None \<Rightarrow> None
        | Some parked \<Rightarrow> Some ((case with_count w parked ?a of Some p \<Rightarrow> p | None \<Rightarrow> parked),
            e_pending_reidentifies (sl_entry sl)))"
  let ?ids = "survivors @ (case failure of None \<Rightarrow> [] | Some (i, _) \<Rightarrow> [i])"
  let ?s = "fold (\<lambda>i. upd_slot i (rescale_slot w stored ?a ?owed)) ?ids s"
  have ow: "owed_ok (app_name stored) ?owed"
  proof (cases "get_slot s first_id")
    case (Some sl)
    have "app_name parked = nm" if "e_pending (sl_entry sl) = Some parked" for parked
      using flock_but_slot_base[OF f Some] that nm(2) Some by (simp add: slot_base_def parked_ok_def known_as_def)
    then show ?thesis
      using Some st with_count_name(2) by (simp add: owed_ok_def split: option.splits)
  qed (simp add: owed_ok_def)
  have "\<forall>i \<in> set ?ids. known_as s (app_name stored) i" using nm(3,4) st by (auto split: option.splits)
  then have k: "keeps s ?s" by (rule rescale_fold_keeps[OF f _ ow])
  have "keeps s (effect (Reply c b) ?s)" for b
    by (rule keeps_trans[OF k quiet_effect_keeps[OF keeps_flock[OF k]]]) simp
  then show ?thesis using Inr by (simp add: scale_write_back_def Let_def)
qed

text \<open>Names only ever go away with their slot under a delete, and a spawn answers with its own id.\<close>

lemma touch_known_as: "touch i s s' \<Longrightarrow> known_as s nm k \<Longrightarrow> known_as s' nm k"
  using touch_slot[of i s s' k] by (auto simp: known_as_def alike_def)

lemma delete_loop_known_as:
  assumes "manual_loop w MDelete Operator ids rem0 res0 s = (rem, res, s')" "known_as s nm k"
  shows "known_as s' nm k"
  using assms
proof (induction ids arbitrary: rem0 res0 s)
  case (Cons i ids)
  let ?s1 = "upd_slot i (\<lambda>sl. sl\<lparr> sl_pending_delete := True \<rparr>)
    (claim_manual i \<lparr> m_kind = MDelete, m_origin = Operator \<rparr> StopCap s)"
  have k1: "known_as ?s1 nm k"
    by (rule touch_known_as[OF touch_trans[OF claim_manual_touch touch_upd_slot] Cons.prems(2)]) (simp add: alike_entry)
  obtain r s2 where a: "apply_immediate w i MDelete Operator s = (r, s2)" by fastforce
  have k2: "known_as s2 nm k"
    using a Cons.prems(2)
    by (auto simp: apply_immediate_def Let_def known_as_def split: option.splits if_splits)
  show ?case
    using Cons.prems(1) Cons.IH[OF _ k1] Cons.IH[OF _ k2] a
    by (cases "running s i") (auto simp: running_def Let_def split: option.splits)
qed simp

lemma delete_ids_known_as:
  assumes "known_as s nm k"
  shows "known_as (begin_manual_ids w ids MDelete Operator r s) nm k"
proof -
  obtain rem res s' where l: "manual_loop w MDelete Operator ids [] [] s = (rem, res, s')" by (metis prod_cases3)
  show ?thesis
    using delete_loop_known_as[OF l assms] l
    by (cases r) (simp_all add: begin_manual_ids_def known_as_def)
qed

lemma refuse_spawn_id:
  assumes "rest_slot i s"
  shows "i_id (fst (refuse_spawn w i m err s)) = i"
proof -
  obtain sl where "get_slot s i = Some sl" "e_id (sl_entry sl) = i"
    using assms by (auto simp: rest_slot_def slot_base_def)
  then show ?thesis
    by (simp add: refuse_spawn_def respawn_failed_def Let_def info_of_def expect_slot_def to_info_def
        upd_entry_def clear_lifecycle_def)
qed

lemma spawn_fresh_id:
  assumes sp: "spawn_fresh w app inst cr dog gate s = (Inr info, s')"
  shows "i_id info = next_id s"
proof -
  obtain a s2 where a: "assembled w app (next_id s) inst cr (s\<lparr> next_id := next_id s + 1 \<rparr>) = (a, s2)" by fastforce
  note fr = assembled_frame[OF a]
  have r: "rest_slot (next_id s) (put_slot (next_id s) (slot_new (new_entry (next_id s) app ov inst Errored idn spec dog)) s2)"
    for ov idn spec
    using fr by (auto simp: rest_slot_def slot_base_def slot_new_def at_rest_def parked_ok_def waits_ok_no_waits)
  show ?thesis
    using sp a refuse_spawn_id[OF r]
    by (auto simp: spawn_fresh_def Let_def to_info_def split_beta split: sum.splits if_splits)
qed

lemma scale_up_loop_keeps:
  assumes "flock_ok s" "app_name app = nm" "scale_up_loop w app cr insts ids s = (ids', failure, s')"
    "\<forall>i \<in> set ids. known_as s nm i"
  shows "keeps s s' \<and> (\<forall>i \<in> set ids'. known_as s' nm i) \<and> (\<forall>i m. failure = Some (i, m) \<longrightarrow> known_as s' nm i) \<and>
    (\<forall>i. known_as s nm i \<longrightarrow> known_as s' nm i)"
  using assms
proof (induction insts arbitrary: ids s)
  case Nil
  then show ?case using keeps_refl by simp
next
  case (Cons inst insts)
  obtain r s1 where sp: "spawn_fresh w app inst cr None [] s = (r, s1)" by fastforce
  note p = spawn_fresh_places[OF sp]
  have k: "keeps s s1" by (rule places_next_keeps[OF Cons.prems(1) p])
  have known: "known_as s1 nm i" if "known_as s nm i \<or> i = next_id s" for i
    using that p Cons.prems(2) by (cases "i = next_id s") (auto simp: known_as_def places_def)
  show ?case
  proof (cases r)
    case (Inl m)
    then show ?thesis using Cons.prems(3,4) sp k known by (auto simp: Let_def)
  next
    case (Inr info)
    have id: "i_id info = next_id s" using spawn_fresh_id sp Inr by simp
    have "scale_up_loop w app cr insts (ids @ [i_id info]) s1 = (ids', failure, s')"
      using Cons.prems(3) sp Inr by (simp add: Let_def)
    from Cons.IH[OF keeps_flock[OF k] Cons.prems(2) this] show ?thesis
      using Cons.prems(4) known id keeps_trans[OF k] by simp
  qed
qed

lemma scale_slots_known:
  assumes "flock_ok s" "(n, i) \<in> set (scale_slots s nm)"
  obtains sl where "get_slot s i = Some sl" "slot_name sl = nm"
proof -
  obtain sl where "(i, sl) \<in> set (sheep s)" "slot_name sl = nm" using assms(2) by (auto simp: scale_slots_def)
  then show ?thesis using that get_slot_in_sheep[OF flock_butD(2)[OF assms(1)], of i sl] by blast
qed

lemma credentials_keeps:
  assumes f: "flock_ok s" and cr: "credentials_for_spawn w i s = (r, s')" and sl: "get_slot s i = Some sl"
  shows "keeps s s'" "known_as s nm k \<Longrightarrow> known_as s' nm k"
proof -
  let ?u = "\<lambda>c. upd_slot i (upd_entry (\<lambda>e. e\<lparr> e_credentials := Resolved c \<rparr>)) s"
  have g: "gentle x (upd_entry (\<lambda>e. e\<lparr> e_credentials := Resolved c \<rparr>) x)" for x c
    by (auto simp: gentle_def upd_entry_def alike_entry resting_status_def)
  have c: "s' = s \<or> (\<exists>c. s' = ?u c)"
    using cr sl by (auto simp: credentials_for_spawn_def split: SpawnIdentity.splits sum.splits)
  have "keeps s (?u c)" for c by (rule upd_slot_keeps[OF f g])
  then show "keeps s s'" using c keeps_refl[OF f] by auto
  show "known_as s nm k \<Longrightarrow> known_as s' nm k"
    using c sl by (auto simp: known_as_def upd_entry_def split: if_splits)
qed

lemma scale_same_evolves:
  assumes st: "steady s" and nm: "app_name rescaled = nm" and "known_as s nm first_id"
    and "\<forall>i \<in> set ids. known_as s nm i"
  shows "evolves s (scale_write_back w first_id rescaled count ids None c s)"
  using assms(3,4) by (intro keeps_evolves[OF st scale_write_back_keeps[OF steadyD(1)[OF st] nm]]) auto

lemma scale_down_evolves:
  assumes st: "steady s" and nm: "app_name rescaled = nm" and "known_as s nm first_id"
    and "\<forall>i \<in> set ids. known_as s nm i"
  shows "evolves s (scale_write_back w first_id rescaled count ids None c
      (begin_manual_ids w removed MDelete Operator r s))"
proof -
  have e: "evolves s (begin_manual_ids w removed MDelete Operator r s)" by (rule begin_manual_ids_evolves[OF st])
  show ?thesis
    using assms(3,4) delete_ids_known_as
    by (intro after_evolves[OF e scale_write_back_keeps[OF steadyD(1)[OF evolves_steady[OF e]] nm]]) auto
qed

lemma scale_up_evolves:
  assumes st: "steady s" and nm: "app_name rescaled = nm" and fst: "known_as s nm first_id"
    and ids: "\<forall>i \<in> set ids. known_as s nm i" and sl: "get_slot s first_id = Some sl"
    and cr: "credentials_for_spawn w first_id s = (r, s1)"
    and l: "scale_up_loop w rescaled cr insts ids s1 = (ids', failure, s2)"
  shows "evolves s (scale_write_back w first_id rescaled count ids' failure c s2)"
proof -
  note k1 = credentials_keeps[OF steadyD(1)[OF st] cr sl]
  have "\<forall>i \<in> set ids. known_as s1 nm i" using ids k1(2) by blast
  from scale_up_loop_keeps[OF keeps_flock[OF k1(1)] nm l this]
  have l2: "keeps s1 s2" "\<forall>i \<in> set ids'. known_as s2 nm i" "\<forall>i m. failure = Some (i, m) \<longrightarrow> known_as s2 nm i"
    "\<forall>i. known_as s1 nm i \<longrightarrow> known_as s2 nm i" by simp_all
  have k2: "keeps s s2" by (rule keeps_trans[OF k1(1) l2(1)])
  show ?thesis
    using l2(2-4) k1(2)[OF fst]
    by (intro keeps_evolves[OF st keeps_trans[OF k2 scale_write_back_keeps[OF keeps_flock[OF k2] nm]]]) auto
qed

lemma handle_scale_evolves:
  assumes st: "steady s"
  shows "evolves s (handle_scale w nm count c s)"
proof -
  note f = steadyD(1)[OF st]
  have refuse: "evolves s (effect (Reply c b) s)" for b
    by (rule keeps_evolves[OF st quiet_effect_keeps[OF f]]) simp
  show ?thesis
  proof (cases "scale_slots s nm")
    case Nil
    then show ?thesis using refuse by (simp add: handle_scale_def Let_def)
  next
    case (Cons a rest)
    obtain inst0 first_id where a: "a = (inst0, first_id)" by (cases a)
    let ?slots = "(inst0, first_id) # rest"
    have kn: "known_as s nm i" if "i \<in> snd ` set ?slots" for i
    proof -
      obtain n where "(n, i) \<in> set (scale_slots s nm)" using \<open>i \<in> snd ` set ?slots\<close> Cons a by force
      then show ?thesis by (rule scale_slots_known[OF f]) (simp add: known_as_def)
    qed
    have fst: "known_as s nm first_id" and all: "\<forall>i \<in> set (map snd ?slots). known_as s nm i"
      and some: "\<forall>i \<in> set (map snd (take count ?slots)). known_as s nm i"
      using kn image_mono[OF set_take_subset[of count ?slots], of snd] by (simp_all add: subset_iff del: take_Cons)
    obtain sl where sl: "get_slot s first_id = Some sl" "slot_name sl = nm"
      by (rule scale_slots_known[OF f, of inst0 first_id nm]) (simp_all add: Cons a)
    have name: "app_name rescaled = nm" if "try_with_count w (slot_app sl) count = Inr rescaled" for rescaled
      using with_count_name(1)[OF that] sl(2) by simp
    show ?thesis
    proof (cases "try_with_count w (slot_app sl) count")
      case (Inl e)
      then show ?thesis using Cons a sl(1) refuse by (simp add: handle_scale_def Let_def)
    next
      case (Inr rescaled)
      note nm = name[OF Inr]
      obtain r s1 where cr: "credentials_for_spawn w first_id s = (r, s1)" by fastforce
      have cr_err: "evolves s (effect (Reply c b) s1)" for b
      proof -
        note k = credentials_keeps(1)[OF f cr sl(1)]
        show ?thesis by (rule keeps_evolves[OF st keeps_trans[OF k quiet_effect_keeps[OF keeps_flock[OF k]]]]) simp
      qed
      note up = scale_up_evolves[OF st nm fst all sl(1) cr]
      show ?thesis
        using Cons a sl(1) Inr refuse cr cr_err up
          scale_same_evolves[OF st nm fst all] scale_down_evolves[OF st nm fst some]
        by (simp add: handle_scale_def Let_def split_beta split: sum.splits)
    qed
  qed
qed

subsection \<open>Starting a dog keeps the flock in order\<close>

lemma slots_from_length: "length (slots_from existing n c) = n"
  by (induction n arbitrary: c) (simp_all add: Let_def)

text \<open>One app of at most one instance places at most one slot, under the next id.\<close>

lemma do_start_one:
  assumes one: "unat (app_instances app) \<le> 1" and d: "do_start w [app] (Some src) PerApp gate s = (r, s')"
  shows "s' = s \<or> places (app_name app) (next_id s) s s'"
proof -
  obtain c s1 where c: "check_app w (Some src) PerApp app s = (c, s1)" by fastforce
  note step = check_app_step[OF c]
  have ds: "do_start w [app] (Some src) PerApp gate s =
      (case c of Refused m \<Rightarrow> (Inl (CannotStart (''nothing in this batch was registered; '' @ show_nat 1 @ '' of '' @
                   show_nat 1 @ '' apps cannot start: '' @ m)), s1)
       | Failed m \<Rightarrow> start_ready w (Some src) PerApp gate [] [m] [] s1
       | Ready_app cr \<Rightarrow> start_ready w (Some src) PerApp gate [(app, cr)] [] [] s1)"
    using c by (cases c) (simp_all add: do_start_def refusals_of_def failures_of_def ready_apps_def
        List.map_filter_def)
  show ?thesis
  proof (cases c)
    case (Ready_app cr)
    let ?slots = "instance_slots (taken_slots s (app_name app)) (unat (app_instances app))"
    have s1: "s1 = s" using step Ready_app by auto
    consider "?slots = []" | inst where "?slots = [inst]"
      using one slots_from_length[of "taken_slots s (app_name app)" "unat (app_instances app)" 0]
      by (cases ?slots; cases "tl ?slots") (auto simp: instance_slots_def)
    then show ?thesis
    proof cases
      case 1
      then show ?thesis using d ds Ready_app s1 by simp
    next
      case (2 inst)
      obtain q s2 where sp: "spawn_fresh w app inst cr (Some src) gate s = (q, s2)" by fastforce
      have "s' = s2" using d ds Ready_app s1 2 sp by (cases q) (simp_all add: Let_def)
      then show ?thesis using spawn_fresh_places[OF sp] by simp
    qed
  qed (use d ds step in auto)
qed

lemma dog_binaries_keeps: "flock_but X s \<Longrightarrow> keeps_but X s (s\<lparr> dog_binaries := d \<rparr>)"
  by (rule frame_keeps) (auto dest: flock_butD)

text \<open>Reusing the id of a dog's resting row: its slot is replaced by one of the same name.\<close>

lemma resume_keeps:
  assumes f: "flock_ok s" and sl: "get_slot s i = Some sl" "slot_name sl = nm" and rest: "\<not> sl_ctl sl"
    and p: "s1 = (del_slot i s)\<lparr> next_id := i \<rparr> \<or> places nm i ((del_slot i s)\<lparr> next_id := i \<rparr>) s1"
  shows "keeps s (s1\<lparr> next_id := next_id s \<rparr>)"
proof -
  have off: "\<not> running s i" using sl rest by (simp add: running_def)
  have lt: "i < next_id s" using flock_but_slot_base[OF f sl(1)] by (simp add: slot_base_def)
  have re: "e_reload (sl_entry sl) = RNone" using slot_ok_resting[OF flock_okD[OF f sl(1)] rest] by simp
  show ?thesis
    using p
  proof
    assume "s1 = (del_slot i s)\<lparr> next_id := i \<rparr>"
    then have "s1\<lparr> next_id := next_id s \<rparr> = del_slot i s" by (cases s) (simp add: del_slot_def)
    moreover have "keeps s (del_slot i s)"
      using off by (intro touch_keeps[OF f, of i])
        (auto simp: touch_def balance_def running_def claimed_def split: option.splits)
    ultimately show ?thesis by simp
  next
    assume pl: "places nm i ((del_slot i s)\<lparr> next_id := i \<rparr>) s1"
    show ?thesis
    proof (rule places_keeps[OF f pl])
      fix nm' job assume j: "get_job s nm' = Some job" "i \<in> job_ids job"
      note ok = jobs_ok_job[OF f j(1)]
      have "slot_name sl = nm'" using ok j(2) sl(1) by (simp add: job_ok_def owned_def)
      moreover have "sw_old_id (j_swap job) \<noteq> i" using ok sl(1) re by (auto simp: job_ok_def wears_drainee_def)
      ultimately show "nm' = nm \<and> sw_old_id (j_swap job) \<noteq> i" using sl(2) by simp
    qed (use flock_butD(2)[OF f] lt off in auto)
  qed
qed

lemma cancel_dog_disable_keeps: "flock_ok s \<Longrightarrow> keeps s (cancel_dog_disable nm s)"
proof -
  assume f: "flock_ok s"
  have k: "keeps s (s\<lparr> disabled := removeAll nm (disabled s) \<rparr>)" by (rule disabled_keeps[OF f])
  show ?thesis
    using keeps_refl[OF f] keeps_trans[OF k remark_keeps[OF keeps_flock[OF k]]]
    by (simp add: cancel_dog_disable_def)
qed

lemma find_SomeD: "find P xs = Some x \<Longrightarrow> x \<in> set xs \<and> P x"
  by (induction xs) (auto split: if_splits)

lemma do_start_dog_keeps:
  assumes f: "flock_ok s" and one: "unat (app_instances app) \<le> 1"
  shows "keeps s (snd (do_start_dog w app src s))"
proof -
  let ?nm = "app_name app"
  let ?s1 = "case src of Adopted path \<Rightarrow> s\<lparr> dog_binaries := AList.update ?nm path (dog_binaries s) \<rparr> | BuiltIn \<Rightarrow> s"
  define s2 where "s2 = ?s1\<lparr> disabled := removeAll ?nm (disabled ?s1) \<rparr>"
  have k1: "keeps s ?s1" using keeps_refl[OF f] dog_binaries_keeps[OF f] by (simp split: DogSource.splits)
  have k2: "keeps s s2" unfolding s2_def by (rule keeps_trans[OF k1 disabled_keeps[OF keeps_flock[OF k1]]])
  have g2: "get_slot s2 = get_slot s" by (simp add: s2_def split: DogSource.splits)
  let ?held = "find (\<lambda>(i, sl). slot_name sl = ?nm) (sheep s)"
  have fresh: "keeps s s'" if "do_start w [app] (Some src) PerApp [] s2 = (r, s')" for r s'
    by (rule keeps_trans[OF k2 do_start_keeps[OF keeps_flock[OF k2] that]])
  have resume: "keeps s (s'\<lparr> next_id := next_id s2 \<rparr>)"
    if "do_start w [app] (Some src) PerApp [] ((del_slot i s2)\<lparr> next_id := i \<rparr>) = (r, s')"
      "?held = Some (i, sl)" "slot_status sl \<in> {Stopped, Errored}" for r s' i sl
  proof -
    have "(i, sl) \<in> set (sheep s)" "slot_name sl = ?nm" using find_SomeD[OF that(2)] by simp_all
    then have sl: "get_slot s2 i = Some sl" "slot_name sl = ?nm"
      using get_slot_in_sheep[OF flock_butD(2)[OF f], of i sl] g2 by simp_all
    have "\<not> sl_ctl sl"
      using slot_ok_running[OF flock_okD[OF keeps_flock[OF k2] sl(1)]] that(3) by (auto simp: in_service_def)
    from resume_keeps[OF keeps_flock[OF k2] sl this] do_start_one[OF one that(1)] show ?thesis
      by (intro keeps_trans[OF k2]) simp
  qed
  show ?thesis
  proof (cases ?held)
    case None
    obtain r s' where d: "do_start w [app] (Some src) PerApp [] s2 = (r, s')" by fastforce
    show ?thesis
      using None d fresh[OF d] keeps_refl[OF f]
      by (auto simp: do_start_dog_def Let_def s2_def[symmetric] split: sum.splits list.splits)
  next
    case (Some h)
    obtain i sl where h: "h = (i, sl)" by (cases h)
    obtain r s' where d: "do_start w [app] (Some src) PerApp [] ((del_slot i s2)\<lparr> next_id := i \<rparr>) = (r, s')" by fastforce
    have "slot_status sl \<in> {Stopped, Errored}" if "is_at_rest (sl_entry sl) \<or> is_parked_dog s (sl_entry sl) \<or>
         (e_dog (sl_entry sl) \<noteq> None \<and> slot_status sl = Errored)"
      using that by (auto simp: is_at_rest_def is_parked_dog_def)
    then show ?thesis
      using Some h d resume[OF d] keeps_refl[OF f] cancel_dog_disable_keeps[OF f]
      by (auto simp: do_start_dog_def Let_def s2_def[symmetric] split: sum.splits list.splits)
  qed
qed

subsection \<open>Instance slots are the lowest free ones\<close>

lemma next_free_cons:
  assumes "\<exists>k. c \<le> k \<and> k < m \<and> k \<notin> set ex"
  shows "filter (\<lambda>k. k \<notin> set ex) [c..<m] =
    next_free ex c # filter (\<lambda>k. k \<notin> set ex) [Suc (next_free ex c)..<m] \<and> next_free ex c < m"
  using assms
proof (induction ex c rule: next_free.induct)
  case (1 ex c)
  obtain k where k: "c \<le> k" "k < m" "k \<notin> set ex" using 1(2) by blast
  show ?case
  proof (cases "c \<in> set ex")
    case True
    then have "c \<noteq> k" using k by blast
    then have "filter (\<lambda>k. k \<notin> set ex) [c + 1..<m] =
        next_free ex (c + 1) # filter (\<lambda>k. k \<notin> set ex) [Suc (next_free ex (c + 1))..<m] \<and> next_free ex (c + 1) < m"
      using k by (intro 1(1)[OF True]) (auto intro!: exI[of _ k])
    moreover have "[c..<m] = c # [c + 1..<m]" using k by (simp add: upt_conv_Cons)
    ultimately show ?thesis using True next_free.simps[of ex c] by simp
  next
    case False
    then show ?thesis using k next_free.simps[of ex c] by (simp add: upt_conv_Cons)
  qed
qed

lemma slots_from_eq:
  "n \<le> length (filter (\<lambda>k. k \<notin> set ex) [c..<m]) \<Longrightarrow>
    slots_from ex n c = take n (filter (\<lambda>k. k \<notin> set ex) [c..<m])"
proof (induction n arbitrary: c)
  case (Suc n)
  then have "filter (\<lambda>k. k \<notin> set ex) [c..<m] \<noteq> []" by auto
  then have "\<exists>k. c \<le> k \<and> k < m \<and> k \<notin> set ex" by (auto simp: filter_empty_conv)
  from next_free_cons[OF this] show ?case using Suc by (simp add: Let_def)
qed simp

lemma free_enough: "n \<le> length (filter (\<lambda>k. k \<notin> set ex) [0..<n + length ex])"
proof -
  let ?m = "n + length ex"
  have "card ({..<?m} \<inter> set ex) \<le> length ex" using card_length[of ex] card_mono[of "set ex" "{..<?m} \<inter> set ex"] by auto
  moreover have "{..<?m} - set ex = {..<?m} - ({..<?m} \<inter> set ex)" by blast
  then have "card ({..<?m} - set ex) = ?m - card ({..<?m} \<inter> set ex)" by (simp add: card_Diff_subset)
  moreover have "length (filter (\<lambda>k. k \<notin> set ex) [0..<?m]) = card ({..<?m} - set ex)"
    using distinct_card[of "filter (\<lambda>k. k \<notin> set ex) [0..<?m]"]
    by (simp add: set_diff_eq lessThan_def atLeast0LessThan)
  ultimately show ?thesis by linarith
qed

text \<open>
  The instance slots a start or a scale-up gives out are the lowest ones not taken, in
  order: the first \<open>n\<close> of the free numbers, none twice and none already in use.
\<close>

lemma instance_slots_lowest:
  "instance_slots existing n = take n (filter (\<lambda>k. k \<notin> set existing) [0..<n + length existing])"
  unfolding instance_slots_def by (rule slots_from_eq[OF free_enough])

end
