(* ===== verification/Config_Loads.thy ===== *)
theory Config_Loads
  imports Starting_Flock
begin

text \<open>
  Applying a Flockfile to a running flock and editing one sheep from a pane
  (\<open>supervisor/actor_config.rs\<close>, \<open>actor_pane.rs\<close>, \<open>actor_env_copy.rs\<close>, \<open>actor_dog_tables.rs\<close>,
  \<open>runner/path_advisories.rs\<close>).

  The override store is a file of the actor's state, read and rewritten under the faults of the
  world; the kernel limits a live edit rewrites and the workers it re-arms are effects. Where the
  code walks its hash map of sheep, the model walks the list of slots; the order shows only in the
  trace.
\<close>

subsection \<open>Speaking for a name\<close>

definition speaker_rank :: "nat \<Rightarrow> SheepSlot \<Rightarrow> bool \<times> nat \<times> nat" where
  "speaker_rank i sl =
     ((case e_reload (sl_entry sl) of Drainee _ \<Rightarrow> True | _ \<Rightarrow> False), e_instance (sl_entry sl), i)"

definition representative_id :: "actor \<Rightarrow> string \<Rightarrow> nat option" where
  "representative_id s nm =
     (case sort_key (\<lambda>(i, sl). speaker_rank i sl) (filter (\<lambda>(i, sl). slot_name sl = nm) (sheep s)) of
        [] \<Rightarrow> None
      | (i, _) # _ \<Rightarrow> Some i)"

definition dog_config_refusal :: "string \<Rightarrow> string" where
  "dog_config_refusal nm = nm @ '' is a dog, and a dog's config comes from `shep adopt` rather than from a Flockfile''"

text \<open>The keys of a JSON object and of a \<open>BTreeMap\<close>, in order, and an insertion that keeps it.\<close>

definition keys_of :: "(string \<rightharpoonup> 'v) \<Rightarrow> string list" where
  "keys_of m = sorted_list_of_set (dom m)"

definition map_keys :: "(string \<times> 'v) list \<Rightarrow> string list" where
  "map_keys m = sort (remdups (map fst m))"

definition btree_insert :: "string \<Rightarrow> 'v \<Rightarrow> (string \<times> 'v) list \<Rightarrow> (string \<times> 'v) list" where
  "btree_insert k v m = sort_key fst (AList.update k v m)"

subsection \<open>Reaching running instances\<close>

definition EXTRAS_FIELDS :: "string list" where
  "EXTRAS_FIELDS =
     [''max_memory'', ''memory_enforce'', ''watch'', ''ignore_watch'', ''watch_delay'', ''watch_options'',
      ''cron_restart'', ''cron_timezone'', ''liveness_probe'']"

definition CGROUP_FIELDS :: "string list" where
  "CGROUP_FIELDS = [''max_cpu_cores'', ''max_tasks'']"

text \<open>One running instance's \<open>memory.max\<close>, and the baseline it enters or leaves with.\<close>

definition rewrite_memory_slot ::
  "world \<Rightarrow> nat \<times> SheepSlot \<Rightarrow> (nat \<times> nat option) list \<times> actor \<Rightarrow> (nat \<times> nat option) list \<times> actor" where
  "rewrite_memory_slot w = (\<lambda>(i, sl) (baselines, s).
     (let config = slot_app sl; kernel = (app_memory_enforce config = Kernel) in
      if \<not> cgroup_base s then (baselines, s)
      else (baselines @ [(i, if kernel then Some (w_oom_kills w i) else None)],
            effect (WriteMemoryMax i (if kernel then map_option bytes (app_max_memory config) else None)) s)))"

definition settle_baseline :: "nat \<times> nat option \<Rightarrow> (nat \<times> nat) list \<Rightarrow> (nat \<times> nat) list" where
  "settle_baseline = (\<lambda>(i, baseline) held.
     (case baseline of
        Some kills \<Rightarrow> if map_of held i = None then AList.update i kills held else held
      | None \<Rightarrow> AList.delete i held))"

definition running_of :: "actor \<Rightarrow> string \<Rightarrow> (nat \<times> SheepSlot) list" where
  "running_of s nm = filter (\<lambda>(i, sl). slot_name sl = nm \<and> e_pid (sl_entry sl) \<noteq> None) (sheep s)"

definition rewrite_memory_max :: "world \<Rightarrow> string \<Rightarrow> actor \<Rightarrow> actor" where
  "rewrite_memory_max w nm s =
     (let (baselines, s) = fold (rewrite_memory_slot w) (running_of s nm) ([], s)
      in s\<lparr> oom_baselines := fold settle_baseline baselines (oom_baselines s) \<rparr>)"

definition identity_credentials :: "SpawnIdentity \<Rightarrow> Credentials option" where
  "identity_credentials identity = (case identity of Unresolved \<Rightarrow> None | Resolved c \<Rightarrow> c)"

text \<open>One secret view per environment across the entries, taken from the first that asks.\<close>

definition rearm_spec ::
  "world \<Rightarrow> ProcessEntry \<Rightarrow> (string \<times> SecretView) list \<times> (nat \<times> SpawnSpec) list \<Rightarrow>
   (string \<times> SecretView) list \<times> (nat \<times> SpawnSpec) list" where
  "rearm_spec w en = (\<lambda>(views, specs).
     (let environment = (case app_environment (e_spec en) of Some e \<Rightarrow> e | None \<Rightarrow> w_host_environment w);
          secrets = (case map_of views environment of Some v \<Rightarrow> v | None \<Rightarrow> w_secret_view w (e_spec en));
          views = AList.update environment secrets views
      in (views, specs @ [(e_id en, describe (w_var w) (e_spec en) (e_instance en) (w_paths w)
           (identity_credentials (e_credentials en)) secrets)])))"

definition rearm_specs :: "world \<Rightarrow> ProcessEntry list \<Rightarrow> (nat \<times> SpawnSpec) list" where
  "rearm_specs w entries = snd (fold (rearm_spec w) entries ([], []))"

definition rearm_name :: "world \<Rightarrow> string \<Rightarrow> actor \<Rightarrow> actor" where
  "rearm_name w nm s =
     (let armable = sort_key fst (filter (\<lambda>(i, sl).
            slot_name sl = nm \<and> slot_status sl = Online \<and> e_pid (sl_entry sl) \<noteq> None) (sheep s));
          entries = map (\<lambda>(i, sl). sl_entry sl) armable
      in effect (RearmName nm (rearm_specs w entries)) s)"

definition apply_extras_change :: "world \<Rightarrow> string \<Rightarrow> actor \<Rightarrow> actor" where
  "apply_extras_change w nm s = rearm_name w nm (rewrite_memory_max w nm s)"

definition rewrite_limits_slot ::
  "world \<Rightarrow> nat \<times> SheepSlot \<Rightarrow> string list \<times> actor \<Rightarrow> string list \<times> actor" where
  "rewrite_limits_slot w = (\<lambda>(i, sl) (unwritten, s).
     (let quota = app_max_cpu_cores (slot_app sl); tasks = app_max_tasks (slot_app sl) in
      if \<not> cgroup_base s
      then (unwritten @ (if quota \<noteq> None then [''max_cpu_cores''] else []) @ (if tasks \<noteq> None then [''max_tasks''] else []), s)
      else (unwritten @ (if w_write_cpu_max w i quota then [] else [''max_cpu_cores'']) @
              (if w_write_pids_max w i tasks then [] else [''max_tasks'']),
            effect (WritePidsMax i tasks) (effect (WriteCpuMax i quota) s))))"

definition rewrite_cgroup_limits :: "world \<Rightarrow> string \<Rightarrow> actor \<Rightarrow> string list \<times> actor" where
  "rewrite_cgroup_limits w nm s =
     (let (unwritten, s) = fold (rewrite_limits_slot w) (running_of s nm) ([], s)
      in (remdups_adj (sort unwritten), s))"

subsection \<open>Loading one app\<close>

definition refused_app :: "string \<Rightarrow> string \<Rightarrow> Applied" where
  "refused_app nm message =
     \<lparr> ap_name = nm, ap_applied = [], ap_pending = [], ap_refused = Some message, ap_app = None \<rparr>"

definition achieved :: "Scaled \<Rightarrow> u32" where
  "achieved sc = (if length (sc_instances sc) < 2 ^ 32 then word_of_nat (length (sc_instances sc)) else - 1)"

text \<open>The answer \<open>handle_scale\<close> has left in the channel made for it.\<close>

definition try_recv :: "effect list \<Rightarrow> (SupervisorError + Scaled) option" where
  "try_recv es = (case rev es of Reply Awaited (ScaledBody a) # _ \<Rightarrow> Some a | _ \<Rightarrow> None)"

definition w_normalize :: "world \<Rightarrow> AppConfig \<Rightarrow> string + AppConfig" where
  "w_normalize w config = map_err normalize_error_display (normalize (w_platform w) config)"

text \<open>
  Routing the instance count: the count the flock ends up at with what to report of it, or the
  refusal of the whole app.
\<close>

definition route_count ::
  "world \<Rightarrow> string \<Rightarrow> bool \<Rightarrow> AppConfig \<Rightarrow> AppConfig \<Rightarrow> actor \<Rightarrow> (string + u32 \<times> string list) \<times> actor" where
  "route_count w nm instances spawned merged s =
     (if \<not> instances then (Inr (app_instances spawned, []), s)
      else if shutting_down s
      then (Inr (app_instances spawned, [''instances: the daemon is shutting down and cannot reshape a flock'']), s)
      else
        (let s = handle_scale w nm (unat (app_instances merged)) Awaited s in
         case try_recv (out s) of
           None \<Rightarrow> (Inl [], panic s)
         | Some (Inl err) \<Rightarrow> (Inl (supervisor_error_display err), s)
         | Some (Inr scaled) \<Rightarrow>
             (Inr (achieved scaled,
                   (case sc_shortfall scaled of Some shortfall \<Rightarrow> [''instances: '' @ shortfall] | None \<Rightarrow> [])), s)))"

definition count_note :: "ResetDepth \<Rightarrow> DeclaredApp \<Rightarrow> AppConfig \<Rightarrow> string list" where
  "count_note reset incoming spawned =
     (if reset \<notin> {DepthPolicy, DepthAll, DepthFile} \<and> ''instances'' \<in> da_declared incoming \<and>
         app_instances (da_config incoming) \<noteq> app_instances spawned
      then [''instances: this load never reshapes a flock; no mode scales without also putting back every setting '' @
            ''the file declares, and `--reset=file` is the narrowest that does, taking the file's count of '' @
            show_nat (unat (app_instances (da_config incoming)))]
      else [])"

text \<open>The write onto one slot: against its own spec first, then the spec and the parked config.\<close>

definition load_entry :: "AppConfig option \<Rightarrow> AppConfig option \<Rightarrow> ProcessEntry \<Rightarrow> ProcessEntry" where
  "load_entry next_spec parked e =
     (let e = (case parked of
                 Some p \<Rightarrow> e\<lparr> e_pending_reidentifies := e_pending_reidentifies e \<or>
                     app_user (e_spec e) \<noteq> app_user p \<or> app_group (e_spec e) \<noteq> app_group p \<rparr>
               | None \<Rightarrow> e);
          e = (case next_spec of Some a \<Rightarrow> e\<lparr> e_spec := a \<rparr> | None \<Rightarrow> e)
      in case parked of Some p \<Rightarrow> e\<lparr> e_pending := Some p \<rparr> | None \<Rightarrow> e)"

definition each_slot :: "string \<Rightarrow> (ProcessEntry \<Rightarrow> ProcessEntry) \<Rightarrow> actor \<Rightarrow> actor" where
  "each_slot nm f s = fold (\<lambda>i. upd_slot i (upd_entry f)) (ids_of_name s nm) s"

text \<open>Taking back from the new record what could not be parked.\<close>

definition restore_field :: "AppOverrides \<Rightarrow> string \<Rightarrow> AppOverrides \<Rightarrow> AppOverrides" where
  "restore_field overrides field nxt =
     (let nxt = nxt\<lparr> ov_fields := (ov_fields nxt)(field := ov_fields overrides field) \<rparr>;
          nxt = (if field \<notin> ov_declared overrides then nxt\<lparr> ov_declared := ov_declared nxt - {field} \<rparr> else nxt)
      in if field = ''env'' then nxt\<lparr> ov_declared_env := ov_declared_env overrides \<rparr> else nxt)"

definition move_unwritten :: "string \<Rightarrow> string list \<times> string list \<Rightarrow> string list \<times> string list" where
  "move_unwritten key = (\<lambda>(applied, pending).
     if key \<in> set applied then (remove1 key applied, pending @ [key]) else (applied, pending))"

definition live_in :: "string list \<Rightarrow> string list \<Rightarrow> bool" where
  "live_in live_now names \<longleftrightarrow> list_ex (\<lambda>field. field \<in> set names) live_now"

definition parked_failure :: "string list \<Rightarrow> u32 \<Rightarrow> string" where
  "parked_failure unparked count =
     (if unparked = []
      then ''an earlier load's parked config could not be rebuilt, so a respawn will put its values back''
      else join '', '' unparked @ '' could not be parked for a next spawn'') @
     '': the merged config does not hold at '' @ show_nat (unat count) @ '' instance(s)''"

text \<open>The second half of \<open>apply_one\<close>: from the achieved count to the report.\<close>

definition settle_app ::
  "world \<Rightarrow> string \<Rightarrow> ResetDepth \<Rightarrow> AppOverrides \<Rightarrow> changes \<Rightarrow> AppConfig \<Rightarrow> AppConfig \<Rightarrow> AppOverrides \<Rightarrow>
   string list \<Rightarrow> string list \<Rightarrow> string list \<Rightarrow> bool \<Rightarrow> nat list \<Rightarrow> u32 \<Rightarrow> string list \<Rightarrow> actor \<Rightarrow>
   Applied \<times> changes \<times> actor" where
  "settle_app w nm reset overrides changes spawned merged next_overrides live_now next_spawn respawning instances ids count refusals s =
     (let next_spec = (case reached_spec (w_serde w) (w_normalize w) spawned merged (live_now @ next_spawn) count of
                         Inl _ \<Rightarrow> None | Inr a \<Rightarrow> Some a);
          park_all = (next_spec = None);
          parked_wanted = (park_all \<or> respawning \<noteq> [] \<or>
            list_ex (\<lambda>i. case get_slot s i of None \<Rightarrow> False | Some sl \<Rightarrow> e_pending (sl_entry sl) \<noteq> None) ids);
          parked = (if parked_wanted then with_count w merged (unat count) else None);
          parked_failed = (parked_wanted \<and> parked = None);
          s = each_slot nm (load_entry next_spec parked) s;
          s = (if \<not> park_all \<and> live_in live_now EXTRAS_FIELDS then apply_extras_change w nm s else s);
          (unwritten, s) = (if \<not> park_all \<and> live_in live_now CGROUP_FIELDS then rewrite_cgroup_limits w nm s else ([], s));
          already_in_force = filter (\<lambda>field. field \<in> {''autostart'', ''depends_on''}) next_spawn;
          later = filter (\<lambda>field. field \<notin> {''autostart'', ''depends_on''}) next_spawn;
          unparked = (if \<not> parked_failed then []
                      else if park_all then live_now @ already_in_force @ later @ respawning
                      else respawning);
          refusals = refusals @ (if parked_failed then [parked_failure unparked count] else []);
          next_overrides = fold (restore_field overrides) unparked next_overrides;
          overridden_names = (if reset = DepthAll then [] else keys_of (ov_fields next_overrides));
          s = each_slot nm (\<lambda>e. e\<lparr> e_overridden := overridden_names \<rparr>) s;
          changes = AList.update nm (if reset = DepthAll then None else Some next_overrides) changes;
          (applied, pending) =
            (if park_all then ([], if parked_failed then [] else live_now @ already_in_force @ later @ respawning)
             else (live_now @ already_in_force, if parked_failed then later else later @ respawning));
          applied = applied @ (if instances \<and> count \<noteq> app_instances spawned then [''instances''] else []);
          (applied, pending) = fold move_unwritten unwritten (applied, pending);
          app = (if count = app_instances merged then Some merged else with_count w merged (unat count))
      in (\<lparr> ap_name = nm, ap_applied = sort applied, ap_pending = sort pending,
            ap_refused = (if refusals = [] then None else Some (join ''; '' refusals)), ap_app = app \<rparr>,
          changes, s))"

definition of_group :: "ApplyGroup \<Rightarrow> string list \<Rightarrow> string list" where
  "of_group g names = filter (\<lambda>field. apply_group field = g) names"

definition apply_one ::
  "world \<Rightarrow> DeclaredApp \<Rightarrow> ResetDepth \<Rightarrow> AppOverrides \<Rightarrow> changes \<Rightarrow> actor \<Rightarrow> Applied \<times> changes \<times> actor" where
  "apply_one w incoming reset overrides changes s =
     (let nm = app_name (da_config incoming);
          refuse = (\<lambda>message s. (refused_app nm message, changes, s));
          ids = ids_of_name s nm
      in case Option.bind (representative_id s nm) (get_slot s) of
           None \<Rightarrow> refuse (nm @ '' is not registered; `shep start` it before a config can be applied to it'') s
         | Some slot \<Rightarrow>
             if e_dog (sl_entry slot) \<noteq> None then refuse (dog_config_refusal nm) s
             else
               (let spawned = slot_app slot;
                    intended = (case e_pending (sl_entry slot) of None \<Rightarrow> spawned | Some parked \<Rightarrow> parked)
                in case merge_declared (w_serde w) intended incoming overrides reset of
                     Inl message \<Rightarrow> refuse message s
                   | Inr (merged, next_overrides) \<Rightarrow>
                       (case w_normalize w merged of
                          Inl message \<Rightarrow> refuse message s
                        | Inr merged \<Rightarrow>
                            (let drifted = drifted_fields intended merged;
                                 live_now = of_group Live drifted;
                                 next_spawn = of_group NextSpawn drifted;
                                 respawning = of_group NeedsRespawn drifted;
                                 instances = (''instances'' \<in> set (of_group Structural drifted))
                             in case route_count w nm instances spawned merged s of
                                  (Inl message, s) \<Rightarrow> refuse message s
                                | (Inr (count, notes), s) \<Rightarrow>
                                    settle_app w nm reset overrides changes spawned merged next_overrides live_now
                                      next_spawn respawning instances ids count
                                      (count_note reset incoming spawned @ notes) s))))"

subsection \<open>Loading a Flockfile\<close>

fun apply_each ::
  "world \<Rightarrow> ResetDepth \<Rightarrow> (string \<times> AppOverrides) list \<Rightarrow> DeclaredApp list \<Rightarrow> changes \<Rightarrow> actor \<Rightarrow>
   Applied list \<times> changes \<times> actor" where
  "apply_each w reset store [] changes s = ([], changes, s)"
| "apply_each w reset store (incoming # apps) changes s =
     (let overrides = (case map_of store (app_name (da_config incoming)) of Some r \<Rightarrow> r | None \<Rightarrow> no_overrides);
          (applied, changes, s) = apply_one w incoming reset overrides changes s;
          (report, changes, s) = apply_each w reset store apps changes s
      in (applied # report, changes, s))"

definition note_unwritten :: "changes \<Rightarrow> string \<Rightarrow> Applied \<Rightarrow> Applied" where
  "note_unwritten changes note applied =
     (if map_of changes (ap_name applied) = None then applied
      else applied\<lparr> ap_refused := Some (case ap_refused applied of
                      Some existing \<Rightarrow> existing @ ''; '' @ note | None \<Rightarrow> note) \<rparr>)"

definition handle_apply_config :: "world \<Rightarrow> DeclaredApp list \<Rightarrow> ResetDepth \<Rightarrow> actor \<Rightarrow> Applied list \<times> actor" where
  "handle_apply_config w apps reset s =
     (case overrides_all (w_store_read w) (overrides_file s) of
        Inl err \<Rightarrow>
          (map (\<lambda>incoming. refused_app (app_name (da_config incoming))
                 (''overrides could not be read: '' @ overrides_error_display err)) apps, s)
      | Inr store \<Rightarrow>
          (let (report, changes, s) = apply_each w reset store apps [] s;
               (r, d) = overrides_update (w_store_write w) changes (overrides_file s);
               s = s\<lparr> overrides_file := d \<rparr>
           in case r of
                Inr _ \<Rightarrow> (report, s)
              | Inl err \<Rightarrow>
                  (map (note_unwritten changes (''overrides could not be written: '' @ overrides_error_display err)) report, s)))"

subsection \<open>Panes: the override record\<close>

definition env_override_map :: "AppOverrides \<Rightarrow> string \<Rightarrow> SupervisorError + object" where
  "env_override_map rec nm =
     (case ov_fields rec ''env'' of
        None \<Rightarrow> Inr Map.empty
      | Some (JObject env) \<Rightarrow> Inr env
      | Some _ \<Rightarrow> Inl (Overrides (nm @ '''s stored `env` override is not an object'')))"

definition record_env_edit ::
  "string \<Rightarrow> string \<Rightarrow> string option \<Rightarrow> bool \<Rightarrow> AppOverrides \<Rightarrow> SupervisorError + AppOverrides" where
  "record_env_edit nm key v was_in_config rec =
     and_then (env_override_map rec nm) (\<lambda>env.
       (let file_declares = (key \<in> ov_declared_env rec);
            was_overridden = (env key \<noteq> None);
            tombstoned = (env key = Some JNull);
            env = (case v of Some v \<Rightarrow> env(key \<mapsto> JString v) | None \<Rightarrow> if tombstoned then env else env(key := None));
            env = (if v = None \<and> was_in_config \<and> (\<not> was_overridden \<or> file_declares) then env(key \<mapsto> JNull) else env)
        in Inr (rec\<lparr> ov_fields := (ov_fields rec)(''env'' := if env = Map.empty then None else Some (JObject env)) \<rparr>)))"

definition ensure_not_dog :: "actor \<Rightarrow> string \<Rightarrow> nat \<Rightarrow> SupervisorError + unit" where
  "ensure_not_dog s nm i =
     (if (case get_slot s i of None \<Rightarrow> False | Some sl \<Rightarrow> e_dog (sl_entry sl) \<noteq> None)
      then Inl (IsADog (dog_config_refusal nm)) else Inr ())"

definition stored_record :: "world \<Rightarrow> string \<Rightarrow> actor \<Rightarrow> SupervisorError + AppOverrides" where
  "stored_record w nm s =
     map_err (\<lambda>err. Overrides (overrides_error_display err))
       (map_sum id (\<lambda>rec. case rec of Some r \<Rightarrow> r | None \<Rightarrow> no_overrides)
         (overrides_get (w_store_read w) nm (overrides_file s)))"

definition mutate_override ::
  "world \<Rightarrow> string \<Rightarrow> (AppOverrides \<Rightarrow> SupervisorError + AppOverrides) \<Rightarrow> actor \<Rightarrow>
   (SupervisorError + string list) \<times> actor" where
  "mutate_override w nm f s =
     on_ok (stored_record w nm s) s (\<lambda>rec.
     on_ok (f rec) s (\<lambda>rec.
       (let overridden = keys_of (ov_fields rec);
            (r, d) = overrides_update (w_store_write w) [(nm, Some rec)] (overrides_file s);
            s = s\<lparr> overrides_file := d \<rparr>
        in on_ok (map_err (\<lambda>err. Overrides (overrides_error_display err)) r) s (\<lambda>_. (Inr overridden, s)))))"

definition park_slots :: "string \<Rightarrow> AppConfig \<Rightarrow> string list \<Rightarrow> actor \<Rightarrow> actor" where
  "park_slots nm parked overridden s =
     each_slot nm (\<lambda>e. e\<lparr> e_pending := Some parked, e_overridden := overridden \<rparr>) s"

subsection \<open>Panes: reading\<close>

definition view_new :: "AppConfig \<Rightarrow> string list \<Rightarrow> string list \<Rightarrow> SheepConfigView" where
  "view_new config overridden pending =
     \<lparr> cv_name = app_name config, cv_config = config\<lparr> app_env := [] \<rparr>, cv_env_keys = map fst (app_env config),
       cv_env_secrets = sealed_keys config, cv_overridden = overridden, cv_pending = pending \<rparr>"

definition handle_sheep_config :: "world \<Rightarrow> string \<Rightarrow> actor \<Rightarrow> SupervisorError + SheepConfigView option" where
  "handle_sheep_config w nm s =
     (case representative_id s nm of
        None \<Rightarrow> Inr None
      | Some i \<Rightarrow>
          and_then (ensure_not_dog s nm i) (\<lambda>_.
            (case (get_slot s i, intended_spec s i) of
               (Some slot, Some config) \<Rightarrow>
                 Inr (Some (view_new config (overridden_for w s nm) (pending_fields (sl_entry slot))))
             | _ \<Rightarrow> Inr None)))"

subsection \<open>Panes: one environment variable, and several\<close>

definition with_env :: "string \<Rightarrow> string option \<Rightarrow> (string \<times> string) list \<Rightarrow> (string \<times> string) list" where
  "with_env key v env = (case v of Some v \<Rightarrow> btree_insert key v env | None \<Rightarrow> AList.delete key env)"

definition handle_set_sheep_env ::
  "world \<Rightarrow> string \<Rightarrow> string \<Rightarrow> string option \<Rightarrow> actor \<Rightarrow> (SupervisorError + AppConfig option) \<times> actor" where
  "handle_set_sheep_env w nm key v s =
     (case representative_id s nm of
        None \<Rightarrow> (Inr None, s)
      | Some i \<Rightarrow>
          on_ok (ensure_not_dog s nm i) s (\<lambda>_.
            (case intended_spec s i of
               None \<Rightarrow> (Inr None, s)
             | Some intended \<Rightarrow>
                 (let was_in_config = (map_of (app_env intended) key \<noteq> None);
                      intended = intended\<lparr> app_env := with_env key v (app_env intended) \<rparr>
                  in on_ok (map_err InvalidEnv (w_normalize w intended)) s (\<lambda>parked.
                       (case mutate_override w nm (record_env_edit nm key v was_in_config) s of
                          (r, s) \<Rightarrow> on_ok r s (\<lambda>overridden.
                            (Inr (Some parked), park_slots nm parked overridden s))))))))"

text \<open>What a batch would do to each key, in key order: already held, colliding, or new.\<close>

definition batch_unchanged :: "AppConfig \<Rightarrow> (string \<times> string) list \<Rightarrow> string list" where
  "batch_unchanged intended entries = map fst (filter (\<lambda>(key, v). map_of (app_env intended) key = Some v) entries)"

definition batch_collisions :: "AppConfig \<Rightarrow> (string \<times> string) list \<Rightarrow> string list" where
  "batch_collisions intended entries =
     map fst (filter (\<lambda>(key, v). map_of (app_env intended) key \<notin> {None, Some v}) entries)"

definition batch_set :: "AppConfig \<Rightarrow> bool \<Rightarrow> (string \<times> string) list \<Rightarrow> (string \<times> string) list" where
  "batch_set intended force entries =
     filter (\<lambda>(key, v). map_of (app_env intended) key = None \<or> force \<and> map_of (app_env intended) key \<noteq> Some v) entries"

definition record_env_batch :: "string \<Rightarrow> (string \<times> string) list \<Rightarrow> AppOverrides \<Rightarrow> SupervisorError + AppOverrides" where
  "record_env_batch nm sets rec =
     and_then (env_override_map rec nm) (\<lambda>env.
       Inr (rec\<lparr> ov_fields := (ov_fields rec)(''env'' \<mapsto> JObject (fold (\<lambda>(key, v) env. env(key \<mapsto> JString v)) sets env)) \<rparr>))"

definition handle_set_sheep_env_batch ::
  "world \<Rightarrow> string \<Rightarrow> (string \<times> string) list \<Rightarrow> bool \<Rightarrow> bool \<Rightarrow> actor \<Rightarrow> (SupervisorError + EnvBatch option) \<times> actor" where
  "handle_set_sheep_env_batch w nm entries force dry_run s =
     (case representative_id s nm of
        None \<Rightarrow> (Inr None, s)
      | Some i \<Rightarrow>
          on_ok (ensure_not_dog s nm i) s (\<lambda>_.
            (case intended_spec s i of
               None \<Rightarrow> (Inr None, s)
             | Some intended \<Rightarrow>
                 (let sets = batch_set intended force entries;
                      unchanged = batch_unchanged intended entries;
                      collisions = batch_collisions intended entries
                  in if collisions \<noteq> [] \<and> \<not> force
                     then (Inr (Some \<lparr> eb_app = None, eb_set = [], eb_unchanged = unchanged, eb_collisions = collisions \<rparr>), s)
                     else
                       (let intended = intended\<lparr> app_env := fold (\<lambda>(key, v). btree_insert key v) sets (app_env intended) \<rparr> in
                        on_ok (map_err InvalidEnv (w_normalize w intended)) s (\<lambda>parked.
                          (let answer = (\<lambda>app. \<lparr> eb_app = app, eb_set = map fst sets, eb_unchanged = unchanged,
                                                  eb_collisions = collisions \<rparr>)
                           in if dry_run \<or> sets = [] then (Inr (Some (answer None)), s)
                              else (case mutate_override w nm (record_env_batch nm sets) s of
                                      (r, s) \<Rightarrow> on_ok r s (\<lambda>overridden.
                                        (Inr (Some (answer (Some parked))), park_slots nm parked overridden s))))))))))"

subsection \<open>Panes: one field\<close>

datatype FieldSource = FSet json | FReset

definition refuse_unowned_key :: "string \<Rightarrow> SupervisorError + unit" where
  "refuse_unowned_key key =
     (if key = ''env'' then Inl (InvalidField ''env is set one key at a time; use `SetSheepEnv`'')
      else if key = ''dogs''
      then Inl (InvalidField ''dogs is set one dog's table at a time; use `SetSheepDogSettings`'')
      else if apply_group key = Structural
      then Inl (InvalidField (key @ '' is not a config write; `shep stock` moves an instance count, and a '' @
                  ''name change is a different sheep''))
      else Inr ())"

definition template_value :: "world \<Rightarrow> string \<Rightarrow> string \<Rightarrow> actor \<Rightarrow> SupervisorError + json" where
  "template_value w nm key s =
     and_then (stored_record w nm s) (\<lambda>rec.
       if ov_fields rec key = None
       then Inl (InvalidField (key @ '' has no override to drop: it already holds the Flockfile's value''))
       else (case ov_template rec key of
               Some template \<Rightarrow> Inr template
             | None \<Rightarrow>
                 and_then (map_err (\<lambda>err. InvalidField (key @ '': '' @ err)) (to_object (w_serde w) (minimal [] []))) (\<lambda>defaults.
                   (case defaults key of
                      Some v \<Rightarrow> Inr v
                    | None \<Rightarrow> Inl (InvalidField (''no config field named '' @ key))))))"

definition missing_directory :: "world \<Rightarrow> string \<Rightarrow> string option" where
  "missing_directory w path =
     (case w_metadata w path of
        IsDirectory \<Rightarrow> None
      | NotADirectory \<Rightarrow> Some ''exists but is not a directory''
      | MetadataMissing \<Rightarrow> Some ''does not exist yet''
      | MetadataError \<Rightarrow> None)"

definition cwd_advisory :: "world \<Rightarrow> string \<Rightarrow> string option" where
  "cwd_advisory w cwd = map_option (\<lambda>reason. cwd @ '' '' @ reason) (missing_directory w cwd)"

text \<open>
  \<open>Path::parent\<close> of the standard library: the text before the last component, empty and \<open>.\<close>
  components not counting except a leading \<open>.\<close>, trailing separators trimmed.
\<close>

definition path_parent :: "string \<Rightarrow> string option" where
  "path_parent path =
     (let segments = enumerate 0 (split_on (CHR ''/'') path);
          named = (\<lambda>(n, segment). segment \<noteq> [] \<and> (n = 0 \<or> segment \<noteq> ''.''));
          before_last = tl (dropWhile (\<lambda>x. \<not> named x) (rev segments));
          kept = rev (dropWhile (\<lambda>x. \<not> named x) before_last)
      in if \<not> list_ex named segments then None
         else if kept = [] then Some (if path \<noteq> [] \<and> hd path = CHR ''/'' then ''/'' else [])
         else Some (join ''/'' (map snd kept)))"

definition log_path_advisory :: "world \<Rightarrow> string \<Rightarrow> string option" where
  "log_path_advisory w path =
     (if w_metadata w path = IsDirectory then Some (path @ '' is a directory, not a log file'')
      else case path_parent path of
             None \<Rightarrow> None
           | Some parent \<Rightarrow>
               if parent = [] then None
               else map_option (\<lambda>reason. parent @ '' '' @ reason) (missing_directory w parent))"

definition field_warning :: "world \<Rightarrow> string \<Rightarrow> AppConfig \<Rightarrow> string option" where
  "field_warning w key merged =
     (let spec = w_describe w merged 0 None in
      if key = ''cwd'' \<or> key = ''script''
      then (case Option.bind (ss_cwd spec) (cwd_advisory w) of
              Some advisory \<Rightarrow> Some advisory
            | None \<Rightarrow>
                (case w_preflight w spec of
                   PImpossible reason \<Rightarrow> Some reason
                 | PDoubtful reason \<Rightarrow> Some reason
                 | PUnknown \<Rightarrow> None))
      else if key = ''out_file'' then log_path_advisory w (ss_out_file spec)
      else if key = ''err_file'' then log_path_advisory w (ss_err_file spec)
      else None)"

definition record_field_edit :: "FieldSource \<Rightarrow> string \<Rightarrow> json \<Rightarrow> json option \<Rightarrow> AppOverrides \<Rightarrow> AppOverrides" where
  "record_field_edit source key v held rec =
     (case source of
        FSet _ \<Rightarrow>
          (let rec = (if ov_fields rec key = None
                      then (case held of Some b \<Rightarrow> rec\<lparr> ov_template := (ov_template rec)(key \<mapsto> b) \<rparr> | None \<Rightarrow> rec)
                      else rec)
           in rec\<lparr> ov_fields := (ov_fields rec)(key \<mapsto> v) \<rparr>)
      | FReset \<Rightarrow> rec\<lparr> ov_fields := (ov_fields rec)(key := None), ov_template := (ov_template rec)(key := None) \<rparr>)"

text \<open>The second half of \<open>apply_sheep_field\<close>: once the record is written.\<close>

definition field_written ::
  "world \<Rightarrow> string \<Rightarrow> string \<Rightarrow> json \<Rightarrow> AppConfig \<Rightarrow> AppConfig option \<Rightarrow> string option \<Rightarrow> string list \<Rightarrow> actor \<Rightarrow>
   FieldSet \<times> actor" where
  "field_written w nm key v merged next_spec warning overridden s =
     (let group = apply_group key;
          reaches = (group = Live \<or> group = NextSpawn);
          park_all = (next_spec = None);
          parked_wanted = (park_all \<or> \<not> reaches \<or>
            list_ex (\<lambda>i. case get_slot s i of None \<Rightarrow> False | Some sl \<Rightarrow> e_pending (sl_entry sl) \<noteq> None) (ids_of_name s nm));
          parked = (if parked_wanted then Some merged else None);
          s = each_slot nm (\<lambda>e. (load_entry next_spec parked e)\<lparr> e_overridden := overridden \<rparr>) s;
          s = (if \<not> park_all \<and> group = Live \<and> key \<in> set EXTRAS_FIELDS then apply_extras_change w nm s else s);
          (unwritten, s) = (if \<not> park_all \<and> group = Live \<and> key \<in> set CGROUP_FIELDS
                            then (case rewrite_cgroup_limits w nm s of (keys, s) \<Rightarrow> (key \<in> set keys, s))
                            else (False, s));
          warning = (case warning of
                       Some m \<Rightarrow> Some m
                     | None \<Rightarrow>
                         if unwritten
                         then Some (key @ '' is stored, but the kernel limit could not be written to a running instance; '' @
                                ''it applies at the next spawn'')
                         else None);
          in_force = (\<not> park_all \<and> \<not> unwritten \<and> reaches_running key)
      in (\<lparr> fs_app = (case parked of Some p \<Rightarrow> p | None \<Rightarrow> (case next_spec of Some a \<Rightarrow> a | None \<Rightarrow> merged)),
            fs_value = v, fs_pending = (\<not> in_force), fs_warning = warning \<rparr>, s))"

definition apply_sheep_field ::
  "world \<Rightarrow> string \<Rightarrow> string \<Rightarrow> FieldSource \<Rightarrow> actor \<Rightarrow> (SupervisorError + FieldSet option) \<times> actor" where
  "apply_sheep_field w nm key source s =
     (case representative_id s nm of
        None \<Rightarrow> (Inr None, s)
      | Some i \<Rightarrow>
          on_ok (ensure_not_dog s nm i) s (\<lambda>_.
          on_ok (case source of FSet v \<Rightarrow> Inr v | FReset \<Rightarrow> template_value w nm key s) s (\<lambda>v.
            (case get_slot s i of
               None \<Rightarrow> (Inr None, s)
             | Some slot \<Rightarrow>
                 (let spawned = slot_app slot;
                      intended = (case e_pending (sl_entry slot) of None \<Rightarrow> spawned | Some parked \<Rightarrow> parked)
                  in case to_object (w_serde w) intended of
                       Inl _ \<Rightarrow> (Inl (InvalidField ''an app config must serialize as an object''), s)
                     | Inr obj \<Rightarrow>
                         if obj key = None then (Inl (InvalidField (''no config field named '' @ key)), s)
                         else
                           on_ok (map_err (\<lambda>err. InvalidField (key @ '': '' @ err))
                                   (and_then (from_object (w_serde w) (obj(key \<mapsto> v))) (w_normalize w))) s (\<lambda>merged.
                             (let warning = field_warning w key merged;
                                  group = apply_group key;
                                  reaching = (if group = Live \<or> group = NextSpawn then [key] else []);
                                  next_spec = (case reached_spec (w_serde w) (w_normalize w) spawned merged reaching
                                                      (app_instances spawned) of
                                                 Inl _ \<Rightarrow> None | Inr a \<Rightarrow> Some a)
                              in case mutate_override w nm (\<lambda>rec. Inr (record_field_edit source key v (obj key) rec)) s of
                                   (r, s) \<Rightarrow> on_ok r s (\<lambda>overridden.
                                     (case field_written w nm key v merged next_spec warning overridden s of
                                        (fs, s) \<Rightarrow> (Inr (Some fs), s))))))))))"

definition write_sheep_field ::
  "world \<Rightarrow> string \<Rightarrow> string \<Rightarrow> json \<Rightarrow> actor \<Rightarrow> (SupervisorError + FieldSet option) \<times> actor" where
  "write_sheep_field w nm key v s = apply_sheep_field w nm key (FSet v) s"

definition handle_set_sheep_field ::
  "world \<Rightarrow> string \<Rightarrow> string \<Rightarrow> json \<Rightarrow> actor \<Rightarrow> (SupervisorError + FieldSet option) \<times> actor" where
  "handle_set_sheep_field w nm key v s = on_ok (refuse_unowned_key key) s (\<lambda>_. write_sheep_field w nm key v s)"

definition handle_reset_sheep_field ::
  "world \<Rightarrow> string \<Rightarrow> string \<Rightarrow> actor \<Rightarrow> (SupervisorError + FieldSet option) \<times> actor" where
  "handle_reset_sheep_field w nm key s = on_ok (refuse_unowned_key key) s (\<lambda>_. apply_sheep_field w nm key FReset s)"

subsection \<open>Copying an environment\<close>

definition seal_change :: "world \<Rightarrow> string \<Rightarrow> EnvCopyKind \<Rightarrow> string option \<Rightarrow> string option \<Rightarrow> EnvCopyChange" where
  "seal_change w key kind old new =
     \<lparr> ec_key = key, ec_kind = kind, ec_old = map_option shown_env_value old, ec_new = map_option shown_env_value new,
       ec_seal = w_seal w old new \<rparr>"

definition env_diff :: "world \<Rightarrow> (string \<times> string) list \<Rightarrow> (string \<times> string) list \<Rightarrow> EnvCopyChange list" where
  "env_diff w held copied =
     List.map_filter (\<lambda>key.
       (case (map_of held key, map_of copied key) of
          (Some old, Some new) \<Rightarrow>
            if old = new then None else Some (seal_change w key Changed (Some old) (Some new))
        | (None, Some new) \<Rightarrow> Some (seal_change w key Added None (Some new))
        | (Some old, None) \<Rightarrow> Some (seal_change w key Removed (Some old) None)
        | (None, None) \<Rightarrow> None)) (map_keys (held @ copied))"

definition differing_keys :: "EnvCopyChange list \<Rightarrow> EnvCopyChange list \<Rightarrow> string" where
  "differing_keys reviewed now =
     join '', '' (sort (remdups (map ec_key
       (filter (\<lambda>c. c \<notin> set now) reviewed @ filter (\<lambda>c. c \<notin> set reviewed) now))))"

definition copied_env ::
  "bool \<Rightarrow> string list \<Rightarrow> (string \<times> string) list \<Rightarrow> (string \<times> string) list \<Rightarrow> (string \<times> string) list" where
  "copied_env replace except source held =
     (let copied = fold (\<lambda>(key, v) env. if key \<in> set except then env else btree_insert key v env) source held
      in if replace then filter (\<lambda>(key, _). key \<in> set except \<or> map_of source key \<noteq> None) copied else copied)"

fun record_env_changes ::
  "string \<Rightarrow> (string \<times> string) list \<Rightarrow> (string \<times> string) list \<Rightarrow> EnvCopyChange list \<Rightarrow> AppOverrides \<Rightarrow>
   SupervisorError + AppOverrides" where
  "record_env_changes nm held copied [] rec = Inr rec"
| "record_env_changes nm held copied (c # cs) rec =
     and_then (record_env_edit nm (ec_key c) (map_of copied (ec_key c)) (map_of held (ec_key c) \<noteq> None) rec)
       (record_env_changes nm held copied cs)"

definition ok_or :: "'a option \<Rightarrow> 'e \<Rightarrow> 'e + 'a" where
  "ok_or x e = (case x of Some y \<Rightarrow> Inr y | None \<Rightarrow> Inl e)"

definition handle_copy_sheep_env ::
  "world \<Rightarrow> string \<Rightarrow> string \<Rightarrow> bool \<Rightarrow> string list \<Rightarrow> bool \<Rightarrow> EnvCopyChange list option \<Rightarrow> actor \<Rightarrow>
   (SupervisorError + EnvCopy) \<times> actor" where
  "handle_copy_sheep_env w src dst replace except dry_run expected s =
     on_ok (ok_or (representative_id s src) (NoSuchSheep src)) s (\<lambda>source_id.
     on_ok (ok_or (representative_id s dst) (NoSuchSheep dst)) s (\<lambda>target_id.
     on_ok (ensure_not_dog s src source_id) s (\<lambda>_.
     on_ok (ensure_not_dog s dst target_id) s (\<lambda>_.
     on_ok (ok_or (intended_spec s source_id) (NoSuchSheep src)) s (\<lambda>source.
     on_ok (ok_or (intended_spec s target_id) (NoSuchSheep dst)) s (\<lambda>intended.
       (let held = app_env intended;
            copied = copied_env replace except (app_env source) held;
            changes = env_diff w held copied
        in case (case expected of Some reviewed \<Rightarrow> if reviewed \<noteq> changes then Some reviewed else None | None \<Rightarrow> None) of
             Some reviewed \<Rightarrow> (Inl (EnvChanged (differing_keys reviewed changes)), s)
           | None \<Rightarrow>
               if changes = [] then (Inr \<lparr> cp_app = None, cp_changes = changes \<rparr>, s)
               else
                 on_ok (map_err InvalidEnv (w_normalize w (intended\<lparr> app_env := copied \<rparr>))) s (\<lambda>parked.
                   if dry_run then (Inr \<lparr> cp_app = None, cp_changes = changes \<rparr>, s)
                   else (case mutate_override w dst (record_env_changes dst held copied changes) s of
                           (r, s) \<Rightarrow> on_ok r s (\<lambda>overridden.
                             (Inr \<lparr> cp_app = Some parked, cp_changes = changes \<rparr>,
                              park_slots dst parked overridden s)))))))))))"

subsection \<open>Dog tables\<close>

definition non_dogs :: "actor \<Rightarrow> (nat \<times> SheepSlot) list" where
  "non_dogs s = filter (\<lambda>(i, sl). e_dog (sl_entry sl) = None) (sheep s)"

definition speaker :: "actor \<Rightarrow> string \<Rightarrow> SheepSlot option" where
  "speaker s nm =
     (case sort_key (\<lambda>(i, sl). speaker_rank i sl) (filter (\<lambda>(i, sl). slot_name sl = nm) (non_dogs s)) of
        [] \<Rightarrow> None
      | (_, sl) # _ \<Rightarrow> Some sl)"

definition dog_tables :: "actor \<Rightarrow> DogIndex" where
  "dog_tables s =
     List.map_filter (\<lambda>nm.
       (case speaker s nm of
          Some sl \<Rightarrow> if app_dogs (slot_app sl) \<noteq> [] then Some (nm, app_dogs (slot_app sl)) else None
        | None \<Rightarrow> None)) (sort (remdups (map (\<lambda>(i, sl). slot_name sl) (non_dogs s))))"

definition handle_dog_sheep_settings :: "string \<Rightarrow> actor \<Rightarrow> (string \<times> string) list" where
  "handle_dog_sheep_settings dog s =
     List.map_filter (\<lambda>(nm, dogs). map_option (Pair nm) (map_of dogs dog)) (dog_tables s)"

definition handle_sheep_dog_read :: "world \<Rightarrow> string \<Rightarrow> string \<Rightarrow> actor \<Rightarrow> SheepDogRead option" where
  "handle_sheep_dog_read w nm dog s =
     map_option (\<lambda>sl. \<lparr> dr_table = map_of (app_dogs (slot_app sl)) dog,
         dr_environment = (case app_environment (slot_app sl) of Some e \<Rightarrow> e | None \<Rightarrow> w_host_environment w) \<rparr>) (speaker s nm)"

definition handle_set_sheep_dog_settings ::
  "world \<Rightarrow> string \<Rightarrow> string \<Rightarrow> string option \<Rightarrow> actor \<Rightarrow> (SupervisorError + FieldSet option) \<times> actor" where
  "handle_set_sheep_dog_settings w nm dog table s =
     (case Option.bind (representative_id s nm) (intended_spec s) of
        None \<Rightarrow> (Inr None, s)
      | Some intended \<Rightarrow>
          (let dogs = with_env dog table (app_dogs intended) in
           case map_sum id (\<lambda>obj. obj ''dogs'') (to_object (w_serde w) (intended\<lparr> app_dogs := dogs \<rparr>)) of
             Inr (Some v) \<Rightarrow> write_sheep_field w nm ''dogs'' v s
           | _ \<Rightarrow> (Inl (InvalidField (''dogs: '' @ dog @ '''s table would not serialize'')), s)))"

definition changed_tables :: "DogIndex \<Rightarrow> DogIndex \<Rightarrow> (string \<times> string) list" where
  "changed_tables was now =
     (if was = now then []
      else
        sort (concat (map (\<lambda>nm.
          (let old = (case map_of was nm of Some m \<Rightarrow> m | None \<Rightarrow> []);
               new = (case map_of now nm of Some m \<Rightarrow> m | None \<Rightarrow> [])
           in map (\<lambda>dog. (dog, nm)) (filter (\<lambda>dog. map_of old dog \<noteq> map_of new dog) (map_keys (old @ new)))))
          (map_keys (was @ now)))))"

definition announce_dog_tables :: "actor \<Rightarrow> actor" where
  "announce_dog_tables s =
     (if announced s = [] \<and> list_all (\<lambda>(i, sl). app_dogs (slot_app sl) = []) (sheep s) then s
      else
        (let current = dog_tables s; changed = changed_tables (announced s) current
         in if changed = [] then s
            else fold (\<lambda>(dog, nm). effect (DogSettingsChanged dog nm)) changed (s\<lparr> announced := current \<rparr>)))"

subsection \<open>Config writes keep the flock in order\<close>

text \<open>What a config write may do to an entry: change its configs, never its name or its process.\<close>

definition respecs :: "string \<Rightarrow> (ProcessEntry \<Rightarrow> ProcessEntry) \<Rightarrow> bool" where
  "respecs nm f \<longleftrightarrow> (\<forall>e. app_name (e_spec e) = nm \<and> (\<forall>p. e_pending e = Some p \<longrightarrow> app_name p = nm) \<longrightarrow>
     e_id (f e) = e_id e \<and> e_pid (f e) = e_pid e \<and> e_started_at (f e) = e_started_at e \<and> e_status (f e) = e_status e \<and>
     e_reload (f e) = e_reload e \<and> app_name (e_spec (f e)) = nm \<and> (\<forall>p. e_pending (f e) = Some p \<longrightarrow> app_name p = nm))"

lemma respec_slot:
  assumes f: "respecs nm f" and sl: "slot_name sl = nm" "parked_ok sl"
  shows "slot_name (upd_entry f sl) = nm" "parked_ok (upd_entry f sl)" "in_service (upd_entry f sl) = in_service sl"
    "at_rest (upd_entry f sl) = at_rest sl" "resting_status (upd_entry f sl) = resting_status sl"
    "e_id (sl_entry (upd_entry f sl)) = e_id (sl_entry sl)" "e_reload (sl_entry (upd_entry f sl)) = e_reload (sl_entry sl)"
    "sl_actions (upd_entry f sl) = sl_actions sl" "sl_ctl (upd_entry f sl) = sl_ctl sl" "sl_manual (upd_entry f sl) = sl_manual sl"
proof -
  have "app_name (e_spec (sl_entry sl)) = nm \<and> (\<forall>p. e_pending (sl_entry sl) = Some p \<longrightarrow> app_name p = nm)"
    using sl by (auto simp: parked_ok_def)
  note r = f[unfolded respecs_def, rule_format, OF this]
  show "slot_name (upd_entry f sl) = nm" "parked_ok (upd_entry f sl)" "in_service (upd_entry f sl) = in_service sl"
    "at_rest (upd_entry f sl) = at_rest sl" "resting_status (upd_entry f sl) = resting_status sl"
    "e_id (sl_entry (upd_entry f sl)) = e_id (sl_entry sl)" "e_reload (sl_entry (upd_entry f sl)) = e_reload (sl_entry sl)"
    "sl_actions (upd_entry f sl) = sl_actions sl" "sl_ctl (upd_entry f sl) = sl_ctl sl" "sl_manual (upd_entry f sl) = sl_manual sl"
    using r by (cases "e_pending (f (sl_entry sl))";
        simp add: upd_entry_def parked_ok_def in_service_def at_rest_def resting_status_def)+
qed

lemma respec_keeps:
  assumes f: "flock_but X s" and nm: "known_as s nm i" and r: "respecs nm g"
  shows "keeps_but X s (upd_slot i (upd_entry g) s)"
proof (rule slot_change_keeps[OF f])
  have known: "slot_name sl = nm" "parked_ok sl" if "get_slot s i = Some sl" for sl
    using nm that flock_but_slot_base[OF f that] by (simp_all add: known_as_def slot_base_def)
  show "jobs_ok (upd_slot i (upd_entry g) s)"
  proof (rule jobs_ok_upd_slot[OF flock_butD(3)[OF f]])
    fix sl assume "get_slot s i = Some sl"
    then show "slot_name (upd_entry g sl) = slot_name sl" using known respec_slot(1)[OF r] by metis
  next
    fix n job sl assume "get_job s n = Some job" "get_slot s i = Some sl"
    then show "(sw_old_id (j_swap job) = i \<longrightarrow> wears_drainee (upd_entry g sl)) \<and>
        (sw_new_id (j_swap job) = Some i \<longrightarrow> \<not> wears_drainee (upd_entry g sl))"
      using jobs_ok_job[OF f, of n job] respec_slot(7)[OF r] known[of sl] by (auto simp: job_ok_def wears_drainee_def)
  qed
  fix sl assume sl: "get_slot s i = Some sl"
  show "slot_fit X (next_id s) (next_action_stamp s) i (upd_entry g sl) \<and> sl_ctl (upd_entry g sl) = sl_ctl sl \<and>
      (sl_manual (upd_entry g sl) = None \<longleftrightarrow> sl_manual sl = None)"
    using flock_butD(1)[OF f sl] respec_slot[OF r known[OF sl]]
    by (cases "i \<in> X") (auto simp: slot_fit_def slot_ok_def slot_base_def)
qed

lemma respec_known:
  assumes f: "flock_but X s" and k: "known_as s nm i" and j: "known_as s nm j" and r: "respecs nm g"
  shows "known_as (upd_slot i (upd_entry g) s) nm j"
  unfolding known_as_def
proof (intro allI impI)
  fix sl assume a: "get_slot (upd_slot i (upd_entry g) s) j = Some sl"
  show "slot_name sl = nm"
  proof (cases "j = i")
    case True
    then obtain sl0 where sl0: "get_slot s i = Some sl0" "sl = upd_entry g sl0" using a by auto
    have "slot_name sl0 = nm" "parked_ok sl0"
      using k sl0(1) flock_but_slot_base[OF f sl0(1)] by (simp_all add: known_as_def slot_base_def)
    then show ?thesis using respec_slot(1)[OF r] sl0(2) by simp
  qed (use a j in \<open>simp add: known_as_def\<close>)
qed

lemma respec_fold_keeps:
  assumes "flock_but X s" "\<forall>i \<in> set ids. known_as s nm i" "respecs nm g"
  shows "keeps_but X s (fold (\<lambda>i. upd_slot i (upd_entry g)) ids s)"
  using assms(1,2)
proof (induction ids arbitrary: s)
  case (Cons i ids)
  let ?s = "upd_slot i (upd_entry g) s"
  have k: "keeps_but X s ?s" using Cons.prems by (intro respec_keeps[OF _ _ assms(3)]) auto
  have "\<forall>j \<in> set ids. known_as ?s nm j" using Cons.prems respec_known[OF Cons.prems(1) _ _ assms(3)] by simp
  from keeps_trans[OF k Cons.IH[OF keeps_flock[OF k] this]] show ?case by simp
qed (simp add: keeps_refl)

lemma ids_of_name_known: "flock_ok s \<Longrightarrow> i \<in> set (ids_of_name s nm) \<Longrightarrow> known_as s nm i"
proof -
  assume f: "flock_ok s" and "i \<in> set (ids_of_name s nm)"
  moreover have "ids_of_name s nm = map snd (scale_slots s nm)" by (simp add: ids_of_name_def scale_slots_def)
  ultimately obtain n where "(n, i) \<in> set (scale_slots s nm)" by auto
  then show ?thesis by (rule scale_slots_known[OF f]) (simp add: known_as_def)
qed

lemma each_slot_keeps: "flock_ok s \<Longrightarrow> respecs nm f \<Longrightarrow> keeps s (each_slot nm f s)"
  unfolding each_slot_def using ids_of_name_known by (intro respec_fold_keeps) auto

lemma load_entry_parts [simp]:
  "e_id (load_entry n p e) = e_id e" "e_pid (load_entry n p e) = e_pid e" "e_started_at (load_entry n p e) = e_started_at e"
  "e_status (load_entry n p e) = e_status e" "e_reload (load_entry n p e) = e_reload e" "e_dog (load_entry n p e) = e_dog e"
  "e_instance (load_entry n p e) = e_instance e" "e_credentials (load_entry n p e) = e_credentials e"
  "e_spec (load_entry n p e) = (case n of None \<Rightarrow> e_spec e | Some a \<Rightarrow> a)"
  "e_pending (load_entry n p e) = (case p of None \<Rightarrow> e_pending e | Some q \<Rightarrow> Some q)"
  by (cases n; cases p; simp add: load_entry_def Let_def)+

lemma load_entry_respecs:
  assumes "\<forall>a. next_spec = Some a \<longrightarrow> app_name a = nm" "\<forall>p. parked = Some p \<longrightarrow> app_name p = nm"
  shows "respecs nm (load_entry next_spec parked)"
  unfolding respecs_def
proof (intro allI impI)
  fix e :: ProcessEntry assume e: "app_name (e_spec e) = nm \<and> (\<forall>p. e_pending e = Some p \<longrightarrow> app_name p = nm)"
  have "app_name (e_spec (load_entry next_spec parked e)) = nm" using assms(1) e by (cases next_spec) simp_all
  moreover have "\<forall>p. e_pending (load_entry next_spec parked e) = Some p \<longrightarrow> app_name p = nm"
    using assms(2) e by (cases parked) simp_all
  ultimately show "e_id (load_entry next_spec parked e) = e_id e \<and> e_pid (load_entry next_spec parked e) = e_pid e \<and>
      e_started_at (load_entry next_spec parked e) = e_started_at e \<and> e_status (load_entry next_spec parked e) = e_status e \<and>
      e_reload (load_entry next_spec parked e) = e_reload e \<and> app_name (e_spec (load_entry next_spec parked e)) = nm \<and>
      (\<forall>p. e_pending (load_entry next_spec parked e) = Some p \<longrightarrow> app_name p = nm)"
    by (simp del: load_entry_parts(9,10))
qed

lemma respecs_overridden [simp]: "respecs nm (\<lambda>e. e\<lparr> e_overridden := ov \<rparr>)"
  by (simp add: respecs_def)

text \<open>The workers and the kernel limits are effects.\<close>

lemma effect_fold_keeps:
  assumes "flock_but X s" "\<And>x acc s. flock_but X s \<Longrightarrow> keeps_but X s (snd (f x (acc, s)))"
  shows "keeps_but X s (snd (fold f xs (acc, s)))"
  using assms(1)
proof (induction xs arbitrary: acc s)
  case (Cons x xs)
  obtain acc' s' where x: "f x (acc, s) = (acc', s')" by fastforce
  have k: "keeps_but X s s'" using assms(2)[OF Cons.prems, of x acc] x by simp
  show ?case using keeps_trans[OF k Cons.IH[OF keeps_flock[OF k], of acc']] x by simp
qed (simp add: keeps_refl)

lemma oom_keeps: "flock_but X s \<Longrightarrow> keeps_but X s (s\<lparr> oom_baselines := b \<rparr>)"
  by (rule frame_keeps) (auto dest: flock_butD)

lemma apply_extras_change_keeps: "flock_ok s \<Longrightarrow> keeps s (apply_extras_change w nm s)"
proof -
  assume f: "flock_ok s"
  have step: "keeps s (snd (rewrite_memory_slot w x (acc, s)))" if "flock_ok s" for x acc and s :: actor
    using that by (cases x) (simp add: rewrite_memory_slot_def Let_def keeps_refl quiet_effect_keeps)
  obtain b s1 where b: "fold (rewrite_memory_slot w) (running_of s nm) ([], s) = (b, s1)" by fastforce
  have k1: "keeps s s1" using effect_fold_keeps[where f = "rewrite_memory_slot w" and xs = "running_of s nm" and acc = "[]", OF f step] b by simp
  have k2: "keeps s (rewrite_memory_max w nm s)"
    unfolding rewrite_memory_max_def b using keeps_trans[OF k1 oom_keeps[OF keeps_flock[OF k1]]] by simp
  show ?thesis
    using keeps_trans[OF k2 quiet_effect_keeps[OF keeps_flock[OF k2]]] by (simp add: apply_extras_change_def rearm_name_def Let_def)
qed

lemma rewrite_cgroup_limits_keeps: "flock_ok s \<Longrightarrow> keeps s (snd (rewrite_cgroup_limits w nm s))"
proof -
  assume f: "flock_ok s"
  have step: "keeps s (snd (rewrite_limits_slot w x (acc, s)))" if "flock_ok s" for x acc and s :: actor
  proof -
    have e: "keeps s (effect e s)" if "quiet e" for e using quiet_effect_keeps[OF \<open>flock_ok s\<close> that] .
    have "keeps s (effect e' (effect e s))" if "quiet e" "quiet e'" for e e'
      using keeps_trans[OF e[OF that(1)] quiet_effect_keeps[OF keeps_flock[OF e[OF that(1)]] that(2)]] .
    then show ?thesis using keeps_refl[OF \<open>flock_ok s\<close>] by (cases x) (simp add: rewrite_limits_slot_def Let_def)
  qed
  show ?thesis using effect_fold_keeps[where f = "rewrite_limits_slot w" and xs = "running_of s nm" and acc = "[]", OF f step]
    by (simp add: rewrite_cgroup_limits_def split_beta)
qed

subsection \<open>A config keeps its name\<close>

text \<open>What serde does with a name.\<close>

definition serde_names :: "serde \<Rightarrow> bool" where
  "serde_names sd \<longleftrightarrow>
     (\<forall>c obj. to_object sd c = Inr obj \<longrightarrow> obj ''name'' = Some (JString (app_name c))) \<and>
     (\<forall>obj c n. from_object sd obj = Inr c \<longrightarrow> obj ''name'' = Some (JString n) \<longrightarrow> app_name c = n)"

lemma serde_namesD:
  assumes "serde_names sd"
  shows "to_object sd c = Inr obj \<Longrightarrow> obj ''name'' = Some (JString (app_name c))"
    "from_object sd obj = Inr c \<Longrightarrow> obj ''name'' = Some (JString n) \<Longrightarrow> app_name c = n"
  using assms by (simp_all add: serde_names_def)

lemma w_normalize_name: "w_normalize w c = Inr c' \<Longrightarrow> app_name c' = app_name c"
  using normalize_keeps(2) by (simp add: w_normalize_def normalize_def)

lemma merge_declared_name:
  assumes sd: "serde_names sd" and m: "merge_declared sd stored incoming ov reset = Inr (c, n)"
    and nm: "app_name stored = nm" "app_name (da_config incoming) = nm"
  shows "app_name c = nm"
proof -
  from m obtain obj fobj defaults m1 where o: "to_object sd stored = Inr obj" "to_object sd (da_config incoming) = Inr fobj"
    "merge_objects reset stored incoming ov obj fobj defaults = (m1, n)" "from_object sd m1 = Inr c"
    by (rule merge_declared_Inr)
  have "obj ''name'' = Some (JString nm)" "fobj ''name'' = Some (JString nm)"
    using serde_namesD(1)[OF sd o(1)] serde_namesD(1)[OF sd o(2)] nm by simp_all
  then have "m1 ''name'' = Some (JString nm)" using merge_objects_keys(1)[OF o(3), of "''name''"] by simp
  then show ?thesis by (rule serde_namesD(2)[OF sd o(4)])
qed

lemma reached_spec_name:
  assumes sd: "serde_names sd" and r: "reached_spec sd (w_normalize w) stored merged reaching count = Inr c"
    and nm: "''name'' \<notin> set reaching"
  shows "app_name c = app_name stored"
proof -
  let ?take = "\<lambda>source. fold (\<lambda>field nxt. case source field of Some v \<Rightarrow> nxt(field \<mapsto> v) | None \<Rightarrow> nxt) reaching"
  from r obtain nxt source config where o: "to_object sd stored = Inr nxt" "from_object sd (?take source nxt) = Inr config"
    "w_normalize w (config\<lparr> app_instances := count \<rparr>) = Inr c"
    by (auto simp: reached_spec_def and_then_Inr)
  have "fold (\<lambda>field nxt. case source field of Some v \<Rightarrow> nxt(field \<mapsto> v) | None \<Rightarrow> nxt) fs m ''name'' = m ''name''"
    if "''name'' \<notin> set fs" for fs and m :: object
    using that by (induction fs arbitrary: m) (auto split: option.splits)
  from this[OF nm] have "?take source nxt ''name'' = nxt ''name''" .
  moreover have "nxt ''name'' = Some (JString (app_name stored))" by (rule serde_namesD(1)[OF sd o(1)])
  ultimately have "app_name config = app_name stored" by (intro serde_namesD(2)[OF sd o(2)]) simp
  then show ?thesis using w_normalize_name[OF o(3)] by simp
qed

lemma name_structural: "apply_group ''name'' = Structural"
  by (simp add: apply_group_def FIELDS_def row_def)

lemma of_group_name [simp]: "g \<noteq> Structural \<Longrightarrow> ''name'' \<notin> set (of_group g names)"
  by (auto simp: of_group_def name_structural)

subsection \<open>The count\<close>

definition answered_scale :: "caller \<Rightarrow> actor \<Rightarrow> bool" where
  "answered_scale c s \<longleftrightarrow> (\<exists>es a. out s = es @ [Reply c (ScaledBody a)])"

lemma answered_reply [simp]: "answered_scale c (effect (Reply c (ScaledBody a)) s)"
  by (auto simp: answered_scale_def effect_def)

lemma answered_write_back [simp]: "answered_scale c (scale_write_back w first_id rescaled count survivors failure c s)"
  by (simp add: scale_write_back_def Let_def split: sum.splits)

lemma handle_scale_answers:
  assumes f: "flock_ok s"
  shows "answered_scale c (handle_scale w nm count c s)"
proof (cases "scale_slots s nm")
  case Nil
  then show ?thesis by (simp add: handle_scale_def)
next
  case (Cons a rest)
  obtain inst0 first_id where a: "a = (inst0, first_id)" by (cases a)
  obtain sl where sl: "get_slot s first_id = Some sl"
    by (rule scale_slots_known[OF f, of inst0 first_id nm]) (simp_all add: Cons a)
  show ?thesis
    using Cons a sl by (simp add: handle_scale_def Let_def split_beta split: sum.splits)
qed

lemma answered_try_recv: "answered_scale Awaited s \<Longrightarrow> try_recv (out s) \<noteq> None"
  by (auto simp: answered_scale_def try_recv_def)

lemma route_count_evolves:
  assumes st: "steady s" and r: "route_count w nm instances spawned merged s = (r, s')"
  shows "evolves s s'"
proof -
  let ?s = "handle_scale w nm (unat (app_instances merged)) Awaited s"
  have "evolves s ?s" by (rule handle_scale_evolves[OF st])
  moreover have "try_recv (out ?s) \<noteq> None" by (rule answered_try_recv[OF handle_scale_answers[OF steadyD(1)[OF st]]])
  ultimately show ?thesis
    using r evolves_refl[OF st] by (auto simp: route_count_def Let_def split: if_splits option.splits sum.splits)
qed

subsection \<open>Loads and panes keep the flock in order\<close>

lemma written_slots_keeps:
  assumes f: "flock_ok s" and g: "respecs nm g"
  shows "keeps s (if b1 then apply_extras_change w nm (each_slot nm g s) else each_slot nm g s)" (is "keeps s ?s1")
    and "keeps s (snd (if b2 then rewrite_cgroup_limits w nm (if b1 then apply_extras_change w nm (each_slot nm g s) else each_slot nm g s)
           else (u, if b1 then apply_extras_change w nm (each_slot nm g s) else each_slot nm g s)))"
    and "keeps s (snd (if b2 then (x, snd (rewrite_cgroup_limits w nm (if b1 then apply_extras_change w nm (each_slot nm g s) else each_slot nm g s)))
           else (y, if b1 then apply_extras_change w nm (each_slot nm g s) else each_slot nm g s)))"
proof -
  have k0: "keeps s (each_slot nm g s)" by (rule each_slot_keeps[OF f g])
  show k1: "keeps s ?s1" using k0 keeps_trans[OF k0 apply_extras_change_keeps[OF keeps_flock[OF k0]]] by simp
  show "keeps s (snd (if b2 then rewrite_cgroup_limits w nm ?s1 else (u, ?s1)))"
    "keeps s (snd (if b2 then (x, snd (rewrite_cgroup_limits w nm ?s1)) else (y, ?s1)))"
    using k1 keeps_trans[OF k1 rewrite_cgroup_limits_keeps[OF keeps_flock[OF k1]]] by simp_all
qed

lemma settle_app_keeps:
  assumes f: "flock_ok s" and sd: "serde_names (w_serde w)" and nm: "app_name spawned = nm" "app_name merged = nm"
    and reach: "''name'' \<notin> set (live_now @ next_spawn)"
  shows "keeps s (snd (snd (settle_app w nm reset ov changes spawned merged nov live_now next_spawn respawning instances ids count refusals s)))"
proof -
  let ?next = "case reached_spec (w_serde w) (w_normalize w) spawned merged (live_now @ next_spawn) count of Inl _ \<Rightarrow> None | Inr a \<Rightarrow> Some a"
  have "\<forall>a. ?next = Some a \<longrightarrow> app_name a = nm"
    using reached_spec_name[OF sd _ reach] nm(1) by (auto split: sum.splits)
  moreover have "\<forall>p. (if b then with_count w merged n else None) = Some p \<longrightarrow> app_name p = nm" for b n
    using with_count_name(2)[of w merged] nm(2) by auto
  ultimately have g: "respecs nm (load_entry ?next (if b then with_count w merged n else None))" for b n
    by (rule load_entry_respecs)
  have tail: "keeps s s' \<Longrightarrow> keeps s (each_slot nm (\<lambda>e. e\<lparr> e_overridden := x \<rparr>) s')" for s' x
    using keeps_trans each_slot_keeps[OF keeps_flock respecs_overridden] by blast
  show ?thesis
    unfolding settle_app_def Let_def split_beta snd_conv
    by (rule tail[OF written_slots_keeps(2)[OF f g]])
qed

lemma representative_known:
  assumes f: "flock_ok s" and r: "representative_id s nm = Some i"
  obtains sl where "get_slot s i = Some sl" "slot_name sl = nm"
proof -
  let ?ranked = "sort_key (\<lambda>(i, sl). speaker_rank i sl) (filter (\<lambda>(i, sl). slot_name sl = nm) (sheep s))"
  from r obtain sl rest where "?ranked = (i, sl) # rest" by (auto simp: representative_id_def split: list.splits prod.splits)
  then have "(i, sl) \<in> set ?ranked" by simp
  then have "(i, sl) \<in> set (sheep s)" "slot_name sl = nm" by simp_all
  then show thesis using that get_slot_in_sheep[OF flock_butD(2)[OF f]] by blast
qed

lemma intended_name:
  assumes f: "flock_ok s" and sl: "get_slot s i = Some sl"
  shows "app_name (case e_pending (sl_entry sl) of None \<Rightarrow> slot_app sl | Some p \<Rightarrow> p) = slot_name sl"
    "intended_spec s i = Some c \<Longrightarrow> app_name c = slot_name sl"
  using flock_but_slot_base[OF f sl] sl by (auto simp: slot_base_def parked_ok_def intended_spec_def split: option.splits)

lemma apply_one_evolves:
  assumes st: "steady s" and sd: "serde_names (w_serde w)"
  shows "evolves s (snd (snd (apply_one w incoming reset ov changes s)))"
proof -
  note f = steadyD(1)[OF st] and refl = evolves_refl[OF st]
  let ?nm = "app_name (da_config incoming)"
  show ?thesis
  proof (cases "representative_id s ?nm")
    case None
    then show ?thesis using refl by (simp add: apply_one_def Let_def)
  next
    case (Some i)
    then obtain sl where sl: "get_slot s i = Some sl" "slot_name sl = ?nm" by (rule representative_known[OF f])
    define intended where "intended = (case e_pending (sl_entry sl) of None \<Rightarrow> slot_app sl | Some parked \<Rightarrow> parked)"
    have iname: "app_name intended = ?nm" using intended_name(1)[OF f sl(1)] sl(2) by (simp add: intended_def)
    have settled: "evolves s (snd (snd (settle_app w ?nm reset ov changes (slot_app sl) merged nov (of_group Live ds) (of_group NextSpawn ds)
          (of_group NeedsRespawn ds) inst ids count nts s1)))"
      if m: "merge_declared (w_serde w) intended incoming ov reset = Inr (c, nov)" "w_normalize w c = Inr merged"
        and r: "route_count w ?nm inst (slot_app sl) merged s = (x, s1)" for c nov merged ds inst ids count nts x s1
    proof -
      have e: "evolves s s1" by (rule route_count_evolves[OF st r])
      have "app_name merged = ?nm" using w_normalize_name[OF m(2)] merge_declared_name[OF sd m(1) iname] by simp
      then have "keeps s1 (snd (snd (settle_app w ?nm reset ov changes (slot_app sl) merged nov (of_group Live ds) (of_group NextSpawn ds)
          (of_group NeedsRespawn ds) inst ids count nts s1)))"
        by (intro settle_app_keeps[OF steadyD(1)[OF evolves_steady[OF e]] sd sl(2)]) simp_all
      then show ?thesis by (rule after_evolves[OF e])
    qed
    show ?thesis
    proof (cases "merge_declared (w_serde w) intended incoming ov reset")
      case (Inl m)
      then show ?thesis using refl Some sl by (simp add: apply_one_def Let_def intended_def[symmetric])
    next
      case (Inr cn)
      obtain c nov where cn: "cn = (c, nov)" by (cases cn)
      show ?thesis
      proof (cases "w_normalize w c")
        case (Inl m)
        then show ?thesis using refl Some sl Inr cn by (simp add: apply_one_def Let_def intended_def[symmetric])
      next
        case (Inr merged)
        let ?ds = "drifted_fields intended merged"
        obtain x s1 where r: "route_count w ?nm (''instances'' \<in> set (of_group Structural ?ds)) (slot_app sl) merged s = (x, s1)"
          by fastforce
        have "evolves s s1" by (rule route_count_evolves[OF st r])
        then show ?thesis
          using refl Some sl \<open>merge_declared (w_serde w) intended incoming ov reset = Inr cn\<close> cn Inr r settled[OF _ Inr r]
          by (cases x) (auto simp: apply_one_def Let_def intended_def[symmetric] split: prod.splits)
      qed
    qed
  qed
qed

lemma apply_each_evolves:
  assumes sd: "serde_names (w_serde w)"
  shows "steady s \<Longrightarrow> evolves s (snd (snd (apply_each w reset store apps changes s)))"
proof (induction apps arbitrary: changes s)
  case Nil
  then show ?case by (simp add: evolves_refl)
next
  case (Cons incoming apps)
  let ?ov = "case map_of store (app_name (da_config incoming)) of Some r \<Rightarrow> r | None \<Rightarrow> no_overrides"
  obtain a ch s1 where o: "apply_one w incoming reset ?ov changes s = (a, ch, s1)" by (metis prod_cases3)
  have e: "evolves s s1" using apply_one_evolves[OF Cons.prems sd, of incoming reset ?ov changes] o by simp
  from evolves_trans[OF e Cons.IH[OF evolves_steady[OF e]]] show ?case using o by (simp add: Let_def split_beta)
qed

lemma store_keeps: "flock_but X s \<Longrightarrow> keeps_but X s (s\<lparr> overrides_file := d \<rparr>)"
  by (rule frame_keeps) (auto dest: flock_butD)

lemma handle_apply_config_evolves:
  assumes st: "steady s" and sd: "serde_names (w_serde w)"
  shows "evolves s (snd (handle_apply_config w apps reset s))"
proof (cases "overrides_all (w_store_read w) (overrides_file s)")
  case (Inl e)
  then show ?thesis using evolves_refl[OF st] by (simp add: handle_apply_config_def)
next
  case (Inr store)
  obtain report ch s1 where a: "apply_each w reset store apps [] s = (report, ch, s1)" by (metis prod_cases3)
  have e: "evolves s s1" using apply_each_evolves[OF sd st, of reset store apps "[]"] a by simp
  have "evolves s (s1\<lparr> overrides_file := d \<rparr>)" for d
    by (rule after_evolves[OF e store_keeps[OF steadyD(1)[OF evolves_steady[OF e]]]])
  then show ?thesis using Inr a by (simp add: handle_apply_config_def Let_def split_beta split: sum.splits)
qed

lemma on_ok_keeps:
  assumes "flock_ok s" "\<And>x. r = Inr x \<Longrightarrow> keeps s (snd (k x))"
  shows "keeps s (snd (on_ok r s k))"
  using assms keeps_refl by (cases r) auto

lemma mutate_override_keeps: "flock_ok s \<Longrightarrow> keeps s (snd (mutate_override w nm f s))"
proof -
  assume f: "flock_ok s"
  have "keeps s (snd (on_ok r (s\<lparr> overrides_file := d \<rparr>) (\<lambda>_. (Inr ov, s\<lparr> overrides_file := d \<rparr>))))" for r :: "SupervisorError + unit" and d ov
    using store_keeps[OF f] by (cases r) simp_all
  then show ?thesis unfolding mutate_override_def Let_def split_beta by (intro on_ok_keeps[OF f])
qed

lemma park_slots_keeps: "flock_ok s \<Longrightarrow> app_name parked = nm \<Longrightarrow> keeps s (park_slots nm parked overridden s)"
  unfolding park_slots_def by (rule each_slot_keeps) (simp_all add: respecs_def)

lemma record_then_park_keeps:
  assumes f: "flock_ok s" and nm: "app_name parked = nm"
  shows "keeps s (snd (case mutate_override w nm g s of (r, s) \<Rightarrow> on_ok r s (\<lambda>ov. (Inr (ans ov), park_slots nm parked ov s))))"
proof -
  obtain r s1 where m: "mutate_override w nm g s = (r, s1)" by fastforce
  have k: "keeps s s1" using mutate_override_keeps[OF f, of w nm g] m by simp
  show ?thesis using m k keeps_trans[OF k park_slots_keeps[OF keeps_flock[OF k] nm]] by (cases r) simp_all
qed

text \<open>A pane edits what the next spawn is meant to be, under the same name.\<close>

lemma intended_edit_name:
  assumes f: "flock_ok s" and r: "representative_id s nm = Some i"
  shows "\<exists>c. intended_spec s i = Some c \<and>
    (\<forall>e parked. map_err InvalidEnv (w_normalize w (c\<lparr> app_env := e \<rparr>)) = Inr parked \<longrightarrow> app_name parked = nm)"
proof -
  obtain sl where sl: "get_slot s i = Some sl" "slot_name sl = nm" by (rule representative_known[OF f r])
  then obtain c where c: "intended_spec s i = Some c" by (simp add: intended_spec_def)
  have "app_name parked = nm" if "map_err InvalidEnv (w_normalize w (c\<lparr> app_env := e \<rparr>)) = Inr parked" for e parked
    using w_normalize_name[of w "c\<lparr> app_env := e \<rparr>" parked] that intended_name(2)[OF f sl(1) c] sl(2) by simp
  with c show ?thesis by blast
qed

lemma handle_set_sheep_env_keeps:
  assumes f: "flock_ok s"
  shows "keeps s (snd (handle_set_sheep_env w nm key v s))"
proof (cases "representative_id s nm")
  case None
  then show ?thesis using keeps_refl[OF f] by (simp add: handle_set_sheep_env_def)
next
  case (Some i)
  obtain c where c: "intended_spec s i = Some c"
    "\<forall>e parked. map_err InvalidEnv (w_normalize w (c\<lparr> app_env := e \<rparr>)) = Inr parked \<longrightarrow> app_name parked = nm"
    using intended_edit_name[OF f Some] by blast
  show ?thesis
    unfolding handle_set_sheep_env_def Some c(1) option.case Let_def
    by (rule on_ok_keeps[OF f], rule on_ok_keeps[OF f], rule record_then_park_keeps[OF f c(2)[rule_format]])
qed

lemma handle_set_sheep_env_batch_keeps:
  assumes f: "flock_ok s"
  shows "keeps s (snd (handle_set_sheep_env_batch w nm entries force dry s))"
proof (cases "representative_id s nm")
  case None
  then show ?thesis using keeps_refl[OF f] by (simp add: handle_set_sheep_env_batch_def)
next
  case (Some i)
  obtain c where c: "intended_spec s i = Some c"
    "\<forall>e parked. map_err InvalidEnv (w_normalize w (c\<lparr> app_env := e \<rparr>)) = Inr parked \<longrightarrow> app_name parked = nm"
    using intended_edit_name[OF f Some] by blast
  have keep: "keeps s (snd (if b then (x, s) else y))" if "keeps s (snd y)" for b x y
    using that keeps_refl[OF f] by simp
  show ?thesis
    unfolding handle_set_sheep_env_batch_def Some c(1) option.case Let_def
    by (rule on_ok_keeps[OF f], rule keep, rule on_ok_keeps[OF f], rule keep, rule record_then_park_keeps[OF f c(2)[rule_format]])
qed

lemma handle_copy_sheep_env_keeps:
  assumes f: "flock_ok s"
  shows "keeps s (snd (handle_copy_sheep_env w src dst replace except dry expected s))"
proof (cases "representative_id s dst")
  case None
  then show ?thesis
    unfolding handle_copy_sheep_env_def None ok_or_def option.case by (intro on_ok_keeps[OF f]) simp
next
  case (Some i)
  obtain c where c: "intended_spec s i = Some c"
    "\<forall>e parked. map_err InvalidEnv (w_normalize w (c\<lparr> app_env := e \<rparr>)) = Inr parked \<longrightarrow> app_name parked = dst"
    using intended_edit_name[OF f Some] by blast
  have keep: "keeps s (snd (if b then (x, s) else y))" if "keeps s (snd y)" for b x y
    using that keeps_refl[OF f] by simp
  have keep': "keeps s (snd (case o1 of Some z \<Rightarrow> (h z, s) | None \<Rightarrow> y))" if "keeps s (snd y)" for o1 h y
    using that keeps_refl[OF f] by (cases o1) simp_all
  have ok: "ok_or (Some x) e = Inr x" for x e by (simp add: ok_or_def)
  show ?thesis
    unfolding handle_copy_sheep_env_def Some ok on_ok_simps Let_def
    apply (rule on_ok_keeps[OF f], rule on_ok_keeps[OF f], rule on_ok_keeps[OF f], rule on_ok_keeps[OF f])
    unfolding c(1) ok on_ok_simps
    by (rule keep', rule keep, rule on_ok_keeps[OF f], rule keep, rule record_then_park_keeps[OF f c(2)[rule_format]])
qed

lemma overridden_parts:
  "e_id (e\<lparr> e_overridden := ov \<rparr>) = e_id e" "e_pid (e\<lparr> e_overridden := ov \<rparr>) = e_pid e"
  "e_started_at (e\<lparr> e_overridden := ov \<rparr>) = e_started_at e" "e_status (e\<lparr> e_overridden := ov \<rparr>) = e_status e"
  "e_reload (e\<lparr> e_overridden := ov \<rparr>) = e_reload e" "e_spec (e\<lparr> e_overridden := ov \<rparr>) = e_spec e"
  "e_pending (e\<lparr> e_overridden := ov \<rparr>) = e_pending e"
  by simp_all

lemma respecs_then_overridden: "respecs nm f \<Longrightarrow> respecs nm (\<lambda>e. (f e)\<lparr> e_overridden := ov \<rparr>)"
  unfolding respecs_def overridden_parts .

lemma field_written_keeps:
  assumes f: "flock_ok s" and nm: "\<forall>a. next_spec = Some a \<longrightarrow> app_name a = nm" "app_name merged = nm"
  shows "keeps s (snd (field_written w nm key v merged next_spec warning overridden s))"
proof -
  have "respecs nm (load_entry next_spec (if b then Some merged else None))" for b
    using nm by (intro load_entry_respecs) auto
  then have g: "respecs nm (\<lambda>e. (load_entry next_spec (if b then Some merged else None) e)\<lparr> e_overridden := overridden \<rparr>)" for b
    by (rule respecs_then_overridden)
  show ?thesis
    unfolding field_written_def Let_def split_beta snd_conv fst_conv by (rule written_slots_keeps(3)[OF f g])
qed

lemma apply_sheep_field_keeps:
  assumes f: "flock_ok s" and sd: "serde_names (w_serde w)" and key: "key \<noteq> ''name''"
  shows "keeps s (snd (apply_sheep_field w nm key source s))"
proof (cases "representative_id s nm")
  case None
  then show ?thesis using keeps_refl[OF f] by (simp add: apply_sheep_field_def)
next
  case (Some i)
  then obtain sl where sl: "get_slot s i = Some sl" "slot_name sl = nm" by (rule representative_known[OF f])
  define intended where "intended = (case e_pending (sl_entry sl) of None \<Rightarrow> slot_app sl | Some p \<Rightarrow> p)"
  have iname: "app_name intended = nm" using intended_name(1)[OF f sl(1)] sl(2) by (simp add: intended_def)
  have written: "keeps s (snd (case mutate_override w nm g s of (r, s) \<Rightarrow> on_ok r s (\<lambda>ov.
      (case field_written w nm key v merged next_spec warning ov s of (fs, s) \<Rightarrow> (Inr (Some fs), s)))))"
    if "\<forall>a. next_spec = Some a \<longrightarrow> app_name a = nm" "app_name merged = nm" for g v merged next_spec warning
  proof -
    obtain r s1 where m: "mutate_override w nm g s = (r, s1)" by fastforce
    have k: "keeps s s1" using mutate_override_keeps[OF f, of w nm g] m by simp
    show ?thesis
      using m k keeps_trans[OF k field_written_keeps[OF keeps_flock[OF k] that]] by (cases r) (simp_all add: split_beta)
  qed
  have merged: "app_name merged = nm"
    if "to_object (w_serde w) intended = Inr obj"
      "map_err h (and_then (from_object (w_serde w) (obj(key \<mapsto> v))) (w_normalize w)) = Inr merged" for obj h v merged
  proof -
    from that(2) obtain c where c: "from_object (w_serde w) (obj(key \<mapsto> v)) = Inr c" "w_normalize w c = Inr merged"
      by (auto simp: and_then_Inr)
    have "(obj(key \<mapsto> v)) ''name'' = Some (JString nm)" using serde_namesD(1)[OF sd that(1)] key iname by simp
    then have "app_name c = nm" by (rule serde_namesD(2)[OF sd c(1)])
    then show ?thesis using w_normalize_name[OF c(2)] by simp
  qed
  have nxt: "\<forall>a. (case reached_spec (w_serde w) (w_normalize w) (slot_app sl) merged (if b then [key] else []) n of
      Inl _ \<Rightarrow> None | Inr a \<Rightarrow> Some a) = Some a \<longrightarrow> app_name a = nm" for merged b n
    using reached_spec_name[OF sd, of w "slot_app sl" merged "if b then [key] else []" n] key sl(2)
    by (auto split: sum.splits)
  show ?thesis
  proof (cases "to_object (w_serde w) intended")
    case (Inl e)
    then show ?thesis
      unfolding apply_sheep_field_def Some sl(1) option.case Let_def intended_def[symmetric] Inl sum.case
      by (intro on_ok_keeps[OF f]) (simp add: keeps_refl[OF f])
  next
    case (Inr obj)
    have keep: "keeps s (snd (if b then (x, s) else y))" if "keeps s (snd y)" for b x y
      using that keeps_refl[OF f] by simp
    show ?thesis
      unfolding apply_sheep_field_def Some sl(1) option.case Let_def intended_def[symmetric] Inr sum.case
      by (rule on_ok_keeps[OF f], rule on_ok_keeps[OF f], rule keep, rule on_ok_keeps[OF f], rule written[OF nxt merged[OF Inr]])
  qed
qed

lemma owned_keys:
  assumes "refuse_unowned_key key = Inr u"
  shows "key \<noteq> ''name''" "key \<noteq> ''instances''" "key \<noteq> ''env''"
proof -
  have "apply_group ''instances'' = Structural" by (simp add: apply_group_def FIELDS_def row_def)
  then show "key \<noteq> ''name''" "key \<noteq> ''instances''" "key \<noteq> ''env''"
    using assms name_structural by (auto simp: refuse_unowned_key_def split: if_splits)
qed

lemma pane_fields_keep:
  assumes f: "flock_ok s" and sd: "serde_names (w_serde w)"
  shows "keeps s (snd (handle_set_sheep_field w nm key v s))" "keeps s (snd (handle_reset_sheep_field w nm key s))"
    "keeps s (snd (handle_set_sheep_dog_settings w nm dog table s))"
proof -
  note a = apply_sheep_field_keeps[OF f sd]
  show "keeps s (snd (handle_set_sheep_field w nm key v s))"
    unfolding handle_set_sheep_field_def write_sheep_field_def by (rule on_ok_keeps[OF f a[OF owned_keys(1)]])
  show "keeps s (snd (handle_reset_sheep_field w nm key s))"
    unfolding handle_reset_sheep_field_def by (rule on_ok_keeps[OF f a[OF owned_keys(1)]])
  have "keeps s (snd (write_sheep_field w nm ''dogs'' v s))" for v unfolding write_sheep_field_def by (rule a) simp
  then show "keeps s (snd (handle_set_sheep_dog_settings w nm dog table s))"
    using keeps_refl[OF f] by (simp add: handle_set_sheep_dog_settings_def Let_def split: option.splits sum.splits)
qed

lemma announce_keeps: "flock_but X s \<Longrightarrow> keeps_but X s (announce_dog_tables s)"
proof -
  assume f: "flock_but X s"
  have e: "keeps_but X s (fold (\<lambda>(dog, nm). effect (DogSettingsChanged dog nm)) cs s)" if "flock_but X s" for cs and s :: actor
    using that
  proof (induction cs arbitrary: s)
    case (Cons c cs)
    have k: "keeps_but X s (case c of (dog, nm) \<Rightarrow> effect (DogSettingsChanged dog nm) s)"
      using quiet_effect_keeps[OF Cons.prems] by (simp add: split_beta)
    show ?case using keeps_trans[OF k Cons.IH[OF keeps_flock[OF k]]] by (simp add: split_beta)
  qed (simp add: keeps_refl)
  have k: "keeps_but X s (s\<lparr> announced := a \<rparr>)" for a using f by (intro frame_keeps) (auto dest: flock_butD)
  show ?thesis
    using keeps_refl[OF f] keeps_trans[OF k e[OF keeps_flock[OF k]]] by (simp add: announce_dog_tables_def Let_def)
qed

end
