(* ===== verification/Log_Files.thy ===== *)
theory Log_Files
  imports Shep_Prelude
begin

text \<open>
  The log files of a sheep (\<open>shep-daemon/src/tokio_runner/log_file.rs\<close>): the buffered handle a pump
  appends lines through, the flush and the reopen it serves, and the truncation of a log
  (\<open>supervisor/logs.rs\<close>).

  A path names a file in a directory and a handle holds the file it was opened on, which a rotator may
  have renamed since. What a handle has accepted and the file does not hold yet, in the buffer or queued
  behind it, is what it owes. How far a write gets is the operating system's to say.
\<close>

subsection \<open>Files and handles\<close>

record LogDisk =
  ld_dir :: "string \<Rightarrow> nat option"
  ld_data :: "nat \<Rightarrow> string"
  ld_next :: nat

record LogFile =
  lf_path :: string
  lf_handle :: "(nat \<times> string) option"
  lf_buffered_since :: "nat option"
  lf_stamped :: bool

text \<open>
  A write that fails may have put a part in the file and may keep a later part for the next attempt;
  what is between is gone.
\<close>

datatype write_outcome = Through nat | WriteFailed string nat nat

fun landed :: "write_outcome \<Rightarrow> string \<Rightarrow> string" where
  "landed (Through n) owed = take n owed"
| "landed (WriteFailed e n k) owed = take n owed"

fun kept :: "write_outcome \<Rightarrow> string \<Rightarrow> string" where
  "kept (Through n) owed = drop n owed"
| "kept (WriteFailed e n k) owed = drop (n + k) owed"

definition land :: "nat \<Rightarrow> string \<Rightarrow> LogDisk \<Rightarrow> LogDisk" where
  "land ino text d = d\<lparr> ld_data := (ld_data d)(ino := ld_data d ino @ text) \<rparr>"

definition log_record :: "string \<Rightarrow> string \<Rightarrow> LogFile \<Rightarrow> string" where
  "log_record stamp line lf = (if lf_stamped lf then stamp else []) @ line @ [CHR 10]"

definition append_line :: "write_outcome \<Rightarrow> string \<Rightarrow> nat \<Rightarrow> string \<Rightarrow> LogFile \<Rightarrow> LogDisk \<Rightarrow> LogFile \<times> LogDisk" where
  "append_line wo stamp now line lf d =
     (case lf_handle lf of
        None \<Rightarrow> (lf, d)
      | Some (ino, owed) \<Rightarrow>
          (let bytes' = owed @ log_record stamp line lf;
               since = (case lf_buffered_since lf of None \<Rightarrow> Some now | Some t \<Rightarrow> Some t)
           in (lf\<lparr> lf_handle := Some (ino, kept wo bytes'), lf_buffered_since := since \<rparr>, land ino (landed wo bytes') d)))"

text \<open>A flush writes out what is owed, and all of it unless a write fails.\<close>

datatype flush_outcome = Flushed | FlushFault string nat nat

fun flush_write :: "flush_outcome \<Rightarrow> string \<Rightarrow> write_outcome" where
  "flush_write Flushed owed = Through (length owed)"
| "flush_write (FlushFault e n k) owed = WriteFailed e n k"

definition flush_handle :: "flush_outcome \<Rightarrow> LogFile \<Rightarrow> LogDisk \<Rightarrow> (string + unit) \<times> LogFile \<times> LogDisk" where
  "flush_handle fo lf d =
     (case lf_handle lf of
        None \<Rightarrow> (Inr (), lf, d)
      | Some (ino, owed) \<Rightarrow>
          (let wo = flush_write fo owed
           in (case fo of Flushed \<Rightarrow> Inr () | FlushFault e n k \<Rightarrow> Inl e,
               lf\<lparr> lf_handle := Some (ino, kept wo owed) \<rparr>, land ino (landed wo owed) d)))"

definition flush_file :: "flush_outcome \<Rightarrow> LogFile \<Rightarrow> LogDisk \<Rightarrow> (string + unit) \<times> LogFile \<times> LogDisk" where
  "flush_file fo lf d =
     (case flush_handle fo (lf\<lparr> lf_buffered_since := None \<rparr>) d of
        (r, lf, d) \<Rightarrow> (map_err (\<lambda>e. lf_path lf @ '': '' @ e) r, lf, d))"

text \<open>\<open>open_append\<close>: refused, or opened, creating the file when the path names none.\<close>

definition open_append :: "(string \<Rightarrow> string option) \<Rightarrow> string \<Rightarrow> LogDisk \<Rightarrow> (string + nat) \<times> LogDisk" where
  "open_append refused path d =
     (case refused path of
        Some e \<Rightarrow> (Inl e, d)
      | None \<Rightarrow>
          (case ld_dir d path of
             Some ino \<Rightarrow> (Inr ino, d)
           | None \<Rightarrow>
               (Inr (ld_next d),
                d\<lparr> ld_dir := (ld_dir d)(path \<mapsto> ld_next d), ld_data := (ld_data d)(ld_next d := []),
                   ld_next := ld_next d + 1 \<rparr>)))"

definition reopen_file ::
  "flush_outcome \<Rightarrow> (string \<Rightarrow> string option) \<Rightarrow> LogFile \<Rightarrow> LogDisk \<Rightarrow> (string + unit) \<times> LogFile \<times> LogDisk" where
  "reopen_file fo refused lf d =
     (case flush_handle fo (lf\<lparr> lf_buffered_since := None \<rparr>) d of
        (_, lf, d) \<Rightarrow>
          (case open_append refused (lf_path lf) d of
             (Inr ino, d) \<Rightarrow> (Inr (), lf\<lparr> lf_handle := Some (ino, []) \<rparr>, d)
           | (Inl e, d) \<Rightarrow> (Inl (lf_path lf @ '': '' @ e), lf\<lparr> lf_handle := None \<rparr>, d)))"

subsection \<open>A pump\<close>

record LogFiles =
  lfs_out :: LogFile
  lfs_err :: LogFile

definition both_failures :: "string + unit \<Rightarrow> string + unit \<Rightarrow> string + unit" where
  "both_failures out_r err_r =
     (let failures = (case out_r of Inl e \<Rightarrow> [e] | Inr _ \<Rightarrow> []) @ (case err_r of Inl e \<Rightarrow> [e] | Inr _ \<Rightarrow> [])
      in if failures = [] then Inr () else Inl (join_with '', '' failures))"

text \<open>\<open>serve\<close>, by request; an outcome is asked for by stream.\<close>

definition serve_flush ::
  "(bool \<Rightarrow> flush_outcome) \<Rightarrow> LogFiles \<Rightarrow> LogDisk \<Rightarrow> (string + unit) \<times> LogFiles \<times> LogDisk" where
  "serve_flush fo lfs d =
     (let (out_r, out_f, d) = flush_file (fo False) (lfs_out lfs) d;
          (err_r, err_f, d) = flush_file (fo True) (lfs_err lfs) d
      in (both_failures out_r err_r, lfs\<lparr> lfs_out := out_f, lfs_err := err_f \<rparr>, d))"

definition serve_reopen ::
  "(bool \<Rightarrow> flush_outcome) \<Rightarrow> (string \<Rightarrow> string option) \<Rightarrow> LogFiles \<Rightarrow> LogDisk \<Rightarrow>
    (string + unit) \<times> LogFiles \<times> LogDisk" where
  "serve_reopen fo refused lfs d =
     (let (out_r, out_f, d) = reopen_file (fo False) refused (lfs_out lfs) d;
          (err_r, err_f, d) = reopen_file (fo True) refused (lfs_err lfs) d
      in (both_failures out_r err_r, lfs\<lparr> lfs_out := out_f, lfs_err := err_f \<rparr>, d))"

subsection \<open>What is in a file and what is owed to it\<close>

definition owes :: "LogFile \<Rightarrow> string" where
  "owes lf = (case lf_handle lf of None \<Rightarrow> [] | Some (ino, owed) \<Rightarrow> owed)"

lemma flush_file_done:
  assumes "flush_file fo lf d = (Inr (), lf', d')"
  shows "owes lf' = []" "lf_path lf' = lf_path lf" "ld_dir d' = ld_dir d"
    "map_option fst (lf_handle lf') = map_option fst (lf_handle lf)"
  using assms by (auto simp: flush_file_def flush_handle_def owes_def land_def map_err_def split: option.splits
      flush_outcome.splits prod.splits)

lemma both_failures_none: "both_failures a b = Inr () \<longleftrightarrow> a = Inr () \<and> b = Inr ()"
  by (auto simp: both_failures_def split: sum.splits)

lemma serve_flush_done:
  assumes "serve_flush fo lfs d = (Inr (), lfs', d')"
  shows "owes (lfs_out lfs') = []" "owes (lfs_err lfs') = []" "ld_dir d' = ld_dir d"
proof -
  obtain ra o' d1 where a: "flush_file (fo False) (lfs_out lfs) d = (ra, o', d1)" by (metis prod_cases3)
  obtain rb e' d2 where b: "flush_file (fo True) (lfs_err lfs) d1 = (rb, e', d2)" by (metis prod_cases3)
  have "ra = Inr ()" "rb = Inr ()" "lfs' = lfs\<lparr> lfs_out := o', lfs_err := e' \<rparr>" "d' = d2"
    using assms a b by (auto simp: serve_flush_def both_failures_none)
  then show "owes (lfs_out lfs') = []" "owes (lfs_err lfs') = []" "ld_dir d' = ld_dir d"
    using flush_file_done[of "fo False" "lfs_out lfs" d o' d1] flush_file_done[of "fo True" "lfs_err lfs" d1 e' d2] a b
    by simp_all
qed

subsection \<open>Lines in order\<close>

datatype log_op = LogLine string nat string nat | LogFlush

fun log_step :: "log_op \<Rightarrow> LogFile \<times> LogDisk \<Rightarrow> LogFile \<times> LogDisk" where
  "log_step (LogLine stamp now line n) (lf, d) = append_line (Through n) stamp now line lf d"
| "log_step LogFlush (lf, d) = snd (flush_file Flushed lf d)"

fun log_text :: "bool \<Rightarrow> log_op \<Rightarrow> string" where
  "log_text stamped (LogLine stamp now line n) = (if stamped then stamp else []) @ line @ [CHR 10]"
| "log_text stamped LogFlush = []"

lemma log_step_kept:
  assumes "log_step op (lf, d) = (lf1, d1)" "lf_handle lf = Some (ino, owed)"
  shows "\<exists>owed1. lf_handle lf1 = Some (ino, owed1) \<and> lf_path lf1 = lf_path lf \<and> lf_stamped lf1 = lf_stamped lf \<and>
    ld_data d1 ino @ owed1 = ld_data d ino @ owed @ log_text (lf_stamped lf) op \<and>
    (\<forall>k. k \<noteq> ino \<longrightarrow> ld_data d1 k = ld_data d k) \<and> ld_dir d1 = ld_dir d \<and> ld_next d1 = ld_next d"
proof (cases op)
  case (LogLine stamp now line n)
  let ?b = "owed @ log_text (lf_stamped lf) op"
  have "lf_handle lf1 = Some (ino, drop n ?b)" "lf_path lf1 = lf_path lf" "lf_stamped lf1 = lf_stamped lf"
    "d1 = land ino (take n ?b) d"
    using assms by (auto simp: LogLine append_line_def log_record_def Let_def)
  moreover have "take n ?b @ drop n ?b = ?b" by (rule append_take_drop_id)
  ultimately show ?thesis by (simp add: land_def del: take_append drop_append)
next
  case LogFlush
  then show ?thesis using assms by (auto simp: flush_file_def flush_handle_def land_def)
qed

lemma log_steps:
  assumes "fold log_step ops (lf, d) = (lf', d')" "lf_handle lf = Some (ino, owed)"
  shows "\<exists>owed'. lf_handle lf' = Some (ino, owed') \<and> lf_path lf' = lf_path lf \<and> lf_stamped lf' = lf_stamped lf \<and>
    ld_data d' ino @ owed' = ld_data d ino @ owed @ concat (map (log_text (lf_stamped lf)) ops) \<and>
    (\<forall>k. k \<noteq> ino \<longrightarrow> ld_data d' k = ld_data d k) \<and> ld_dir d' = ld_dir d \<and> ld_next d' = ld_next d"
  using assms
proof (induction ops arbitrary: lf d owed)
  case (Cons op ops)
  obtain lf1 d1 where s: "log_step op (lf, d) = (lf1, d1)" by fastforce
  obtain owed1 where 1: "lf_handle lf1 = Some (ino, owed1)" "lf_path lf1 = lf_path lf" "lf_stamped lf1 = lf_stamped lf"
    "ld_data d1 ino @ owed1 = ld_data d ino @ owed @ log_text (lf_stamped lf) op"
    "\<forall>k. k \<noteq> ino \<longrightarrow> ld_data d1 k = ld_data d k" "ld_dir d1 = ld_dir d" "ld_next d1 = ld_next d"
    using log_step_kept[OF s Cons.prems(2)] by auto
  have "fold log_step ops (lf1, d1) = (lf', d')" using Cons.prems(1) s by simp
  from Cons.IH[OF this 1(1)] show ?case using 1 by auto
qed auto

text \<open>
  C39. No line of a log is lost or reordered while writes succeed, rotations included. However the
  appends are buffered and flushed, the file followed by what is still owed to it is what it held
  before followed by every line, in order; and a reopen, which leaves a rotated file behind, first
  writes out everything owed to it.
\<close>

theorem log_lines_land_in_order:
  assumes "lf_handle lf = Some (ino, [])" "fold log_step ops (lf, d) = (lf1, d1)" "ino < ld_next d"
    and "reopen_file Flushed refused lf1 d1 = (r, lf2, d2)"
  shows "ld_data d1 ino @ owes lf1 = ld_data d ino @ concat (map (log_text (lf_stamped lf)) ops)
    \<and> ld_data d2 ino = ld_data d ino @ concat (map (log_text (lf_stamped lf)) ops) \<and> owes lf2 = []
    \<and> (r = Inr () \<longleftrightarrow> refused (lf_path lf) = None) \<and> (r = Inr () \<longrightarrow> map_option fst (lf_handle lf2) = ld_dir d2 (lf_path lf))"
proof -
  obtain owed where o: "lf_handle lf1 = Some (ino, owed)" "lf_path lf1 = lf_path lf"
    "ld_data d1 ino @ owed = ld_data d ino @ concat (map (log_text (lf_stamped lf)) ops)" "ld_next d1 = ld_next d"
    using log_steps[OF assms(2,1)] by auto
  have "ld_data d2 ino = ld_data d1 ino @ owed \<and> owes lf2 = [] \<and> (r = Inr () \<longleftrightarrow> refused (lf_path lf) = None)
      \<and> (r = Inr () \<longrightarrow> map_option fst (lf_handle lf2) = ld_dir d2 (lf_path lf))"
    using assms(3,4) o(1,2,4)
    by (auto simp: reopen_file_def flush_handle_def land_def open_append_def owes_def Let_def split: option.splits)
  then show ?thesis using o by (auto simp: owes_def)
qed

theorem log_lines_land_in_order_witness:
  "\<exists>lf2 d2. reopen_file Flushed (\<lambda>_. None) \<lparr> lf_path = ''l'', lf_handle = Some (0, ''b'' @ [CHR 10]), lf_buffered_since = Some 5, lf_stamped = False \<rparr>
      \<lparr> ld_dir = Map.empty, ld_data = (\<lambda>_. [])(0 := ''a'' @ [CHR 10]), ld_next = 1 \<rparr> = (Inr (), lf2, d2)
    \<and> ld_data d2 0 = ''a'' @ [CHR 10] @ ''b'' @ [CHR 10] \<and> lf_handle lf2 = Some (1, [])"
proof -
  let ?lf = "\<lparr> lf_path = ''l'', lf_handle = Some (0, []), lf_buffered_since = None, lf_stamped = False \<rparr>"
  let ?d = "\<lparr> ld_dir = Map.empty, ld_data = (\<lambda>_. []), ld_next = 1 \<rparr>"
  let ?ops = "[LogLine [] 5 ''a'' 0, LogFlush, LogLine [] 5 ''b'' 0]"
  obtain lf1 d1 where f: "fold log_step ?ops (?lf, ?d) = (lf1, d1)" by fastforce
  then have 1: "lf1 = ?lf\<lparr> lf_handle := Some (0, ''b'' @ [CHR 10]), lf_buffered_since := Some 5 \<rparr>"
    "d1 = ?d\<lparr> ld_data := (\<lambda>_. [])(0 := ''a'' @ [CHR 10]) \<rparr>"
    by (auto simp: append_line_def log_record_def land_def flush_file_def flush_handle_def)
  obtain r lf2 d2 where r: "reopen_file Flushed (\<lambda>_. None) lf1 d1 = (r, lf2, d2)" by (metis prod_cases3)
  have "ld_data d2 0 = ''a'' @ [CHR 10] @ ''b'' @ [CHR 10] \<and> r = Inr () \<and> map_option fst (lf_handle lf2) = ld_dir d2 ''l'' \<and> owes lf2 = []"
    using log_lines_land_in_order[OF _ f _ r] by simp
  moreover have "ld_dir d2 ''l'' = Some 1"
    using r by (auto simp: 1 reopen_file_def flush_handle_def open_append_def land_def)
  ultimately show ?thesis using r by (auto simp: 1 owes_def split: option.splits)
qed

end
