(* ===== verification/Talking.thy ===== *)
theory Talking
  imports Starting_Flock Log_Files
begin

text \<open>
  Talking to running sheep: triggered actions, signals, lines to stdin and terminals
  (\<open>supervisor/actor_actions.rs\<close>, \<open>actor_pty.rs\<close>), the two log verbs and the fitness question
  (\<open>actor_exit.rs\<close>), and the tasks that collect their answers off the loop
  (\<open>supervisor/tasks.rs\<close>, \<open>logs.rs\<close>).

  A handler does what it does in its turn and hands the rest to a task, which appears in the
  trace with everything it was given. A task is a function of what it was given and of what
  each of its waits came to. Sheep are visited in id order.
\<close>

subsection \<open>What is reachable\<close>

definition open_channel :: "world \<Rightarrow> SheepSlot \<Rightarrow> bool" where
  "open_channel w sl \<longleftrightarrow> sl_to_child sl \<and> \<not> w_channel_closed w (e_id (sl_entry sl))"

definition open_stdin :: "world \<Rightarrow> SheepSlot \<Rightarrow> bool" where
  "open_stdin w sl \<longleftrightarrow> sl_to_stdin sl \<and> \<not> w_stdin_closed w (e_id (sl_entry sl))"

definition open_pty :: "world \<Rightarrow> SheepSlot \<Rightarrow> bool" where
  "open_pty w sl \<longleftrightarrow> sl_pty sl \<and> \<not> w_pty_closed w (e_id (sl_entry sl))"

subsection \<open>Actions\<close>

definition arm_action ::
  "nat \<Rightarrow> string \<Rightarrow> string option \<Rightarrow> string option \<Rightarrow> duration \<Rightarrow> actor \<Rightarrow> nat \<times> actor" where
  "arm_action i action params from timeout s =
     (let stamp = next_action_stamp s;
          s = s\<lparr> next_action_stamp := stamp + 1 \<rparr>;
          s = effect (ActionTask i stamp (ShAction action params from (of_nat stamp)) timeout) s;
          s = expect_slot i s
      in (stamp, upd_slot i (\<lambda>sl. sl\<lparr> sl_actions :=
           arm \<lparr> pa_stamp = stamp, pa_action = action, pa_waiter = True \<rparr> (sl_actions sl) \<rparr>) s))"

text \<open>Why a sheep is refused an action, if it is.\<close>

definition refuse_action :: "world \<Rightarrow> SheepSlot \<Rightarrow> ActionOutcome option" where
  "refuse_action w sl =
     (if wears_drainee sl then Some Skipped
      else if open_channel w sl then None
      else Some (if e_dog (sl_entry sl) \<noteq> None \<and> \<not> app_channel (slot_app sl) then DogNoChannel else NoChannel))"

fun action_loop ::
  "world \<Rightarrow> string \<Rightarrow> string option \<Rightarrow> string option \<Rightarrow> nat list \<Rightarrow> ActionReply list \<Rightarrow>
    (nat \<times> string \<times> nat) list \<Rightarrow> actor \<Rightarrow> ActionReply list \<times> (nat \<times> string \<times> nat) list \<times> actor" where
  "action_loop w action params from [] refused waits s = (refused, waits, s)"
| "action_loop w action params from (i # ids) refused waits s =
     (case get_slot s i of
        None \<Rightarrow> (refused, waits, panic s)
      | Some sl \<Rightarrow>
          (case refuse_action w sl of
             Some oc \<Rightarrow>
               action_loop w action params from ids
                 (refused @ [\<lparr> row_id = i, row_name = slot_name sl, row_outcome = oc \<rparr>]) waits s
           | None \<Rightarrow>
               (let (stamp, s) = arm_action i action params from (as_duration (app_action_timeout (slot_app sl))) s
                in action_loop w action params from ids refused (waits @ [(i, slot_name sl, stamp)]) s)))"

definition begin_action ::
  "world \<Rightarrow> ProcessSelector \<Rightarrow> string \<Rightarrow> string option \<Rightarrow> string option \<Rightarrow> caller \<Rightarrow> actor \<Rightarrow> actor" where
  "begin_action w sel action params from c s =
     (let matched = matching_ids s sel in
      if matched = [] then effect (Reply c (TriggerBody (Inl NotFound))) s
      else
        (let (refused, waits, s) = action_loop w action params from matched [] [] s
         in if waits = [] then effect (Reply c (TriggerBody (Inr refused))) s
            else effect (TriggerTask refused waits c) s))"

text \<open>
  The task of one action: what came of sending it and waiting for the body, within the deadline.
\<close>

definition action_task :: "string option option \<Rightarrow> ActionOutcome" where
  "action_task delivered =
     (case delivered of
        Some (Some body) \<Rightarrow> Replied body
      | Some None \<Rightarrow> NoChannel
      | None \<Rightarrow> ActionTimedOut)"

definition by_name_and_id :: "'o OutcomeRow list \<Rightarrow> 'o OutcomeRow list" where
  "by_name_and_id rows = sort_key (\<lambda>r. (row_name r, row_id r)) rows"

text \<open>The task of a trigger: \<open>got\<close> is what arrived for a stamp, \<open>None\<close> where its sender was dropped.\<close>

definition trigger_task ::
  "ActionReply list \<Rightarrow> (nat \<times> string \<times> nat) list \<Rightarrow> (nat \<Rightarrow> ActionOutcome option) \<Rightarrow> ActionReply list" where
  "trigger_task rows waits got =
     by_name_and_id (rows @ map (\<lambda>(i, nm, stamp).
       \<lparr> row_id = i, row_name = nm, row_outcome = (case got stamp of Some oc \<Rightarrow> oc | None \<Rightarrow> NoChannel) \<rparr>) waits)"

subsection \<open>Signals\<close>

fun signal_loop ::
  "world \<Rightarrow> OperatorSignal \<Rightarrow> nat list \<Rightarrow> SignalReply list \<Rightarrow> (nat \<times> string) list \<Rightarrow> actor \<Rightarrow>
    SignalReply list \<times> (nat \<times> string) list \<times> actor" where
  "signal_loop w sig [] done_rows waits s = (done_rows, waits, s)"
| "signal_loop w sig (i # ids) done_rows waits s =
     (case get_slot s i of
        None \<Rightarrow> (done_rows, waits, panic s)
      | Some sl \<Rightarrow>
          if sl_signals sl \<and> w_try_signal w i = Queued
          then signal_loop w sig ids done_rows (waits @ [(i, slot_name sl)]) (effect (SendSignal i sig) s)
          else signal_loop w sig ids
                 (done_rows @ [\<lparr> row_id = i, row_name = slot_name sl, row_outcome = NotRunning \<rparr>]) waits s)"

definition begin_signal :: "world \<Rightarrow> ProcessSelector \<Rightarrow> OperatorSignal \<Rightarrow> caller \<Rightarrow> actor \<Rightarrow> actor" where
  "begin_signal w sel sig c s =
     (let matched = matching_ids s sel in
      if matched = [] then effect (Reply c (SignalBody (Inl NotFound))) s
      else
        (let (done_rows, waits, s) = signal_loop w sig matched [] [] s
         in effect (SignalTask done_rows waits c) s))"

text \<open>What the sheep's task said of a delivery; \<open>None\<close> where it ended first.\<close>

definition signal_task ::
  "SignalReply list \<Rightarrow> (nat \<times> string) list \<Rightarrow> (nat \<Rightarrow> (string + unit) option) \<Rightarrow> SignalReply list" where
  "signal_task rows waits got =
     by_name_and_id (rows @ map (\<lambda>(i, nm).
       \<lparr> row_id = i, row_name = nm, row_outcome = (case got i of
           Some (Inr _) \<Rightarrow> Delivered
         | Some (Inl err) \<Rightarrow> SignalFailed err
         | None \<Rightarrow> NotRunning) \<rparr>) waits)"

definition tell_lamb_signalled :: "world \<Rightarrow> nat \<Rightarrow> nat \<Rightarrow> u32 \<Rightarrow> OperatorSignal \<Rightarrow> actor \<Rightarrow> bool \<times> actor" where
  "tell_lamb_signalled w i root pid sig s =
     (case get_slot s i of
        None \<Rightarrow> (False, s)
      | Some sl \<Rightarrow>
          if e_pid (sl_entry sl) = Some root \<and> open_channel w sl \<and> w_try_child w i = Queued
          then (True, effect (SendChild i (ShLambSignalled pid (operator_signal_as_str sig))) s)
          else (False, s))"

subsection \<open>Lines to stdin\<close>

definition STDIN_WRITE_TIMEOUT :: duration where
  "STDIN_WRITE_TIMEOUT = 2 * 1000000000"

definition queue_full_reason :: string where
  "queue_full_reason =
     ''the app is not reading its stdin (its queue was already full when this line arrived)''"

fun send_line_loop ::
  "world \<Rightarrow> string \<Rightarrow> nat list \<Rightarrow> LineReply list \<Rightarrow> (nat \<times> string) list \<Rightarrow> actor \<Rightarrow>
    LineReply list \<times> (nat \<times> string) list \<times> actor" where
  "send_line_loop w line [] done_rows waits s = (done_rows, waits, s)"
| "send_line_loop w line (i # ids) done_rows waits s =
     (case get_slot s i of
        None \<Rightarrow> (done_rows, waits, panic s)
      | Some sl \<Rightarrow>
          (let settle = (\<lambda>oc. send_line_loop w line ids
                 (done_rows @ [\<lparr> row_id = i, row_name = slot_name sl, row_outcome = oc \<rparr>]) waits s)
           in if \<not> open_stdin w sl then settle NoStdin
              else case w_try_stdin w i of
                Queued \<Rightarrow>
                  send_line_loop w line ids done_rows (waits @ [(i, slot_name sl)]) (effect (SendStdin i line) s)
              | QueueFull \<Rightarrow> settle (NotWritten queue_full_reason)
              | QueueClosed \<Rightarrow> settle NoStdin))"

definition begin_send_line :: "world \<Rightarrow> ProcessSelector \<Rightarrow> string \<Rightarrow> caller \<Rightarrow> actor \<Rightarrow> actor" where
  "begin_send_line w sel line c s =
     (let matched = matching_ids s sel in
      if matched = [] then effect (Reply c (LineBody (Inl NotFound))) s
      else
        (let (done_rows, waits, s) = send_line_loop w line matched [] [] s
         in effect (SendLineTask done_rows waits c) s))"

text \<open>What a wait under a bound comes to: an acknowledgement, a dropped sender, or the bound.\<close>

datatype 'a bounded = Acked 'a | AckDropped | AckElapsed

definition as_secs :: "duration \<Rightarrow> nat" where
  "as_secs d = d div 1000000000"

definition send_line_task ::
  "LineReply list \<Rightarrow> (nat \<times> string) list \<Rightarrow> (nat \<Rightarrow> (string + unit) bounded) \<Rightarrow> LineReply list" where
  "send_line_task done_rows waits got =
     by_name_and_id (done_rows @ map (\<lambda>(i, nm).
       \<lparr> row_id = i, row_name = nm, row_outcome = (case got i of
           Acked (Inr _) \<Rightarrow> LineSent
         | Acked (Inl err) \<Rightarrow> NotWritten err
         | AckDropped \<Rightarrow> NoStdin
         | AckElapsed \<Rightarrow> NotWritten (''the app did not read its stdin within '' @
               show_nat (as_secs STDIN_WRITE_TIMEOUT) @ ''s; this line may still land if it drains'')) \<rparr>) waits)"

subsection \<open>Terminals\<close>

definition open_pty_of :: "world \<Rightarrow> actor \<Rightarrow> string \<Rightarrow> SupervisorError + nat" where
  "open_pty_of w s nm =
     (let ids = matching_ids s (Name nm) in
      if ids = [] then Inl (NoSuchSheep nm)
      else case find (\<lambda>i. case get_slot s i of None \<Rightarrow> False | Some sl \<Rightarrow> open_pty w sl) ids of
        Some i \<Rightarrow> Inr i
      | None \<Rightarrow> Inl (NoPty nm))"

definition begin_pty :: "world \<Rightarrow> string \<Rightarrow> PtyAsk \<Rightarrow> caller \<Rightarrow> actor \<Rightarrow> actor" where
  "begin_pty w nm ask c s =
     (case open_pty_of w s nm of
        Inl err \<Rightarrow> effect (Reply c (PtyBody (Inl err))) s
      | Inr i \<Rightarrow> effect (PtyTask i nm ask c) s)"

datatype PtyError = PtyGone | PtyOsFailed string

definition pty_answer :: "nat \<Rightarrow> string \<Rightarrow> (PtyError + unit) option \<Rightarrow> SupervisorError + nat" where
  "pty_answer i nm asked =
     (case asked of
        Some (Inr _) \<Rightarrow> Inr i
      | Some (Inl PtyGone) \<Rightarrow> Inl (NoPty nm)
      | Some (Inl (PtyOsFailed msg)) \<Rightarrow> Inl (PtyFailed msg)
      | None \<Rightarrow> Inl (PtyFailed (''sheep '' @ nm @ '' did not take the write within '' @
            show_nat (as_secs STDIN_WRITE_TIMEOUT) @ ''s'')))"

subsection \<open>Logs\<close>

text \<open>
  Paths are compared by their components (\<open>std::path::Components\<close> on Unix): the root, a leading
  \<open>.\<close>, \<open>..\<close> and names, in this order.
\<close>

definition path_component :: "string \<Rightarrow> nat \<times> string" where
  "path_component c = (if c = ''..'' then (3, []) else (4, c))"

definition path_key :: "string \<Rightarrow> (nat \<times> string) list" where
  "path_key p =
     (let parts = split_on (CHR ''/'') p;
          rest = map path_component (filter (\<lambda>c. c \<noteq> [] \<and> c \<noteq> ''.'') parts)
      in if strip_prefix ''/'' p \<noteq> None then (1, []) # rest
         else if hd parts = ''.'' then (2, []) # rest
         else rest)"

text \<open>A \<open>BTreeSet\<close> of paths: by key, the first inserted of equal ones kept.\<close>

fun insert_path :: "string \<Rightarrow> string list \<Rightarrow> string list" where
  "insert_path p [] = [p]"
| "insert_path p (q # qs) =
     (if path_key p = path_key q then q # qs
      else if path_key p < path_key q then p # q # qs
      else q # insert_path p qs)"

definition paths_of :: "string list \<Rightarrow> string list" where
  "paths_of ps = fold insert_path ps []"

definition has_path :: "string list \<Rightarrow> string \<Rightarrow> bool" where
  "has_path paths p \<longleftrightarrow> list_ex (\<lambda>q. path_key q = path_key p) paths"

definition log_files :: "SheepSlot \<Rightarrow> string list" where
  "log_files sl = [e_out_file (sl_entry sl), e_err_file (sl_entry sl)]"

definition resolve_selector :: "world \<Rightarrow> ProcessSelector \<Rightarrow> actor \<Rightarrow> SupervisorError + ProcessInfo list \<times> string list" where
  "resolve_selector w sel s =
     (let slots = List.map_filter (get_slot s) (reached_ids s sel SwAny);
          matched = map (\<lambda>sl. to_info (w_now w) (sl_entry sl) (smits s)) slots;
          paths = paths_of (concat (map log_files slots))
      in if matched = [] then Inl NotFound else Inr (matched, paths))"

definition pumps_for_paths :: "actor \<Rightarrow> string list \<Rightarrow> nat list" where
  "pumps_for_paths s paths =
     sort (map fst (filter (\<lambda>(i, sl).
       (has_path paths (e_out_file (sl_entry sl)) \<or> has_path paths (e_err_file (sl_entry sl))) \<and> sl_log_ctl sl)
       (sheep s)))"

definition handle_reopen :: "world \<Rightarrow> ProcessSelector \<Rightarrow> caller \<Rightarrow> actor \<Rightarrow> actor" where
  "handle_reopen w sel c s =
     (case resolve_selector w sel s of
        Inl err \<Rightarrow> effect (Reply c (Infos (Inl err))) s
      | Inr (matched, paths) \<Rightarrow>
          (let pumps = List.map_filter (\<lambda>i. map_option (\<lambda>sl. (i, to_info (w_now w) (sl_entry sl) (smits s)))
                 (get_slot s i)) (pumps_for_paths s paths)
           in effect (ReopenTask (sort_flock matched) pumps c) s))"

definition handle_flush :: "world \<Rightarrow> ProcessSelector \<Rightarrow> caller \<Rightarrow> actor \<Rightarrow> actor" where
  "handle_flush w sel c s =
     (case resolve_selector w sel s of
        Inl err \<Rightarrow> effect (Reply c (Infos (Inl err))) s
      | Inr (matched, paths) \<Rightarrow> effect (FlushTask (sort_flock matched) (pumps_for_paths s paths) paths c) s)"

text \<open>
  The tasks of a reopen and a flush (\<open>logs.rs\<close>). They visit the pumps one after another: a pump that
  is gone has nothing to write. What the file system answers is by pump and stream, or by path.
\<close>

type_synonym log_pumps = "nat \<Rightarrow> LogFiles option"

record log_io =
  io_flush :: "nat \<Rightarrow> bool \<Rightarrow> flush_outcome"
  io_refused :: "string \<Rightarrow> string option"
  io_ancestry :: "string \<Rightarrow> string option"
  io_truncate :: "string \<Rightarrow> string option"

definition reopen_logs :: "log_io \<Rightarrow> nat \<Rightarrow> log_pumps \<times> LogDisk \<Rightarrow> (string + unit) \<times> log_pumps \<times> LogDisk" where
  "reopen_logs io i = (\<lambda>(pumps, d).
     case pumps i of
       None \<Rightarrow> (Inr (), pumps, d)
     | Some lfs \<Rightarrow> (case serve_reopen (io_flush io i) (io_refused io) lfs d of (r, lfs, d) \<Rightarrow> (r, pumps(i \<mapsto> lfs), d)))"

definition flush_logs :: "log_io \<Rightarrow> nat \<Rightarrow> log_pumps \<times> LogDisk \<Rightarrow> (string + unit) \<times> log_pumps \<times> LogDisk" where
  "flush_logs io i = (\<lambda>(pumps, d).
     case pumps i of
       None \<Rightarrow> (Inr (), pumps, d)
     | Some lfs \<Rightarrow> (case serve_flush (io_flush io i) lfs d of (r, lfs, d) \<Rightarrow> (r, pumps(i \<mapsto> lfs), d)))"

definition truncate_log :: "log_io \<Rightarrow> string \<Rightarrow> LogDisk \<Rightarrow> (string + unit) \<times> LogDisk" where
  "truncate_log io path d =
     (case io_ancestry io path of
        Some e \<Rightarrow> (Inl (path @ '': '' @ e), d)
      | None \<Rightarrow>
          (case io_truncate io path of
             Some e \<Rightarrow> (Inl (path @ '': '' @ e), d)
           | None \<Rightarrow>
               (case ld_dir d path of
                  None \<Rightarrow> (Inr (), d)
                | Some ino \<Rightarrow> (Inr (), d\<lparr> ld_data := (ld_data d)(ino := []) \<rparr>))))"

fun visit_each :: "('a \<Rightarrow> 's \<Rightarrow> (string + unit) \<times> 's) \<Rightarrow> 'a list \<Rightarrow> string list \<Rightarrow> 's \<Rightarrow> string list \<times> 's" where
  "visit_each f [] failures s = (failures, s)"
| "visit_each f (x # xs) failures s =
     (case f x s of
        (Inl e, s) \<Rightarrow> visit_each f xs (failures @ [e]) s
      | (Inr _, s) \<Rightarrow> visit_each f xs failures s)"

definition reopen_task ::
  "log_io \<Rightarrow> ProcessInfo list \<Rightarrow> (nat \<times> ProcessInfo) list \<Rightarrow> log_pumps \<times> LogDisk \<Rightarrow>
    (SupervisorError + ProcessInfo list) \<times> log_pumps \<times> LogDisk" where
  "reopen_task io matched pumps s =
     (let (failures, s) = visit_each (\<lambda>(i, info) s. case reopen_logs io i s of
            (r, s) \<Rightarrow> (map_err (\<lambda>e. i_name info @ '' (id '' @ show_nat (i_id info) @ ''): '' @ e) r, s)) pumps [] s
      in (if failures = [] then Inr matched else Inl (ReopenFailed (join_with ''; '' failures)), s))"

definition flush_task ::
  "log_io \<Rightarrow> ProcessInfo list \<Rightarrow> nat list \<Rightarrow> string list \<Rightarrow> log_pumps \<times> LogDisk \<Rightarrow>
    (SupervisorError + ProcessInfo list) \<times> log_pumps \<times> LogDisk" where
  "flush_task io matched ids paths s =
     (let (failures, pumps, d) = visit_each (flush_logs io) ids [] s;
          (failures, d) = visit_each (truncate_log io) paths failures d
      in (if failures = [] then Inr matched else Inl (FlushFailed (join_with ''; '' failures)), pumps, d))"

subsection \<open>Reading the flock\<close>

definition working_dirs :: "actor \<Rightarrow> (nat \<times> string) list" where
  "working_dirs s =
     List.map_filter (\<lambda>(i, sl). map_option (Pair (e_id (sl_entry sl))) (app_cwd (slot_app sl))) (sheep s)"

text \<open>
  Whether the flock could be handed to a successor (\<open>handover/fitness.rs\<close>). A candidate is its
  entry and whether its pump missed the deadline.
\<close>

definition pump_unresponsive_text :: "string \<Rightarrow> string" where
  "pump_unresponsive_text nm =
     ''sheep '' @ [CHR 39] @ nm @ [CHR 39] @ '' has a log pump that did not report its descriptors in '' @
     ''time; reload falls back to a stop-and-start instead''"

definition refusal :: "ProcessEntry \<times> bool \<Rightarrow> string option" where
  "refusal cand = (case cand of (en, unresponsive) \<Rightarrow>
     if unresponsive then Some (pump_unresponsive_text (app_name (e_spec en))) else None)"

fun fitness :: "(ProcessEntry \<times> bool) list \<Rightarrow> Fitness" where
  "fitness [] = Carryable"
| "fitness (cand # cands) = (case refusal cand of Some reason \<Rightarrow> RefusedFor reason | None \<Rightarrow> fitness cands)"

definition handle_handover_fitness :: "caller \<Rightarrow> actor \<Rightarrow> actor" where
  "handle_handover_fitness c s =
     effect (Reply c (FitnessBody (Inr (fitness (map (\<lambda>(i, sl). (sl_entry sl, False))
       (sort_key (\<lambda>(i, sl). e_id (sl_entry sl)) (sheep s))))))) s"

subsection \<open>Arming keeps the flock in order\<close>

lemma arm_action_eq:
  assumes "get_slot s i = Some sl"
  shows "arm_action i a p f d s = (next_action_stamp s,
     upd_slot i (\<lambda>sl. sl\<lparr> sl_actions := arm \<lparr> pa_stamp = next_action_stamp s, pa_action = a, pa_waiter = True \<rparr> (sl_actions sl) \<rparr>)
       (effect (ActionTask i (next_action_stamp s) (ShAction a p f (of_nat (next_action_stamp s))) d)
         (s\<lparr> next_action_stamp := next_action_stamp s + 1 \<rparr>)))"
  using assms by (simp add: arm_action_def Let_def expect_slot_def)

lemma arm_slot_fit:
  assumes "slot_fit X n st i sl"
  shows "slot_fit X n (Suc st) i sl"
    and "slot_fit X n (Suc st) i (sl\<lparr> sl_actions := arm \<lparr> pa_stamp = st, pa_action = a, pa_waiter = v \<rparr> (sl_actions sl) \<rparr>)"
  using assms waits_ok_mono[of st "sl_actions sl" "Suc st"] waits_ok_arm[of st "sl_actions sl" a v]
  by (auto simp: slot_fit_def slot_ok_def slot_base_def parked_ok_def at_rest_def in_service_def
      resting_status_def wears_drainee_def)

lemma arm_action_keeps:
  assumes f: "flock_but X s" and sl: "get_slot s i = Some sl" and e: "arm_action i a p fr d s = (st, s')"
  shows "keeps_but X s s'"
proof -
  let ?f = "\<lambda>sl. sl\<lparr> sl_actions := arm \<lparr> pa_stamp = next_action_stamp s, pa_action = a, pa_waiter = True \<rparr> (sl_actions sl) \<rparr>"
  have s': "s' = upd_slot i ?f (effect (ActionTask i (next_action_stamp s) (ShAction a p fr (of_nat (next_action_stamp s))) d)
         (s\<lparr> next_action_stamp := next_action_stamp s + 1 \<rparr>))"
    using trans[OF e[symmetric] arm_action_eq[OF sl]] unfolding prod.inject by (rule conjunct2)
  have g: "get_slot s' k = (if k = i then map_option ?f (get_slot s k) else get_slot s k)" for k
    unfolding s' by simp
  have fit: "slot_fit X (next_id s') (next_action_stamp s') k sl'" if k: "get_slot s' k = Some sl'" for k sl'
  proof -
    obtain sl0 where sl0: "get_slot s k = Some sl0" "sl' = sl0 \<or> sl' = ?f sl0"
      using k g[of k] by (auto split: if_splits)
    show ?thesis
      using arm_slot_fit[OF flock_butD(1)[OF f sl0(1)]] sl0(2) by (auto simp: s')
  qed
  have al: "alike sl (?f sl)" for sl by (rule alike_entry) simp_all
  have "touch i (s\<lparr> next_action_stamp := next_action_stamp s + 1 \<rparr>) s'"
    unfolding s' by (rule touch_trans[OF _ touch_upd_slot[OF al]]) (rule touch_simps, simp)
  from touch_jobs_ok[OF this] have j: "jobs_ok s'" using flock_butD(3)[OF f] by simp
  have b: "balance k s' = balance k s" for k
    using g[of k] by (simp add: balance_def running_def s' split: option.splits)
  have c: "claimed s' k = claimed s k" for k
    using g[of k] by (simp add: claimed_def split: option.splits)
  have "flock_but X s'"
    using fit j flock_butD(2)[OF f] by (simp add: flock_but_def s')
  then show ?thesis using b c by (simp add: keeps_but_def s')
qed

text \<open>
  The selected ids are registered, distinct and in order.
\<close>

lemma reached_ids_registered:
  assumes "keys_ok s"
  shows "distinct (reached_ids s sel sw)" "sorted (reached_ids s sel sw)"
    "i \<in> set (reached_ids s sel sw) \<Longrightarrow> \<exists>sl. get_slot s i = Some sl"
proof -
  have d: "distinct (map fst (sheep s))" using assms by (simp add: keys_ok_def)
  then show "distinct (reached_ids s sel sw)"
    by (simp add: reached_ids_def distinct_map_filter)
  show "sorted (reached_ids s sel sw)" by (simp add: reached_ids_def)
  show "\<exists>sl. get_slot s i = Some sl" if "i \<in> set (reached_ids s sel sw)"
    using that by (auto simp: reached_ids_def get_slot_def weak_map_of_SomeI)
qed

lemma refuse_action_actions [simp]: "refuse_action w (sl\<lparr> sl_actions := v \<rparr>) = refuse_action w sl"
  by (simp add: refuse_action_def wears_drainee_def open_channel_def)

text \<open>What is refused, who is sent the action and under which stamps.\<close>

definition refused_rows :: "world \<Rightarrow> actor \<Rightarrow> nat list \<Rightarrow> ActionReply list" where
  "refused_rows w s ids =
     List.map_filter (\<lambda>i. case get_slot s i of
        None \<Rightarrow> None
      | Some sl \<Rightarrow> map_option (\<lambda>oc. \<lparr> row_id = i, row_name = slot_name sl, row_outcome = oc \<rparr>) (refuse_action w sl)) ids"

definition takers :: "world \<Rightarrow> actor \<Rightarrow> nat list \<Rightarrow> nat list" where
  "takers w s ids = filter (\<lambda>i. case get_slot s i of None \<Rightarrow> False | Some sl \<Rightarrow> refuse_action w sl = None) ids"

definition name_of :: "actor \<Rightarrow> nat \<Rightarrow> string" where
  "name_of s i = (case get_slot s i of None \<Rightarrow> [] | Some sl \<Rightarrow> slot_name sl)"

definition stamped :: "actor \<Rightarrow> nat \<Rightarrow> nat list \<Rightarrow> (nat \<times> string \<times> nat) list" where
  "stamped s n ids = map (\<lambda>(k, i). (i, name_of s i, k)) (enumerate n ids)"

definition action_effect :: "actor \<Rightarrow> string \<Rightarrow> string option \<Rightarrow> string option \<Rightarrow> nat \<times> string \<times> nat \<Rightarrow> effect" where
  "action_effect s a p f wt = (case wt of (i, nm, st) \<Rightarrow>
     ActionTask i st (ShAction a p f (of_nat st))
       (case get_slot s i of None \<Rightarrow> 0 | Some sl \<Rightarrow> as_duration (app_action_timeout (slot_app sl))))"

lemma armed_frame:
  assumes "get_slot s i = Some sl" "arm_action i a p f d s = (st, s')"
  shows "st = next_action_stamp s" "next_action_stamp s' = Suc st"
    "out s' = out s @ [ActionTask i st (ShAction a p f (of_nat st)) d]"
    "get_slot s' k = (if k = i then Some (sl\<lparr> sl_actions := send_action a st (sl_actions sl) \<rparr>) else get_slot s k)"
  using assms arm_action_eq[OF assms(1), of a p f d] by (auto simp: effect_def)

lemma armed_same:
  assumes "get_slot s i = Some sl" "arm_action i a p f d s = (st, s')"
  shows "i \<notin> set ids \<Longrightarrow> refused_rows w s' ids = refused_rows w s ids"
    "i \<notin> set ids \<Longrightarrow> takers w s' ids = takers w s ids"
    "stamped s' n ids = stamped s n ids" "action_effect s' b q g wt = action_effect s b q g wt"
proof -
  note g = armed_frame(4)[OF assms]
  show "i \<notin> set ids \<Longrightarrow> refused_rows w s' ids = refused_rows w s ids"
    by (auto simp: refused_rows_def List.map_filter_def g intro!: map_cong filter_cong)
  show "i \<notin> set ids \<Longrightarrow> takers w s' ids = takers w s ids"
    by (auto simp: takers_def g intro!: filter_cong)
  have "name_of s' k = name_of s k" for k using assms(1) by (simp add: name_of_def g)
  then show "stamped s' n ids = stamped s n ids" by (simp add: stamped_def)
  show "action_effect s' b q g wt = action_effect s b q g wt"
    using assms(1) by (cases wt) (simp add: action_effect_def g)
qed

lemma stamped_fields:
  "map fst (stamped s n ids) = ids" "map (snd \<circ> snd) (stamped s n ids) = [n ..< n + length ids]"
proof -
  have "map snd (enumerate n ids) = ids" "map fst (enumerate n ids) = [n ..< n + length ids]"
    by simp_all
  then show "map fst (stamped s n ids) = ids" "map (snd \<circ> snd) (stamped s n ids) = [n ..< n + length ids]"
    by (simp_all add: stamped_def split_beta comp_def del: map_snd_enumerate map_fst_enumerate)
qed

lemma stamped_ids: "(i, nm, st) \<in> set (stamped s n ids) \<Longrightarrow> i \<in> set ids"
  using stamped_fields(1)[of s n ids] by (metis fst_conv image_eqI set_map)

lemma action_loop_spec:
  assumes "distinct ids" "\<And>i. i \<in> set ids \<Longrightarrow> \<exists>sl. get_slot s i = Some sl"
    "action_loop w a p f ids r ws s = (r', ws', s')"
  shows "r' = r @ refused_rows w s ids \<and>
     ws' = ws @ stamped s (next_action_stamp s) (takers w s ids) \<and>
     out s' = out s @ map (action_effect s a p f) (stamped s (next_action_stamp s) (takers w s ids)) \<and>
     next_action_stamp s' = next_action_stamp s + length (takers w s ids) \<and>
     (\<forall>k. k \<notin> set (takers w s ids) \<longrightarrow> get_slot s' k = get_slot s k) \<and>
     (\<forall>(k, nm, st) \<in> set (stamped s (next_action_stamp s) (takers w s ids)).
        get_slot s' k = map_option (\<lambda>sl. sl\<lparr> sl_actions := send_action a st (sl_actions sl) \<rparr>) (get_slot s k))"
  using assms
proof (induction ids arbitrary: r ws s)
  case Nil
  then show ?case by (simp add: refused_rows_def takers_def stamped_def)
next
  case (Cons i ids)
  obtain sl where sl: "get_slot s i = Some sl" using Cons.prems(2) by auto
  have i: "i \<notin> set ids" "distinct ids" using Cons.prems(1) by auto
  show ?case
  proof (cases "refuse_action w sl")
    case (Some oc)
    let ?row = "\<lparr> row_id = i, row_name = slot_name sl, row_outcome = oc \<rparr>"
    have "action_loop w a p f ids (r @ [?row]) ws s = (r', ws', s')" using Cons.prems(3) sl Some by simp
    from Cons.IH[OF i(2) _ this] Cons.prems(2) show ?thesis
      using sl Some by (simp add: refused_rows_def takers_def map_filter_simps)
  next
    case None
    let ?d = "as_duration (app_action_timeout (slot_app sl))"
    obtain st s1 where a: "arm_action i a p f ?d s = (st, s1)" by fastforce
    note fr = armed_frame[OF sl a] and same = armed_same[OF sl a]
    have l: "action_loop w a p f ids r (ws @ [(i, slot_name sl, st)]) s1 = (r', ws', s')"
      using Cons.prems(3) sl None a by simp
    have reg: "\<exists>sl. get_slot s1 k = Some sl" if "k \<in> set ids" for k using Cons.prems(2) that fr(4) by auto
    have t: "takers w s (i # ids) = i # takers w s ids" "refused_rows w s (i # ids) = refused_rows w s ids"
      using sl None by (simp_all add: takers_def refused_rows_def map_filter_simps)
    have st: "stamped s (next_action_stamp s) (i # ks) = (i, slot_name sl, st) # stamped s (Suc st) ks" for ks
      using sl fr(1) by (simp add: stamped_def name_of_def)
    have e: "action_effect s a p f (i, nm, n) = ActionTask i n (ShAction a p f (of_nat n)) ?d" for nm n
      using sl by (simp add: action_effect_def)
    have notin: "i \<notin> set (takers w s ids)" "\<And>nm n. (i, nm, n) \<notin> set (stamped s (Suc st) (takers w s ids))"
      using i(1) by (auto simp: takers_def dest: stamped_ids)
    show ?thesis
      using Cons.IH[OF i(2) reg l] notin fr sl
      unfolding t st same(1)[OF i(1)] same(2)[OF i(1)] same(3,4) fr(2)
      by (auto simp: e split_beta)
  qed
qed

lemma action_loop_keeps:
  assumes "flock_but X s" "\<And>i. i \<in> set ids \<Longrightarrow> \<exists>sl. get_slot s i = Some sl"
    "action_loop w a p f ids r ws s = (r', ws', s')"
  shows "keeps_but X s s'"
  using assms
proof (induction ids arbitrary: r ws s)
  case Nil
  then show ?case by (simp add: keeps_refl)
next
  case (Cons i ids)
  obtain sl where sl: "get_slot s i = Some sl" using Cons.prems(2) by auto
  obtain st s1 where a: "arm_action i a p f (as_duration (app_action_timeout (slot_app sl))) s = (st, s1)" by fastforce
  note k = arm_action_keeps[OF Cons.prems(1) sl a]
  have reg: "\<exists>sl. get_slot s1 k = Some sl" if "k \<in> set ids" for k
    using Cons.prems(2) that armed_frame(4)[OF sl a] by auto
  show ?case
  proof (cases "refuse_action w sl")
    case None
    then show ?thesis
      using Cons.prems(3) sl a keeps_trans[OF k Cons.IH[OF keeps_flock[OF k] reg]] by simp
  next
    case (Some oc)
    then show ?thesis using Cons.IH[OF Cons.prems(1)] Cons.prems(2,3) sl by simp
  qed
qed

lemma begin_action_keeps:
  assumes f: "flock_but X s"
  shows "keeps_but X s (begin_action w sel a p fr c s)"
proof -
  obtain r ws s1 where l: "action_loop w a p fr (matching_ids s sel) [] [] s = (r, ws, s1)" by (metis prod_cases3)
  have k: "keeps_but X s s1"
    using reached_ids_registered(3)[OF flock_butD(2)[OF f]] by (intro action_loop_keeps[OF f _ l]) (simp add: matching_ids_def)
  have q: "keeps_but X s (effect e s1)" if "quiet e" for e
    by (rule keeps_trans[OF k quiet_effect_keeps[OF keeps_flock[OF k] that]])
  show ?thesis
    using q l quiet_effect_keeps[OF f] by (simp add: begin_action_def Let_def)
qed

text \<open>The other verbs change nothing but the trace.\<close>

lemma signal_loop_spec:
  assumes "\<And>i. i \<in> set ids \<Longrightarrow> \<exists>sl. get_slot s i = Some sl"
  shows "\<exists>es. snd (snd (signal_loop w sig ids r ws s)) = s\<lparr> out := out s @ es \<rparr> \<and> list_all quiet es"
  using assms
proof (induction ids arbitrary: r ws s)
  case Nil
  show ?case by (intro exI[of _ "[]"]) simp
next
  case (Cons i ids)
  obtain sl where sl: "get_slot s i = Some sl" using Cons.prems by auto
  have reg: "\<exists>sl. get_slot (effect (SendSignal i sig) s) k = Some sl" if "k \<in> set ids" for k
    using Cons.prems that by simp
  from Cons.IH[OF reg] Cons.IH[of s] Cons.prems sl show ?case
    by (fastforce simp: effect_def)
qed

lemma send_line_loop_spec:
  assumes "\<And>i. i \<in> set ids \<Longrightarrow> \<exists>sl. get_slot s i = Some sl"
  shows "\<exists>es. snd (snd (send_line_loop w line ids r ws s)) = s\<lparr> out := out s @ es \<rparr> \<and> list_all quiet es"
  using assms
proof (induction ids arbitrary: r ws s)
  case Nil
  show ?case by (intro exI[of _ "[]"]) simp
next
  case (Cons i ids)
  obtain sl where sl: "get_slot s i = Some sl" using Cons.prems by auto
  have reg: "\<exists>sl. get_slot (effect (SendStdin i line) s) k = Some sl" if "k \<in> set ids" for k
    using Cons.prems that by simp
  from Cons.IH[OF reg] Cons.IH[of s] Cons.prems sl show ?case
    by (fastforce simp: effect_def Let_def split: TrySend.splits)
qed

text \<open>A handler that only says things: what it says starts no process.\<close>

definition only_says :: "actor \<Rightarrow> actor \<Rightarrow> bool" where
  "only_says s s' \<longleftrightarrow> (\<exists>es. s' = s\<lparr> out := out s @ es \<rparr> \<and> list_all quiet es)"

lemma only_says_refl: "only_says s s"
  unfolding only_says_def by (intro exI[of _ "[]"]) simp

lemma only_says_effect: "quiet e \<Longrightarrow> only_says s (effect e s)"
  unfolding only_says_def effect_def by (intro exI[of _ "[e]"]) simp

lemma only_says_trans:
  assumes "only_says s s'" "only_says s' s''"
  shows "only_says s s''"
proof -
  obtain es es' where "s' = s\<lparr> out := out s @ es \<rparr>" "s'' = s'\<lparr> out := out s' @ es' \<rparr>" "list_all quiet (es @ es')"
    using assms by (auto simp: only_says_def)
  then show ?thesis unfolding only_says_def by (intro exI[of _ "es @ es'"]) simp
qed

lemma quiet_spawns: "list_all quiet es \<Longrightarrow> spawns_of k es = 0"
  by (induction es rule: rev_induct) auto

lemma only_says_keeps:
  assumes "only_says s s'" "flock_but X s"
  shows "keeps_but X s s'"
  using assms by (auto simp: only_says_def quiet_spawns dest: flock_butD intro!: frame_keeps)

lemma matching_registered:
  "flock_but X s \<Longrightarrow> i \<in> set (matching_ids s sel) \<Longrightarrow> \<exists>sl. get_slot s i = Some sl"
  using reached_ids_registered(3)[OF flock_butD(2)] by (simp add: matching_ids_def)

lemma begin_signal_says:
  assumes f: "flock_but X s"
  shows "only_says s (begin_signal w sel sig c s)"
proof -
  obtain r ws s1 where l: "signal_loop w sig (matching_ids s sel) [] [] s = (r, ws, s1)" by (metis prod_cases3)
  have "only_says s s1"
    using signal_loop_spec[of "matching_ids s sel" s w sig "[]" "[]", OF matching_registered[OF f]] l by (simp add: only_says_def)
  from only_says_trans[OF this only_says_effect] show ?thesis
    using l only_says_effect[of _ s] by (simp add: begin_signal_def Let_def)
qed

lemma begin_send_line_says:
  assumes f: "flock_but X s"
  shows "only_says s (begin_send_line w sel line c s)"
proof -
  obtain r ws s1 where l: "send_line_loop w line (matching_ids s sel) [] [] s = (r, ws, s1)" by (metis prod_cases3)
  have "only_says s s1"
    using send_line_loop_spec[of "matching_ids s sel" s w line "[]" "[]", OF matching_registered[OF f]] l by (simp add: only_says_def)
  from only_says_trans[OF this only_says_effect] show ?thesis
    using l only_says_effect[of _ s] by (simp add: begin_send_line_def Let_def)
qed

lemma others_only_say:
  "only_says s (snd (tell_lamb_signalled w i root pid sig s))" "only_says s (begin_pty w nm ask c s)"
  "only_says s (handle_reopen w sel c s)" "only_says s (handle_flush w sel c s)"
  "only_says s (handle_handover_fitness c s)"
  using only_says_effect[of _ s] only_says_refl[of s]
  by (auto simp: tell_lamb_signalled_def begin_pty_def handle_reopen_def handle_flush_def
      handle_handover_fitness_def Let_def split: option.splits sum.splits)

subsection \<open>What a trigger answers\<close>

definition heard :: "(nat \<Rightarrow> ActionOutcome option) \<Rightarrow> nat \<Rightarrow> ActionOutcome" where
  "heard got st = (case got st of Some oc \<Rightarrow> oc | None \<Rightarrow> NoChannel)"

lemma trigger_rows:
  "set (trigger_task rows waits got) =
     set rows \<union> (\<lambda>(i, nm, st). \<lparr> row_id = i, row_name = nm, row_outcome = heard got st \<rparr>) ` set waits"
  "distinct (map row_id (trigger_task rows waits got)) = distinct (map row_id rows @ map fst waits)"
  "sorted (map (\<lambda>r. (row_name r, row_id r)) (trigger_task rows waits got))"
proof -
  let ?rows = "rows @ map (\<lambda>(i, nm, st). \<lparr> row_id = i, row_name = nm, row_outcome = heard got st \<rparr>) waits"
  have t: "trigger_task rows waits got = sort_key (\<lambda>r. (row_name r, row_id r)) ?rows"
    by (simp add: trigger_task_def by_name_and_id_def heard_def)
  have "distinct (map row_id (sort_key k xs)) = distinct (map row_id xs)" for k :: "'o OutcomeRow \<Rightarrow> string \<times> nat" and xs
    by (metis card_distinct distinct_card length_map length_sort list.set_map set_sort)
  then have "distinct (map row_id (trigger_task rows waits got)) = distinct (map row_id ?rows)" by (simp only: t)
  moreover have "map row_id ?rows = map row_id rows @ map fst waits" by (simp add: split_beta)
  ultimately show "distinct (map row_id (trigger_task rows waits got)) = distinct (map row_id rows @ map fst waits)"
    by (simp only:)
  show "set (trigger_task rows waits got) =
     set rows \<union> (\<lambda>(i, nm, st). \<lparr> row_id = i, row_name = nm, row_outcome = heard got st \<rparr>) ` set waits" by (simp add: t)
  show "sorted (map (\<lambda>r. (row_name r, row_id r)) (trigger_task rows waits got))" by (simp add: t)
qed

lemma refused_rows_ids:
  assumes "\<And>i. i \<in> set ids \<Longrightarrow> \<exists>sl. get_slot s i = Some sl"
  shows "map row_id (refused_rows w s ids) = filter (\<lambda>i. i \<notin> set (takers w s ids)) ids"
proof -
  let ?f = "\<lambda>i. case get_slot s i of None \<Rightarrow> None
      | Some sl \<Rightarrow> map_option (\<lambda>oc. \<lparr> row_id = i, row_name = slot_name sl, row_outcome = oc \<rparr>) (refuse_action w sl)"
  have "map row_id (refused_rows w s ids) = map (\<lambda>i. row_id (the (?f i))) (filter (\<lambda>i. ?f i \<noteq> None) ids)"
    by (simp add: refused_rows_def List.map_filter_def comp_def)
  also have "\<dots> = map (\<lambda>i. i) (filter (\<lambda>i. ?f i \<noteq> None) ids)"
    by (rule map_cong) (auto split: option.splits)
  also have "\<dots> = filter (\<lambda>i. i \<notin> set (takers w s ids)) ids"
    using assms by (auto simp: takers_def intro!: filter_cong split: option.splits)
  finally show ?thesis .
qed

lemma refused_row:
  "r \<in> set (refused_rows w s ids) \<Longrightarrow>
    \<exists>sl. get_slot s (row_id r) = Some sl \<and> row_name r = slot_name sl \<and> refuse_action w sl = Some (row_outcome r)"
  by (auto simp: refused_rows_def List.map_filter_def split: option.splits)

text \<open>When nobody can take it, the refusals are answered at once, in the order of the ids.\<close>

lemma trigger_nobody:
  assumes f: "flock_ok s" and ids: "matching_ids s sel \<noteq> []" "takers w s (matching_ids s sel) = []"
  shows "out (begin_action w sel a p fr c s) =
       out s @ [Reply c (TriggerBody (Inr (refused_rows w s (matching_ids s sel))))]"
    and "map row_id (refused_rows w s (matching_ids s sel)) = matching_ids s sel"
proof -
  note keys = flock_butD(2)[OF f]
  have reg: "\<And>i. i \<in> set (matching_ids s sel) \<Longrightarrow> \<exists>sl. get_slot s i = Some sl" and d: "distinct (matching_ids s sel)"
    unfolding matching_ids_def using reached_ids_registered[OF keys] by blast+
  obtain refused waits s1 where l: "action_loop w a p fr (matching_ids s sel) [] [] s = (refused, waits, s1)"
    by (metis prod_cases3)
  note spec = action_loop_spec[OF d reg l]
  show "out (begin_action w sel a p fr c s) =
       out s @ [Reply c (TriggerBody (Inr (refused_rows w s (matching_ids s sel))))]"
    using spec ids l by (simp add: begin_action_def Let_def effect_def stamped_def)
  show "map row_id (refused_rows w s (matching_ids s sel)) = matching_ids s sel"
    using refused_rows_ids[OF reg, where w = w] ids(2) by simp
qed

subsection \<open>What a flush reaches\<close>

definition in_key_order :: "string list \<Rightarrow> bool" where
  "in_key_order ps \<longleftrightarrow> sorted_wrt (\<lambda>p q. path_key p < path_key q) ps"

lemma insert_path_spec:
  "path_key ` set (insert_path p ps) = insert (path_key p) (path_key ` set ps)"
  "set (insert_path p ps) \<subseteq> insert p (set ps)"
  "in_key_order ps \<Longrightarrow> in_key_order (insert_path p ps)"
proof -
  show k: "path_key ` set (insert_path p ps) = insert (path_key p) (path_key ` set ps)" for ps
    by (induction ps) auto
  show s: "set (insert_path p ps) \<subseteq> insert p (set ps)" for ps
    by (induction ps) auto
  show "in_key_order ps \<Longrightarrow> in_key_order (insert_path p ps)"
  proof (induction ps)
    case (Cons q qs)
    have "path_key q < path_key x" if "x \<in> set (insert_path p qs)" "path_key q < path_key p" for x
      using that Cons.prems s[of qs] by (auto simp: in_key_order_def)
    then show ?case using Cons by (auto simp: in_key_order_def)
  qed (simp add: in_key_order_def)
qed

lemma paths_of_spec:
  "path_key ` set (paths_of ps) = path_key ` set ps" "set (paths_of ps) \<subseteq> set ps" "in_key_order (paths_of ps)"
proof -
  have "path_key ` set (fold insert_path ps qs) = path_key ` set qs \<union> path_key ` set ps \<and>
      set (fold insert_path ps qs) \<subseteq> set qs \<union> set ps \<and> (in_key_order qs \<longrightarrow> in_key_order (fold insert_path ps qs))" for qs
  proof (induction ps arbitrary: qs)
    case (Cons p ps)
    show ?case using Cons[of "insert_path p qs"] insert_path_spec[where p = p and ps = qs] by auto
  qed simp
  from this[of "[]"] show "path_key ` set (paths_of ps) = path_key ` set ps" "set (paths_of ps) \<subseteq> set ps"
    "in_key_order (paths_of ps)" by (auto simp: paths_of_def in_key_order_def)
qed

text \<open>What the two loops of a flush leave: no pump they flushed owes a byte, and then every file is empty.\<close>

lemma flush_logs_other: "flush_logs io i (pumps, d) = (r, pumps', d') \<Longrightarrow> k \<noteq> i \<Longrightarrow> pumps' k = pumps k"
  by (auto simp: flush_logs_def split: option.splits prod.splits)

lemma flush_logs_done:
  "flush_logs io i (pumps, d) = (Inr (), pumps', d') \<Longrightarrow> pumps' i = Some lfs \<Longrightarrow> owes (lfs_out lfs) = [] \<and> owes (lfs_err lfs) = []"
  by (auto simp: flush_logs_def split: option.splits prod.splits dest: serve_flush_done)

lemma visit_failures: "visit_each f xs fs s = ([], s') \<Longrightarrow> fs = []"
  by (induction xs arbitrary: fs s) (fastforce split: prod.splits sum.splits)+

lemma flush_loop_done:
  assumes "visit_each (flush_logs io) ids [] (pumps, d) = ([], pumps', d')"
  shows "(\<forall>i \<in> set ids. \<forall>lfs. pumps' i = Some lfs \<longrightarrow> owes (lfs_out lfs) = [] \<and> owes (lfs_err lfs) = []) \<and>
    (\<forall>k. k \<notin> set ids \<longrightarrow> pumps' k = pumps k)"
  using assms
proof (induction ids arbitrary: pumps d)
  case (Cons i ids)
  obtain r pumps1 d1 where f: "flush_logs io i (pumps, d) = (r, pumps1, d1)" by (metis prod_cases3)
  have r: "r = Inr ()"
  proof (cases r)
    case (Inl e)
    then have "visit_each (flush_logs io) ids [e] (pumps1, d1) = ([], pumps', d')" using Cons.prems f by simp
    then show ?thesis by (blast dest: visit_failures)
  qed simp
  then have "visit_each (flush_logs io) ids [] (pumps1, d1) = ([], pumps', d')" using Cons.prems f by simp
  from Cons.IH[OF this] show ?case
    using flush_logs_done[of io i pumps d pumps1 d1] flush_logs_other[OF f] f r by (cases "i \<in> set ids") auto
qed simp

definition emptied :: "LogDisk \<Rightarrow> string \<Rightarrow> bool" where
  "emptied d path \<longleftrightarrow> (case ld_dir d path of None \<Rightarrow> True | Some ino \<Rightarrow> ld_data d ino = [])"

lemma truncate_log_spec:
  assumes "truncate_log io path d = (r, d')"
  shows "ld_dir d' = ld_dir d" "ld_data d ino = [] \<Longrightarrow> ld_data d' ino = []"
    "io_ancestry io path = None \<Longrightarrow> io_truncate io path = None \<Longrightarrow> emptied d' path"
    "r = Inr () \<longleftrightarrow> io_ancestry io path = None \<and> io_truncate io path = None"
  using assms by (auto simp: truncate_log_def emptied_def split: option.splits)

lemma truncate_loop:
  assumes "visit_each (truncate_log io) paths fs d = (fs', d')"
  shows "ld_dir d' = ld_dir d \<and> (\<forall>ino. ld_data d ino = [] \<longrightarrow> ld_data d' ino = []) \<and>
    (\<forall>path \<in> set paths. io_ancestry io path = None \<and> io_truncate io path = None \<longrightarrow> emptied d' path) \<and>
    (fs' = [] \<longrightarrow> fs = [] \<and> (\<forall>path \<in> set paths. io_ancestry io path = None \<and> io_truncate io path = None))"
  using assms
proof (induction paths arbitrary: fs d)
  case (Cons path paths)
  obtain r d1 where t: "truncate_log io path d = (r, d1)" by fastforce
  note spec = truncate_log_spec[OF t]
  obtain fs1 where v: "visit_each (truncate_log io) paths fs1 d1 = (fs', d')" "fs1 = [] \<longrightarrow> fs = [] \<and> r = Inr ()"
    using Cons.prems t by (cases r) auto
  have "emptied d1 path \<Longrightarrow> emptied d' path" using Cons.IH[OF v(1)] by (auto simp: emptied_def split: option.splits)
  then show ?case using Cons.IH[OF v(1)] v(2) spec by auto
qed auto

lemma flush_task_empties:
  assumes "flush_task io matched ids paths (pumps, d) = (r, pumps', d')"
  shows "\<forall>path \<in> set paths. io_ancestry io path = None \<and> io_truncate io path = None \<longrightarrow> emptied d' path"
    and "r = Inr rows \<Longrightarrow> rows = matched \<and> (\<forall>path \<in> set paths. emptied d' path) \<and>
      (\<forall>i \<in> set ids. \<forall>lfs. pumps' i = Some lfs \<longrightarrow> owes (lfs_out lfs) = [] \<and> owes (lfs_err lfs) = [])"
proof -
  obtain fs p1 d1 where f: "visit_each (flush_logs io) ids [] (pumps, d) = (fs, p1, d1)" by (metis prod_cases3)
  obtain fs2 d2 where t: "visit_each (truncate_log io) paths fs d1 = (fs2, d2)" by fastforce
  have e: "pumps' = p1" "d' = d2" "r = (if fs2 = [] then Inr matched else Inl (FlushFailed (join_with ''; '' fs2)))"
    using assms f t by (auto simp: flush_task_def)
  note tr = truncate_loop[OF t]
  show "\<forall>path \<in> set paths. io_ancestry io path = None \<and> io_truncate io path = None \<longrightarrow> emptied d' path" using tr e by blast
  show "rows = matched \<and> (\<forall>path \<in> set paths. emptied d' path) \<and>
      (\<forall>i \<in> set ids. \<forall>lfs. pumps' i = Some lfs \<longrightarrow> owes (lfs_out lfs) = [] \<and> owes (lfs_err lfs) = [])" if "r = Inr rows"
    using that e tr flush_loop_done[of io ids pumps d p1 d1] f by (auto split: if_splits)
qed

end
