(* ===== verification/Supervisor.thy ===== *)
theory Supervisor
  imports Config_Loads Talking
begin

text \<open>
  The run loop and the commands it dispatches (\<open>supervisor/actor_core.rs\<close>,
  \<open>actor_disable.rs\<close>, \<open>actor_actions.rs\<close>). Not dispatched here: \<open>HandoverSnapshot\<close>, which
  describes the flock to a successor process and changes nothing.
\<close>

subsection \<open>Disabling and enabling\<close>

definition ids_of_apps :: "actor \<Rightarrow> string list \<Rightarrow> nat list" where
  "ids_of_apps s names =
     sort (map fst (filter (\<lambda>(i, sl). slot_name sl \<in> set names) (sheep s)))"

definition apps_reached :: "actor \<Rightarrow> ProcessSelector \<Rightarrow> Sweep \<Rightarrow> SupervisorError + string list" where
  "apps_reached s sel sweep =
     (let matched = reached_ids s sel sweep in
      if matched = [] then Inl NotFound
      else
        (let names = sort (remdups (List.map_filter (\<lambda>i. case get_slot s i of
               None \<Rightarrow> None
             | Some sl \<Rightarrow> if e_dog (sl_entry sl) = None then Some (slot_name sl) else None) matched))
         in if names = []
            then Inl (IsADog (''a dog is enabled and disabled by name, and `shep disable` and '' @
                   ''`shep enable` reach it that way''))
            else Inr names))"

definition abandon_serial_drain :: "world \<Rightarrow> string \<Rightarrow> actor \<Rightarrow> actor" where
  "abandon_serial_drain w nm s =
     (case get_job s nm of
        None \<Rightarrow> s
      | Some job \<Rightarrow>
          if sw_phase (j_swap job) \<noteq> DrainFirst then s
          else
            (let old_id = sw_old_id (j_swap job);
                 s = del_job nm s;
                 s = clear_reload old_id s
             in emit_reload_abandoned w old_id s))"

definition disable_apps :: "world \<Rightarrow> string list \<Rightarrow> ReplyKind \<Rightarrow> actor \<Rightarrow> actor" where
  "disable_apps w names reply s =
     (let ids = ids_of_apps s names;
          s = remark names MRestart MStop s;
          s = fold (abandon_serial_drain w) names s;
          s = s\<lparr> disabled := extend_set names (disabled s) \<rparr>
      in begin_manual_ids w ids MStop Operator reply s)"

definition handle_disable :: "world \<Rightarrow> ProcessSelector \<Rightarrow> caller \<Rightarrow> actor \<Rightarrow> actor" where
  "handle_disable w sel c s =
     (case apps_reached s sel SwEnabled of
        Inr names \<Rightarrow> disable_apps w names (RInfo c) s
      | Inl err \<Rightarrow>
          if err = NotFound \<and> reached_ids s sel SwDisabled \<noteq> []
          then effect (Reply c (Infos (Inr []))) s
          else effect (Reply c (Infos (Inl err))) s)"

definition handle_disable_dog :: "world \<Rightarrow> string \<Rightarrow> caller \<Rightarrow> actor \<Rightarrow> actor" where
  "handle_disable_dog w nm c s =
     (let under = filter (\<lambda>(i, sl). slot_name sl = nm) (sheep s) in
      if under \<noteq> [] \<and> list_all (\<lambda>(i, sl). e_dog (sl_entry sl) \<noteq> None) under
      then disable_apps w [nm] (RIds c) s
      else effect (Reply c (Ids (Inl NotFound))) s)"

definition handle_enable :: "world \<Rightarrow> ProcessSelector \<Rightarrow> caller \<Rightarrow> actor \<Rightarrow> actor" where
  "handle_enable w sel c s =
     (case apps_reached s sel SwDisabled of
        Inl err \<Rightarrow>
          if err = NotFound \<and> matching_ids s sel \<noteq> []
          then effect (Reply c (Infos (Inr []))) s
          else effect (Reply c (Infos (Inl err))) s
      | Inr names \<Rightarrow>
          if shutting_down s then effect (Reply c (Infos (Inl EngineStopped))) s
          else
            (let cleared = filter (\<lambda>nm. nm \<in> set (disabled s)) names;
                 s = s\<lparr> disabled := filter (\<lambda>nm. nm \<notin> set cleared) (disabled s) \<rparr>;
                 ids = ids_of_apps s cleared;
                 s = remark cleared MStop MRestart s
             in begin_manual_ids w ids MRestart Operator (RInfo c) s))"

definition restart_unless_disabled ::
  "world \<Rightarrow> ProcessSelector \<Rightarrow> CommandOrigin \<Rightarrow> ReplyKind \<Rightarrow> actor \<Rightarrow> actor" where
  "restart_unless_disabled w sel origin reply s =
     (let matched = matching_ids s sel;
          held = filter (is_disabled_id s) matched;
          ids = filter (\<lambda>i. \<not> is_disabled_id s i) matched
      in if matched = [] then send_reply reply (Inl NotFound) s
         else case (case held of [] \<Rightarrow> None | i # _ \<Rightarrow> map_option slot_name (get_slot s i)) of
           Some nm \<Rightarrow>
             if origin = Operator \<and> is_exact sel then send_reply reply (Inl (Disabled nm)) s
             else begin_manual_ids w ids MRestart origin reply s
         | None \<Rightarrow> begin_manual_ids w ids MRestart origin reply s)"

definition prune_disabled :: "actor \<Rightarrow> actor" where
  "prune_disabled s =
     s\<lparr> disabled := filter (\<lambda>nm. nm \<in> (\<lambda>(i, sl). slot_name sl) ` set (sheep s)) (disabled s) \<rparr>"

subsection \<open>Listings and marks\<close>

definition snapshot_all :: "world \<Rightarrow> actor \<Rightarrow> ProcessInfo list" where
  "snapshot_all w s =
     sort_flock (map (\<lambda>(i, sl). with_mark s (to_info (w_now w) (sl_entry sl) (smits s))) (sheep s))"

definition handle_set_smit ::
  "world \<Rightarrow> nat \<Rightarrow> string \<Rightarrow> string option \<Rightarrow> actor \<Rightarrow> (SupervisorError + ProcessInfo list) \<times> actor" where
  "handle_set_smit w conn nm smit s =
     (if \<not> list_ex (\<lambda>(i, sl). slot_name sl = nm) (sheep s) then (Inl NotFound, s)
      else
        (let s = (case smit of
                    Some m \<Rightarrow> s\<lparr> smits := AList.update nm (conn, m) (smits s) \<rparr>
                  | None \<Rightarrow>
                      if map_option fst (map_of (smits s) nm) = Some conn
                      then s\<lparr> smits := AList.delete nm (smits s) \<rparr> else s)
         in (Inr (filter (\<lambda>info. i_name info = nm) (snapshot_all w s)), s)))"

definition config_drift :: "actor \<Rightarrow> AppConfig list \<Rightarrow> (string \<times> string list) list" where
  "config_drift s apps =
     List.map_filter (\<lambda>app.
       case find (\<lambda>(i, sl). slot_name sl = app_name app) (sheep s) of
         None \<Rightarrow> None
       | Some (i, sl) \<Rightarrow>
           (let fields = drifted_fields (slot_app sl) app in
            if fields = [] then None else Some (app_name app, fields))) apps"

subsection \<open>The mailbox\<close>

datatype Command =
  CStart "AppConfig list" BatchPolicy "string list" caller
| CRegisterAtRest "AppConfig list" "string list" caller
| CRegisterDogsAtRest "(AppConfig \<times> DogSource) list" "string list" caller
| CConfigDrift "AppConfig list" caller
| CStartDog AppConfig DogSource caller
| CScale string nat caller
| CApplyConfig "DeclaredApp list" ResetDepth caller
| CSheepConfig string caller
| CSetSheepEnv string string "string option" caller
| CSetSheepEnvBatch string "(string \<times> string) list" bool bool caller
| CCopySheepEnv string string bool "string list" bool "EnvCopyChange list option" caller
| CSetSheepField string string json caller
| CResetSheepField string string caller
| CDogSheepSettings string caller
| CSheepDogRead string string caller
| CSetSheepDogSettings string string "string option" caller
| CSetSmit nat string "string option" caller
| CForgetSmits nat caller
| CList caller
| CWorkingDirs caller
| CReopen ProcessSelector caller
| CFlush ProcessSelector caller
| CReset ProcessSelector caller
| CHandoverFitness caller
| CTrigger ProcessSelector string "string option" "string option" caller
| CSignal ProcessSelector OperatorSignal caller
| CLambSignalled nat nat u32 OperatorSignal caller
| CSendLine ProcessSelector string caller
| CPtyAttach string u16 u16 caller
| CPtyInput string "u8 list" caller
| CPtyResize string u16 u16 caller
| CStop ProcessSelector caller
| CRestart ProcessSelector CommandOrigin caller
| CDisable ProcessSelector caller
| CDisableDog string caller
| CEnable ProcessSelector caller
| CExtraRestart nat nat "nat option" "MemSize option"
| CReload ProcessSelector caller
| CDelete ProcessSelector caller
| CShutdown caller

fun handle_command :: "world \<Rightarrow> Command \<Rightarrow> actor \<Rightarrow> bool \<times> actor" where
  "handle_command w (CStart apps policy gate c) s =
     (if shutting_down s then (False, effect (Reply c (Infos (Inl EngineStopped))) s)
      else case do_start w apps None policy gate s of
             (result, s) \<Rightarrow> (False, effect (Reply c (Infos result)) s))"
| "handle_command w (CRegisterAtRest apps dis c) s =
     (let s = mark_disabled apps dis s;
          (registered, s) = map_state (register_at_rest w) apps s
      in (False, effect (Reply c (Infos (Inr registered))) s))"
| "handle_command w (CRegisterDogsAtRest dogs dis c) s =
     (let (registered, s) = map_state (\<lambda>(app, source). register_dog_at_rest w app source dis) dogs s
      in (False, effect (Reply c (Infos (Inr registered))) s))"
| "handle_command w (CConfigDrift apps c) s =
     (False, effect (Reply c (DriftBody (Inr (config_drift s apps)))) s)"
| "handle_command w (CStartDog app source c) s =
     (case do_start_dog w app source s of
        (result, s) \<Rightarrow> (False, effect (Reply c (OneInfo result)) s))"
| "handle_command w (CScale nm count c) s = (False, handle_scale w nm count c s)"
| "handle_command w (CApplyConfig apps reset c) s =
     (case handle_apply_config w apps reset s of
        (report, s) \<Rightarrow> (False, effect (Reply c (AppliedBody report)) s))"
| "handle_command w (CSheepConfig nm c) s =
     (False, effect (Reply c (ConfigBody (handle_sheep_config w nm s))) s)"
| "handle_command w (CSetSheepEnv nm key v c) s =
     (case handle_set_sheep_env w nm key v s of
        (r, s) \<Rightarrow> (False, effect (Reply c (EnvBody r)) s))"
| "handle_command w (CSetSheepEnvBatch nm entries force dry_run c) s =
     (case handle_set_sheep_env_batch w nm entries force dry_run s of
        (r, s) \<Rightarrow> (False, effect (Reply c (BatchBody r)) s))"
| "handle_command w (CCopySheepEnv src dst replace except dry_run expected c) s =
     (case handle_copy_sheep_env w src dst replace except dry_run expected s of
        (r, s) \<Rightarrow> (False, effect (Reply c (CopyBody r)) s))"
| "handle_command w (CSetSheepField nm key v c) s =
     (case handle_set_sheep_field w nm key v s of
        (r, s) \<Rightarrow> (False, effect (Reply c (FieldBody r)) s))"
| "handle_command w (CResetSheepField nm key c) s =
     (case handle_reset_sheep_field w nm key s of
        (r, s) \<Rightarrow> (False, effect (Reply c (FieldBody r)) s))"
| "handle_command w (CDogSheepSettings dog c) s =
     (False, effect (Reply c (TablesBody (handle_dog_sheep_settings dog s))) s)"
| "handle_command w (CSheepDogRead nm dog c) s =
     (False, effect (Reply c (DogReadBody (handle_sheep_dog_read w nm dog s))) s)"
| "handle_command w (CSetSheepDogSettings nm dog table c) s =
     (case handle_set_sheep_dog_settings w nm dog table s of
        (r, s) \<Rightarrow> (False, effect (Reply c (FieldBody r)) s))"
| "handle_command w (CSetSmit conn nm smit c) s =
     (case handle_set_smit w conn nm smit s of
        (result, s) \<Rightarrow> (False, effect (Reply c (Infos result)) s))"
| "handle_command w (CForgetSmits conn c) s =
     (False, effect (Reply c Done) (s\<lparr> smits := filter (\<lambda>(_, (painter, _)). painter \<noteq> conn) (smits s) \<rparr>))"
| "handle_command w (CList c) s = (False, effect (Reply c (Listing (snapshot_all w s))) s)"
| "handle_command w (CWorkingDirs c) s = (False, effect (Reply c (DirsBody (working_dirs s))) s)"
| "handle_command w (CReopen sel c) s = (False, handle_reopen w sel c s)"
| "handle_command w (CFlush sel c) s = (False, handle_flush w sel c s)"
| "handle_command w (CReset sel c) s = (False, handle_reset w sel c s)"
| "handle_command w (CHandoverFitness c) s = (False, handle_handover_fitness c s)"
| "handle_command w (CTrigger sel action params by_dog c) s = (False, begin_action w sel action params by_dog c s)"
| "handle_command w (CSignal sel sig c) s = (False, begin_signal w sel sig c s)"
| "handle_command w (CLambSignalled i root pid sig c) s =
     (case tell_lamb_signalled w i root pid sig s of
        (told, s) \<Rightarrow> (False, effect (Reply c (Told told)) s))"
| "handle_command w (CSendLine sel line c) s = (False, begin_send_line w sel line c s)"
| "handle_command w (CPtyAttach nm rows cols c) s = (False, begin_pty w nm (AskAttach rows cols) c s)"
| "handle_command w (CPtyInput nm typed c) s = (False, begin_pty w nm (AskInput typed) c s)"
| "handle_command w (CPtyResize nm rows cols c) s = (False, begin_pty w nm (AskResize rows cols) c s)"
| "handle_command w (CStop sel c) s = (False, begin_manual w sel MStop Operator (RInfo c) s)"
| "handle_command w (CRestart sel origin c) s =
     (if shutting_down s then (False, effect (Reply c (Infos (Inl EngineStopped))) s)
      else (False, restart_unless_disabled w sel origin (RInfo c) s))"
| "handle_command w (CDisable sel c) s = (False, handle_disable w sel c s)"
| "handle_command w (CDisableDog nm c) s = (False, handle_disable_dog w nm c s)"
| "handle_command w (CEnable sel c) s = (False, handle_enable w sel c s)"
| "handle_command w (CExtraRestart i pid epoch observed) s =
     (False, handle_extra_restart w i pid epoch observed s)"
| "handle_command w (CReload sel c) s =
     (if shutting_down s then (False, effect (Reply c (Infos (Inl EngineStopped))) s)
      else (False, handle_reload w sel c s))"
| "handle_command w (CDelete sel c) s = (False, begin_manual w sel MDelete Operator (RIds c) s)"
| "handle_command w (CShutdown c) s = begin_shutdown c s"

datatype Msg =
  MCommand Command
| MExited nat ExitOutcome
| MRestartDue nat nat
| MReady nat
| MLambLabel nat u32 string
| MReloadDeadline string nat
| MReloadVerified string nat Readiness
| MActionReply nat string string "nat option"
| MActionResult nat nat ActionOutcome
| MReadyResult nat nat bool Readiness

fun handle_msg :: "world \<Rightarrow> Msg \<Rightarrow> actor \<Rightarrow> bool \<times> actor" where
  "handle_msg w (MCommand cmd) s = handle_command w cmd s"
| "handle_msg w (MExited i outcome) s = handle_exited w i outcome s"
| "handle_msg w (MRestartDue i epoch) s = (False, handle_restart_due w i epoch s)"
| "handle_msg w (MReady i) s = (False, handle_ready_signal i s)"
| "handle_msg w (MLambLabel root_pid pid label) s = (False, effect (LabelLamb root_pid pid label) s)"
| "handle_msg w (MReloadDeadline nm stamp) s = (False, handle_reload_deadline w nm stamp s)"
| "handle_msg w (MReloadVerified nm new_id readiness) s =
     (False, handle_reload_verified w nm new_id readiness s)"
| "handle_msg w (MActionReply i action body stamp) s =
     (False, handle_action_reply i action body stamp s)"
| "handle_msg w (MActionResult i stamp outcome) s = (False, handle_action_result i stamp outcome s)"
| "handle_msg w (MReadyResult i epoch manually readiness) s =
     (False, handle_ready_result w i epoch manually readiness s)"

text \<open>One turn of the loop: the handler, then what every message ends with.\<close>

definition turn :: "world \<Rightarrow> Msg \<Rightarrow> actor \<Rightarrow> bool \<times> actor" where
  "turn w msg s =
     (let (stop, s) = handle_msg w msg s
      in (stop, prune_listeners (prune_disabled (announce_dog_tables s))))"

fun run :: "(world \<times> Msg) list \<Rightarrow> actor \<Rightarrow> actor" where
  "run [] s = s"
| "run ((w, msg) # rest) s = (let (stop, s) = turn w msg s in if stop then s else run rest s)"

text \<open>
  The actor a builder starts: what the host has (its dogs' binaries, its cgroups, the sockets a
  predecessor handed over), the override store found on disk, no sheep, and counters at zero.
\<close>

record builder =
  b_adopted_listeners :: "(string \<times> listen_table) list"
  b_dog_binaries :: "(string \<times> string) list"
  b_cgroup_base :: bool
  b_cgroup_unavailable :: "string option"

definition build_actor :: "builder \<Rightarrow> OverridesFile disk \<Rightarrow> actor" where
  "build_actor b store =
     \<lparr> sheep = [], next_id = 0, next_deadline = 0, next_action_stamp = 0, pending_replies = [],
       shutting_down = False, smits = [], reloads = [], disabled = [], listeners = b_adopted_listeners b,
       listeners_before = [], dog_binaries = b_dog_binaries b, cgroup_base = b_cgroup_base b,
       cgroup_unavailable = b_cgroup_unavailable b, oom_baselines = [], overrides_file = store, announced = [],
       out = [], panicked = False, debug_failed = False \<rparr>"

subsection \<open>Every message leaves the flock in order\<close>

lemma abandon_serial_drain_keeps:
  assumes f: "flock_ok s"
  shows "keeps s (abandon_serial_drain w nm s)"
proof (cases "get_job s nm")
  case None
  then show ?thesis using keeps_refl[OF f] by (simp add: abandon_serial_drain_def)
next
  case (Some job)
  let ?i = "sw_old_id (j_swap job)"
  note k = drop_clear_keeps[OF f Some job_memberI(1)]
  have "keeps s (emit_reload_abandoned w ?i (clear_reload ?i (del_job nm s)))"
    by (rule keeps_trans[OF k emit_reload_abandoned_keeps[OF keeps_flock[OF k]]])
  then show ?thesis using Some keeps_refl[OF f] by (simp add: abandon_serial_drain_def Let_def)
qed

lemma abandon_fold_keeps: "flock_ok s \<Longrightarrow> keeps s (fold (abandon_serial_drain w) names s)"
proof (induction names arbitrary: s)
  case (Cons nm names)
  note k = abandon_serial_drain_keeps[OF Cons.prems, of w nm]
  show ?case using keeps_trans[OF k Cons.IH[OF keeps_flock[OF k]]] by simp
qed (simp add: keeps_refl)

lemma disable_apps_evolves:
  assumes st: "steady s"
  shows "evolves s (disable_apps w names reply s)"
proof -
  let ?s1 = "remark names MRestart MStop s"
  let ?s2 = "fold (abandon_serial_drain w) names ?s1"
  have k1: "keeps s ?s1" by (rule remark_keeps[OF steadyD(1)[OF st]])
  have k2: "keeps s ?s2" by (rule keeps_trans[OF k1 abandon_fold_keeps[OF keeps_flock[OF k1]]])
  have k3: "keeps s (?s2\<lparr> disabled := d \<rparr>)" for d by (rule keeps_trans[OF k2 disabled_keeps[OF keeps_flock[OF k2]]])
  have e: "evolves s (?s2\<lparr> disabled := d \<rparr>)" for d by (rule keeps_evolves[OF st k3])
  show ?thesis
    using evolves_trans[OF e begin_manual_ids_evolves[OF evolves_steady[OF e]]]
    by (simp add: disable_apps_def Let_def)
qed

lemma reply_evolves: "steady s \<Longrightarrow> evolves s (effect (Reply c b) s)"
  by (rule keeps_evolves[OF _ quiet_effect_keeps]) (simp_all add: steadyD)

lemma handle_disable_evolves: "steady s \<Longrightarrow> evolves s (handle_disable w sel c s)"
  using disable_apps_evolves[of s w] reply_evolves[of s] by (auto simp: handle_disable_def split: sum.splits)

lemma handle_disable_dog_evolves: "steady s \<Longrightarrow> evolves s (handle_disable_dog w nm c s)"
  using disable_apps_evolves[of s w] reply_evolves[of s] by (simp add: handle_disable_dog_def Let_def)

lemma handle_enable_evolves:
  assumes st: "steady s"
  shows "evolves s (handle_enable w sel c s)"
proof -
  let ?s1 = "\<lambda>d. s\<lparr> disabled := d \<rparr>"
  have k1: "keeps s (?s1 d)" for d by (rule disabled_keeps[OF steadyD(1)[OF st]])
  have "keeps s (remark ns MStop MRestart (?s1 d))" for ns d
    by (rule keeps_trans[OF k1 remark_keeps[OF keeps_flock[OF k1]]])
  then have e: "evolves s (remark ns MStop MRestart (?s1 d))" for ns d by (rule keeps_evolves[OF st])
  have "evolves s (begin_manual_ids w ids MRestart Operator r (remark ns MStop MRestart (?s1 d)))" for ids r ns d
    by (rule evolves_trans[OF e begin_manual_ids_evolves[OF evolves_steady[OF e]]])
  then show ?thesis using reply_evolves[OF st] by (auto simp: handle_enable_def Let_def split: sum.splits)
qed

lemma send_reply_evolves: "steady s \<Longrightarrow> evolves s (send_reply r oc s)"
  by (rule keeps_evolves[OF _ send_reply_keeps]) (simp_all add: steadyD)

lemma restart_unless_disabled_evolves:
  "steady s \<Longrightarrow> evolves s (restart_unless_disabled w sel origin reply s)"
  using begin_manual_ids_evolves[of s w] send_reply_evolves[of s]
  by (auto simp: restart_unless_disabled_def Let_def split: option.splits)

lemma smits_keeps: "flock_but X s \<Longrightarrow> keeps_but X s (s\<lparr> smits := v \<rparr>)"
  by (rule frame_keeps) (auto dest: flock_butD)

lemma keeps_reply_evolves:
  assumes "steady s" "keeps s s'"
  shows "evolves s (effect (Reply c b) s')"
  by (rule keeps_evolves[OF assms(1) keeps_trans[OF assms(2) quiet_effect_keeps[OF keeps_flock[OF assms(2)]]]]) simp

lemma set_smit_keeps: "flock_ok s \<Longrightarrow> keeps s (snd (handle_set_smit w conn nm smit s))"
  using keeps_refl[of "{}" s] smits_keeps[of "{}" s] by (simp add: handle_set_smit_def Let_def split: option.splits)

lemma register_at_rest_keeps: "flock_ok s \<Longrightarrow> keeps s (snd (register_at_rest w app s))"
  using register_keeps[of s w app Stopped None]
  by (cases "register_without_spawning w app Stopped None s") (simp add: register_at_rest_def)

lemma register_dog_at_rest_keeps:
  assumes f: "flock_ok s"
  shows "keeps s (snd (register_dog_at_rest w app src dis s))"
proof -
  obtain r s1 where r: "register_without_spawning w app Stopped (Some src) s = (r, s1)" by fastforce
  have k: "keeps s s1" by (rule register_keeps[OF f r]) simp
  then show ?thesis
    using r keeps_trans[OF k disabled_keeps[OF keeps_flock[OF k]]]
    by (cases r) (simp_all add: register_dog_at_rest_def Let_def)
qed

lemma says_evolves: "steady s \<Longrightarrow> only_says s s' \<Longrightarrow> evolves s s'"
  by (rule keeps_evolves[OF _ only_says_keeps]) (simp_all add: steadyD)

text \<open>
  What the rest of the program owes the actor with a message: a dog's config asks for at most one
  instance, and reading back the JSON of a config reads its name.
\<close>

fun sound :: "world \<Rightarrow> Msg \<Rightarrow> bool" where
  "sound w (MCommand (CStartDog app source c)) \<longleftrightarrow> unat (app_instances app) \<le> 1"
| "sound w (MCommand (CApplyConfig apps reset c)) \<longleftrightarrow> serde_names (w_serde w)"
| "sound w (MCommand (CSetSheepField nm key v c)) \<longleftrightarrow> serde_names (w_serde w)"
| "sound w (MCommand (CResetSheepField nm key c)) \<longleftrightarrow> serde_names (w_serde w)"
| "sound w (MCommand (CSetSheepDogSettings nm dog table c)) \<longleftrightarrow> serde_names (w_serde w)"
| "sound w _ \<longleftrightarrow> True"

text \<open>
  One message can find the flock unprepared: the verdict of a verification, when the replacement it
  is about is not running any more and its job still waits for it.
\<close>

fun late_verdict :: "Msg \<Rightarrow> actor \<Rightarrow> bool" where
  "late_verdict (MReloadVerified nm i readiness) s \<longleftrightarrow>
     (case get_job s nm of
        None \<Rightarrow> False
      | Some job \<Rightarrow> sw_phase (j_swap job) = Verify \<and> sw_new_id (j_swap job) = Some i \<and> \<not> running s i)"
| "late_verdict _ s \<longleftrightarrow> False"

lemma handle_command_evolves:
  assumes st: "steady s" and so: "sound w (MCommand cmd)"
  shows "evolves s (snd (handle_command w cmd s))"
proof (cases cmd)
  case (CStart apps policy gate c)
  obtain r s' where d: "do_start w apps None policy gate s = (r, s')" by fastforce
  show ?thesis
    using CStart d reply_evolves[OF st] keeps_reply_evolves[OF st do_start_keeps[OF steadyD(1)[OF st] d]]
    by simp
next
  case (CRegisterAtRest apps dis c)
  let ?s = "mark_disabled apps dis s"
  have k: "keeps s ?s" unfolding mark_disabled_def by (rule disabled_keeps[OF steadyD(1)[OF st]])
  have "keeps s (snd (map_state (register_at_rest w) apps ?s))"
    by (rule keeps_trans[OF k map_state_keeps[OF register_at_rest_keeps keeps_flock[OF k]]])
  then show ?thesis using CRegisterAtRest keeps_reply_evolves[OF st] by (simp add: Let_def split_beta)
next
  case (CRegisterDogsAtRest dogs dis c)
  have "keeps s (snd (map_state (\<lambda>(app, src). register_dog_at_rest w app src dis) dogs s))"
    by (rule map_state_keeps[OF _ steadyD(1)[OF st]]) (auto simp: register_dog_at_rest_keeps)
  then show ?thesis using CRegisterDogsAtRest keeps_reply_evolves[OF st] by (simp add: Let_def split_beta)
next
  case (CStartDog app src c)
  have "keeps s (snd (do_start_dog w app src s))" using so CStartDog by (intro do_start_dog_keeps[OF steadyD(1)[OF st]]) simp
  then show ?thesis using CStartDog keeps_reply_evolves[OF st] by (simp add: split_beta)
next
  case (CSetSmit conn nm smit c)
  then show ?thesis using keeps_reply_evolves[OF st set_smit_keeps[OF steadyD(1)[OF st]]] by (simp add: split_beta)
next
  case (CForgetSmits conn c)
  then show ?thesis using keeps_reply_evolves[OF st smits_keeps[OF steadyD(1)[OF st]]] by simp
next
  case (CReset sel c)
  then show ?thesis using keeps_evolves[OF st handle_reset_keeps[OF steadyD(1)[OF st]]] by simp
next
  case (CReload sel c)
  then show ?thesis
    using reply_evolves[OF st] keeps_evolves[OF st handle_reload_keeps[OF steadyD(1)[OF st]]] by simp
next
  case (CApplyConfig apps reset c)
  obtain report s' where h: "handle_apply_config w apps reset s = (report, s')" by fastforce
  have e: "evolves s s'" using handle_apply_config_evolves[OF st, of w apps reset] so CApplyConfig h by simp
  show ?thesis using CApplyConfig h evolves_trans[OF e reply_evolves[OF evolves_steady[OF e]]] by simp
next
  case (CSetSheepEnv nm key v c)
  then show ?thesis
    using keeps_reply_evolves[OF st handle_set_sheep_env_keeps[OF steadyD(1)[OF st]]] by (simp add: split_beta)
next
  case (CSetSheepEnvBatch nm entries force dry_run c)
  then show ?thesis
    using keeps_reply_evolves[OF st handle_set_sheep_env_batch_keeps[OF steadyD(1)[OF st]]] by (simp add: split_beta)
next
  case (CCopySheepEnv src dst replace except dry_run expected c)
  then show ?thesis
    using keeps_reply_evolves[OF st handle_copy_sheep_env_keeps[OF steadyD(1)[OF st]]] by (simp add: split_beta)
next
  case (CSetSheepField nm key v c)
  then show ?thesis
    using so keeps_reply_evolves[OF st pane_fields_keep(1)[OF steadyD(1)[OF st]]] by (simp add: split_beta)
next
  case (CResetSheepField nm key c)
  then show ?thesis
    using so keeps_reply_evolves[OF st pane_fields_keep(2)[OF steadyD(1)[OF st]]] by (simp add: split_beta)
next
  case (CSetSheepDogSettings nm dog table c)
  then show ?thesis
    using so keeps_reply_evolves[OF st pane_fields_keep(3)[OF steadyD(1)[OF st]]] by (simp add: split_beta)
next
  case (CScale nm count c)
  then show ?thesis using handle_scale_evolves[OF st] by simp
next
  case (CTrigger sel action params by_dog c)
  then show ?thesis using keeps_evolves[OF st begin_action_keeps[OF steadyD(1)[OF st]]] by simp
next
  case (CLambSignalled i root pid sig c)
  then show ?thesis
    using keeps_reply_evolves[OF st only_says_keeps[OF others_only_say(1) steadyD(1)[OF st]]] by (simp add: split_beta)
qed (use st says_evolves[OF st] begin_signal_says[OF steadyD(1)[OF st]] begin_send_line_says[OF steadyD(1)[OF st]]
      others_only_say[of s] in \<open>simp_all add: reply_evolves begin_manual_evolves restart_unless_disabled_evolves
      handle_disable_evolves handle_disable_dog_evolves handle_enable_evolves handle_extra_restart_evolves
      begin_shutdown_evolves\<close>)

text \<open>The exit a message reports of a running process, by the id it names.\<close>

fun exit_of :: "Msg \<Rightarrow> nat option" where
  "exit_of (MExited i outcome) = Some i"
| "exit_of _ = None"

lemma handle_msg_steady:
  assumes st: "steady s" and so: "sound w msg" "\<not> late_verdict msg s"
  shows "steady (snd (handle_msg w msg s)) \<and> panicked (snd (handle_msg w msg s)) = panicked s \<and>
    prefix (out s) (out (snd (handle_msg w msg s))) \<and>
    (exit_of msg = None \<longrightarrow> prefix (pending_replies s) (pending_replies (snd (handle_msg w msg s)))) \<and>
    balance k (snd (handle_msg w msg s)) = balance k s + (if exit_of msg = Some k \<and> running s k then 1 else 0)"
proof (cases msg)
  case (MExited i outcome)
  then show ?thesis using handle_exited_steady[OF st, of w i outcome k] by auto
next
  case (MCommand cmd)
  then show ?thesis using handle_command_evolves[OF st] so by (simp add: evolves_def)
next
  case (MLambLabel root pid label)
  then show ?thesis using says_evolves[OF st only_says_effect[of "LabelLamb root pid label"]] by (simp add: evolves_def)
next
  case (MReloadVerified nm i readiness)
  have "keeps s (handle_reload_verified w nm i readiness s)"
    using so MReloadVerified by (intro handle_reload_verified_keeps[OF steadyD(1)[OF st]]) auto
  then show ?thesis using keeps_evolves[OF st] MReloadVerified by (simp add: evolves_def)
qed (use keeps_evolves[OF st handle_restart_due_keeps[OF steadyD(1)[OF st]]]
      keeps_evolves[OF st handle_ready_signal_keeps[OF steadyD(1)[OF st]]]
      keeps_evolves[OF st handle_reload_deadline_keeps[OF steadyD(1)[OF st]]]
      keeps_evolves[OF st handle_action_reply_keeps[OF steadyD(1)[OF st]]]
      keeps_evolves[OF st handle_action_result_keeps[OF steadyD(1)[OF st]]]
      keeps_evolves[OF st handle_ready_result_keeps[OF steadyD(1)[OF st]]]
    in \<open>simp_all add: evolves_def\<close>)

lemma prune_keeps: "flock_but X s \<Longrightarrow> keeps_but X s (prune_listeners (prune_disabled (announce_dog_tables s)))"
proof -
  assume f: "flock_but X s"
  let ?s = "announce_dog_tables s"
  note a = announce_keeps[OF f]
  have k: "keeps_but X s (prune_disabled ?s)"
    unfolding prune_disabled_def by (rule keeps_trans[OF a disabled_keeps[OF keeps_flock[OF a]]])
  have "keeps_but X s' (prune_listeners s')" if "flock_but X s'" for s'
    using that by (intro frame_keeps) (auto simp: prune_listeners_def Let_def dest: flock_butD)
  then show ?thesis using keeps_trans[OF k] keeps_flock[OF k] by blast
qed

lemma turn_steady:
  assumes st: "steady s" and so: "sound w msg" "\<not> late_verdict msg s" and t: "turn w msg s = (stop, s')"
  shows "steady s'" "panicked s' = panicked s" "prefix (out s) (out s')"
    "exit_of msg = None \<Longrightarrow> prefix (pending_replies s) (pending_replies s')"
    "balance k s' = balance k s + (if exit_of msg = Some k \<and> running s k then 1 else 0)"
proof -
  let ?h = "snd (handle_msg w msg s)"
  note h = handle_msg_steady[OF st so, of k]
  have s': "s' = prune_listeners (prune_disabled (announce_dog_tables ?h))" using t by (simp add: turn_def split_beta)
  have e: "evolves ?h s'" using h unfolding s' by (intro keeps_evolves prune_keeps) (simp_all add: steadyD)
  then show "steady s'" "panicked s' = panicked s"
    "balance k s' = balance k s + (if exit_of msg = Some k \<and> running s k then 1 else 0)"
    using h by (simp_all add: evolves_def)
  show "prefix (out s) (out s')" "exit_of msg = None \<Longrightarrow> prefix (pending_replies s) (pending_replies s')"
    using e h by (auto simp: evolves_def intro: prefix_order.trans)
qed

text \<open>
  The states the run loop reaches, with the messages that led there, from whatever the builder was
  given; \<open>late\<close> records whether a late verdict was among them. Any message may come at any time.
\<close>

inductive reached :: "bool \<Rightarrow> (world \<times> Msg) list \<Rightarrow> actor \<Rightarrow> bool" where
  reached_init: "reached False [] (build_actor b store)"
| reached_turn: "reached (late \<or> late_verdict msg s) (h @ [(w, msg)]) s'"
    if "reached late h s" "sound w msg" "turn w msg s = (stop, s')"

definition exits :: "nat \<Rightarrow> (world \<times> Msg) list \<Rightarrow> nat" where
  "exits i h = length (filter (\<lambda>(w, msg). exit_of msg = Some i) h)"

lemma build_steady: "steady (build_actor b store)"
  by (simp add: steady_def flock_but_def keys_ok_def jobs_ok_def pend_ok_def build_actor_def get_slot_def get_job_def)

lemma reached_late:
  assumes "reached late h s" "\<not> late"
  shows "steady s \<and> \<not> panicked s \<and> balance i s \<le> int (exits i h)"
  using assms
proof (induction rule: reached.induct)
  case (reached_init b store)
  show ?case using build_steady by (simp add: build_actor_def balance_def running_def get_slot_def exits_def)
next
  case (reached_turn late h s w msg stop s')
  have st: "steady s" "\<not> panicked s" "balance i s \<le> int (exits i h)" "\<not> late_verdict msg s"
    using reached_turn.IH reached_turn.prems by auto
  note t = turn_steady[OF st(1) reached_turn.hyps(2) st(4) reached_turn.hyps(3)]
  show ?case using t(1,2) t(5)[of i] st(2,3) by (auto simp: exits_def)
qed

lemma reached_invariant:
  assumes "reached False h s"
  shows "steady s" "\<not> panicked s" "balance i s \<le> int (exits i h)"
  using reached_late[OF assms, of i] by simp_all

end
