(* ===== verification/Progress.thy ===== *)
theory Progress
  imports Supervisor
begin

text \<open>
  Deferred answers arrive: every exit strikes its id from the replies waiting on it, no other message
  takes a reply away, nobody waits on a process that is not on its way out, and so the exits of the
  processes waited on answer every caller and end a shutdown, whatever comes between them.
\<close>

subsection \<open>One turn\<close>

lemma turn_fst [simp]: "fst (turn w msg s) = fst (handle_msg w msg s)"
  by (simp add: turn_def split_beta)

lemma turn_keeps:
  assumes "steady (snd (handle_msg w msg s))"
  shows "keeps (snd (handle_msg w msg s)) (snd (turn w msg s))"
  using prune_keeps[OF steadyD(1)[OF assms]] by (simp add: turn_def split_beta)

lemma turn_pending:
  assumes "steady (snd (handle_msg w msg s))"
  shows "pending_replies (snd (turn w msg s)) = pending_replies (snd (handle_msg w msg s))"
  using turn_keeps[OF assms] by (simp add: keeps_but_def)

lemma exit_turn_strikes:
  assumes st: "steady s" and i: "get_slot s i \<noteq> None"
  shows "strikes i (pending_replies s) (fst (turn w (MExited i oc) s)) (pending_replies (snd (turn w (MExited i oc) s)))
    (since s (snd (turn w (MExited i oc) s)))"
proof -
  let ?h = "snd (handle_msg w (MExited i oc) s)" and ?t = "snd (turn w (MExited i oc) s)"
  have h: "steady ?h" "prefix (out s) (out ?h)" using handle_exited_steady[OF st] by simp_all
  have "prefix (out ?h) (out ?t)" using turn_keeps[OF h(1)] by (simp add: keeps_but_def)
  from since_trans[OF h(2) this] have "set (since s ?h) \<subseteq> set (since s ?t)" by simp
  from strikes_more[OF handle_exited_strikes[OF assms], of _ _ "since s ?t"] this show ?thesis
    using turn_pending[OF h(1)] by simp
qed

text \<open>An exit of an id that is gone strikes nothing: nobody waits on it.\<close>

lemma exit_turn_gone:
  assumes st: "steady s" and i: "get_slot s i = None"
  shows "pending_replies (snd (turn w (MExited i oc) s)) = pending_replies s"
    "\<forall>p \<in> set (pending_replies s). i \<notin> set (pr_remaining p)"
proof -
  have "\<not> claimed s i" using i by (simp add: claimed_def)
  then show "\<forall>p \<in> set (pending_replies s). i \<notin> set (pr_remaining p)"
    using steadyD(2)[OF st] by (auto simp: pend_ok_def)
  have h: "handle_msg w (MExited i oc) s = (False, snd (take_oom w i s))"
    using i by (simp add: handle_exited_def split_beta)
  have k: "keeps s (snd (take_oom w i s))" by (rule take_oom_keeps[OF steadyD(1)[OF st]])
  then have "steady (snd (take_oom w i s))" using evolves_steady[OF keeps_evolves[OF st]] by blast
  then show "pending_replies (snd (turn w (MExited i oc) s)) = pending_replies s"
    using turn_pending[of w "MExited i oc" s] k h by (simp add: keeps_but_def)
qed

text \<open>
  What a turn makes of one deferred reply: the id that exited is struck from it; it is answered when
  none is left, ending the loop if it was a shutdown's, and otherwise it still waits.
\<close>

definition heir :: "PendingReply \<Rightarrow> PendingReply \<Rightarrow> bool" where
  "heir p q \<longleftrightarrow> pr_reply q = pr_reply p \<and> prefix (pr_results p) (pr_results q)"

lemma heir_trans: "heir p q \<Longrightarrow> heir q r \<Longrightarrow> heir p r"
  by (auto simp: heir_def intro: prefix_order.trans)

lemma strikes_heir:
  assumes "strikes i ps stop ps' es" "p \<in> set ps"
  shows "\<exists>q. heir p q \<and> set (pr_remaining q) = set (pr_remaining p) - {i} \<and>
    (if pr_remaining q = [] then answer_of q \<in> set es \<and> (is_shutdown (pr_reply p) \<longrightarrow> stop) else q \<in> set ps')"
proof -
  obtain info where e: "ps' = filter (\<lambda>p. pr_remaining p \<noteq> []) (map (without_id i info) ps)"
    "stop = list_ex (\<lambda>p. is_shutdown (pr_reply p) \<and> pr_remaining (without_id i info p) = []) ps"
    "answer_of ` set (filter (\<lambda>p. pr_remaining p = []) (map (without_id i info) ps)) \<subseteq> set es"
    using assms(1) by (auto simp: strikes_def)
  let ?q = "without_id i info p"
  have "heir p ?q" "set (pr_remaining ?q) = set (pr_remaining p) - {i}" by (auto simp: without_id_def heir_def)
  moreover have "answer_of ?q \<in> set es \<and> (is_shutdown (pr_reply p) \<longrightarrow> stop)" if "pr_remaining ?q = []"
  proof
    have "?q \<in> set (filter (\<lambda>p. pr_remaining p = []) (map (without_id i info) ps))" using that assms(2) by simp
    then show "answer_of ?q \<in> set es" using e(3) by blast
    show "is_shutdown (pr_reply p) \<longrightarrow> stop" using e(2) that assms(2) by (auto simp: list_ex_iff)
  qed
  moreover have "?q \<in> set ps'" if "pr_remaining ?q \<noteq> []" using e(1) that assms(2) by simp
  ultimately show ?thesis by (intro exI[of _ ?q]) simp
qed

lemma turn_heir:
  assumes st: "steady s" and so: "sound w msg" "\<not> late_verdict msg s" and p: "p \<in> set (pending_replies s)"
  shows "\<exists>q. heir p q \<and> set (pr_remaining q) = set (pr_remaining p) - set_option (exit_of msg) \<and>
    (if pr_remaining q = [] then answer_of q \<in> set (since s (snd (turn w msg s))) \<and>
        (is_shutdown (pr_reply p) \<longrightarrow> fst (turn w msg s))
     else q \<in> set (pending_replies (snd (turn w msg s))))"
proof -
  have ne: "pr_remaining p \<noteq> []" using steadyD(2)[OF st] p by (auto simp: pend_ok_def)
  have stay: ?thesis
    if "p \<in> set (pending_replies (snd (turn w msg s)))" "set (pr_remaining p) \<inter> set_option (exit_of msg) = {}"
    using that ne by (intro exI[of _ p]) (auto simp: heir_def)
  show ?thesis
  proof (cases "exit_of msg")
    case None
    have "prefix (pending_replies s) (pending_replies (snd (turn w msg s)))"
      by (rule turn_steady(4)[OF st so surjective_pairing None])
    then show ?thesis using p None set_mono_prefix by (intro stay) auto
  next
    case (Some i)
    then obtain oc where m: "msg = MExited i oc" by (cases msg) auto
    show ?thesis
    proof (cases "get_slot s i")
      case None
      then show ?thesis using exit_turn_gone(1)[OF st None, of w oc] exit_turn_gone(2)[OF st None] p m by (intro stay) auto
    next
      case (Some sl)
      then have "get_slot s i \<noteq> None" by simp
      from strikes_heir[OF exit_turn_strikes[OF st this] p] show ?thesis unfolding m exit_of.simps option.set .
    qed
  qed
qed

subsection \<open>A run\<close>

text \<open>A run of messages as the rest of the program may send them, none a late verdict.\<close>

fun timely :: "(world \<times> Msg) list \<Rightarrow> actor \<Rightarrow> bool" where
  "timely [] s \<longleftrightarrow> True"
| "timely ((w, msg) # rest) s \<longleftrightarrow> sound w msg \<and> \<not> late_verdict msg s \<and> timely rest (snd (turn w msg s))"

definition exit_ids :: "(world \<times> Msg) list \<Rightarrow> nat set" where
  "exit_ids msgs = set (List.map_filter (\<lambda>(w, msg). exit_of msg) msgs)"

lemma exit_ids_simps [simp]:
  "exit_ids [] = {}" "exit_ids ((w, msg) # msgs) = set_option (exit_of msg) \<union> exit_ids msgs"
  by (auto simp: exit_ids_def map_filter_simps split: option.splits)

fun stops :: "(world \<times> Msg) list \<Rightarrow> actor \<Rightarrow> bool" where
  "stops [] s \<longleftrightarrow> False"
| "stops ((w, msg) # rest) s \<longleftrightarrow> fst (turn w msg s) \<or> stops rest (snd (turn w msg s))"

lemma run_prefix:
  assumes "steady s" "timely msgs s"
  shows "prefix (out s) (out (run msgs s))"
  using assms
proof (induction msgs arbitrary: s)
  case (Cons x msgs)
  obtain w msg where x: "x = (w, msg)" by (cases x)
  have so: "sound w msg" "\<not> late_verdict msg s" using Cons.prems(2) x by simp_all
  note t = turn_steady[OF Cons.prems(1) so surjective_pairing]
  have "prefix (out (snd (turn w msg s))) (out (run msgs (snd (turn w msg s))))"
    using Cons.prems(2) x by (intro Cons.IH[OF t(1)]) simp
  then show ?case using t(3) x by (auto simp: split_beta intro: prefix_order.trans)
qed simp

lemma exits_answer:
  assumes "steady s" "timely msgs s" "p \<in> set (pending_replies s)" "set (pr_remaining p) \<subseteq> exit_ids msgs"
  shows "stops msgs s \<or> \<not> is_shutdown (pr_reply p) \<and> (\<exists>q. heir p q \<and> answer_of q \<in> set (since s (run msgs s)))"
  using assms
proof (induction msgs arbitrary: s p)
  case Nil
  then show ?case using steadyD(2)[OF Nil.prems(1)] by (auto simp: pend_ok_def)
next
  case (Cons x msgs)
  obtain w msg where x: "x = (w, msg)" by (cases x)
  let ?s = "snd (turn w msg s)"
  have so: "sound w msg" "\<not> late_verdict msg s" "timely msgs ?s" using Cons.prems(2) x by simp_all
  note t = turn_steady[OF Cons.prems(1) so(1,2) surjective_pairing]
  obtain q where q: "heir p q" "set (pr_remaining q) = set (pr_remaining p) - set_option (exit_of msg)"
    "if pr_remaining q = [] then answer_of q \<in> set (since s ?s) \<and> (is_shutdown (pr_reply p) \<longrightarrow> fst (turn w msg s))
     else q \<in> set (pending_replies ?s)"
    using turn_heir[OF Cons.prems(1) so(1,2) Cons.prems(3)] by blast
  have sn: "since s (run msgs ?s) = since s ?s @ since ?s (run msgs ?s)"
    by (rule since_trans[OF t(3) run_prefix[OF t(1) so(3)]])
  show ?case
  proof (cases "fst (turn w msg s)")
    case False
    then have run: "run (x # msgs) s = run msgs ?s" "stops (x # msgs) s \<longleftrightarrow> stops msgs ?s"
      using x by (simp_all add: split_beta)
    show ?thesis
    proof (cases "pr_remaining q = []")
      case True
      then show ?thesis using q False unfolding run sn by auto
    next
      case busy: False
      have "set (pr_remaining q) \<subseteq> exit_ids msgs" using q(2) Cons.prems(4) x by auto
      moreover have "q \<in> set (pending_replies ?s)" using q(3) busy by simp
      ultimately consider "stops msgs ?s"
        | r where "\<not> is_shutdown (pr_reply q)" "heir q r" "answer_of r \<in> set (since ?s (run msgs ?s))"
        using Cons.IH[OF t(1) so(3)] by blast
      then show ?thesis
      proof cases
        case 2
        have "pr_reply q = pr_reply p" using q(1) by (simp add: heir_def)
        then show ?thesis using 2 heir_trans[OF q(1) 2(2)] unfolding run sn by auto
      qed (simp add: run)
    qed
  qed (use x in simp)
qed

lemma begin_shutdown_waits:
  assumes "steady s" "\<not> fst (begin_shutdown c s)"
  shows "\<exists>p \<in> set (pending_replies (snd (begin_shutdown c s))). is_shutdown (pr_reply p) \<and>
    set (pr_remaining p) \<subseteq> {i. running s i}"
proof -
  have "running s i" if "(i, sl) \<in> set (sheep s)" "sl_ctl sl" for i sl
    using that get_slot_in_sheep[OF flock_butD(2)[OF steadyD(1)[OF assms(1)]], of i sl] by (simp add: running_def)
  then show ?thesis using assms(2) by (auto simp: begin_shutdown_def Let_def split: if_splits)
qed

end
