(* ===== verification/Quiescence.thy ===== *)
theory Quiescence
  imports Progress
begin

text \<open>
  Once a shutdown has begun nothing is started: no message but a scale spawns a process, and
  no reload is under way or begun. (\<open>shutting_down\<close> in \<open>supervisor/mod.rs\<close> and every guard
  that reads it.)
\<close>

definition closing :: "actor \<Rightarrow> bool" where
  "closing s \<longleftrightarrow> shutting_down s \<and> reloads s = []"

definition calm :: "actor \<Rightarrow> actor \<Rightarrow> bool" where
  "calm s s' \<longleftrightarrow> closing s \<longrightarrow> closing s' \<and> (\<forall>k. spawns_of k (out s') = spawns_of k (out s))"

lemma calm_refl: "calm s s"
  by (simp add: calm_def)

lemma calm_trans: "calm s s' \<Longrightarrow> calm s' s'' \<Longrightarrow> calm s s''"
  by (simp add: calm_def)

lemma calm_frame:
  "shutting_down s' = shutting_down s \<Longrightarrow> reloads s' = reloads s \<Longrightarrow>
    (\<And>k. spawns_of k (out s') = spawns_of k (out s)) \<Longrightarrow> calm s s'"
  by (simp add: calm_def closing_def)

lemma closing_job [simp]: "closing s \<Longrightarrow> get_job s nm = None"
  by (simp add: closing_def get_job_def)

lemma calm_closing: "(closing s \<Longrightarrow> calm s s') \<Longrightarrow> calm s s'"
  by (auto simp: calm_def)

lemma calm_fold: "(\<And>x s. calm s (f x s)) \<Longrightarrow> calm s (fold f xs s)"
proof (induction xs arbitrary: s)
  case (Cons x xs)
  show ?case using calm_trans[OF Cons.prems Cons.IH[OF Cons.prems], of s x] by simp
qed (simp add: calm_refl)

named_theorems calm "operations that start nothing in a daemon that is closing"

lemma calm_effect [calm]: "quiet e \<Longrightarrow> calm s (effect e s)"
  by (rule calm_frame) simp_all

lemma calm_primitives [calm]:
  "calm s (upd_slot i f s)" "calm s (del_slot i s)" "calm s (put_slot i sl s)" "calm s (emit ev info m s)"
  "calm s (disarm_extras i nm s)" "calm s (arm_extras i s)" "calm s (schedule_restart i ep d s)"
  "calm s (panic s)" "calm s (debug_assert b s)" "calm s (send_reply r oc s)"
  "calm s (s\<lparr> disabled := dis \<rparr>)" "calm s (s\<lparr> smits := sm \<rparr>)" "calm s (s\<lparr> pending_replies := ps \<rparr>)"
  "calm s (s\<lparr> next_id := n \<rparr>)" "calm s (s\<lparr> oom_baselines := oo \<rparr>)" "calm s (s\<lparr> sheep := sh \<rparr>)"
  "calm s (s\<lparr> overrides_file := fl \<rparr>)" "calm s (s\<lparr> announced := an \<rparr>)"
  by (rule calm_frame; simp)+

lemma calm_expect [calm]: "calm s (expect_slot i s)"
  by (simp add: expect_slot_def calm_refl calm_primitives)

lemma calm_set_status [calm]: "calm s (snd (set_status w i st s))"
  using calm_trans[OF calm_expect calm_primitives(1)] by (simp add: set_status_def Let_def)

lemma calm_claim [calm]: "calm s (claim_manual i m cap s)"
  by (rule calm_frame) (auto simp: claim_manual_def Let_def split: option.splits CommandOrigin.splits)

lemma calm_resolve [calm]: "calm s (snd (resolve_pending i info s))"
proof -
  obtain b s' where r: "resolve_pending i info s = (b, s')" by fastforce
  show ?thesis
    using resolve_pending_frame(5,7)[OF r] resolve_pending_spec(3)[OF r] r by (intro calm_frame) simp_all
qed

lemma calm_apply_stop [calm]: "calm s (snd (apply_stop w i m s))"
  by (rule calm_frame) (auto simp: apply_stop_def Let_def split: option.splits)

lemma calm_immediate: "kind \<noteq> MRestart \<Longrightarrow> calm s (snd (apply_immediate w i kind origin s))"
  using calm_apply_stop
  by (cases kind) (auto simp: apply_immediate_def Let_def split: option.splits intro!: calm_frame)

lemma calm_manual_loop: "kind \<noteq> MRestart \<Longrightarrow> calm s (snd (snd (manual_loop w kind origin ids rem res s)))"
proof (induction ids arbitrary: rem res s)
  case (Cons i ids)
  let ?m = "\<lparr> m_kind = kind, m_origin = origin \<rparr>"
  let ?s = "if kind = MDelete then upd_slot i (\<lambda>sl. sl\<lparr> sl_pending_delete := True \<rparr>) (claim_manual i ?m StopCap s)
    else claim_manual i ?m StopCap s"
  have c: "calm s ?s" using calm_claim calm_trans[OF calm_claim calm_primitives(1)] by simp
  obtain r s1 where a: "apply_immediate w i kind origin s = (r, s1)" by fastforce
  have "calm s s1" using calm_immediate[OF Cons.prems, of s w i origin] a by simp
  from calm_trans[OF this Cons.IH[OF Cons.prems]] calm_trans[OF c Cons.IH[OF Cons.prems]] show ?case
    using Cons.IH[OF Cons.prems, of s] a by (cases r; cases origin; cases kind; simp add: Let_def)
qed (simp add: calm_refl)

lemma calm_manual_ids: "kind \<noteq> MRestart \<Longrightarrow> calm s (begin_manual_ids w ids kind origin r s)"
  using calm_manual_loop[of kind s w origin ids "[]" "[]"] calm_trans calm_primitives(10,13)
  by (cases "manual_loop w kind origin ids [] [] s") (fastforce simp: begin_manual_ids_def)

lemma calm_manual: "kind \<noteq> MRestart \<Longrightarrow> calm s (begin_manual w sel kind origin r s)"
  using calm_manual_ids calm_primitives(10) by (auto simp: begin_manual_def Let_def split: list.splits)

subsection \<open>Exits\<close>

lemma calm_delete_exited [calm]: "calm s (snd (delete_exited w i s))"
  by (rule calm_frame) (auto simp: delete_exited_def Let_def split: option.splits)

lemma calm_decision [calm]: "calm s (snd (apply_decision w i kind pd d s))"
proof -
  have "calm s (disarm_extras i nm (emit ev info m (snd (set_status w i st s))))"
    "calm s (emit ev info m (disarm_extras i nm (snd (set_status w i st s))))"
    "calm s (schedule_restart i ep dl (upd_slot i f (emit ev info m (snd (set_status w i st s)))))"
    for nm ev info m st ep dl f
    by (rule calm_trans[OF calm_set_status]; rule calm_frame; simp)+
  then show ?thesis
    using calm_delete_exited by (cases d) (auto simp: apply_decision_def Let_def split_beta)
qed

lemma calm_decide_exit: "calm s (snd (decide_exit w i oc man pd st oom s))"
proof (rule calm_closing)
  assume c: "closing s"
  have r: "calm s (snd (resolve_pending i info s1))" if "calm s s1" for info s1
    by (rule calm_trans[OF that calm_resolve])
  show "calm s (snd (decide_exit w i oc man pd st oom s))"
    using c r[OF calm_delete_exited] r[OF calm_expect] r[OF calm_trans[OF calm_primitives(1) calm_decision]]
      calm_primitives(8)
    by (auto simp: decide_exit_def Let_def split_beta closing_def split: option.splits)
qed

lemma calm_deregister [calm]: "calm s (snd (deregister_on_exit w i s))"
proof -
  have "calm s (disarm_extras i nm (emit ev info m (del_slot i s)))" for nm ev info m by (rule calm_frame) simp_all
  from calm_trans[OF this calm_resolve] show ?thesis
    using calm_primitives(8) by (auto simp: deregister_on_exit_def Let_def split: option.splits)
qed

lemma calm_abort [calm]: "calm s (abort_reload w nm s)"
  by (rule calm_closing) (simp add: abort_reload_def calm_refl)

lemma closing_reloads: "closing s \<Longrightarrow> reload_of s i = None \<and> serial_drain_of s i = None \<and> uncommitted_swap_of s i = None"
  by (simp add: closing_def reload_of_def serial_drain_of_def uncommitted_swap_of_def)

lemma closing_orphaned: "closing s \<Longrightarrow> end_orphaned_swap w i s = s"
  using closing_reloads[of s i] by (simp add: end_orphaned_swap_def)

lemma calm_reap [calm]: "calm s (snd (reap_drainee w i s))"
proof (rule calm_closing)
  assume c: "closing s"
  have "calm s (snd (deregister_on_exit w i s))" by (rule calm_deregister)
  moreover from this have "closing (snd (deregister_on_exit w i s))" using c by (simp add: calm_def)
  ultimately show "calm s (snd (reap_drainee w i s))"
    using closing_reloads[OF c] closing_reloads by (simp add: reap_drainee_def Let_def split_beta)
qed

lemma calm_answer_abandoned [calm]: "calm s (answer_abandoned stamps s)"
  unfolding answer_abandoned_def by (rule calm_fold) (simp add: calm_effect)

lemma calm_take_oom [calm]: "calm s (snd (take_oom w i s))"
  by (rule calm_frame) (auto simp: take_oom_def Let_def split: option.splits)

lemma calm_handle_exited: "calm s (snd (handle_exited w i oc s))"
proof (rule calm_closing)
  assume c: "closing s"
  let ?s1 = "\<lambda>sl. answer_abandoned (fst (abandon_all (sl_actions sl))) (snd (take_oom w i s))"
  let ?s2 = "\<lambda>sl. upd_slot i (exited_slot oc) (?s1 sl)"
  have c2: "calm s (?s2 sl)" for sl
    by (rule calm_trans[OF calm_trans[OF calm_take_oom calm_answer_abandoned] calm_primitives(1)])
  then have r: "reload_of (?s2 sl) k = None \<and> uncommitted_swap_of (?s2 sl) k = None" for sl k
    using c closing_reloads by (auto simp: calm_def)
  have c3: "calm s (clear_reload i (?s2 sl))" for sl
    unfolding clear_reload_def by (rule calm_trans[OF c2 calm_primitives(1)])
  then have r3: "reload_of (clear_reload i (?s2 sl)) k = None \<and> uncommitted_swap_of (clear_reload i (?s2 sl)) k = None" for sl k
    using c closing_reloads by (auto simp: calm_def)
  have o: "end_orphaned_swap w i (clear_reload i (?s2 sl)) = clear_reload i (?s2 sl)" for sl
    using c c3[of sl] by (intro closing_orphaned) (simp add: calm_def)
  show "calm s (snd (handle_exited w i oc s))"
  proof (cases "get_slot s i")
    case None
    then show ?thesis using calm_take_oom by (simp add: handle_exited_def split_beta)
  next
    case (Some sl)
    then show ?thesis
      using calm_trans[OF c2 calm_decide_exit] calm_trans[OF c2 calm_reap] calm_trans[OF c3 calm_decide_exit] r[of sl i] r3[of sl i] o[of sl]
      by (cases "e_reload (sl_entry sl)") (simp_all add: handle_exited_def Let_def split_beta)
  qed
qed

subsection \<open>The other messages\<close>

lemma calm_register [calm]: "calm s (snd (register_without_spawning w app st dog s))"
  by (rule calm_frame) (auto simp: register_without_spawning_def Let_def split: option.splits)

lemma calm_map_state: "(\<And>x s. calm s (snd (f x s))) \<Longrightarrow> calm s (snd (map_state f xs s))"
proof (induction xs arbitrary: s)
  case (Cons x xs)
  show ?case using calm_trans[OF Cons.prems Cons.IH[OF Cons.prems], of s x] by (simp add: Let_def split_beta)
qed (simp add: calm_refl)

lemma calm_register_at_rest [calm]: "calm s (snd (register_at_rest w app s))"
  using calm_register by (simp add: register_at_rest_def)

lemma calm_register_dog [calm]: "calm s (snd (register_dog_at_rest w app src dis s))"
proof -
  have r: "calm s (snd (register_without_spawning w app Stopped (Some src) s))" by (rule calm_register)
  have "calm s ((snd (register_without_spawning w app Stopped (Some src) s))\<lparr> disabled := d \<rparr>)" for d
    by (rule calm_trans[OF r calm_primitives(11)])
  then show ?thesis
    using r by (cases "register_without_spawning w app Stopped (Some src) s")
      (auto simp: register_dog_at_rest_def Let_def split: Registration.splits)
qed

lemma calm_abandon [calm]: "calm s (fold (abandon_serial_drain w) names s)"
proof (rule calm_closing)
  assume "closing s"
  then have "fold (abandon_serial_drain w) names s = s"
    by (induction names) (simp_all add: abandon_serial_drain_def)
  then show "calm s (fold (abandon_serial_drain w) names s)" by (simp add: calm_refl)
qed

lemma calm_remark [calm]: "calm s (remark names a b s)"
  by (simp add: remark_def calm_primitives)

lemma calm_disable_apps [calm]: "calm s (disable_apps w names r s)"
proof -
  have "calm s ((fold (abandon_serial_drain w) names (remark names MRestart MStop s))\<lparr> disabled := d \<rparr>)" for d
    by (rule calm_trans[OF calm_trans[OF calm_remark calm_abandon] calm_primitives(11)])
  then show ?thesis
    using calm_trans[OF _ calm_manual_ids[of MStop]] by (simp add: disable_apps_def Let_def)
qed

subsection \<open>Loads and panes\<close>

lemma calm_each_slot [calm]: "calm s (each_slot nm f s)"
  unfolding each_slot_def by (rule calm_fold) (rule calm_primitives(1))

lemma calm_fold_pair:
  assumes "\<And>x acc s. calm s (snd (f x (acc, s)))"
  shows "calm s (snd (fold f xs (acc, s)))"
proof (induction xs arbitrary: acc s)
  case (Cons x xs)
  obtain acc' s' where x: "f x (acc, s) = (acc', s')" by fastforce
  have k: "calm s s'" using assms[of s x acc] x by simp
  show ?case using calm_trans[OF k Cons.IH[of s' acc']] x by simp
qed (simp add: calm_refl)

lemma calm_extras_change [calm]: "calm s (apply_extras_change w nm s)"
proof -
  have f: "calm s (snd (fold (rewrite_memory_slot w) xs (acc, s)))" for xs acc
    by (rule calm_fold_pair) (auto simp: rewrite_memory_slot_def Let_def calm_refl calm_effect)
  have "calm s (rewrite_memory_max w nm s)"
    using calm_trans[OF f calm_primitives(15)] by (simp add: rewrite_memory_max_def split_beta)
  from calm_trans[OF this calm_effect] show ?thesis by (simp add: apply_extras_change_def rearm_name_def Let_def)
qed

lemma calm_cgroup_limits [calm]: "calm s (snd (rewrite_cgroup_limits w nm s))"
proof -
  have "calm s (snd (rewrite_limits_slot w x (acc, s)))" for x acc and s :: actor
    using calm_trans[OF calm_effect calm_effect] by (cases x) (simp add: rewrite_limits_slot_def Let_def calm_refl)
  from calm_fold_pair[OF this] show ?thesis by (simp add: rewrite_cgroup_limits_def split_beta)
qed

lemma calm_written:
  assumes "calm s s1"
  shows "calm s (if b1 then apply_extras_change w nm s1 else s1)"
    "calm s (snd (if b2 then rewrite_cgroup_limits w nm s1 else (u, s1)))"
    "calm s (snd (if b2 then (x, snd (rewrite_cgroup_limits w nm s1)) else (y, s1)))"
  using assms calm_trans[OF assms calm_extras_change] calm_trans[OF assms calm_cgroup_limits] by simp_all

lemma calm_settle:
  "calm s (snd (snd (settle_app w nm reset ov changes spawned merged nov ln ns rs inst ids count notes s)))"
  unfolding settle_app_def Let_def split_beta snd_conv
  by (rule calm_trans[OF calm_written(2)[OF calm_written(1)[OF calm_each_slot]] calm_each_slot])

text \<open>While the daemon is closing a load does not reshape a flock.\<close>

lemma closing_route: "closing s \<Longrightarrow> snd (route_count w nm inst spawned merged s) = s"
  by (simp add: route_count_def closing_def)

lemma calm_apply_one: "calm s (snd (snd (apply_one w incoming reset ov changes s)))"
proof (rule calm_closing)
  assume "closing s"
  then have r: "route_count w nm inst spawned merged s = (fst (route_count w nm inst spawned merged s), s)"
    for nm inst spawned merged using closing_route by (metis prod.collapse)
  have s: "calm s (snd (snd (case route_count w nm inst spawned merged s of
      (Inl m, s) \<Rightarrow> (f m, changes, s)
    | (Inr (count, notes), s) \<Rightarrow> settle_app w nm reset ov changes spawned' merged' nov ln ns rs inst' ids count (g notes) s)))"
    for nm inst spawned merged f spawned' merged' nov ln ns rs inst' ids g
    using calm_settle by (subst r) (auto simp: calm_refl split: sum.splits)
  show "calm s (snd (snd (apply_one w incoming reset ov changes s)))"
    unfolding apply_one_def Let_def using s calm_refl by (auto split: option.splits sum.splits)
qed

lemma calm_apply_each: "calm s (snd (snd (apply_each w reset store apps changes s)))"
proof (induction apps arbitrary: changes s)
  case (Cons incoming apps)
  show ?case using calm_trans[OF calm_apply_one Cons.IH] by (simp add: Let_def split_beta)
qed (simp add: calm_refl)

lemma calm_apply_config: "calm s (snd (handle_apply_config w apps reset s))"
  using calm_trans[OF calm_apply_each calm_primitives(17)]
  by (auto simp: handle_apply_config_def Let_def split_beta calm_refl split: sum.splits)

lemma calm_on_ok: "(\<And>x. r = Inr x \<Longrightarrow> calm s (snd (k x))) \<Longrightarrow> calm s (snd (on_ok r s k))"
  by (cases r) (simp_all add: calm_refl)

lemma calm_mutate: "calm s (snd (mutate_override w nm f s))"
proof -
  have "calm s (snd (on_ok r (s\<lparr> overrides_file := d \<rparr>) (\<lambda>_. (Inr ov, s\<lparr> overrides_file := d \<rparr>))))"
    for r :: "SupervisorError + unit" and d ov
    using calm_primitives(17) by (cases r) simp_all
  then show ?thesis unfolding mutate_override_def Let_def split_beta by (intro calm_on_ok)
qed

lemma calm_record:
  assumes "\<And>ov s. calm s (snd (k ov s))"
  shows "calm s (snd (case mutate_override w nm g s of (r, s) \<Rightarrow> on_ok r s (\<lambda>ov. k ov s)))"
proof -
  have "calm s' (snd (on_ok r s' (\<lambda>ov. k ov s')))" for r s' by (rule calm_on_ok) (rule assms)
  from calm_trans[OF calm_mutate this] show ?thesis by (simp add: split_beta)
qed

lemma calm_branch: "calm s (snd y) \<Longrightarrow> calm s (snd (if b then (x, s) else y))"
  by (simp add: calm_refl)

lemma calm_option:
  "calm s (snd a) \<Longrightarrow> (\<And>z. calm s (snd (f z))) \<Longrightarrow> calm s (snd (case x of None \<Rightarrow> a | Some z \<Rightarrow> f z))"
  by (cases x) simp_all

lemma calm_same: "calm s (snd (v, s))"
  by (simp add: calm_refl)

lemma calm_park: "calm s (snd (v, park_slots nm parked ov s))"
  by (simp add: park_slots_def calm_each_slot)

lemma calm_set_env: "calm s (snd (handle_set_sheep_env w nm key v s))"
  unfolding handle_set_sheep_env_def Let_def
  by (rule calm_option, rule calm_same, rule calm_on_ok, rule calm_option, rule calm_same, rule calm_on_ok,
      rule calm_record, rule calm_park)

lemma calm_set_env_batch: "calm s (snd (handle_set_sheep_env_batch w nm entries force dry s))"
  unfolding handle_set_sheep_env_batch_def Let_def
  by (rule calm_option, rule calm_same, rule calm_on_ok, rule calm_option, rule calm_same, rule calm_branch,
      rule calm_on_ok, rule calm_branch, rule calm_record, rule calm_park)

lemma calm_copy_env: "calm s (snd (handle_copy_sheep_env w src dst replace except dry expected s))"
  unfolding handle_copy_sheep_env_def Let_def
  by (rule calm_on_ok, rule calm_on_ok, rule calm_on_ok, rule calm_on_ok, rule calm_on_ok, rule calm_on_ok,
      rule calm_option, rule calm_branch, rule calm_on_ok, rule calm_branch, rule calm_record, rule calm_park,
      rule calm_same)

lemma calm_field_written: "calm s (snd (field_written w nm key v merged next_spec warning overridden s))"
  unfolding field_written_def Let_def split_beta snd_conv fst_conv
  by (rule calm_written(3)[OF calm_written(1)[OF calm_each_slot]])

lemma calm_sheep_field: "calm s (snd (apply_sheep_field w nm key source s))"
proof -
  have written: "calm s (snd (case field_written w nm key v merged n wa ov s of (fs, s) \<Rightarrow> (Inr (Some fs), s)))"
    for v merged n wa ov and s :: actor by (simp add: split_beta calm_field_written)
  have either: "calm s (snd (case x of Inl e \<Rightarrow> (y, s) | Inr z \<Rightarrow> f z))" if "\<And>z. calm s (snd (f z))" for x y f
    using that calm_refl by (cases x) simp_all
  show ?thesis
    unfolding apply_sheep_field_def Let_def
    by (rule calm_option, rule calm_same, rule calm_on_ok, rule calm_on_ok, rule calm_option, rule calm_same,
        rule either, rule calm_branch, rule calm_on_ok, rule calm_record, rule written)
qed

lemma calm_panes:
  "calm s (snd (handle_set_sheep_field w nm key v s))" "calm s (snd (handle_reset_sheep_field w nm key s))"
  "calm s (snd (handle_set_sheep_dog_settings w nm dog table s))"
  by (auto simp: handle_set_sheep_field_def handle_reset_sheep_field_def handle_set_sheep_dog_settings_def
      write_sheep_field_def Let_def calm_sheep_field calm_refl intro!: calm_on_ok split: option.splits sum.splits)

lemma calm_announce [calm]: "calm s (announce_dog_tables s)"
proof -
  have "calm s (fold (\<lambda>(dog, nm). effect (DogSettingsChanged dog nm)) cs s)" for cs and s :: actor
    by (rule calm_fold) (auto simp: calm_effect)
  from calm_trans[OF calm_primitives(18) this] show ?thesis by (simp add: announce_dog_tables_def Let_def calm_refl)
qed

subsection \<open>Talking to sheep\<close>

lemma calm_arm_action: "calm s (snd (arm_action i a p f d s))"
  by (rule calm_frame) (simp_all add: arm_action_def Let_def expect_slot_def)

lemma calm_loops:
  "calm s (snd (snd (action_loop w a p f ids rows waits s)))"
  "calm s (snd (snd (signal_loop w sig ids srows names s)))"
  "calm s (snd (snd (send_line_loop w line ids lrows names s)))"
proof (induction ids arbitrary: rows waits srows lrows names s)
  case Nil
  show "calm s (snd (snd (action_loop w a p f [] rows waits s)))" "calm s (snd (snd (signal_loop w sig [] srows names s)))"
    "calm s (snd (snd (send_line_loop w line [] lrows names s)))" for rows waits srows lrows names and s :: actor
    by (simp_all add: calm_refl)
next
  case (Cons i ids)
  show "calm s (snd (snd (action_loop w a p f (i # ids) rows waits s)))" for rows waits s
    using Cons.IH(1) calm_trans[OF calm_arm_action Cons.IH(1)] calm_primitives(8)
    by (auto simp: split_beta split: option.splits prod.splits)
  have e: "calm s (snd (snd (signal_loop w sig ids srows names (effect (SendSignal i sig) s))))"
    "calm s (snd (snd (send_line_loop w line ids lrows names (effect (SendStdin i line) s))))" for srows lrows names s
    by (rule calm_trans[OF calm_effect Cons.IH(2)] calm_trans[OF calm_effect Cons.IH(3)]; simp)+
  show "calm s (snd (snd (signal_loop w sig (i # ids) srows names s)))" for srows names s
    using Cons.IH(2) e(1) calm_primitives(8) by (auto split: option.splits)
  show "calm s (snd (snd (send_line_loop w line (i # ids) lrows names s)))" for lrows names s
    using Cons.IH(3) e(2) calm_primitives(8) by (auto simp: Let_def split: option.splits TrySend.splits)
qed

lemma calm_talking:
  "calm s (begin_action w sel a p f c s)" "calm s (begin_signal w sel sig c s)" "calm s (begin_send_line w sel line c s)"
  using calm_trans[OF calm_loops(1) calm_effect] calm_trans[OF calm_loops(2) calm_effect]
    calm_trans[OF calm_loops(3) calm_effect] calm_effect[of _ s]
  by (simp_all add: begin_action_def begin_signal_def begin_send_line_def Let_def split_beta)

lemma calm_says: "only_says s s' \<Longrightarrow> calm s s'"
  by (auto simp: only_says_def quiet_spawns intro!: calm_frame)

subsection \<open>A turn\<close>

lemma calm_handle_command:
  assumes "\<And>nm n c. cmd \<noteq> CScale nm n c"
  shows "calm s (snd (handle_command w cmd s))"
proof (rule calm_closing)
  assume c: "closing s"
  have sd: "shutting_down s" using c by (simp add: closing_def)
  have rep: "calm s (effect (Reply cl b) s1)" if "calm s s1" for cl b s1
    by (rule calm_trans[OF that calm_effect]) simp
  have md: "calm s (mark_disabled apps dis s)" for apps dis by (simp add: mark_disabled_def calm_primitives)
  show "calm s (snd (handle_command w cmd s))"
  proof (cases cmd)
    case (CRegisterAtRest apps dis cl)
    have "calm s (snd (map_state (register_at_rest w) apps (mark_disabled apps dis s)))"
      by (rule calm_trans[OF md calm_map_state[OF calm_register_at_rest]])
    then show ?thesis using CRegisterAtRest rep by (simp add: Let_def split_beta)
  next
    case (CRegisterDogsAtRest dogs dis cl)
    have "calm s (snd (map_state (\<lambda>(app, source). register_dog_at_rest w app source dis) dogs s))"
      by (rule calm_map_state) (auto simp: calm_register_dog)
    then show ?thesis using CRegisterDogsAtRest rep by (simp add: Let_def split_beta)
  next
    case (CSetSmit conn nm smit cl)
    have "calm s (snd (handle_set_smit w conn nm smit s))"
      by (rule calm_frame) (auto simp: handle_set_smit_def Let_def split: option.splits)
    then show ?thesis using CSetSmit rep by (simp add: split_beta)
  next
    case (CReset sel cl)
    have "calm s (fold (\<lambda>i. upd_slot i reset_slot) ids s)" for ids by (rule calm_fold) (rule calm_primitives(1))
    then show ?thesis using CReset rep[OF calm_refl] rep by (simp add: handle_reset_def Let_def)
  next
    case (CDisable sel cl)
    then show ?thesis using calm_disable_apps rep[OF calm_refl] by (auto simp: handle_disable_def split: sum.splits)
  next
    case (CDisableDog nm cl)
    then show ?thesis using calm_disable_apps rep[OF calm_refl] by (auto simp: handle_disable_dog_def Let_def)
  next
    case (CEnable sel cl)
    then show ?thesis using rep[OF calm_refl] sd by (auto simp: handle_enable_def Let_def split: sum.splits)
  next
    case (CShutdown cl)
    have claims: "calm s (fold (\<lambda>i. claim_manual i m cap) ids s)" for m cap ids by (rule calm_fold) (rule calm_claim)
    have s': "s\<lparr> shutting_down := True, reloads := [] \<rparr> = s" using c by (simp add: closing_def)
    show ?thesis
      using CShutdown rep[OF calm_refl] calm_trans[OF claims calm_primitives(13)]
      by (simp add: begin_shutdown_def Let_def s' del: fold_simps)
  qed (use assms sd rep[OF calm_refl] rep[OF calm_primitives(12)] rep[OF calm_apply_config] rep[OF calm_set_env]
      rep[OF calm_set_env_batch] rep[OF calm_copy_env] rep[OF calm_panes(1)] rep[OF calm_panes(2)]
      rep[OF calm_panes(3)] calm_manual calm_talking[of s] calm_says[OF others_only_say(2), of s]
      calm_says[OF others_only_say(3), of s] calm_says[OF others_only_say(4), of s] calm_says[OF others_only_say(5), of s]
      rep[OF calm_says[OF others_only_say(1)]] in
      \<open>simp_all add: do_start_dog_def handle_extra_restart_def calm_refl split_beta\<close>)
qed

text \<open>A turn of a closing daemon, the scale apart, starts nothing and leaves it closing.\<close>

lemma calm_turn:
  assumes "\<And>nm n c. msg \<noteq> MCommand (CScale nm n c)"
  shows "calm s (snd (turn w msg s))"
proof -
  have "calm s (snd (handle_msg w msg s))"
  proof (cases msg)
    case (MCommand cmd)
    then show ?thesis using calm_handle_command[of cmd] assms by simp
  next
    case (MExited i oc)
    then show ?thesis using calm_handle_exited by simp
  next
    case (MLambLabel root pid label)
    then show ?thesis by (simp add: calm_effect)
  next
    case (MReady i)
    then show ?thesis
      by (auto simp: handle_ready_signal_def split: option.splits intro!: calm_frame)
  next
    case (MActionReply i action body stamp)
    then show ?thesis
      by (auto simp: handle_action_reply_def Let_def split_beta split: option.splits intro!: calm_frame)
  next
    case (MActionResult i stamp oc)
    then show ?thesis
      by (auto simp: handle_action_result_def Let_def split_beta split: option.splits intro!: calm_frame)
  qed (auto simp: handle_restart_due_def handle_reload_deadline_def handle_reload_verified_def
      handle_ready_result_def closing_def calm_refl get_job_def intro: calm_closing)
  moreover have "calm s' (prune_listeners (prune_disabled s'))" for s'
    by (rule calm_frame) (auto simp: prune_listeners_def prune_disabled_def Let_def)
  then have "calm s' (prune_listeners (prune_disabled (announce_dog_tables s')))" for s'
    by (rule calm_trans[OF calm_announce])
  ultimately show ?thesis using calm_trans by (fastforce simp: turn_def split_beta)
qed

subsection \<open>A whole shutdown\<close>

lemma shutdown_closes:
  "spawns_of k (out (snd (turn w (MCommand (CShutdown c)) s))) = spawns_of k (out s) \<and>
    closing (snd (turn w (MCommand (CShutdown c)) s))"
proof -
  let ?s = "s\<lparr> shutting_down := True, reloads := [] \<rparr>"
  have c: "closing ?s" by (simp add: closing_def)
  have "snd (turn w (MCommand (CShutdown c)) s) = snd (turn w (MCommand (CShutdown c)) ?s)"
    by (simp add: turn_def begin_shutdown_def Let_def)
  then show ?thesis using calm_turn[of "MCommand (CShutdown c)" ?s w] c by (simp add: calm_def)
qed

lemma closing_run:
  assumes "\<forall>(w, msg) \<in> set msgs. \<forall>nm n c. msg \<noteq> MCommand (CScale nm n c)" "closing s"
  shows "spawns_of k (out (run msgs s)) = spawns_of k (out s)"
  using assms
proof (induction msgs arbitrary: s)
  case (Cons x msgs)
  obtain w msg where x: "x = (w, msg)" by (cases x)
  have "calm s (snd (turn w msg s))" using Cons.prems(1) x by (intro calm_turn) simp
  then show ?case using Cons x by (simp add: split_beta calm_def)
qed simp

end
