(* ===== verification/Scenarios.thy ===== *)
theory Scenarios
  imports Supervisor
begin

text \<open>
  Concrete runs of the actor: a host on which everything succeeds, three apps, and the states
  the run loop passes through under particular messages. The properties of the root theory
  are applied to these states, and the runs that end badly are stated there.
\<close>

subsection \<open>A host and three apps\<close>

definition api :: AppConfig where
  "api = minimal ''api'' ''app''"

text \<open>Two instances of it, with a directory and a budget an operator gives them.\<close>

definition herd :: AppConfig where
  "herd = api\<lparr> app_instances := 2 \<rparr>"

definition herd_srv :: AppConfig where
  "herd_srv = herd\<lparr> app_cwd := Some ''/srv'' \<rparr>"

definition herd_tuned :: AppConfig where
  "herd_tuned = herd_srv\<lparr> app_max_restarts := 9 \<rparr>"

definition herd_serde :: serde where
  "herd_serde = table_serde [herd, herd_srv, herd_tuned]"

definition demo :: world where
  "demo = \<lparr> w_now = 5000, w_due = \<lambda>_. None, w_resolve = \<lambda>_. Inr None,
     w_paths = demo_paths, w_var = Map.empty, w_secret_view = \<lambda>_. one_key [],
     w_bound_from = \<lambda>_ _. True, w_bind = \<lambda>_ _. None, w_oom_kills = \<lambda>_. 0,
     w_spawn = \<lambda>i _. Inr (100 + i), w_has_pty = \<lambda>_. False, w_preflight = \<lambda>_. PUnknown,
     w_store_read = no_faults, w_store_write = no_faults, w_serde = herd_serde, w_metadata = \<lambda>_. IsDirectory,
     w_write_cpu_max = \<lambda>_ _. True, w_write_pids_max = \<lambda>_ _. True, w_host_environment = ''production'',
     w_seal = \<lambda>_ _. 0, w_liveness_epoch = \<lambda>_. 0, w_channel_closed = \<lambda>_. False,
     w_stdin_closed = \<lambda>_. True, w_pty_closed = \<lambda>_. True, w_try_signal = \<lambda>_. Queued, w_try_stdin = \<lambda>_. Queued,
     w_try_child = \<lambda>_. Queued, w_platform = demo_platform \<rparr>"

text \<open>What a sheep without templates is spawned as.\<close>

definition demo_spec :: "AppConfig \<Rightarrow> SpawnSpec" where
  "demo_spec app = w_describe demo app 0 None"

definition template_free :: "AppConfig \<Rightarrow> bool" where
  "template_free app \<longleftrightarrow> app_args app = [] \<and> app_env app = [] \<and> app_out_file app = None \<and> app_err_file app = None"

lemma template_free_spawn:
  assumes "template_free app"
  shows "w_assemble w app inst cr = Inr (w_describe w app inst cr)"
proof -
  obtain spec where "w_assemble w app inst cr = Inr spec"
    using assms by (simp add: template_free_def w_assemble_def assemble_def build_def log_file_def Let_def split_beta)
  then show ?thesis using describe_assembled by (simp add: w_assemble_def w_describe_def)
qed

lemma demo_simps [simp]:
  "w_now demo = 5000" "w_due demo d = None" "w_resolve demo app = Inr None"
  "template_free app \<Longrightarrow> w_assemble demo app 0 None = Inr (demo_spec app)" "w_describe demo app 0 None = demo_spec app"
  "w_bound_from demo t t' = True" "w_bind demo t0 t = None" "w_oom_kills demo i = 0"
  "w_spawn demo i spec = Inr (100 + i)" "w_has_pty demo i = False" "w_preflight demo spec = PUnknown"
  "w_store_read demo = no_faults" "w_store_write demo = no_faults" "w_host_environment demo = ''production''" "w_liveness_epoch demo i = 0" "w_platform demo = demo_platform"
  by (simp_all add: demo_spec_def template_free_spawn) (simp_all add: demo_def)

definition probed :: ProbeConfig where
  "probed = \<lparr> probe_kind = Tcp, probe_target = ''127.0.0.1:80'', probe_interval = up_from_millis 1000,
     probe_timeout = up_from_millis 1000, probe_failure_threshold = 3 \<rparr>"

text \<open>
  \<open>api\<close> is online as soon as it runs; \<open>web\<close> is probed and shares its port, so that it
  reloads by overlap; \<open>db\<close> is probed and does not, so that it reloads serially.
\<close>

definition web :: AppConfig where
  "web = (minimal ''web'' ''app'')\<lparr> app_reuse_port := True, app_readiness_probe := Some probed \<rparr>"

definition db :: AppConfig where
  "db = (minimal ''db'' ''app'')\<lparr> app_readiness_probe := Some probed \<rparr>"

lemma api_simps [simp]:
  "app_name api = ''api''" "app_instances api = 1" "app_dogs api = []" "app_memory_enforce api = Poll"
  "app_max_cpu_cores api = None" "app_max_tasks api = None" "app_listen api = []" "app_reuse_port api = False"
  "of_normalized api = Heuristic" "app_fold api = None" "of_normalized (api\<lparr> app_instances := n \<rparr>) = Heuristic"
  "template_free api" "template_free (api\<lparr> app_instances := n \<rparr>)"
  by (simp_all add: api_def minimal_def of_normalized_def template_free_def)

lemma web_simps [simp]:
  "app_name web = ''web''" "app_instances web = 1" "app_dogs web = []" "app_memory_enforce web = Poll"
  "app_max_cpu_cores web = None" "app_max_tasks web = None" "app_listen web = []" "app_reuse_port web = True"
  "of_normalized web = Probe probed" "app_fold web = None" "app_stop_exit_codes web = []" "app_autorestart web"
  "as_duration (app_min_uptime web) = 1000000000" "app_max_restarts web = 16" "template_free web"
  by (simp_all add: template_free_def web_def minimal_def of_normalized_def up_from_millis_def from_millis_def)

text \<open>Configs near \<open>api\<close> that normalization leaves as they are.\<close>

lemma plain_port: "validate_template nm field ''80'' root = Inr ()"
proof -
  have "lex ''80'' = ([Text ''80''], [])" by (simp add: lex_def lex_steps brace_defs)
  then show ?thesis
    by (simp add: validate_template_def template_validate_def holds_shep_home_def holds_token_def walk_lex)
qed

lemma api_variants:
  assumes n: "n \<noteq> 0" and c: "c = None \<or> c = Some ''/srv''" and e: "e = [] \<or> e = [(''PORT'', ''80'')]"
  shows "normalize demo_platform (api\<lparr> app_instances := n, app_max_restarts := m, app_cwd := c, app_env := e \<rparr>) =
    Inr (api\<lparr> app_instances := n, app_max_restarts := m, app_cwd := c, app_env := e \<rparr>)"
proof -
  let ?app = "api\<lparr> app_instances := n, app_max_restarts := m, app_cwd := c, app_env := e \<rparr>"
  have "written_well ?app root" "check_log_templates ?app root = Inr ()" "check_log_sharing ?app root = Inr ()" for root
    using e plain_port by (auto simp: written_well_def check_defs check_log_templates_Inr log_ok_def api_def minimal_def RESERVED_ENV_def)
  moreover have "expand_paths ?app home = Inr ?app" for home
    using c by (auto simp: expand_paths_def expand_tilde_def expand_slot_def expand_home_tilde_def api_def minimal_def)
  moreover have "settled demo_platform ?app"
    using n by (simp add: settled_def check_defs api_def minimal_def validate_probe_def validate_watch_globs_def validate_listen_def
        validate_sandbox_def level_matcher_compile_def demo_platform_def MAX_LEVEL_RULES_def MAX_ACTION_TIMEOUT_def up_from_millis_def
        from_millis_def)
  ultimately show ?thesis
    unfolding normalize_def normalize_with_home_Inr
    by (intro conjI exI[of _ ?app] exI[of _ "[]"]) (simp_all add: api_def minimal_def)
qed

lemma api_rescales: "n \<noteq> 0 \<Longrightarrow> normalize demo_platform (api\<lparr> app_instances := n \<rparr>) = Inr (api\<lparr> app_instances := n \<rparr>)"
  using api_variants[of n None "[]" 16] by (simp add: api_def minimal_def)

lemma max_restarts_facts [simp]: "\<not> (16 :: u32) \<le> 1" "\<not> (16 :: u32) \<le> 2"
  by (simp_all add: word_le_nat_alt)

lemma db_simps [simp]:
  "app_name db = ''db''" "app_instances db = 1" "app_dogs db = []" "app_memory_enforce db = Poll"
  "app_max_cpu_cores db = None" "app_max_tasks db = None" "app_listen db = []" "app_reuse_port db = False"
  "of_normalized db = Probe probed" "app_fold db = None" "template_free db"
  by (simp_all add: template_free_def db_def minimal_def of_normalized_def)

definition crash :: ExitOutcome where
  "crash = \<lparr> exit_code = Some 1, exit_signal = None \<rparr>"

subsection \<open>Evaluating a turn\<close>

lemma next_free_nil [simp]: "next_free [] c = c"
  by (subst next_free.simps) simp

lemma next_free_taken [simp]: "next_free [0] 0 = 1"
  by (subst next_free.simps, subst next_free.simps) simp

lemma announce_nothing:
  "announced s = [] \<Longrightarrow> list_all (\<lambda>(i, sl). app_dogs (slot_app sl) = []) (sheep s) \<Longrightarrow> announce_dog_tables s = s"
  by (simp add: announce_dog_tables_def)

lemma empty_store [simp]: "overrides_get no_faults nm Absent = Inr None"
  by (simp add: overrides_get_def overrides_all_def overrides_read_file_def read_versioned_def no_faults_def
      overrides_default_def overrides_lock_def attempt_def and_then_def)

lemmas exec_start = do_start_def refuse_dog_names_def refuse_disabled_def
  and_then_def check_app_def refusals_of_def failures_of_def ready_apps_def List.map_filter_def
  instance_slots_def taken_slots_def spawn_fresh_def assembled_def assemble_for_spawn_def
  cgroup_placement_def cgroup_setting_def listen_for_def new_entry_def running_slot_def slot_new_def
  info_of_def overridden_for_def held_by_dog_def Let_def

lemmas exec_basic = turn_def announce_nothing prune_listeners_def prune_disabled_def put_slot_def upd_slot_def
  del_slot_def effect_def emit_def went_online_def arm_extras_def disarm_extras_def get_slot_def get_job_def
  put_job_def upd_job_def del_job_def debug_assert_def expect_slot_def panic_def set_status_def upd_entry_def
  schedule_restart_def

lemmas exec_reload = handle_reload_def matching_ids_def reached_ids_def slot_selected_def is_disabled_id_def
  in_flight_def reload_queues_def accepted_row_def reload_eligible_def advance_reload_def replaceable_def
  reload_mode_of_def intended_spec_def reload_mode_of_source_def spawn_replacement_def intended_credentials_def
  replacement_entry_def arm_reload_deadline_def reload_ready_result_def reload_of_def begin_drain_def
  claim_manual_def handle_ready_result_def restored_status_def restore_listeners_def begin_serial_drain_def
  spawn_serial_replacement_def handle_reload_verified_def commit_swap_success_def

lemmas exec_exit = handle_exited_def take_oom_def answer_abandoned_def exited_slot_def abandon_all_def
  no_waits_def clear_reload_def set_reload_def uncommitted_swap_of_def end_orphaned_swap_def decide_exit_def
  decide_on_exit_def is_sandbox_refusal_def is_sandboxed_def note_exit_def note_failed_start_def exhausted_def
  apply_decision_def resolve_pending_def handle_restart_due_def respawn_def promote_pending_def
  credentials_for_spawn_def respawn_spawned_def gated_app_def respawned_slot_def reap_drainee_def
  serial_drain_of_def deregister_on_exit_def finish_swap_def post_drain_probe_def budget_default_def crash_def
  emit_reload_abandoned_def delete_exited_def

lemmas exec_manual = begin_manual_def begin_manual_ids_def in_an_uncommitted_swap_def built_in_dog_name_def
  begin_shutdown_def handle_scale_def scale_slots_def try_with_count_def scale_write_back_def rescale_slot_def
  with_count_def

subsection \<open>The states visited\<close>

text \<open>
  The state a turn leaves is compared with its trace set aside: \<open>visited ms st\<close> says that the
  messages \<open>ms\<close> lead to the state \<open>st es\<close> for some trace \<open>es\<close>.
\<close>

definition bare :: "actor \<Rightarrow> actor" where
  "bare s = s\<lparr> out := [] \<rparr>"

lemma bare_out: "bare s = t \<Longrightarrow> s = t\<lparr> out := out s \<rparr>"
  by (auto simp: bare_def)

text \<open>The daemon of a host with no dogs, no cgroups and no sockets to adopt.\<close>

definition init_actor :: actor where
  "init_actor =
     \<lparr> sheep = [], next_id = 0, next_deadline = 0, next_action_stamp = 0, pending_replies = [],
       shutting_down = False, smits = [], reloads = [], disabled = [], listeners = [],
       listeners_before = [], dog_binaries = [], cgroup_base = False, cgroup_unavailable = None,
       oom_baselines = [], overrides_file = Absent, announced = [], out = [], panicked = False, debug_failed = False \<rparr>"

lemma init_built:
  "init_actor = build_actor \<lparr> b_adopted_listeners = [], b_dog_binaries = [], b_cgroup_base = False,
     b_cgroup_unavailable = None \<rparr> Absent"
  by (simp add: init_actor_def build_actor_def)

definition visited :: "Msg list \<Rightarrow> (effect list \<Rightarrow> actor) \<Rightarrow> bool" where
  "visited ms st \<longleftrightarrow> (\<exists>es. reached False (map (Pair demo) ms) (st es))"

lemma visited_init: "visited [] (\<lambda>_. init_actor)"
  using reached_init by (simp add: visited_def init_built)

lemma visited_turn:
  assumes "visited ms st" "\<And>es. sound demo m \<and> \<not> late_verdict m (st es)" "\<And>es. bare (snd (turn demo m (st es))) = st' []"
    "\<And>es. st' es = (st' [])\<lparr> out := es \<rparr>"
  shows "visited (ms @ [m]) st'"
proof -
  obtain es where r: "reached False (map (Pair demo) ms) (st es)" using assms(1) by (auto simp: visited_def)
  let ?s = "snd (turn demo m (st es))"
  have "?s = st' (out ?s)" using bare_out[OF assms(3)] assms(4) by metis
  moreover have "reached False (map (Pair demo) (ms @ [m])) ?s"
    using reached_turn[OF r conjunct1[OF assms(2)] surjective_pairing] assms(2)[of es] by simp
  ultimately show ?thesis unfolding visited_def by metis
qed

lemma visited_reached:
  "visited ms st \<Longrightarrow> (\<And>es. P (st es)) \<Longrightarrow> \<exists>s. reached False (map (Pair demo) ms) s \<and> P s"
  by (auto simp: visited_def)

text \<open>A running slot and what an order, an exit or a crash changes of it.\<close>

definition up :: "AppConfig \<Rightarrow> nat \<Rightarrow> nat \<Rightarrow> ProcStatus \<Rightarrow> ReloadState \<Rightarrow> bool \<Rightarrow> SheepSlot" where
  "up app i epoch st reload waiting =
     (slot_new ((new_entry i app [] 0 st (Resolved None) (demo_spec app) None)
        \<lparr> e_pid := Some (100 + i), e_started_at := Some 5000, e_restarts := of_nat epoch, e_reload := reload \<rparr>))
     \<lparr> sl_ctl := True, sl_log_ctl := True, sl_to_child := True, sl_signals := True, sl_to_stdin := True,
       sl_epoch := epoch, sl_ready_tx := waiting \<rparr>"

definition ordered :: "SheepSlot \<Rightarrow> SheepSlot" where
  "ordered sl = sl\<lparr> sl_manual := Some \<lparr> m_kind = MStop, m_origin = Operator \<rparr> \<rparr>"

definition sentenced :: "SheepSlot \<Rightarrow> SheepSlot" where
  "sentenced sl = sl\<lparr> sl_manual := Some \<lparr> m_kind = MDelete, m_origin = Operator \<rparr>, sl_pending_delete := True \<rparr>"

definition crashed :: "u32 \<Rightarrow> SheepSlot \<Rightarrow> SheepSlot" where
  "crashed n = upd_entry (\<lambda>e. e\<lparr> e_last_exit := Some crash, e_budget := \<lparr> unstable_count = n \<rparr> \<rparr>)"

definition down :: "SheepSlot \<Rightarrow> SheepSlot" where
  "down sl = upd_entry (\<lambda>e. e\<lparr> e_pid := None, e_started_at := None \<rparr>)
     (sl\<lparr> sl_ctl := False, sl_to_child := False, sl_signals := False, sl_to_stdin := False \<rparr>)"

definition one :: "SheepSlot \<Rightarrow> effect list \<Rightarrow> actor" where
  "one sl es = init_actor\<lparr> sheep := [(0, sl)], next_id := 1, out := es \<rparr>"

definition swapping ::
  "(nat \<times> SheepSlot) list \<Rightarrow> ReloadPhase \<Rightarrow> nat \<Rightarrow> (string \<times> listen_table option) list \<Rightarrow> effect list \<Rightarrow> actor" where
  "swapping flock ph stamp before es =
     init_actor\<lparr> sheep := flock, next_id := 2, next_deadline := Suc stamp,
       reloads := [(''web'', \<lparr> j_queue = [], j_mode = Overlap,
          j_swap = \<lparr> sw_old_id = 0, sw_new_id = Some 1, sw_phase = ph \<rparr>, j_deadline = stamp \<rparr>)],
       listeners_before := before, out := es \<rparr>"

definition awaiting :: "nat \<Rightarrow> ReplyKind \<Rightarrow> actor \<Rightarrow> actor" where
  "awaiting i reply s = s\<lparr> pending_replies := [\<lparr> pr_remaining = [i], pr_results = [], pr_reply = reply \<rparr>] \<rparr>"

lemmas exec_states = bare_def one_def swapping_def awaiting_def up_def init_actor_def ordered_def sentenced_def
  crashed_def down_def

lemmas exec = exec_start exec_basic exec_reload exec_exit exec_manual exec_states

lemma up_ctl [simp]: "sl_ctl (up app i epoch st reload waiting)"
  by (simp add: up_def)

lemma one_running: "running (one sl es) i \<longleftrightarrow> i = 0 \<and> sl_ctl sl"
  by (simp add: one_def running_def get_slot_def)

subsection \<open>A plain app\<close>

abbreviation starts :: "AppConfig \<Rightarrow> Msg" where
  "starts app \<equiv> MCommand (CStart [app] AllOrNothing [] Dropped)"

lemma api_started: "visited [starts api] (one (up api 0 0 Online RNone False))"
  using visited_turn[OF visited_init, of "starts api" "one (up api 0 0 Online RNone False)"]
  by (simp add: exec)

definition api_closing :: "effect list \<Rightarrow> actor" where
  "api_closing es = awaiting 0 (RShutdown Dropped)
     ((one (ordered (up api 0 0 Online RNone False)) es)\<lparr> shutting_down := True \<rparr>)"

lemma api_closed: "visited [starts api, MCommand (CShutdown Dropped)] api_closing"
  using visited_turn[OF api_started, of "MCommand (CShutdown Dropped)" api_closing]
  by (simp add: exec api_closing_def)

subsection \<open>An overlapped reload\<close>

abbreviation draining :: SheepSlot where
  "draining \<equiv> ordered (up web 0 0 Stopping (Drainee (Some 1)) True)"

lemma web_started: "visited [starts web] (one (up web 0 0 Starting RNone True))"
  using visited_turn[OF visited_init, of "starts web" "one (up web 0 0 Starting RNone True)"]
  by (simp add: exec)

lemma web_online: "visited [starts web, MReadyResult 0 0 True Ready] (one (up web 0 0 Online RNone True))"
  using visited_turn[OF web_started, of "MReadyResult 0 0 True Ready" "one (up web 0 0 Online RNone True)"]
  by (simp add: exec)

definition reload_path :: "Msg list" where
  "reload_path = [starts web, MReadyResult 0 0 True Ready, MCommand (CReload All Dropped)]"

lemma web_reload:
  "visited reload_path
     (swapping [(0, up web 0 0 Stopping (Drainee (Some 1)) True), (1, up web 1 0 Starting Replacement True)]
        AwaitReady 0 [(''web'', None)])"
  unfolding reload_path_def
  using visited_turn[OF web_online, of "MCommand (CReload All Dropped)"
      "swapping [(0, up web 0 0 Stopping (Drainee (Some 1)) True), (1, up web 1 0 Starting Replacement True)]
        AwaitReady 0 [(''web'', None)]"]
  by (simp add: exec)

lemma web_ready:
  "visited (reload_path @ [MReadyResult 1 0 True Ready])
     (swapping [(0, draining), (1, up web 1 0 Online Replacement True)] DrainOld 0 [])"
  by (rule visited_turn[OF web_reload]) (simp_all add: exec)

lemma web_verifying:
  "visited (reload_path @ [MReadyResult 1 0 True Ready] @ [MExited 0 crash])
     (swapping [(1, up web 1 0 Online Replacement True)] Verify 1 [])"
  unfolding append_assoc[symmetric] by (rule visited_turn[OF web_ready]) (simp_all add: exec)

subsection \<open>A replacement that crashes while its drainee drains\<close>

definition crash_path :: "Msg list" where
  "crash_path = reload_path @ [MReadyResult 1 0 True Ready] @ [MExited 1 crash] @ [MRestartDue 1 0] @
     [MReadyResult 1 1 False Ready] @ [MExited 0 crash]"

lemma web_crashed:
  "visited (reload_path @ [MReadyResult 1 0 True Ready] @ [MExited 1 crash])
     (swapping [(0, draining), (1, down (crashed 1 (up web 1 0 WaitingRestart RNone True)))] DrainOld 0 [])"
  unfolding append_assoc[symmetric] by (rule visited_turn[OF web_ready]) (simp_all add: exec)

lemma web_respawned:
  "visited (reload_path @ [MReadyResult 1 0 True Ready] @ [MExited 1 crash] @ [MRestartDue 1 0])
     (swapping [(0, draining), (1, crashed 1 (up web 1 1 Starting RNone True))] DrainOld 0 [])"
  by (rule visited_turn[OF web_crashed, unfolded append_assoc]) (simp_all add: exec)

lemma web_back:
  "visited (reload_path @ [MReadyResult 1 0 True Ready] @ [MExited 1 crash] @ [MRestartDue 1 0] @
      [MReadyResult 1 1 False Ready])
     (swapping [(0, draining), (1, crashed 1 (up web 1 1 Online RNone True))] DrainOld 0 [])"
  by (rule visited_turn[OF web_respawned, unfolded append_assoc]) (simp_all add: exec)

lemma web_unmarked: "visited crash_path (swapping [(1, crashed 1 (up web 1 1 Online RNone True))] Verify 1 [])"
  unfolding crash_path_def by (rule visited_turn[OF web_back, unfolded append_assoc]) (simp_all add: exec)

lemma web_deleted:
  "visited (crash_path @ [MCommand (CDelete All Dropped)])
     (\<lambda>es. awaiting 1 (RIds Dropped) (swapping [(1, sentenced (crashed 1 (up web 1 1 Online RNone True)))] Verify 1 [] es))"
  by (rule visited_turn[OF web_unmarked]) (simp_all add: exec)

lemma web_gone:
  "visited (crash_path @ [MCommand (CDelete All Dropped)] @ [MExited 1 crash]) (swapping [] Verify 1 [])"
  by (rule visited_turn[OF web_deleted, unfolded append_assoc]) (simp_all add: exec)

lemma web_waiting:
  "visited (crash_path @ [MExited 1 crash])
     (swapping [(1, down (crashed 2 (up web 1 1 WaitingRestart RNone True)))] Verify 1 [])"
  by (rule visited_turn[OF web_unmarked]) (simp_all add: exec)

subsection \<open>A serial reload\<close>

lemma db_started: "visited [starts db] (one (up db 0 0 Starting RNone True))"
  using visited_turn[OF visited_init, of "starts db" "one (up db 0 0 Starting RNone True)"]
  by (simp add: exec)

lemma db_online: "visited [starts db, MReadyResult 0 0 True Ready] (one (up db 0 0 Online RNone True))"
  using visited_turn[OF db_started, of "MReadyResult 0 0 True Ready" "one (up db 0 0 Online RNone True)"]
  by (simp add: exec)

definition db_draining :: "(SheepSlot \<Rightarrow> SheepSlot) \<Rightarrow> effect list \<Rightarrow> actor" where
  "db_draining f es = (one (f (up db 0 0 Stopping (Drainee None) True)) es)
     \<lparr> next_deadline := 1, reloads := [(''db'', \<lparr> j_queue = [], j_mode = Serial,
        j_swap = \<lparr> sw_old_id = 0, sw_new_id = None, sw_phase = DrainFirst \<rparr>, j_deadline = 0 \<rparr>)] \<rparr>"

lemma db_reload:
  "visited [starts db, MReadyResult 0 0 True Ready, MCommand (CReload All Dropped)] (db_draining ordered)"
  using visited_turn[OF db_online, of "MCommand (CReload All Dropped)" "db_draining ordered"]
  by (simp add: exec db_draining_def)

definition db_doomed :: "effect list \<Rightarrow> actor" where
  "db_doomed es = awaiting 0 (RIds Dropped) (db_draining (\<lambda>sl. (ordered sl)\<lparr> sl_pending_delete := True \<rparr>) es)"

definition delete_path :: "Msg list" where
  "delete_path = [starts db, MReadyResult 0 0 True Ready, MCommand (CReload All Dropped), MCommand (CDelete All Dropped)]"

lemma db_deleted: "visited delete_path db_doomed"
  unfolding delete_path_def
  using visited_turn[OF db_reload, of "MCommand (CDelete All Dropped)" db_doomed]
  by (simp add: exec db_draining_def db_doomed_def)

subsection \<open>Two instances and an operator\<close>

lemma herd_simps [simp]:
  "app_name herd = ''api''" "app_instances herd = 2" "app_dogs herd = []" "app_memory_enforce herd = Poll"
  "app_max_cpu_cores herd = None" "app_max_tasks herd = None" "app_listen herd = []" "app_reuse_port herd = False"
  "of_normalized herd = Heuristic" "app_fold herd = None" "template_free herd" "app_user herd = None" "app_group herd = None"
  "app_name herd_srv = ''api''" "app_instances herd_srv = 2" "app_dogs herd_srv = []" "app_memory_enforce herd_srv = Poll"
  "app_max_cpu_cores herd_srv = None" "app_max_tasks herd_srv = None" "app_listen herd_srv = []" "app_reuse_port herd_srv = False"
  "of_normalized herd_srv = Heuristic" "app_fold herd_srv = None" "template_free herd_srv" "app_user herd_srv = None"
  "app_group herd_srv = None" "app_name herd_tuned = ''api''" "app_instances herd_tuned = 2" "app_dogs herd_tuned = []"
  by (simp_all add: herd_def herd_srv_def herd_tuned_def api_def minimal_def of_normalized_def template_free_def)

lemma herd_numbers [simp]: "show_nat 9 = ''9''" "show_nat 16 = ''16''"
  by code_simp+

lemma herd_objects:
  "(object_of herd)(''cwd'' \<mapsto> JString ''/srv'') = object_of herd_srv"
  "(object_of herd_srv)(''max_restarts'' \<mapsto> JNumber ''9'') = object_of herd_tuned"
  "(object_of herd_tuned)(''max_restarts'' \<mapsto> JNumber ''16'') = object_of herd_srv"
  by (simp_all add: object_of_def herd_def herd_srv_def herd_tuned_def api_def minimal_def fun_eq_iff)

lemma herd_distinct: "object_of herd \<noteq> object_of herd_srv" "object_of herd \<noteq> object_of herd_tuned" "object_of herd_srv \<noteq> object_of herd_tuned"
proof -
  have "object_of herd ''cwd'' = Some JNull" "object_of herd_srv ''cwd'' = Some (JString ''/srv'')"
    "object_of herd_tuned ''cwd'' = Some (JString ''/srv'')" "object_of herd_srv ''max_restarts'' = Some (JNumber ''16'')"
    "object_of herd_tuned ''max_restarts'' = Some (JNumber ''9'')"
    by (simp_all add: object_of_def herd_def herd_srv_def herd_tuned_def api_def minimal_def)
  then show "object_of herd \<noteq> object_of herd_srv" "object_of herd \<noteq> object_of herd_tuned" "object_of herd_srv \<noteq> object_of herd_tuned"
    by (auto dest: fun_cong[of _ _ "''cwd''"] fun_cong[of _ _ "''max_restarts''"])
qed

lemma herd_reads [simp]:
  "to_object herd_serde herd = Inr (object_of herd)" "to_object herd_serde herd_srv = Inr (object_of herd_srv)"
  "to_object herd_serde herd_tuned = Inr (object_of herd_tuned)" "from_object herd_serde (object_of herd) = Inr herd"
  "from_object herd_serde (object_of herd_srv) = Inr herd_srv" "from_object herd_serde (object_of herd_tuned) = Inr herd_tuned"
  using herd_distinct by (simp_all add: herd_serde_def table_serde_def)

lemma herd_normal [simp]: "w_normalize demo herd = Inr herd" "w_normalize demo herd_srv = Inr herd_srv" "w_normalize demo herd_tuned = Inr herd_tuned"
  using api_variants[of 2 None "[]" 16] api_variants[of 2 "Some ''/srv''" "[]" 16] api_variants[of 2 "Some ''/srv''" "[]" 9]
  by (simp_all add: w_normalize_def herd_def herd_srv_def herd_tuned_def api_def minimal_def)

lemma herd_serde_names: "serde_names (w_serde demo)"
proof -
  have "object_of c ''name'' = Some (JString (app_name c))" for c by (simp add: object_of_def)
  moreover have "object_of c = obj" if "from_object herd_serde obj = Inr c" for obj c
    using that by (auto simp: herd_serde_def table_serde_def find_Some_iff split: option.splits if_splits)
  moreover have "object_of c = obj" if "to_object herd_serde c = Inr obj" for obj c
    using that by (auto simp: herd_serde_def table_serde_def split: if_splits)
  ultimately have "serde_names herd_serde" unfolding serde_names_def by (metis json.inject(3) option.inject)
  then show ?thesis by (simp add: demo_def)
qed

definition second :: "AppConfig \<Rightarrow> SheepSlot" where
  "second app =
     (slot_new ((new_entry 1 app [] 1 Online (Resolved None) (w_describe demo app 1 None) None)
        \<lparr> e_pid := Some 101, e_started_at := Some 5000 \<rparr>))
     \<lparr> sl_ctl := True, sl_log_ctl := True, sl_to_child := True, sl_signals := True, sl_to_stdin := True \<rparr>"

definition pair :: "SheepSlot \<Rightarrow> SheepSlot \<Rightarrow> OverridesFile disk \<Rightarrow> effect list \<Rightarrow> actor" where
  "pair sl sl' store es = init_actor\<lparr> sheep := [(0, sl), (1, sl')], next_id := 2, overrides_file := store, out := es \<rparr>"

lemma next_free_second [simp]: "next_free [0] (Suc 0) = Suc 0" "next_free [] (Suc 0) = Suc 0"
  by (subst next_free.simps; simp)+

lemma two_slots [simp]: "slots_from [] 2 0 = [0, 1]"
  by (simp add: numeral_2_eq_2)

lemma herd_started: "visited [starts herd] (pair (up herd 0 0 Online RNone False) (second herd) Absent)"
  using visited_turn[OF visited_init, of "starts herd" "pair (up herd 0 0 Online RNone False) (second herd) Absent"]
  by (simp add: exec pair_def second_def template_free_spawn)

definition srv_edit :: AppOverrides where
  "srv_edit = no_overrides\<lparr> ov_template := [''cwd'' \<mapsto> JNull], ov_fields := [''cwd'' \<mapsto> JString ''/srv''] \<rparr>"

abbreviation srv_store :: "OverridesFile disk" where
  "srv_store \<equiv> Contents \<lparr> ovf_version = OVERRIDES_VERSION, ovf_apps = [(''api'', srv_edit)] \<rparr>"

lemma pane_tables [simp]:
  "apply_group ''cwd'' = NeedsRespawn" "apply_group ''max_restarts'' = Live" "refuse_unowned_key ''cwd'' = Inr ()"
  "refuse_unowned_key ''max_restarts'' = Inr ()" "reaches_running ''max_restarts''" "\<not> reaches_running ''cwd''"
  by (simp_all add: refuse_unowned_key_def apply_group_def reaches_running_def FIELDS_def row_def)

lemma pane_store [simp]:
  "overrides_update no_faults [(nm, Some rec)] Absent = (Inr (), Contents \<lparr> ovf_version = OVERRIDES_VERSION, ovf_apps = [(nm, rec)] \<rparr>)"
  "overrides_update no_faults [(nm, Some rec)] (Contents \<lparr> ovf_version = OVERRIDES_VERSION, ovf_apps = [(nm, rec')] \<rparr>) =
     (Inr (), Contents \<lparr> ovf_version = OVERRIDES_VERSION, ovf_apps = [(nm, rec)] \<rparr>)"
  "overrides_get no_faults nm (Contents \<lparr> ovf_version = OVERRIDES_VERSION, ovf_apps = apps \<rparr>) = Inr (map_of apps nm)"
  by (simp_all add: overrides_update_def overrides_lock_def overrides_read_file_def read_versioned_def no_faults_def overrides_default_def
      holds_def overrides_write_file_def write_json_cases stage_json_def sync_dir_def apply_change_def overrides_get_def
      overrides_all_def OVERRIDES_VERSION_def)

lemma one_key [simp]: "keys_of [k \<mapsto> v] = [k]"
  by (simp add: keys_of_def)

lemma no_advisory [simp]: "cwd_advisory demo d = None" "w_serde demo = herd_serde"
  by (simp_all add: cwd_advisory_def missing_directory_def demo_def)

lemma herd_fields [simp]:
  "object_of herd ''cwd'' = Some JNull" "object_of herd_srv ''max_restarts'' = Some (JNumber ''16'')"
  "object_of herd_tuned ''max_restarts'' = Some (JNumber ''9'')"
  by (simp_all add: object_of_def herd_def herd_srv_def herd_tuned_def api_def minimal_def)

lemma herd_counts [simp]: "herd\<lparr> app_instances := 2 \<rparr> = herd" "herd_srv\<lparr> app_instances := 2 \<rparr> = herd_srv" "herd_tuned\<lparr> app_instances := 2 \<rparr> = herd_tuned"
  by (simp_all add: herd_def herd_srv_def herd_tuned_def)

lemma herd_reached [simp]:
  "reached_spec herd_serde (w_normalize demo) herd herd_srv [] 2 = Inr herd"
  "reached_spec herd_serde (w_normalize demo) herd_srv herd_tuned [''max_restarts''] 2 = Inr herd_tuned"
  "reached_spec herd_serde (w_normalize demo) herd_tuned herd_srv [''max_restarts''] 2 = Inr herd_srv"
  by (simp_all add: reached_spec_def and_then_def herd_objects)

lemmas exec_pane = handle_set_sheep_field_def handle_reset_sheep_field_def write_sheep_field_def apply_sheep_field_def representative_id_def speaker_rank_def
  ensure_not_dog_def field_warning_def mutate_override_def stored_record_def record_field_edit_def field_written_def each_slot_def
  ids_of_name_def load_entry_def EXTRAS_FIELDS_def CGROUP_FIELDS_def no_overrides_def herd_objects template_value_def pair_def second_def srv_edit_def

definition waits :: "AppConfig \<Rightarrow> SheepSlot \<Rightarrow> SheepSlot" where
  "waits app = upd_entry (\<lambda>e. e\<lparr> e_pending := Some app, e_overridden := [''cwd''] \<rparr>)"

lemma herd_moved:
  "visited [starts herd, MCommand (CSetSheepField ''api'' ''cwd'' (JString ''/srv'') Dropped)]
     (pair (waits herd_srv (up herd 0 0 Online RNone False)) (waits herd_srv (second herd)) srv_store)"
  using visited_turn[OF herd_started, of "MCommand (CSetSheepField ''api'' ''cwd'' (JString ''/srv'') Dropped)"
      "pair (waits herd_srv (up herd 0 0 Online RNone False)) (waits herd_srv (second herd)) srv_store"] herd_serde_names
  by (simp add: exec exec_pane waits_def)

definition restarting :: "SheepSlot \<Rightarrow> SheepSlot" where
  "restarting sl = sl\<lparr> sl_manual := Some \<lparr> m_kind = MRestart, m_origin = Operator \<rparr> \<rparr>"

definition herd_path :: "Msg list" where
  "herd_path = [starts herd, MCommand (CSetSheepField ''api'' ''cwd'' (JString ''/srv'') Dropped),
     MCommand (CRestart (Id 0) Operator Dropped), MExited 0 crash]"

lemma herd_restarting:
  "visited [starts herd, MCommand (CSetSheepField ''api'' ''cwd'' (JString ''/srv'') Dropped), MCommand (CRestart (Id 0) Operator Dropped)]
     (\<lambda>es. awaiting 0 (RInfo Dropped)
       (pair (restarting (waits herd_srv (up herd 0 0 Online RNone False))) (waits herd_srv (second herd)) srv_store es))"
  using visited_turn[OF herd_moved, of "MCommand (CRestart (Id 0) Operator Dropped)"
      "\<lambda>es. awaiting 0 (RInfo Dropped)
       (pair (restarting (waits herd_srv (up herd 0 0 Online RNone False))) (waits herd_srv (second herd)) srv_store es)"]
  by (simp add: exec exec_pane waits_def restarting_def restart_unless_disabled_def)

definition moved :: SheepSlot where
  "moved = upd_entry (\<lambda>e. e\<lparr> e_overridden := [''cwd''], e_last_exit := Some crash \<rparr>) (up herd_srv 0 1 Online RNone False)"

lemma herd_split: "visited herd_path (pair moved (waits herd_srv (second herd)) srv_store)"
  unfolding herd_path_def
  using visited_turn[OF herd_restarting, of "MExited 0 crash" "pair moved (waits herd_srv (second herd)) srv_store"]
  by (simp add: exec exec_pane waits_def restarting_def moved_def promote_entry_def budget_reset_def)

end
