(* ===== verification/Lifecycle_Laws.thy ===== *)
theory Lifecycle_Laws
  imports Scenarios
begin

text \<open>
  What a respawn, a disabled mark and an abandoned reload promise: timers of an earlier process
  are inert, a disabled app is not started, an abandoned swap leaves the old process in service,
  and a refused scale touches nothing.
\<close>

subsection \<open>Timers of an earlier process\<close>

lemma promote_keeps_epoch:
  "get_slot s i = Some sl \<Longrightarrow> \<exists>sl'. get_slot (promote_pending i s) i = Some sl' \<and> sl_ctl sl' = sl_ctl sl \<and> sl_epoch sl' = sl_epoch sl"
  by (auto simp: promote_pending_def upd_entry_def split: option.splits)

lemma credentials_keep_epoch:
  "get_slot s i = Some sl \<Longrightarrow> credentials_for_spawn w i s = (r, s') \<Longrightarrow>
    \<exists>sl'. get_slot s' i = Some sl' \<and> sl_ctl sl' = sl_ctl sl \<and> sl_epoch sl' = sl_epoch sl"
  by (auto simp: credentials_for_spawn_def upd_entry_def split: option.splits SpawnIdentity.splits sum.splits)

lemma respawn_failed_off: "get_slot s i \<noteq> None \<Longrightarrow> \<not> running (snd (respawn_failed w i m r s)) i"
  by (auto simp: respawn_failed_def expect_slot_def running_def Let_def upd_entry_def clear_lifecycle_def)

lemma running_expect [simp]: "running (expect_slot k s) i = running s i"
  by (simp add: expect_slot_def running_def)

lemma refuse_spawn_off: "get_slot s i \<noteq> None \<Longrightarrow> \<not> running (snd (refuse_spawn w i m err s)) i"
proof -
  assume "get_slot s i \<noteq> None"
  then obtain sl where sl: "get_slot s i = Some sl" by auto
  have off: "\<not> running (schedule_restart i ep d (emit ev info m' (upd_slot i (\<lambda>sl. (clear_lifecycle WaitingRestart sl)
      \<lparr> sl_restart_due := due \<rparr>) s'))) i" for ep d ev info m' due s'
    by (auto simp: running_def clear_lifecycle_def split: option.splits)
  show ?thesis
    using sl off respawn_failed_off[of "upd_slot i (upd_entry (\<lambda>e. e\<lparr> e_budget := b \<rparr>)) s" i w m for b]
      respawn_failed_off[of s i w m]
    by (simp add: refuse_spawn_def Let_def)
qed

lemma respawn_spawned_epoch:
  "get_slot s i = Some sl \<Longrightarrow>
    \<exists>sl'. get_slot (snd (respawn_spawned w i m app spec ep pid s)) i = Some sl' \<and> sl_epoch sl' = Suc (sl_epoch sl)"
  by (auto simp: respawn_spawned_def expect_slot_def Let_def respawned_slot_def went_online_def)

lemma respawn_epoch:
  assumes sl: "get_slot s i = Some sl" "\<not> sl_ctl sl" and run: "running (snd (respawn w i m s)) i"
  shows "\<exists>sl'. get_slot (snd (respawn w i m s)) i = Some sl' \<and> sl_epoch sl' = Suc (sl_epoch sl)"
proof (cases "is_disabled_id s i")
  case True
  have "\<not> running (snd (apply_stop w i False s)) i" "\<not> running s i"
    using sl by (auto simp: apply_stop_def running_def Let_def upd_entry_def)
  then show ?thesis
    using True sl run by (cases "apply_stop w i False s") (auto simp: respawn_def split: if_splits option.splits)
next
  case False
  obtain sl1 where s1: "get_slot (promote_pending i s) i = Some sl1" "sl_ctl sl1 = sl_ctl sl" "sl_epoch sl1 = sl_epoch sl"
    using promote_keeps_epoch[OF sl(1)] by blast
  obtain cr s2 where c: "credentials_for_spawn w i (promote_pending i s) = (cr, s2)" by fastforce
  obtain sl2 where s2: "get_slot s2 i = Some sl2" "sl_ctl sl2 = sl_ctl sl1" "sl_epoch sl2 = sl_epoch sl1"
    using credentials_keep_epoch[OF s1(1) c] by blast
  obtain r s3 where a: "assembled w (slot_app sl2) i (e_instance (sl_entry sl2)) (projr cr) s2 = (r, s3)" by fastforce
  have s3: "get_slot s3 i = Some sl2" using assembled_touch[OF a] s2 by (simp add: assembled_frame[OF a] get_slot_def)
  show ?thesis
    using run False c s2 a s3 s1 respawn_failed_off[of s2 i w m] respawn_failed_off[of s3 i w m]
      refuse_spawn_off[of s3 i w m] respawn_spawned_epoch[OF s3]
    by (auto simp: respawn_def Let_def split: sum.splits)
qed

text \<open>
  C36. Timers and readiness verdicts of an earlier process are inert: once a sheep has been
  respawned, a restart that was scheduled and a readiness result that was awaited before it
  change nothing.
\<close>

theorem respawn_retires_timers:
  assumes "get_slot s i = Some sl" "\<not> sl_ctl sl" "running (snd (respawn w i m s)) i" "ep \<le> sl_epoch sl"
  shows "handle_restart_due w' i ep (snd (respawn w i m s)) = snd (respawn w i m s) \<and>
    handle_ready_result w' i ep m' rd (snd (respawn w i m s)) = snd (respawn w i m s)"
  using respawn_epoch[OF assms(1-3)] assms(4)
  by (auto simp: handle_restart_due_def handle_ready_result_def)

definition web_waiting_slot :: SheepSlot where
  "web_waiting_slot = down (crashed 1 (up web 1 0 WaitingRestart RNone True))"

theorem respawn_retires_timers_witness:
  "handle_restart_due demo 1 0 (snd (respawn demo 1 False (swapping [(1, web_waiting_slot)] DrainOld 0 [] []))) =
     snd (respawn demo 1 False (swapping [(1, web_waiting_slot)] DrainOld 0 [] []))"
proof -
  let ?s = "swapping [(1, web_waiting_slot)] DrainOld 0 [] []"
  have "running (snd (respawn demo 1 False ?s)) 1" by (simp add: exec web_waiting_slot_def running_def)
  moreover have "get_slot ?s 1 = Some web_waiting_slot" "\<not> sl_ctl web_waiting_slot" "0 \<le> sl_epoch web_waiting_slot"
    by (simp_all add: exec web_waiting_slot_def)
  ultimately show ?thesis using respawn_retires_timers[of ?s 1 web_waiting_slot demo False 0 demo False Ready] by simp
qed

subsection \<open>Disabled apps\<close>

lemma respawn_disabled_quiet:
  assumes "is_disabled_id s i"
  shows "spawns_of k (out (snd (respawn w i m s))) = spawns_of k (out s)"
proof -
  have e: "spawns_of k (out (expect_slot i s')) = spawns_of k (out s')" for s'
    by (simp add: expect_slot_def)
  have a: "spawns_of k (out (snd (apply_stop w i False s))) = spawns_of k (out s)"
    by (auto simp: apply_stop_def Let_def split: option.splits)
  obtain r s' where r: "apply_stop w i False s = (r, s')" by fastforce
  show ?thesis
    using assms a e[of s'] r by (cases r) (auto simp: respawn_def split: option.splits)
qed

text \<open>
  A disabled app is not started: not by a respawn, whoever asks for it, not by a reload,
  which is refused and leaves everything as it was, and not by a start or a scale-up that names
  it.
\<close>

lemma disabled_is_not_started:
  assumes "is_disabled_id s i" "get_slot s i = Some sl"
  shows "spawns_of k (out (snd (respawn w i m s))) = spawns_of k (out s) \<and>
    (\<exists>reason. spawn_replacement w i mode s = (Inl reason, s)) \<and>
    refuse_disabled s [slot_name sl] = Inl (Disabled (slot_name sl))"
  using respawn_disabled_quiet[OF assms(1)] assms
  by (auto simp: spawn_replacement_def refuse_disabled_def is_disabled_id_def)

definition api_disabled :: actor where
  "api_disabled = (one (down (up api 0 0 WaitingRestart RNone False)) [])\<lparr> disabled := [''api''] \<rparr>"

subsection \<open>Abandoned swaps\<close>

lemma abort_drainee_spec:
  "get_slot (abort_drainee w i s) k = (if k = i then map_option (\<lambda>sl. upd_entry (\<lambda>e. e\<lparr> e_status :=
      (if sl_ctl sl \<and> sl_manual sl = None then restored_status sl else e_status e) \<rparr>) (set_reload RNone sl)) (get_slot s i)
    else get_slot s k)"
  "\<exists>es. out (abort_drainee w i s) = out s @ es \<and> (\<forall>j d. Kill j d \<notin> set es)"
  "get_job (abort_drainee w i s) = get_job s" "listeners (abort_drainee w i s) = listeners s"
  "debug_failed (abort_drainee w i s) = debug_failed s"
  by (auto simp: abort_drainee_def Let_def set_reload_def upd_entry_def restored_status_def emit_def effect_def get_job_def
      fun_eq_iff split: option.splits)

lemma abort_replacement_spec:
  "get_slot (abort_replacement n s) k = (if k = n then map_option (\<lambda>sl.
      if sl_ctl sl then (set_reload RNone sl)\<lparr> sl_pending_delete := True, sl_manual :=
        (if map_option m_origin (sl_manual sl) = Some Operator then sl_manual sl else Some \<lparr> m_kind = MDelete, m_origin = Operator \<rparr>) \<rparr>
      else set_reload RNone sl) (get_slot s n) else get_slot s k)"
  "out (abort_replacement n s) = out s @ (case get_slot s n of
      None \<Rightarrow> [] | Some sl \<Rightarrow> if sl_ctl sl \<and> sl_manual sl = None then [Kill n (ladder_cap_of StopCap (slot_app sl))] else [])"
  "get_job (abort_replacement n s) = get_job s" "listeners (abort_replacement n s) = listeners s"
  "debug_failed (abort_replacement n s) = debug_failed s"
  by (auto simp: abort_replacement_def claim_manual_def Let_def set_reload_def upd_entry_def effect_def get_job_def
      fun_eq_iff split: option.splits CommandOrigin.splits)

text \<open>
  C33. Abandoning a swap whose replacement has not proved itself (the job is in \<open>AwaitReady\<close>) ends the
  job and gives back the sockets held before the swap, where some were recorded. The old process is
  left alone and loses the marker; its status is restored exactly when it runs and no order has
  claimed it. A running replacement is marked for deletion and claimed by a delete, unless an
  operator's order already holds it, and is sent a kill exactly when nothing had claimed it; one that
  has exited only loses the marker. No other slot changes and no assertion fails.
\<close>

theorem abort_reload_restores:
  assumes f: "flock_ok s" and job: "get_job s nm = Some job" "sw_phase (j_swap job) = AwaitReady"
      "sw_old_id (j_swap job) = i" "sw_new_id (j_swap job) = Some n"
    and s': "s' = abort_reload w nm s"
  shows "get_job s' nm = None \<and>
    map_of (listeners s') nm = (case map_of (listeners_before s) nm of Some before \<Rightarrow> before | None \<Rightarrow> map_of (listeners s) nm) \<and>
    (\<forall>old. get_slot s i = Some old \<longrightarrow> (\<exists>sl. get_slot s' i = Some sl \<and> sl_ctl sl = sl_ctl old \<and>
       e_pid (sl_entry sl) = e_pid (sl_entry old) \<and> sl_manual sl = sl_manual old \<and> e_reload (sl_entry sl) = RNone \<and>
       slot_status sl = (if sl_ctl old \<and> sl_manual old = None then restored_status old else slot_status old))) \<and>
    (\<forall>new. get_slot s n = Some new \<longrightarrow>
       (Kill n (ladder_cap_of StopCap (slot_app new)) \<in> set (since s s') \<longleftrightarrow> sl_ctl new \<and> sl_manual new = None) \<and>
       (\<exists>sl. get_slot s' n = Some sl \<and> sl_ctl sl = sl_ctl new \<and> e_reload (sl_entry sl) = RNone \<and>
         (if sl_ctl new
          then sl_pending_delete sl \<and> sl_manual sl = (if map_option m_origin (sl_manual new) = Some Operator then sl_manual new
                 else Some \<lparr> m_kind = MDelete, m_origin = Operator \<rparr>)
          else sl_pending_delete sl = sl_pending_delete new \<and> sl_manual sl = sl_manual new))) \<and>
    (\<forall>k. k \<noteq> i \<longrightarrow> k \<noteq> n \<longrightarrow> get_slot s' k = get_slot s k) \<and> debug_failed s' = debug_failed s"
proof -
  have ok: "\<not> (get_slot s i \<noteq> None \<and> i = n)"
    using jobs_ok_job[OF f job(1)] job(3,4) by (auto simp: job_ok_def)
  let ?s0 = "restore_listeners nm (del_job nm s)"
  have r: "get_slot ?s0 = get_slot s" "out ?s0 = out s" "get_job ?s0 nm = None" "debug_failed ?s0 = debug_failed s"
    "map_of (listeners ?s0) nm = (case map_of (listeners_before s) nm of Some before \<Rightarrow> before | None \<Rightarrow> map_of (listeners s) nm)"
    by (auto simp: restore_listeners_def delete_conv' update_conv' split: option.splits)
  obtain es where es: "out (abort_drainee w i ?s0) = out s @ es" "\<forall>j d. Kill j d \<notin> set es"
    using abort_drainee_spec(2)[of w i ?s0] r(2) by auto
  have e: "s' = abort_replacement n (abort_drainee w i ?s0)"
    using abort_reload_parts[OF job(1), of w] job(2-4) s' by (simp add: debug_assert_def)
  have slot_i: "get_slot s' i = map_option (\<lambda>sl. upd_entry (\<lambda>e. e\<lparr> e_status :=
      (if sl_ctl sl \<and> sl_manual sl = None then restored_status sl else e_status e) \<rparr>) (set_reload RNone sl)) (get_slot s i)"
    using ok by (auto simp: e abort_drainee_spec(1) abort_replacement_spec(1) r(1))
  have slot_n: "get_slot (abort_drainee w i ?s0) n = get_slot s n"
    using ok by (auto simp: abort_drainee_spec(1) r(1))
  have n: "get_slot s' n = map_option (\<lambda>sl.
      if sl_ctl sl then (set_reload RNone sl)\<lparr> sl_pending_delete := True, sl_manual :=
        (if map_option m_origin (sl_manual sl) = Some Operator then sl_manual sl else Some \<lparr> m_kind = MDelete, m_origin = Operator \<rparr>) \<rparr>
      else set_reload RNone sl) (get_slot s n)"
    by (simp add: e abort_replacement_spec(1) slot_n)
  have kill: "since s s' = es @ (case get_slot s n of
      None \<Rightarrow> [] | Some sl \<Rightarrow> if sl_ctl sl \<and> sl_manual sl = None then [Kill n (ladder_cap_of StopCap (slot_app sl))] else [])"
    using es(1) by (simp add: since_def e abort_replacement_spec(2) slot_n)
  have "get_slot s' k = get_slot s k" if "k \<noteq> i" "k \<noteq> n" for k
    using that by (simp add: e abort_drainee_spec(1) abort_replacement_spec(1) r(1))
  moreover have "get_job s' nm = None" "debug_failed s' = debug_failed s"
    "map_of (listeners s') nm = (case map_of (listeners_before s) nm of Some before \<Rightarrow> before | None \<Rightarrow> map_of (listeners s) nm)"
    using r(3-5) by (simp_all add: e abort_drainee_spec(3-5) abort_replacement_spec(3-5))
  moreover have "Kill n (ladder_cap_of StopCap (slot_app new)) \<in> set (since s s') \<longleftrightarrow> sl_ctl new \<and> sl_manual new = None"
    if "get_slot s n = Some new" for new
    using that es(2) unfolding kill by simp
  ultimately show ?thesis using slot_i n by (auto simp: upd_entry_def set_reload_def)
qed

theorem abort_reload_restores_witness:
  "\<exists>s sl. reached False (map (Pair demo) reload_path) s \<and> get_slot (abort_reload demo ''web'' s) 0 = Some sl \<and>
    sl_ctl sl \<and> slot_status sl = Online \<and> get_job (abort_reload demo ''web'' s) ''web'' = None \<and>
    Kill 1 (ladder_cap_of StopCap web) \<in> set (since s (abort_reload demo ''web'' s))"
proof -
  let ?old = "up web 0 0 Stopping (Drainee (Some 1)) True" and ?new = "up web 1 0 Starting Replacement True"
  let ?job = "\<lparr> j_queue = [], j_mode = Overlap, j_swap = \<lparr> sw_old_id = 0, sw_new_id = Some 1, sw_phase = AwaitReady \<rparr>,
    j_deadline = 0 \<rparr>"
  let ?P = "\<lambda>s. get_job s ''web'' = Some ?job \<and> get_slot s 0 = Some ?old \<and> get_slot s 1 = Some ?new"
  obtain s where s: "reached False (map (Pair demo) reload_path) s" "?P s"
    using visited_reached[OF web_reload, of ?P] by (auto simp: swapping_def get_job_def get_slot_def)
  have f: "flock_ok s" using reached_invariant(1)[OF s(1)] by (simp add: steady_def)
  have o: "sl_ctl ?old" "sl_manual ?old = None" "restored_status ?old = Online" "sl_ctl ?new" "sl_manual ?new = None"
    "slot_app ?new = web" by (simp_all add: exec)
  note r = abort_reload_restores[OF f _ _ _ _ refl, of "''web''" ?job 0 1 demo]
  show ?thesis using r s o by (intro exI[of _ s]) auto
qed


subsection \<open>A refused scale\<close>

lemma rescaled_counts_down:
  assumes "try_with_count w app count = Inr rescaled" "good_home (pf_home_dir (w_platform w))"
    and "0 < reached_count" "reached_count \<le> count" "count < 2 ^ 32"
  shows "\<exists>stored. try_with_count w rescaled reached_count = Inr stored"
proof -
  have n: "(word_of_nat reached_count :: u32) \<noteq> 0" "(word_of_nat reached_count :: u32) \<le> word_of_nat count"
    using assms(3-5) by (auto simp: word_of_nat_eq_0_iff word_le_nat_alt unat_of_nat dest: dvd_imp_le)
  have again: "normalize (w_platform w) rescaled = Inr rescaled"
    using assms(1,2) normalize_twice by (simp add: try_with_count_def normalize_def)
  moreover have "app_instances rescaled = word_of_nat count"
    using assms(1) normalize_keeps(3) by (fastforce simp: try_with_count_def normalize_def)
  ultimately show ?thesis
    using normalize_fewer_instances[of "w_platform w" rescaled _ _ rescaled "word_of_nat reached_count"] n
    by (auto simp: try_with_count_def normalize_def)
qed

lemma scale_up_loop_length:
  "scale_up_loop w app cr insts ids s = (ids', failure, s') \<Longrightarrow> length ids \<le> length ids' \<and> length ids' \<le> length ids + length insts"
  by (induction insts arbitrary: ids s) (force simp: Let_def split: sum.splits prod.splits)+

lemma scale_write_back_answers:
  assumes "try_with_count w rescaled (length survivors) = Inr stored"
  shows "\<exists>before b. out (scale_write_back w first_id rescaled count survivors failure c s) = before @ [Reply c (ScaledBody (Inr b))]"
  using assms by (simp add: scale_write_back_def Let_def effect_def)

text \<open>What of a slot a refused command must leave: its config, its status and its process.\<close>

definition seen_of :: "actor \<Rightarrow> (nat \<times> AppConfig \<times> ProcStatus \<times> nat option \<times> bool) list" where
  "seen_of s = map (\<lambda>(i, sl). (i, slot_app sl, slot_status sl, e_pid (sl_entry sl), sl_ctl sl)) (sheep s)"

lemma seen_effect [simp]: "seen_of (effect e s) = seen_of s"
  by (simp add: seen_of_def effect_def)

lemma credentials_seen:
  "credentials_for_spawn w i s = (r, s') \<Longrightarrow> seen_of s' = seen_of s \<and> out s' = out s"
  by (auto simp: credentials_for_spawn_def seen_of_def upd_slot_def upd_entry_def split: option.splits SpawnIdentity.splits sum.splits if_splits)

lemma scale_slots_get: "(inst, i) \<in> set (scale_slots s nm) \<Longrightarrow> get_slot s i \<noteq> None"
proof -
  assume "(inst, i) \<in> set (scale_slots s nm)"
  then obtain sl where "(i, sl) \<in> set (sheep s)" by (auto simp: scale_slots_def)
  then show "get_slot s i \<noteq> None" unfolding get_slot_def by (metis weak_map_of_SomeI option.distinct(1))
qed

definition refuses :: "caller \<Rightarrow> actor \<Rightarrow> actor \<Rightarrow> bool" where
  "refuses c s s' \<longleftrightarrow> (\<exists>e. s' = effect (Reply c (ScaledBody (Inl e))) s)"

lemma refuses_effect [simp]: "refuses c s (effect (Reply c (ScaledBody (Inl e))) s)"
  by (auto simp: refuses_def)

text \<open>
  C22. A scale that is refused touched nothing. Whatever a scale answers with an error, it has spawned
  and stopped no process and changed no config: once the count was accepted the count it achieves is
  accepted too, so the second check, made when processes have already been started or told to go,
  cannot refuse.
\<close>

theorem refused_scale_touches_nothing:
  assumes home: "good_home (pf_home_dir (w_platform w))" and count: "count < 2 ^ 32"
    and err: "last (out (handle_scale w nm count c s)) = Reply c (ScaledBody (Inl err))"
  shows "out (handle_scale w nm count c s) = out s @ [Reply c (ScaledBody (Inl err))]
    \<and> seen_of (handle_scale w nm count c s) = seen_of s"
proof (cases "scale_slots s nm")
  case Nil
  then show ?thesis using err by (simp add: handle_scale_def effect_def seen_of_def)
next
  case (Cons a rest)
  obtain inst0 first_id where a: "a = (inst0, first_id)" by (cases a)
  obtain sl where sl: "get_slot s first_id = Some sl"
    using scale_slots_get[of inst0 first_id s nm] Cons a by auto
  have refusal: "handle_scale w nm count c s = effect (Reply c (ScaledBody (Inl e))) s' \<Longrightarrow> seen_of s' = seen_of s \<Longrightarrow> out s' = out s \<Longrightarrow> ?thesis" for e s'
    using err by (auto simp: effect_def seen_of_def)
  have answered: "False" if wb: "handle_scale w nm count c s = scale_write_back w first_id rescaled count survivors failure c s'"
      "try_with_count w (slot_app sl) count = Inr rescaled" "0 < length survivors" "length survivors \<le> count"
    for rescaled survivors failure s'
  proof -
    obtain stored where "try_with_count w rescaled (length survivors) = Inr stored"
      using rescaled_counts_down[OF wb(2) home wb(3,4) count] by blast
    from scale_write_back_answers[OF this, of first_id count failure c s'] err wb(1) show ?thesis by auto
  qed
  show ?thesis
  proof (cases "try_with_count w (slot_app sl) count")
    case (Inl e)
    show ?thesis
      using Cons a sl Inl refusal by (simp add: handle_scale_def Let_def split: if_splits)
  next
    case (Inr rescaled)
    obtain r s1 where cr: "credentials_for_spawn w first_id s = (r, s1)" by fastforce
    note seen = credentials_seen[OF cr]
    let ?slots = "(inst0, first_id) # rest"
    obtain ids failure s2 where up: "scale_up_loop w rescaled (projr r) (instance_slots (map fst ?slots) (count - length ?slots))
        (map snd ?slots) s1 = (ids, failure, s2)" by (metis prod_cases3)
    have len: "0 < length ids" "length ?slots < count \<Longrightarrow> length ids \<le> count"
      using scale_up_loop_length[OF up] by (auto simp: instance_slots_def slots_from_length)
    have "refuses c s (handle_scale w nm count c s) \<or> refuses c s1 (handle_scale w nm count c s)
       \<or> (\<exists>survivors failure s'. handle_scale w nm count c s = scale_write_back w first_id rescaled count survivors failure c s'
            \<and> 0 < length survivors \<and> length survivors \<le> count)"
    proof (cases "count = length ?slots")
      case True
      then have "refuses c s (handle_scale w nm count c s)
          \<or> handle_scale w nm count c s = scale_write_back w first_id rescaled count (map snd ?slots) None c s"
        using Cons a sl Inr by (simp add: handle_scale_def Let_def)
      then show ?thesis using True by (metis length_map le_refl length_greater_0_conv list.distinct(1))
    next
      case False
      show ?thesis
      proof (cases "length ?slots < count")
        case True
        then have "refuses c s (handle_scale w nm count c s) \<or> refuses c s1 (handle_scale w nm count c s)
          \<or> handle_scale w nm count c s = scale_write_back w first_id rescaled count ids failure c s2"
          using False Cons a sl Inr cr up by (cases r) (simp_all add: handle_scale_def Let_def split: sum.splits)
        then show ?thesis using len(1) len(2)[OF True] by blast
      next
        case less: False
        let ?kept = "map snd (take count ?slots)" and ?removed = "map snd (drop count ?slots)"
        have "refuses c s (handle_scale w nm count c s)
          \<or> handle_scale w nm count c s = scale_write_back w first_id rescaled count ?kept None c
              (begin_manual_ids w ?removed MDelete Operator (RIds Dropped) s)"
          using False less Cons a sl Inr by (simp add: handle_scale_def Let_def del: take_Cons drop_Cons take_Cons' drop_Cons')
        moreover have "refuses c s (handle_scale w nm count c s)" if "count = 0"
          using that Cons a by (simp add: handle_scale_def Let_def)
        moreover have "0 < length ?kept" "length ?kept \<le> count" if "count \<noteq> 0" using that by (cases count, auto)+
        ultimately show ?thesis by blast
      qed
    qed
    then consider "refuses c s (handle_scale w nm count c s)" | "refuses c s1 (handle_scale w nm count c s)"
      | survivors failure s' where "handle_scale w nm count c s = scale_write_back w first_id rescaled count survivors failure c s'"
          "0 < length survivors" "length survivors \<le> count" by blast
    then show ?thesis
    proof cases
      case 3
      then show ?thesis using answered[OF _ Inr] by blast
    qed (use refusal seen in \<open>auto simp: refuses_def\<close>)
  qed
qed

theorem refused_scale_touches_nothing_witness:
  "seen_of (handle_scale demo ''api'' 0 Dropped (one (up api 0 0 Online RNone False) [])) =
     seen_of (one (up api 0 0 Online RNone False) [])"
proof -
  let ?s = "one (up api 0 0 Online RNone False) []"
  have "\<exists>err. last (out (handle_scale demo ''api'' 0 Dropped ?s)) = Reply Dropped (ScaledBody (Inl err))"
    by (simp add: exec)
  then obtain err where "last (out (handle_scale demo ''api'' 0 Dropped ?s)) = Reply Dropped (ScaledBody (Inl err))" by blast
  from refused_scale_touches_nothing[OF _ _ this] show ?thesis using demo_home by simp
qed

end
