(* ===== verification/Config_Laws.thy ===== *)
theory Config_Laws
  imports Scenarios
begin

text \<open>
  What config loads and panes promise: a refused edit leaves the daemon as it was, a reset puts
  back what a set replaced, a copied environment is the one reviewed, a removed variable stays
  removed over later loads, and a plain load changes configs and no process. Also the run that
  breaks the record of what an instance was spawned from.
\<close>

subsection \<open>The record behind an edit\<close>

lemma overrides_update_one:
  assumes "overrides_update q [(nm, Some rec)] d = (Inr u, d')" "fault_lock q' = None" "fault_read q' = None"
  shows "overrides_get q' nm d' = Inr (Some rec)"
proof -
  from assms(1) obtain st where st: "overrides_read_file q d = Inr st" by (auto simp: overrides_update_def on_ok_Inr)
  have read: "overrides_get q' nm (Contents st) = Inr (map_of (ovf_apps st) nm)" if "ovf_version st = OVERRIDES_VERSION" for st
    using that assms(2,3)
    by (simp add: overrides_get_def overrides_all_def overrides_lock_def overrides_read_file_def read_versioned_def)
  have contents: "d = Contents st" if "ovf_version st = OVERRIDES_VERSION"
    using st that by (auto simp: overrides_read_file_def read_versioned_Inr overrides_default_def OVERRIDES_VERSION_def)
  have written: "d' = Contents f" if "overrides_write_file q f d = (Inr u, d')" for f
    using that write_json_Inr[of q f d] by (cases "write_json q f d") (auto simp: overrides_write_file_def)
  show ?thesis
  proof (cases "holds st nm (Some rec)")
    case True
    then show ?thesis using assms(1) st contents read by (auto simp: overrides_update_def on_ok_Inr holds_def)
  next
    case False
    then have "d' = Contents (st\<lparr> ovf_apps := AList.update nm rec (ovf_apps st), ovf_version := OVERRIDES_VERSION \<rparr>)"
      using assms(1) st by (intro written) (auto simp: overrides_update_def on_ok_Inr apply_change_def)
    then show ?thesis using read by (simp add: map_of_alist_update)
  qed
qed

lemma map_sum_Inr: "map_sum f g r = Inr y \<longleftrightarrow> (\<exists>x. r = Inr x \<and> y = g x)"
  by (cases r) auto

lemma stored_record_Inr:
  assumes "stored_record w nm s = Inr rec"
  shows "fault_lock (w_store_read w) = None \<and> fault_read (w_store_read w) = None"
proof -
  obtain apps where "overrides_all (w_store_read w) (overrides_file s) = Inr apps"
    using assms by (cases "overrides_all (w_store_read w) (overrides_file s)") (auto simp: stored_record_def overrides_get_def)
  then show ?thesis
    by (auto simp: overrides_all_def overrides_lock_def overrides_read_file_def and_then_Inr read_versioned_Inr map_sum_Inr)
qed

lemma mutate_override_Inr:
  assumes "mutate_override w nm f s = (Inr ov, s')"
  shows "\<exists>rec rec' d. stored_record w nm s = Inr rec \<and> f rec = Inr rec' \<and> ov = keys_of (ov_fields rec') \<and>
    s' = s\<lparr> overrides_file := d \<rparr> \<and> stored_record w nm s' = Inr rec'"
proof -
  from assms obtain rec rec' where r: "stored_record w nm s = Inr rec" "f rec = Inr rec'"
    by (auto simp: mutate_override_def on_ok_Inr)
  obtain r d where u: "overrides_update (w_store_write w) [(nm, Some rec')] (overrides_file s) = (r, d)" by fastforce
  with assms r have e: "r = Inr ()" "ov = keys_of (ov_fields rec')" "s' = s\<lparr> overrides_file := d \<rparr>"
    by (auto simp: mutate_override_def on_ok_Inr Let_def)
  have "overrides_get (w_store_read w) nm d = Inr (Some rec')"
    using u e(1) stored_record_Inr[OF r(1)] by (intro overrides_update_one) auto
  then have "stored_record w nm s' = Inr rec'" using e(3) by (simp add: stored_record_def)
  with r e show ?thesis by blast
qed

lemma record_step:
  assumes "(case mutate_override w nm f s of (r, s) \<Rightarrow> on_ok r s (\<lambda>ov. k ov s)) = (Inr x, s')"
  shows "\<exists>rec rec' d. stored_record w nm s = Inr rec \<and> f rec = Inr rec' \<and>
    stored_record w nm (s\<lparr> overrides_file := d \<rparr>) = Inr rec' \<and> k (keys_of (ov_fields rec')) (s\<lparr> overrides_file := d \<rparr>) = (Inr x, s')"
proof -
  obtain r s1 where m: "mutate_override w nm f s = (r, s1)" by fastforce
  with assms obtain ov where "r = Inr ov" "k ov s1 = (Inr x, s')" by (auto simp: on_ok_Inr)
  with mutate_override_Inr[of w nm f s ov s1] m show ?thesis by auto
qed

text \<open>What a name is meant to be at its next spawn.\<close>

definition intended_of :: "actor \<Rightarrow> string \<Rightarrow> AppConfig option" where
  "intended_of s nm = Option.bind (representative_id s nm) (intended_spec s)"

lemma intended_of_Some:
  "intended_of s nm = Some c \<longleftrightarrow> (\<exists>i. representative_id s nm = Some i \<and> intended_spec s i = Some c)"
  by (auto simp: intended_of_def bind_eq_Some_conv)

subsection \<open>Refused edits\<close>

text \<open>A refusal leaves the state as it was; a flush that fails after the rename leaves the store replaced.\<close>

definition harmless :: "world \<Rightarrow> actor \<Rightarrow> ('e + 'a) \<times> actor \<Rightarrow> bool" where
  "harmless w s outcome \<longleftrightarrow>
     (isl (fst outcome) \<longrightarrow>
       (if fault_sync (w_store_write w) = None then snd outcome = s else \<exists>d. snd outcome = s\<lparr> overrides_file := d \<rparr>))"

lemma harmless_same: "harmless w s (r, s)"
  using ovs.refused by (auto simp: harmless_def intro: exI[of _ "overrides_file s"])

lemma harmless_Inl: "harmless w s (Inl e, s') \<Longrightarrow> fault_sync (w_store_write w) = None \<Longrightarrow> s' = s"
  by (simp add: harmless_def)

lemma harmless_done: "harmless w s (Inr x, s')"
  by (simp add: harmless_def)

lemma harmless_on_ok: "(\<And>x. harmless w s (k x)) \<Longrightarrow> harmless w s (on_ok r s k)"
  by (cases r) (simp_all add: harmless_same)

lemma harmless_branch: "harmless w s y \<Longrightarrow> harmless w s (if b then (x, s) else y)"
  by (simp add: harmless_same)

lemma harmless_option: "harmless w s a \<Longrightarrow> (\<And>z. harmless w s (f z)) \<Longrightarrow> harmless w s (case x of None \<Rightarrow> a | Some z \<Rightarrow> f z)"
  by (cases x) simp_all

lemma harmless_either: "(\<And>z. harmless w s (f z)) \<Longrightarrow> harmless w s (case x of Inl e \<Rightarrow> (y, s) | Inr z \<Rightarrow> f z)"
  by (cases x) (simp_all add: harmless_same)

lemma mutate_override_Inl:
  assumes "mutate_override w nm f s = (Inl e, s')"
  shows "harmless w s (Inl e :: SupervisorError + 'a, s')"
proof (cases "\<exists>rec rec'. stored_record w nm s = Inr rec \<and> f rec = Inr rec'")
  case True
  then obtain rec rec' where r: "stored_record w nm s = Inr rec" "f rec = Inr rec'" by blast
  obtain x d where u: "overrides_update (w_store_write w) [(nm, Some rec')] (overrides_file s) = (x, d)" by fastforce
  have s': "s' = s\<lparr> overrides_file := d \<rparr>" "isl x" using assms r u by (auto simp: mutate_override_def Let_def on_ok_def map_err_def split: sum.splits)
  have "d = overrides_file s" if "fault_sync (w_store_write w) = None"
    using ovs.refused_leaves[OF that, of "OvUpdate [(nm, Some rec')]" "overrides_file s"] u s'(2)
    by (auto simp: isl_def)
  then show ?thesis using s' by (auto simp: harmless_def)
next
  case False
  then have "s' = s" using assms by (cases "stored_record w nm s") (auto simp: mutate_override_def on_ok_def split: sum.splits)
  then show ?thesis by (simp add: harmless_same)
qed

lemma harmless_record:
  assumes "\<And>ov s. \<not> isl (fst (k ov s))"
  shows "harmless w s (case mutate_override w nm f s of (r, s) \<Rightarrow> on_ok r s (\<lambda>ov. k ov s))"
proof -
  obtain r s1 where m: "mutate_override w nm f s = (r, s1)" by fastforce
  show ?thesis
  proof (cases r)
    case (Inl e)
    then show ?thesis using m mutate_override_Inl[of w nm f s e s1] by simp
  next
    case (Inr ov)
    then show ?thesis using m assms[of ov s1] by (simp add: harmless_def)
  qed
qed

lemma harmless_env: "harmless w s (handle_set_sheep_env w nm key v s)"
  unfolding handle_set_sheep_env_def Let_def
  by (rule harmless_option, rule harmless_same, rule harmless_on_ok, rule harmless_option, rule harmless_same,
      rule harmless_on_ok, rule harmless_record) simp

lemma harmless_env_batch: "harmless w s (handle_set_sheep_env_batch w nm entries force dry s)"
  unfolding handle_set_sheep_env_batch_def Let_def
  by (rule harmless_option, rule harmless_same, rule harmless_on_ok, rule harmless_option, rule harmless_same,
      rule harmless_branch, rule harmless_on_ok, rule harmless_branch, rule harmless_record) simp

lemma harmless_env_copy: "harmless w s (handle_copy_sheep_env w src dst replace except dry expected s)"
  unfolding handle_copy_sheep_env_def Let_def
  by (rule harmless_on_ok, rule harmless_on_ok, rule harmless_on_ok, rule harmless_on_ok, rule harmless_on_ok, rule harmless_on_ok,
      rule harmless_option, rule harmless_branch, rule harmless_on_ok, rule harmless_branch, rule harmless_record,
      simp, rule harmless_same)

lemma harmless_field: "harmless w s (apply_sheep_field w nm key source s)"
  unfolding apply_sheep_field_def Let_def
  by (rule harmless_option, rule harmless_same, rule harmless_on_ok, rule harmless_on_ok, rule harmless_option, rule harmless_same,
      rule harmless_either, rule harmless_branch, rule harmless_on_ok, rule harmless_record) (simp add: split_beta)

lemma harmless_panes:
  "harmless w s (handle_set_sheep_field w nm key v s)" "harmless w s (handle_reset_sheep_field w nm key s)"
  "harmless w s (handle_set_sheep_dog_settings w nm dog table s)"
  unfolding handle_set_sheep_field_def handle_reset_sheep_field_def handle_set_sheep_dog_settings_def write_sheep_field_def Let_def
  by (rule harmless_on_ok, rule harmless_field, rule harmless_on_ok, rule harmless_field)
    (auto intro: harmless_field harmless_same split: option.splits sum.splits)

text \<open>
  C11. A refused edit is no edit. Whenever a pane write answers with an error - one variable, a
  batch, a copied environment, one field, a reset or a dog's table - the daemon and the override
  store are as they were, whatever the error and however late it was met, so long as the flush of
  the store's directory is not what failed.
\<close>

theorem refused_edit_is_no_edit:
  assumes "fault_sync (w_store_write w) = None"
  shows "(handle_set_sheep_env w nm key v s = (Inl e, s') \<longrightarrow> s' = s)
    \<and> (handle_set_sheep_env_batch w nm entries force dry s = (Inl e, s') \<longrightarrow> s' = s)
    \<and> (handle_copy_sheep_env w nm dst replace except dry expected s = (Inl e, s') \<longrightarrow> s' = s)
    \<and> (handle_set_sheep_field w nm key j s = (Inl e, s') \<longrightarrow> s' = s)
    \<and> (handle_reset_sheep_field w nm key s = (Inl e, s') \<longrightarrow> s' = s)
    \<and> (handle_set_sheep_dog_settings w nm dog table s = (Inl e, s') \<longrightarrow> s' = s)"
  by (intro conjI impI; rule harmless_Inl[OF _ assms], erule subst)
    (rule harmless_env harmless_env_batch harmless_env_copy harmless_panes)+

theorem refused_edit_is_no_edit_witness:
  "\<exists>e. handle_reset_sheep_field (demo\<lparr> w_store_read := no_faults\<lparr> fault_read := Some ''EIO'' \<rparr> \<rparr>) ''api'' ''max_restarts''
      (one (up api 0 0 Online RNone False) []) = (Inl e, one (up api 0 0 Online RNone False) [])"
proof -
  let ?w = "demo\<lparr> w_store_read := no_faults\<lparr> fault_read := Some ''EIO'' \<rparr> \<rparr>"
  let ?s = "one (up api 0 0 Online RNone False) []"
  have g: "refuse_unowned_key ''max_restarts'' = Inr ()"
    by (simp add: refuse_unowned_key_def apply_group_def FIELDS_def row_def)
  have "representative_id ?s ''api'' = Some 0" by (simp add: representative_id_def one_def up_def slot_new_def new_entry_def)
  then obtain e s' where r: "handle_reset_sheep_field ?w ''api'' ''max_restarts'' ?s = (Inl e, s')"
    using g by (auto simp: handle_reset_sheep_field_def apply_sheep_field_def ensure_not_dog_def template_value_def stored_record_def
        overrides_get_def overrides_all_def overrides_lock_def overrides_read_file_def read_versioned_def no_faults_def
        one_def up_def slot_new_def new_entry_def get_slot_def)
  moreover have "fault_sync (w_store_write ?w) = None" by (simp add: no_faults_def)
  ultimately have "s' = ?s" using refused_edit_is_no_edit[of ?w] by blast
  then show ?thesis using r by blast
qed

subsection \<open>Setting and resetting a field\<close>

text \<open>Writing slots and kernel limits leaves the override store alone.\<close>

lemma fold_same: "(\<And>x s. g (f x s) = g s) \<Longrightarrow> g (fold f xs s) = g s"
  by (induction xs arbitrary: s) simp_all

lemma fold_pair_same:
  assumes "\<And>x acc s. g (snd (f x (acc, s))) = g s"
  shows "g (snd (fold f xs (acc, s))) = g s"
proof (induction xs arbitrary: acc s)
  case (Cons x xs)
  obtain acc' s' where "f x (acc, s) = (acc', s')" by fastforce
  then show ?case using Cons.IH[of acc' s'] assms[of x acc s] by simp
qed simp

lemma each_slot_store [simp]: "overrides_file (each_slot nm f s) = overrides_file s"
  unfolding each_slot_def by (rule fold_same) (simp add: upd_slot_def)

lemma extras_store [simp]: "overrides_file (apply_extras_change w nm s) = overrides_file s"
proof -
  have "overrides_file (snd (fold (rewrite_memory_slot w) xs (acc, s))) = overrides_file s" for xs acc
    by (rule fold_pair_same) (auto simp: rewrite_memory_slot_def Let_def effect_def)
  then show ?thesis by (simp add: apply_extras_change_def rearm_name_def rewrite_memory_max_def Let_def split_beta effect_def)
qed

lemma limits_store [simp]: "overrides_file (snd (rewrite_cgroup_limits w nm s)) = overrides_file s"
proof -
  have "overrides_file (snd (fold (rewrite_limits_slot w) xs (acc, s))) = overrides_file s" for xs acc
    by (rule fold_pair_same) (auto simp: rewrite_limits_slot_def Let_def effect_def)
  then show ?thesis by (simp add: rewrite_cgroup_limits_def split_beta)
qed

lemma field_written_store: "overrides_file (snd (field_written w nm key v merged nxt warning ov s)) = overrides_file s"
  by (simp add: field_written_def Let_def split_beta)

lemma field_written_value: "fs_value (fst (field_written w nm key v merged nxt warning ov s)) = v"
  by (simp add: field_written_def Let_def split_beta)

lemma stored_record_store: "overrides_file s = overrides_file s' \<Longrightarrow> stored_record w nm s = stored_record w nm s'"
  by (simp add: stored_record_def)

lemma apply_sheep_field_Inr:
  assumes "apply_sheep_field w nm key source s = (Inr (Some fs), s')"
  shows "\<exists>i c v obj rec. representative_id s nm = Some i \<and> intended_spec s i = Some c \<and>
    (case source of FSet u \<Rightarrow> Inr u | FReset \<Rightarrow> template_value w nm key s) = Inr v \<and>
    to_object (w_serde w) c = Inr obj \<and> obj key \<noteq> None \<and> stored_record w nm s = Inr rec \<and> fs_value fs = v \<and>
    stored_record w nm s' = Inr (record_field_edit source key v (obj key) rec)"
proof -
  from assms obtain i where i: "representative_id s nm = Some i" by (auto simp: apply_sheep_field_def split: option.splits)
  with assms obtain v sl where v: "(case source of FSet u \<Rightarrow> Inr u | FReset \<Rightarrow> template_value w nm key s) = Inr v" "get_slot s i = Some sl"
    by (auto simp: apply_sheep_field_def on_ok_Inr split: option.splits)
  define c where "c = (case e_pending (sl_entry sl) of None \<Rightarrow> slot_app sl | Some parked \<Rightarrow> parked)"
  have c: "intended_spec s i = Some c" using v(2) by (simp add: intended_spec_def c_def)
  from assms i v obtain obj where obj: "to_object (w_serde w) c = Inr obj" "obj key \<noteq> None"
    by (auto simp: apply_sheep_field_def on_ok_Inr Let_def c_def[symmetric] split: sum.splits if_splits)
  with assms i v obtain merged nxt where
    "(case mutate_override w nm (\<lambda>rec. Inr (record_field_edit source key v (obj key) rec)) s of
        (r, s) \<Rightarrow> on_ok r s (\<lambda>ov. case field_written w nm key v merged nxt (field_warning w key merged) ov s of (fs, s) \<Rightarrow> (Inr (Some fs), s)))
      = (Inr (Some fs), s')"
    by (auto simp: apply_sheep_field_def on_ok_Inr Let_def c_def[symmetric])
  from record_step[OF this] obtain rec d ov where r: "stored_record w nm s = Inr rec"
    "stored_record w nm (s\<lparr> overrides_file := d \<rparr>) = Inr (record_field_edit source key v (obj key) rec)"
    "field_written w nm key v merged nxt (field_warning w key merged) ov (s\<lparr> overrides_file := d \<rparr>) = (fs, s')"
    by (auto simp: split_beta prod_eq_iff)
  have "overrides_file s' = overrides_file (s\<lparr> overrides_file := d \<rparr>)" "fs_value fs = v"
    using field_written_store[of w nm key v merged nxt _ ov "s\<lparr> overrides_file := d \<rparr>"]
      field_written_value[of w nm key v merged nxt _ ov "s\<lparr> overrides_file := d \<rparr>"] r(3) by (metis snd_conv fst_conv)+
  then show ?thesis using i c v(1) obj r(1,2) stored_record_store by metis
qed

text \<open>
  C14. A reset undoes a set. When an operator sets a field that no override held, a later reset of
  it that is accepted answers with the value the field had before the set, and the override record
  is again what it was, but for a template entry the record may have held for the field, which the
  reset drops.
\<close>

theorem reset_undoes_set:
  assumes set: "handle_set_sheep_field w nm key v s = (Inr (Some fs), s1)"
    and rec: "stored_record w nm s = Inr rec" "ov_fields rec key = None"
    and c: "intended_of s nm = Some c" "to_object (w_serde w) c = Inr obj"
    and reset: "handle_reset_sheep_field w nm key s1 = (Inr (Some fs'), s2)"
  shows "fs_value fs = v \<and> obj key = Some (fs_value fs')
    \<and> stored_record w nm s2 = Inr (rec\<lparr> ov_template := (ov_template rec)(key := None) \<rparr>)"
proof -
  from set have "apply_sheep_field w nm key (FSet v) s = (Inr (Some fs), s1)"
    by (auto simp: handle_set_sheep_field_def write_sheep_field_def on_ok_Inr)
  from apply_sheep_field_Inr[OF this] c[unfolded intended_of_Some] rec obtain h where h: "obj key = Some h" "fs_value fs = v"
    and s1: "stored_record w nm s1 = Inr (record_field_edit (FSet v) key v (obj key) rec)" by auto
  then have s1: "stored_record w nm s1 = Inr (rec\<lparr> ov_template := (ov_template rec)(key \<mapsto> h), ov_fields := (ov_fields rec)(key \<mapsto> v) \<rparr>)"
    using rec(2) by (simp add: record_field_edit_def)
  have t: "template_value w nm key s1 = Inr h" using s1 by (simp add: template_value_def)
  from reset have "apply_sheep_field w nm key FReset s1 = (Inr (Some fs'), s2)"
    by (auto simp: handle_reset_sheep_field_def on_ok_Inr)
  from apply_sheep_field_Inr[OF this] t s1 have "fs_value fs' = h"
    and "\<exists>held. stored_record w nm s2 = Inr (record_field_edit FReset key h held (rec\<lparr> ov_template := (ov_template rec)(key \<mapsto> h), ov_fields := (ov_fields rec)(key \<mapsto> v) \<rparr>))"
    by auto
  then show ?thesis using h rec(2) by (auto simp: record_field_edit_def fun_upd_idem)
qed

theorem reset_undoes_set_witness:
  "\<exists>fs s1 fs' s2. handle_set_sheep_field demo ''api'' ''max_restarts'' (JNumber ''9'') (one (up herd_srv 0 0 Online RNone False) []) = (Inr (Some fs), s1)
    \<and> handle_reset_sheep_field demo ''api'' ''max_restarts'' s1 = (Inr (Some fs'), s2)
    \<and> fs_value fs' = JNumber ''16'' \<and> stored_record demo ''api'' s2 = Inr no_overrides"
proof -
  let ?s = "one (up herd_srv 0 0 Online RNone False) []"
  let ?rec = "no_overrides\<lparr> ov_template := [''max_restarts'' \<mapsto> JNumber ''16''], ov_fields := [''max_restarts'' \<mapsto> JNumber ''9''] \<rparr>"
  let ?s1 = "(one (upd_entry (\<lambda>e. e\<lparr> e_spec := herd_tuned, e_overridden := [''max_restarts''] \<rparr>) (up herd_srv 0 0 Online RNone False)) [])
      \<lparr> overrides_file := Contents \<lparr> ovf_version = OVERRIDES_VERSION, ovf_apps = [(''api'', ?rec)] \<rparr> \<rparr>"
  obtain fs where set: "handle_set_sheep_field demo ''api'' ''max_restarts'' (JNumber ''9'') ?s = (Inr (Some fs), ?s1)"
    by (simp add: exec exec_pane)
  obtain fs' s2 where reset: "handle_reset_sheep_field demo ''api'' ''max_restarts'' ?s1 = (Inr (Some fs'), s2)"
    by (simp add: exec exec_pane)
  have rec: "stored_record demo ''api'' ?s = Inr no_overrides" "ov_fields no_overrides ''max_restarts'' = None"
    by (simp_all add: stored_record_def one_def init_actor_def no_overrides_def)
  have c: "intended_of ?s ''api'' = Some herd_srv" "to_object (w_serde demo) herd_srv = Inr (object_of herd_srv)"
    by (simp_all add: intended_of_def exec exec_pane)
  have "no_overrides\<lparr> ov_template := (ov_template no_overrides)(''max_restarts'' := None) \<rparr> = no_overrides" by (simp add: no_overrides_def)
  then show ?thesis using reset_undoes_set[OF set rec c reset] set reset by auto
qed

subsection \<open>Removing a variable\<close>

definition tombstoned :: "string \<Rightarrow> AppOverrides \<Rightarrow> bool" where
  "tombstoned key rec \<longleftrightarrow> (\<exists>env. ov_fields rec ''env'' = Some (JObject env) \<and> env key = Some JNull)"

lemma tombstoned_overridden: "tombstoned key rec \<Longrightarrow> key \<in> overridden_env rec"
  by (auto simp: tombstoned_def overridden_env_def)

lemma establish_env_tombstone: "tombstoned key n \<Longrightarrow> tombstoned key (establish_env n incoming)"
proof -
  assume "tombstoned key n"
  then obtain env where env: "ov_fields n ''env'' = Some (JObject env)" "env key = Some JNull" by (auto simp: tombstoned_def)
  let ?e = "\<lambda>k. if k \<in> da_declared_env incoming \<and> env k \<noteq> Some JNull then None else env k"
  have k: "?e key = Some JNull" using env(2) by simp
  then have "?e \<noteq> Map.empty" by (metis option.distinct(1))
  then have "ov_fields (establish_env n incoming) ''env'' = Some (JObject ?e)"
    unfolding establish_env_def env(1) Let_def option.case json.case by (subst if_not_P) simp_all
  then show ?thesis unfolding tombstoned_def using k by blast
qed

lemma plain_merge_tombstone:
  assumes t: "tombstoned key overrides" and m: "merge_declared sd stored incoming overrides DepthNone = Inr (c, n)"
  shows "tombstoned key n"
proof -
  from m obtain obj fobj defaults m1 where o: "merge_objects DepthNone stored incoming overrides obj fobj defaults = (m1, n)"
    by (rule merge_declared_Inr)
  let ?ks = "sorted_list_of_set (dom defaults)"
  obtain m2 n2 where f: "fold (merge_key DepthNone incoming (established overrides) fobj) ?ks (obj, overrides) = (m2, n2)"
    by (cases "fold (merge_key DepthNone incoming (established overrides) fobj) ?ks (obj, overrides)")
  have "tombstoned key n2" using t fold_merge(2)[OF f, of "''env''"] by (simp add: tombstoned_def)
  moreover have "n = establish_env n2 incoming" using o f by (simp add: merge_objects_def merge_env_def)
  ultimately show ?thesis using establish_env_tombstone by simp
qed

lemma plain_merge_env:
  assumes sd: "serde_ok sd" and m: "merge_declared sd stored incoming overrides DepthNone = Inr (c, n)"
    and k: "v \<in> ov_declared_env overrides \<or> v \<in> overridden_env overrides \<or> v \<notin> da_declared_env incoming"
  shows "map_of (app_env c) v = map_of (app_env stored) v"
proof -
  from m obtain obj fobj defaults m1 where o: "to_object sd stored = Inr obj" "to_object sd (da_config incoming) = Inr fobj"
    "merge_objects DepthNone stored incoming overrides obj fobj defaults = (m1, n)" "from_object sd m1 = Inr c" by (rule merge_declared_Inr)
  have "to_object sd c = Inr m1" by (rule merged_object[OF sd o])
  then have "m1 ''env'' = Some (env_value (app_env c))" using sd unfolding serde_ok_def by blast
  then have "env_value (app_env c) = env_value (append_env stored incoming overrides)" using merge_objects_env[OF o(3)] by simp
  then show ?thesis using env_value_inject append_env_keeps[OF k] by metis
qed

lemma w_normalize_keeps:
  assumes "w_normalize w c = Inr c'"
  shows "app_env c' = app_env c" "app_instances c' = app_instances c"
proof -
  have n: "normalize (w_platform w) c = Inr c'" using assms by (simp add: w_normalize_def)
  then show "app_instances c' = app_instances c" unfolding normalize_def by (rule normalize_keeps(3))
  show "app_env c' = app_env c"
    using arg_cong[OF normalize_keeps(1)[OF n[unfolded normalize_def]], of app_env] by simp
qed

text \<open>A variable is barred from an app: its config lacks it and its override record has a tombstone for it.\<close>

definition barred :: "string \<Rightarrow> AppConfig \<Rightarrow> AppOverrides \<Rightarrow> bool" where
  "barred key c n \<longleftrightarrow> map_of (app_env c) key = None \<and> tombstoned key n"

lemma plain_load_barred:
  assumes "serde_ok (w_serde w)" "barred key c n" "merge_declared (w_serde w) c incoming n DepthNone = Inr (m, n')"
    "w_normalize w m = Inr c'"
  shows "barred key c' n'"
proof -
  have t: "tombstoned key n" using assms(2) by (simp add: barred_def)
  have "map_of (app_env m) key = map_of (app_env c) key"
    by (rule plain_merge_env[OF assms(1,3)]) (simp add: tombstoned_overridden[OF t])
  then show ?thesis
    using plain_merge_tombstone[OF t assms(3)] w_normalize_keeps(1)[OF assms(4)] assms(2) by (simp add: barred_def)
qed

lemma env_edit_tombstones:
  assumes "record_env_edit nm key None True rec = Inr n" "key \<notin> overridden_env rec \<or> key \<in> ov_declared_env rec"
  shows "tombstoned key n"
proof -
  from assms(1) obtain env where env: "env_override_map rec nm = Inr env" by (auto simp: record_env_edit_def and_then_Inr)
  then have o: "overridden_env rec = dom env"
    by (auto simp: env_override_map_def overridden_env_def split: option.splits json.splits)
  let ?e = "(if env key = Some JNull then env else env(key := None))(key \<mapsto> JNull)"
  have "env key = None \<or> key \<in> ov_declared_env rec" using assms(2) o by (auto simp: domIff)
  then have "n = rec\<lparr> ov_fields := (ov_fields rec)(''env'' := if ?e = Map.empty then None else Some (JObject ?e)) \<rparr>"
    using assms(1) env by (auto simp: record_env_edit_def Let_def)
  moreover have "?e \<noteq> Map.empty" by (metis fun_upd_same option.distinct(1))
  ultimately have "ov_fields n ''env'' = Some (JObject ?e)" by simp
  then show ?thesis unfolding tombstoned_def by simp
qed

lemma handle_set_sheep_env_Inr:
  assumes "handle_set_sheep_env w nm key v s = (Inr (Some parked), s')"
    and c: "intended_of s nm = Some c"
  shows "\<exists>rec n ov d. w_normalize w (c\<lparr> app_env := with_env key v (app_env c) \<rparr>) = Inr parked \<and>
    stored_record w nm s = Inr rec \<and> record_env_edit nm key v (map_of (app_env c) key \<noteq> None) rec = Inr n \<and>
    stored_record w nm s' = Inr n \<and> s' = park_slots nm parked ov (s\<lparr> overrides_file := d \<rparr>)"
proof -
  from c obtain i where i: "representative_id s nm = Some i" "intended_spec s i = Some c" by (auto simp: intended_of_Some)
  with assms(1) have p: "w_normalize w (c\<lparr> app_env := with_env key v (app_env c) \<rparr>) = Inr parked"
    "(case mutate_override w nm (record_env_edit nm key v (map_of (app_env c) key \<noteq> None)) s of
        (r, s) \<Rightarrow> on_ok r s (\<lambda>ov. (Inr (Some parked), park_slots nm parked ov s))) = (Inr (Some parked), s')"
    by (auto simp: handle_set_sheep_env_def on_ok_Inr Let_def split_beta)
  from record_step[OF p(2)] obtain rec n d where "stored_record w nm s = Inr rec"
    "record_env_edit nm key v (map_of (app_env c) key \<noteq> None) rec = Inr n"
    "stored_record w nm (s\<lparr> overrides_file := d \<rparr>) = Inr n"
    "s' = park_slots nm parked (keys_of (ov_fields n)) (s\<lparr> overrides_file := d \<rparr>)" by auto
  moreover from this have "stored_record w nm s' = Inr n"
    using stored_record_store[of s' "s\<lparr> overrides_file := d \<rparr>"] by (simp add: park_slots_def)
  ultimately show ?thesis using p(1) by blast
qed

text \<open>
  C12. A variable an operator removed stays removed. When a pane removes a variable the config held,
  and a loaded file declares it or no override of the operator's held it, the variable is barred:
  it is gone from the config that is parked and the record has a tombstone for it. And whatever file
  is loaded plainly over an app from which a variable is barred, the merged and normalized config
  and the record that come out bar it still. (A variable only the operator had set needs no
  tombstone, and a file that declares it later does set it.)
\<close>

theorem removed_variable_stays_removed:
  assumes sd: "serde_ok (w_serde w)"
    and e: "handle_set_sheep_env w nm key None s = (Inr (Some parked), s')"
    and c: "intended_of s nm = Some c" "map_of (app_env c) key \<noteq> None"
    and rec: "stored_record w nm s = Inr rec" "key \<notin> overridden_env rec \<or> key \<in> ov_declared_env rec"
  shows "(\<exists>n. stored_record w nm s' = Inr n \<and> barred key parked n) \<and>
    (\<forall>c n incoming m n' c'. barred key c n \<longrightarrow> merge_declared (w_serde w) c incoming n DepthNone = Inr (m, n') \<longrightarrow>
       w_normalize w m = Inr c' \<longrightarrow> barred key c' n')"
proof -
  from handle_set_sheep_env_Inr[OF e c(1)] rec(1) c(2) obtain n where
    p: "w_normalize w (c\<lparr> app_env := with_env key None (app_env c) \<rparr>) = Inr parked"
    and n: "record_env_edit nm key None True rec = Inr n" "stored_record w nm s' = Inr n" by auto
  have "map_of (app_env parked) key = None"
    using w_normalize_keeps(1)[OF p] by (simp add: with_env_def map_of_alist_delete)
  then have "barred key parked n" using env_edit_tombstones[OF n(1) rec(2)] by (simp add: barred_def)
  then show ?thesis using n(2) plain_load_barred[OF sd] by blast
qed

theorem removed_variable_stays_removed_witness:
  "\<exists>s' n. handle_set_sheep_env demo ''api'' ''PORT'' None (one (up (api\<lparr> app_env := [(''PORT'', ''80'')] \<rparr>) 0 0 Online RNone False) []) =
      (Inr (Some api), s') \<and> stored_record demo ''api'' s' = Inr n \<and> barred ''PORT'' api n
    \<and> (\<forall>incoming m n' c'. merge_declared (w_serde demo) api incoming n DepthNone = Inr (m, n') \<longrightarrow>
         w_normalize demo m = Inr c' \<longrightarrow> map_of (app_env c') ''PORT'' = None)"
proof -
  let ?app = "api\<lparr> app_env := [(''PORT'', ''80'')] \<rparr>"
  let ?s = "one (up ?app 0 0 Online RNone False) []"
  have "w_normalize demo api = Inr api" "?app\<lparr> app_env := [] \<rparr> = api"
    using api_variants[of 1 None "[]" 16] by (simp_all add: w_normalize_def api_def minimal_def)
  then obtain s' where e: "handle_set_sheep_env demo ''api'' ''PORT'' None ?s = (Inr (Some api), s')"
    by (simp add: exec exec_pane handle_set_sheep_env_def with_env_def record_env_edit_def env_override_map_def)
  have sd: "serde_ok (w_serde demo)" by (simp add: herd_serde_def table_serde_ok)
  have c: "intended_of ?s ''api'' = Some ?app" "map_of (app_env ?app) ''PORT'' \<noteq> None" by (simp_all add: intended_of_def exec exec_pane)
  have rec: "stored_record demo ''api'' ?s = Inr no_overrides" "''PORT'' \<notin> overridden_env no_overrides \<or> ''PORT'' \<in> ov_declared_env no_overrides"
    by (simp_all add: stored_record_def one_def init_actor_def no_overrides_def overridden_env_def)
  note r = removed_variable_stays_removed[OF sd e c rec]
  then obtain n where n: "stored_record demo ''api'' s' = Inr n" "barred ''PORT'' api n" by blast
  have "map_of (app_env c') ''PORT'' = None"
    if "merge_declared (w_serde demo) api incoming n DepthNone = Inr (m, n')" "w_normalize demo m = Inr c'" for incoming m n' c'
    using r n(2) that unfolding barred_def by blast
  then show ?thesis using e n by blast
qed

subsection \<open>Copying an environment\<close>

lemma map_of_insort_key: "map_of (insort_key fst (k, v) m) = (map_of m)(k := Some v)"
proof (induction m)
  case (Cons a m)
  then show ?case by (cases a) (auto simp: fun_eq_iff)
qed simp

lemma map_of_sort_key: "map_of (sort_key fst m) = map_of m"
  by (induction m) (auto simp: sort_key_simps map_of_insort_key)

lemma map_of_btree_insert [simp]: "map_of (btree_insert k v m) x = (if x = k then Some v else map_of m x)"
  by (simp add: btree_insert_def map_of_sort_key map_of_alist_update)

lemma map_of_keys: "map_of (filter (\<lambda>(k, _). P k) m) x = (if P x then map_of m x else None)"
  by (induction m) auto

lemma fold_insert_source:
  "distinct (map fst source) \<Longrightarrow>
    map_of (fold (\<lambda>(key, v) env. if key \<in> X then env else btree_insert key v env) source m) x =
      (if x \<in> X then map_of m x else case map_of source x of Some v \<Rightarrow> Some v | None \<Rightarrow> map_of m x)"
proof (induction source arbitrary: m)
  case (Cons e source)
  obtain key v where e: "e = (key, v)" by (cases e)
  have n: "map_of source key = None" using Cons.prems e by (simp add: map_of_eq_None_iff)
  have d: "distinct (map fst source)" using Cons.prems by simp
  show ?case using Cons.IH[OF d] e n by (cases "x = key") (simp_all split: option.splits)
qed simp

text \<open>The environment a copy leaves: the excepted keys as they were, the others from the source.\<close>

lemma map_of_copied_env:
  assumes "distinct (map fst source)"
  shows "map_of (copied_env replace except source held) x =
    (if x \<in> set except then map_of held x
     else case map_of source x of Some v \<Rightarrow> Some v | None \<Rightarrow> if replace then None else map_of held x)"
proof -
  let ?all = "fold (\<lambda>(key, v) env. if key \<in> set except then env else btree_insert key v env) source held"
  have "copied_env replace except source held =
      (if replace then filter (\<lambda>(key, _). key \<in> set except \<or> map_of source key \<noteq> None) ?all else ?all)"
    by (simp add: copied_env_def Let_def)
  also have "map_of \<dots> x = (if replace \<and> \<not> (x \<in> set except \<or> map_of source x \<noteq> None) then None else map_of ?all x)"
    using map_of_keys[of "\<lambda>k. k \<in> set except \<or> map_of source k \<noteq> None" ?all x] by simp
  finally show ?thesis using fold_insert_source[OF assms, of "set except" held x] by (auto split: option.splits)
qed

lemma env_diff_empty: "env_diff w held copied = [] \<longleftrightarrow> (\<forall>k. map_of held k = map_of copied k)"
proof -
  have "env_diff w held copied = [] \<longleftrightarrow> (\<forall>k \<in> set (map_keys (held @ copied)). map_of held k = map_of copied k)"
    unfolding env_diff_def List.map_filter_def map_is_Nil_conv filter_empty_conv comp_def
    by (rule ball_cong[OF refl]) (auto split: option.splits)
  also have "\<dots> \<longleftrightarrow> (\<forall>k. map_of held k = map_of copied k)"
  proof -
    have "map_of held k = None \<and> map_of copied k = None" if "k \<notin> set (map_keys (held @ copied))" for k
      using that by (auto simp: map_keys_def map_of_eq_None_iff)
    then show ?thesis by metis
  qed
  finally show ?thesis .
qed

text \<open>Writing every slot of a name, on the list of slots.\<close>

lemma fold_upd_slots:
  "distinct ids \<Longrightarrow> sheep (fold (\<lambda>i. upd_slot i g) ids s) = map (\<lambda>(k, sl). (k, if k \<in> set ids then g sl else sl)) (sheep s)"
proof (induction ids arbitrary: s)
  case (Cons i ids)
  then have "sheep (fold (\<lambda>i. upd_slot i g) (i # ids) s) =
      map (\<lambda>(k, sl). (k, if k \<in> set ids then g sl else sl)) (sheep (upd_slot i g s))" by simp
  also have "\<dots> = map (\<lambda>(k, sl). (k, if k \<in> set (i # ids) then g sl else sl)) (sheep s)"
    using Cons.prems by (auto simp: upd_slot_def split_beta)
  finally show ?case .
qed (simp add: split_beta)

lemma each_slot_sheep:
  assumes f: "flock_ok s"
  shows "sheep (each_slot nm g s) = map (\<lambda>(k, sl). (k, if slot_name sl = nm then upd_entry g sl else sl)) (sheep s)"
proof -
  have d: "distinct (map fst (sheep s))" using flock_butD(2)[OF f] by (simp add: keys_ok_def)
  let ?named = "filter (\<lambda>(i, sl). slot_name sl = nm) (sheep s)"
  have ids: "set (ids_of_name s nm) = fst ` set ?named" by (force simp: ids_of_name_def)
  have "distinct (map snd (map (\<lambda>(i, sl). (e_instance (sl_entry sl), i)) ?named))"
    using distinct_map_filter[OF d, of "\<lambda>(i, sl). slot_name sl = nm"] by (simp add: split_beta o_def)
  then have "distinct (ids_of_name s nm)"
    unfolding ids_of_name_def distinct_map[of snd] distinct_sort set_sort .
  then have "sheep (each_slot nm g s) = map (\<lambda>(k, sl). (k, if k \<in> fst ` set ?named then upd_entry g sl else sl)) (sheep s)"
    unfolding each_slot_def by (simp add: fold_upd_slots ids)
  also have "\<dots> = map (\<lambda>(k, sl). (k, if slot_name sl = nm then upd_entry g sl else sl)) (sheep s)"
  proof (rule map_cong[OF refl])
    fix x assume x: "x \<in> set (sheep s)"
    obtain k sl where kv: "x = (k, sl)" by (cases x)
    have "k \<in> fst ` set ?named \<longleftrightarrow> slot_name sl = nm" using x kv d by (force dest: eq_key_imp_eq_value)
    then show "(case x of (k, sl) \<Rightarrow> (k, if k \<in> fst ` set ?named then upd_entry g sl else sl)) =
        (case x of (k, sl) \<Rightarrow> (k, if slot_name sl = nm then upd_entry g sl else sl))" using kv by simp
  qed
  finally show ?thesis .
qed

text \<open>Who speaks for a name depends on names, markers and instance numbers alone.\<close>

lemma map_insort_key: "map f (insort_key (\<lambda>x. k (f x)) x xs) = insort_key k (f x) (map f xs)"
  by (induction xs) simp_all

lemma map_sort_key: "map f (sort_key (\<lambda>x. k (f x)) xs) = sort_key k (map f xs)"
  by (induction xs) (simp_all add: map_insort_key)

lemma representative_id_map:
  assumes "\<And>i sl. slot_name (g i sl) = slot_name sl" "\<And>i sl. speaker_rank i (g i sl) = speaker_rank i sl"
    and s': "sheep s' = map (\<lambda>(i, sl). (i, g i sl)) (sheep s)"
  shows "representative_id s' nm = representative_id s nm"
proof -
  let ?f = "\<lambda>(i, sl). (i, g i sl)" and ?k = "\<lambda>(i, sl). speaker_rank i sl" and ?p = "\<lambda>(i, sl). slot_name sl = nm"
  have k: "?k (?f x) = ?k x" for x using assms(2) by (cases x) simp
  have "filter ?p (map ?f xs) = map ?f (filter ?p xs)" for xs by (induction xs) (auto simp: assms(1))
  then have "filter ?p (sheep s') = map ?f (filter ?p (sheep s))" unfolding s' .
  then have "sort_key ?k (filter ?p (sheep s')) = map ?f (sort_key (\<lambda>x. ?k (?f x)) (filter ?p (sheep s)))"
    by (simp only: map_sort_key)
  then show ?thesis unfolding representative_id_def k by (cases "sort_key ?k (filter ?p (sheep s))") auto
qed

lemma park_slots_sheep:
  "flock_ok s \<Longrightarrow> sheep (park_slots nm parked ov s) =
    map (\<lambda>(k, sl). (k, if slot_name sl = nm then upd_entry (\<lambda>e. e\<lparr> e_pending := Some parked, e_overridden := ov \<rparr>) sl else sl)) (sheep s)"
  unfolding park_slots_def by (rule each_slot_sheep)

lemma parked_representative:
  assumes "flock_ok s"
  shows "representative_id (park_slots nm parked ov s) x = representative_id s x"
  by (rule representative_id_map[where g = "\<lambda>i sl. if slot_name sl = nm then upd_entry (\<lambda>e. e\<lparr> e_pending := Some parked, e_overridden := ov \<rparr>) sl else sl"])
    (simp_all add: park_slots_sheep[OF assms] upd_entry_def speaker_rank_def)

lemma parked_intended:
  assumes f: "flock_ok s" and sl: "get_slot s i = Some sl"
  shows "intended_spec (park_slots nm parked ov s) i = (if slot_name sl = nm then Some parked else intended_spec s i)"
proof -
  have "map_of (map (\<lambda>(k, sl). (k, h sl)) xs) i = map_option h (map_of xs i)" for h :: "SheepSlot \<Rightarrow> SheepSlot" and xs :: "(nat \<times> SheepSlot) list"
    by (induction xs) auto
  then have "get_slot (park_slots nm parked ov s) i =
      Some (if slot_name sl = nm then upd_entry (\<lambda>e. e\<lparr> e_pending := Some parked, e_overridden := ov \<rparr>) sl else sl)"
    using sl by (simp add: get_slot_def park_slots_sheep[OF f])
  then show ?thesis using sl by (simp add: intended_spec_def upd_entry_def)
qed

lemma stored_flock: "flock_ok s \<Longrightarrow> flock_ok (s\<lparr> overrides_file := d \<rparr>)"
  using keeps_flock[OF store_keeps] by blast

lemma store_reads [simp]:
  "representative_id (s\<lparr> overrides_file := d \<rparr>) nm = representative_id s nm"
  "intended_spec (s\<lparr> overrides_file := d \<rparr>) i = intended_spec s i" "get_slot (s\<lparr> overrides_file := d \<rparr>) i = get_slot s i"
  by (simp_all add: representative_id_def intended_spec_def get_slot_def)

lemma parked_intended_of:
  assumes f: "flock_ok s" and c: "intended_of s nm = Some c"
  shows "intended_of (park_slots nm' parked ov (s\<lparr> overrides_file := d \<rparr>)) nm = Some (if nm = nm' then parked else c)"
proof -
  from c obtain i where i: "representative_id s nm = Some i" "intended_spec s i = Some c" by (auto simp: intended_of_Some)
  obtain sl where sl: "get_slot s i = Some sl" "slot_name sl = nm" by (rule representative_known[OF f i(1)])
  have "intended_spec (park_slots nm' parked ov (s\<lparr> overrides_file := d \<rparr>)) i = Some (if nm = nm' then parked else c)"
    using parked_intended[OF stored_flock[OF f], of d i sl nm' parked ov] sl i(2) by simp
  then show ?thesis using i(1) parked_representative[OF stored_flock[OF f]] by (simp add: intended_of_def)
qed

lemma parked_not_dog:
  assumes "flock_ok s"
  shows "ensure_not_dog (park_slots nm' parked ov (s\<lparr> overrides_file := d \<rparr>)) nm i = ensure_not_dog s nm i"
proof -
  have "map_of (map (\<lambda>(k, sl). (k, h sl)) xs) i = map_option h (map_of xs i)" for h :: "SheepSlot \<Rightarrow> SheepSlot" and xs :: "(nat \<times> SheepSlot) list"
    by (induction xs) auto
  then show ?thesis
    by (simp add: ensure_not_dog_def get_slot_def park_slots_sheep[OF stored_flock[OF assms]] upd_entry_def split: option.splits)
qed

lemma reviewed_Inr:
  "on_ok r1 s (\<lambda>_. on_ok r2 s (\<lambda>_.
     case (case expected of Some reviewed \<Rightarrow> if reviewed \<noteq> changes then Some reviewed else None | None \<Rightarrow> None) of
       Some reviewed \<Rightarrow> (Inl (f reviewed), s) | None \<Rightarrow> x)) = (Inr cp, s') \<Longrightarrow>
   (expected = None \<or> expected = Some changes) \<and> x = (Inr cp, s')"
  by (cases expected) (auto simp: on_ok_Inr split: if_splits)

lemma handle_copy_Inr:
  assumes h: "handle_copy_sheep_env w src dst replace except dry expected s = (Inr cp, s')"
    and a: "intended_of s src = Some a" and b: "intended_of s dst = Some b"
    and copied: "copied = copied_env replace except (app_env a) (app_env b)" and changes: "changes = env_diff w (app_env b) copied"
  shows "cp_changes cp = changes \<and> (expected = None \<or> expected = Some changes) \<and>
    (if changes = [] \<or> dry then cp_app cp = None \<and> s' = s
     else \<exists>parked ov d. w_normalize w (b\<lparr> app_env := copied \<rparr>) = Inr parked \<and> cp_app cp = Some parked \<and>
       s' = park_slots dst parked ov (s\<lparr> overrides_file := d \<rparr>))"
proof -
  from a b obtain i j where ij: "representative_id s src = Some i" "intended_spec s i = Some a" "representative_id s dst = Some j"
    "intended_spec s j = Some b" by (auto simp: intended_of_Some)
  let ?stores = "on_ok (map_err InvalidEnv (w_normalize w (b\<lparr> app_env := copied \<rparr>))) s (\<lambda>parked.
      if dry then (Inr \<lparr> cp_app = None, cp_changes = changes \<rparr>, s)
      else (case mutate_override w dst (record_env_changes dst (app_env b) copied changes) s of
              (r, s) \<Rightarrow> on_ok r s (\<lambda>ov. (Inr \<lparr> cp_app = Some parked, cp_changes = changes \<rparr>, park_slots dst parked ov s))))"
  have "handle_copy_sheep_env w src dst replace except dry expected s =
      on_ok (ensure_not_dog s src i) s (\<lambda>_. on_ok (ensure_not_dog s dst j) s (\<lambda>_.
        case (case expected of Some reviewed \<Rightarrow> if reviewed \<noteq> changes then Some reviewed else None | None \<Rightarrow> None) of
          Some reviewed \<Rightarrow> (Inl (EnvChanged (differing_keys reviewed changes)), s)
        | None \<Rightarrow> if changes = [] then (Inr \<lparr> cp_app = None, cp_changes = changes \<rparr>, s) else ?stores))"
    unfolding handle_copy_sheep_env_def ij ok_or_def option.case on_ok_simps Let_def copied changes ..
  with h have e: "expected = None \<or> expected = Some changes"
    "(if changes = [] then (Inr \<lparr> cp_app = None, cp_changes = changes \<rparr>, s) else ?stores) = (Inr cp, s')"
    by (auto dest!: reviewed_Inr)
  show ?thesis
  proof (cases "changes = [] \<or> dry")
    case True
    then show ?thesis using e by (auto simp: on_ok_Inr split: if_splits)
  next
    case False
    with e(2) obtain parked where p: "w_normalize w (b\<lparr> app_env := copied \<rparr>) = Inr parked"
      "(case mutate_override w dst (record_env_changes dst (app_env b) copied changes) s of
          (r, s) \<Rightarrow> on_ok r s (\<lambda>ov. (Inr \<lparr> cp_app = Some parked, cp_changes = changes \<rparr>, park_slots dst parked ov s))) = (Inr cp, s')"
      by (auto simp: on_ok_Inr)
    from record_step[OF p(2)] show ?thesis using e(1) p(1) False by auto
  qed
qed

lemma handle_copy_nothing:
  assumes "representative_id s src = Some i" "intended_spec s i = Some a" "representative_id s dst = Some j" "intended_spec s j = Some b"
    "ensure_not_dog s src i = Inr ()" "ensure_not_dog s dst j = Inr ()"
    "env_diff w (app_env b) (copied_env replace except (app_env a) (app_env b)) = []"
  shows "handle_copy_sheep_env w src dst replace except dry None s = (Inr \<lparr> cp_app = None, cp_changes = [] \<rparr>, s)"
  using assms by (simp add: handle_copy_sheep_env_def ok_or_def)

text \<open>
  C13. The environment that is copied is the one that was reviewed. A copy sent with the changes a
  dry run answered makes exactly those changes or is refused: afterwards what the target is meant
  to run with holds the source's value for every key the source has, its own for the excepted
  ones, and of the rest its own or, when replacing, nothing. The dry run changes nothing, and
  copying again finds nothing left to change.
\<close>

theorem reviewed_copy_lands:
  assumes f: "flock_ok s" and a: "intended_of s src = Some a" "distinct (map fst (app_env a))" and b: "intended_of s dst = Some b"
    and preview: "handle_copy_sheep_env w src dst replace except True None s = (Inr preview, s0)"
    and copy: "handle_copy_sheep_env w src dst replace except False (Some (cp_changes preview)) s = (Inr cp, s')"
  shows "s0 = s \<and> cp_changes cp = cp_changes preview \<and>
    (\<exists>c. intended_of s' dst = Some c \<and>
      (\<forall>k. map_of (app_env c) k =
        (if k \<in> set except then map_of (app_env b) k
         else case map_of (app_env a) k of Some v \<Rightarrow> Some v | None \<Rightarrow> if replace then None else map_of (app_env b) k))) \<and>
    handle_copy_sheep_env w src dst replace except dry None s' = (Inr \<lparr> cp_app = None, cp_changes = [] \<rparr>, s')"
proof -
  let ?copied = "copied_env replace except (app_env a) (app_env b)"
  let ?changes = "env_diff w (app_env b) ?copied"
  note env = map_of_copied_env[OF a(2), of replace except "app_env b"]
  from a b obtain i j where ij: "representative_id s src = Some i" "representative_id s dst = Some j" by (auto simp: intended_of_Some)
  have p: "s0 = s" "cp_changes preview = ?changes" using handle_copy_Inr[OF preview a(1) b refl refl] by simp_all
  have dogs: "ensure_not_dog s src i = Inr ()" "ensure_not_dog s dst j = Inr ()"
    using copy ij by (auto simp: handle_copy_sheep_env_def ok_or_def on_ok_Inr)
  note c = handle_copy_Inr[OF copy a(1) b refl refl]
  have "\<exists>c ov d. intended_of s' dst = Some c \<and> (\<forall>k. map_of (app_env c) k = map_of ?copied k) \<and>
      (s' = s \<and> c = b \<or> s' = park_slots dst c ov (s\<lparr> overrides_file := d \<rparr>))"
  proof (cases "?changes = []")
    case True
    then have "s' = s" using c by simp
    then show ?thesis using b True env_diff_empty[of w "app_env b" ?copied] by auto
  next
    case False
    with c obtain parked ov d where q: "w_normalize w (b\<lparr> app_env := ?copied \<rparr>) = Inr parked"
      "s' = park_slots dst parked ov (s\<lparr> overrides_file := d \<rparr>)" by auto
    have "app_env parked = ?copied" using w_normalize_keeps(1)[OF q(1)] by simp
    then show ?thesis using q(2) parked_intended_of[OF f b, of dst parked ov d] by auto
  qed
  then obtain c ov d where c': "intended_of s' dst = Some c" "\<forall>k. map_of (app_env c) k = map_of ?copied k"
    "s' = s \<and> c = b \<or> s' = park_slots dst c ov (s\<lparr> overrides_file := d \<rparr>)" by blast
  have same: "s' = s" if "src = dst"
  proof -
    have "a = b" using that a(1) b by simp
    then have "\<forall>k. map_of (app_env b) k = map_of ?copied k" using env by (auto split: option.splits)
    then show ?thesis using c by (simp add: env_diff_empty)
  qed
  then have a': "intended_of s' src = Some a"
    using c'(3) a(1) parked_intended_of[OF f a(1), of dst c ov d] by (cases "src = dst") auto
  have "representative_id s' x = representative_id s x" "ensure_not_dog s' x k = ensure_not_dog s x k" for x k
    using c'(3) parked_representative[OF stored_flock[OF f]] parked_not_dog[OF f] by auto
  moreover have "env_diff w (app_env c) (copied_env replace except (app_env a) (app_env c)) = []"
    unfolding env_diff_empty map_of_copied_env[OF a(2)] using c'(2) env by (auto split: option.splits)
  ultimately have "handle_copy_sheep_env w src dst replace except dry None s' = (Inr \<lparr> cp_app = None, cp_changes = [] \<rparr>, s')"
    using a' c'(1) ij dogs unfolding intended_of_Some by (intro handle_copy_nothing) auto
  then show ?thesis using p c c'(1,2) env by simp
qed

text \<open>Two apps side by side, one of them with a variable.\<close>

definition copying :: actor where
  "copying = init_actor\<lparr> sheep := [(0, up api 0 0 Online RNone False), (1, up (web\<lparr> app_env := [(''PORT'', ''80'')] \<rparr>) 1 0 Online RNone False)],
     next_id := 2 \<rparr>"

lemma copying_ok: "flock_ok copying"
  by (auto simp: flock_but_def keys_ok_def jobs_ok_def slot_fit_def slot_ok_def slot_base_def in_service_def parked_ok_def copying_def init_actor_def
      get_slot_def get_job_def up_def slot_new_def new_entry_def waits_ok_no_waits split: if_splits)

lemma no_seal [simp]: "w_seal demo x y = 0"
  by (simp add: demo_def)

lemmas exec_copy = handle_copy_sheep_env_def ok_or_def copied_env_def btree_insert_def env_diff_def map_keys_def List.map_filter_def
  seal_change_def record_env_edit_def env_override_map_def

theorem reviewed_copy_lands_witness:
  "\<exists>cp s' c. handle_copy_sheep_env demo ''web'' ''api'' False [] False
        (Some [\<lparr> ec_key = ''PORT'', ec_kind = Added, ec_old = None, ec_new = Some (shown_env_value ''80''), ec_seal = 0 \<rparr>]) copying = (Inr cp, s')
    \<and> intended_of s' ''api'' = Some c \<and> map_of (app_env c) ''PORT'' = Some ''80''"
proof -
  let ?new = "api\<lparr> app_env := [(''PORT'', ''80'')] \<rparr>"
  have n: "w_normalize demo ?new = Inr ?new"
    using api_variants[of 1 None "[(''PORT'', ''80'')]" 16] by (simp add: w_normalize_def api_def minimal_def)
  have env: "app_env api = []" by (simp add: api_def minimal_def)
  have a: "intended_of copying ''web'' = Some (web\<lparr> app_env := [(''PORT'', ''80'')] \<rparr>)"
    "distinct (map fst (app_env (web\<lparr> app_env := [(''PORT'', ''80'')] \<rparr>)))" and b: "intended_of copying ''api'' = Some api"
    by (simp_all add: intended_of_def copying_def exec exec_pane)
  let ?ch = "[\<lparr> ec_key = ''PORT'', ec_kind = Added, ec_old = None, ec_new = Some (shown_env_value ''80''), ec_seal = 0 \<rparr>]"
  have preview: "handle_copy_sheep_env demo ''web'' ''api'' False [] True None copying = (Inr \<lparr> cp_app = None, cp_changes = ?ch \<rparr>, copying)"
    using n env by (simp add: copying_def exec exec_pane exec_copy)
  obtain cp s' where copy: "handle_copy_sheep_env demo ''web'' ''api'' False [] False (Some ?ch) copying = (Inr cp, s')"
    using n env by (simp add: copying_def exec exec_pane exec_copy)
  have "cp_changes \<lparr> cp_app = None, cp_changes = ?ch \<rparr> = ?ch" by simp
  then show ?thesis using reviewed_copy_lands[OF copying_ok a b preview] copy by (fastforce split: if_splits)
qed

subsection \<open>A plain load\<close>

text \<open>A slot with its configs set aside: what is left is its process.\<close>

definition at_work :: "SheepSlot \<Rightarrow> SheepSlot" where
  "at_work sl = upd_entry (\<lambda>e. e\<lparr> e_spec := minimal [] [], e_pending := None, e_pending_reidentifies := False, e_overridden := [] \<rparr>) sl"

fun reconfiguring :: "effect \<Rightarrow> bool" where
  "reconfiguring (RearmName nm specs) \<longleftrightarrow> True"
| "reconfiguring (WriteMemoryMax i limit) \<longleftrightarrow> True"
| "reconfiguring (WriteCpuMax i quota) \<longleftrightarrow> True"
| "reconfiguring (WritePidsMax i tasks) \<longleftrightarrow> True"
| "reconfiguring _ \<longleftrightarrow> False"

definition reconfigured :: "actor \<Rightarrow> actor \<Rightarrow> bool" where
  "reconfigured s s' \<longleftrightarrow>
     s' = s\<lparr> sheep := sheep s', oom_baselines := oom_baselines s', overrides_file := overrides_file s', out := out s' \<rparr> \<and>
     map (map_prod id at_work) (sheep s') = map (map_prod id at_work) (sheep s) \<and>
     (\<exists>es. out s' = out s @ es \<and> list_all reconfiguring es)"

lemma reconfigured_refl: "reconfigured s s"
  by (simp add: reconfigured_def)

lemma reconfigured_trans:
  assumes "reconfigured s s'" "reconfigured s' s''"
  shows "reconfigured s s''"
proof -
  from assms(1) have 1: "s' = s\<lparr> sheep := sheep s', oom_baselines := oom_baselines s', overrides_file := overrides_file s', out := out s' \<rparr>"
    by (simp add: reconfigured_def)
  from assms(2) have "s'' = s'\<lparr> sheep := sheep s'', oom_baselines := oom_baselines s'', overrides_file := overrides_file s'', out := out s'' \<rparr>"
    by (simp add: reconfigured_def)
  then have "s'' = s\<lparr> sheep := sheep s'', oom_baselines := oom_baselines s'', overrides_file := overrides_file s'', out := out s'' \<rparr>"
    by (subst (asm) 1) simp
  then show ?thesis using assms by (auto simp: reconfigured_def)
qed

lemma reconfigured_effect: "reconfiguring e \<Longrightarrow> reconfigured s (effect e s)"
  by (simp add: reconfigured_def effect_def)

lemma reconfigured_tables:
  "reconfigured s (s\<lparr> oom_baselines := b \<rparr>)" "reconfigured s (s\<lparr> overrides_file := d \<rparr>)"
  by (simp_all add: reconfigured_def)

lemma reconfigured_fold: "(\<And>x s. reconfigured s (f x s)) \<Longrightarrow> reconfigured s (fold f xs s)"
proof (induction xs arbitrary: s)
  case (Cons x xs)
  show ?case using reconfigured_trans[OF Cons.prems Cons.IH[OF Cons.prems], of s x] by simp
qed (simp add: reconfigured_refl)

lemma reconfigured_fold_pair:
  assumes "\<And>x acc s. reconfigured s (snd (f x (acc, s)))"
  shows "reconfigured s (snd (fold f xs (acc, s)))"
proof (induction xs arbitrary: acc s)
  case (Cons x xs)
  obtain acc' s' where x: "f x (acc, s) = (acc', s')" by fastforce
  have k: "reconfigured s s'" using assms[of s x acc] x by simp
  show ?case using reconfigured_trans[OF k Cons.IH[of s' acc']] x by simp
qed (simp add: reconfigured_refl)

lemma reconfigured_slots: "(\<And>sl. at_work (upd_entry f sl) = at_work sl) \<Longrightarrow> reconfigured s (each_slot nm f s)"
proof -
  assume f: "\<And>sl. at_work (upd_entry f sl) = at_work sl"
  have "map (map_prod id at_work) (map (\<lambda>(k, sl). (k, if k = i then upd_entry f sl else sl)) xs) = map (map_prod id at_work) xs" for i xs
    by (induction xs) (auto simp: f)
  then have "reconfigured s (upd_slot i (upd_entry f) s)" for i s by (simp add: reconfigured_def upd_slot_def)
  then show ?thesis unfolding each_slot_def by (rule reconfigured_fold)
qed

lemma load_entry_works: "at_work (upd_entry (load_entry n p) sl) = at_work sl"
  by (cases n; cases p) (simp_all add: at_work_def upd_entry_def load_entry_def Let_def)

lemma reconfigured_extras: "reconfigured s (apply_extras_change w nm s)"
proof -
  have f: "reconfigured s (snd (fold (rewrite_memory_slot w) xs (acc, s)))" for xs acc
    by (rule reconfigured_fold_pair) (auto simp: rewrite_memory_slot_def Let_def reconfigured_refl reconfigured_effect)
  have "reconfigured s (rewrite_memory_max w nm s)"
    using reconfigured_trans[OF f reconfigured_tables(1)] by (simp add: rewrite_memory_max_def split_beta)
  from reconfigured_trans[OF this reconfigured_effect] show ?thesis
    by (simp add: apply_extras_change_def rearm_name_def Let_def)
qed

lemma reconfigured_limits: "reconfigured s (snd (rewrite_cgroup_limits w nm s))"
proof -
  have "reconfigured s (snd (rewrite_limits_slot w x (acc, s)))" for x acc and s :: actor
    using reconfigured_trans[OF reconfigured_effect reconfigured_effect]
    by (cases x) (simp add: rewrite_limits_slot_def Let_def reconfigured_refl)
  from reconfigured_fold_pair[OF this] show ?thesis by (simp add: rewrite_cgroup_limits_def split_beta)
qed

lemma reconfigured_written:
  assumes "reconfigured s s1"
  shows "reconfigured s (if b1 then apply_extras_change w nm s1 else s1)"
    "reconfigured s (snd (if b2 then rewrite_cgroup_limits w nm s1 else (u, s1)))"
  using assms reconfigured_trans[OF assms reconfigured_extras] reconfigured_trans[OF assms reconfigured_limits] by simp_all

lemma reconfigured_settle:
  "reconfigured s (snd (snd (settle_app w nm reset ov changes spawned merged nov ln ns rs inst ids count notes s)))"
proof -
  have o: "at_work (upd_entry (\<lambda>e. e\<lparr> e_overridden := x \<rparr>) sl) = at_work sl" for x sl by (simp add: at_work_def upd_entry_def)
  show ?thesis
    unfolding settle_app_def Let_def split_beta snd_conv
    by (rule reconfigured_trans[OF reconfigured_written(2)[OF reconfigured_written(1)[OF reconfigured_slots[OF load_entry_works]]]
          reconfigured_slots[OF o]])
qed

text \<open>The count of a config is read off its JSON.\<close>

definition serde_counts :: "serde \<Rightarrow> bool" where
  "serde_counts sd \<longleftrightarrow>
     (\<forall>c c' obj obj'. to_object sd c = Inr obj \<longrightarrow> to_object sd c' = Inr obj' \<longrightarrow> obj ''instances'' = obj' ''instances'' \<longrightarrow>
        app_instances c = app_instances c')"

lemma plain_merge_count:
  assumes sd: "serde_ok sd" "serde_counts sd" and m: "merge_declared sd stored incoming overrides DepthNone = Inr (c, n)"
  shows "app_instances c = app_instances stored"
proof -
  from m obtain obj fobj defaults m1 where o: "to_object sd stored = Inr obj" "to_object sd (da_config incoming) = Inr fobj"
    "merge_objects DepthNone stored incoming overrides obj fobj defaults = (m1, n)" "from_object sd m1 = Inr c" by (rule merge_declared_Inr)
  have "to_object sd c = Inr m1" by (rule merged_object[OF sd(1) o])
  moreover have "m1 ''instances'' = obj ''instances''" using merge_objects_keys(1)[OF o(3), of "''instances''"] by (simp add: in_scope_def)
  ultimately show ?thesis using sd(2) o(1) unfolding serde_counts_def by blast
qed

lemma count_not_drifted:
  assumes "app_instances a = app_instances b"
  shows "''instances'' \<notin> set (drifted_fields a b)"
proof -
  have "list_all (\<lambda>(k, ag). k = ''instances'' \<longrightarrow> ag) (field_agreement a b)"
    unfolding field_agreement_def using assms by simp
  then show ?thesis by (auto simp: drifted_fields_def list_all_iff split: if_splits)
qed

lemma plain_apply_one:
  assumes sd: "serde_ok (w_serde w)" "serde_counts (w_serde w)"
  shows "reconfigured s (snd (snd (apply_one w incoming DepthNone ov changes s)))"
proof (cases "Option.bind (representative_id s (app_name (da_config incoming))) (get_slot s)")
  case None
  then show ?thesis by (simp add: apply_one_def Let_def reconfigured_refl)
next
  case (Some slot)
  define intended where "intended = (case e_pending (sl_entry slot) of None \<Rightarrow> slot_app slot | Some parked \<Rightarrow> parked)"
  have step: "reconfigured s (snd (snd (case route_count w nm (''instances'' \<in> set (of_group Structural (drifted_fields intended merged))) spawned merged s of
      (Inl m, s) \<Rightarrow> (refused_app nm m, changes, s)
    | (Inr (count, nts), s) \<Rightarrow> settle_app w nm DepthNone ov changes spawned merged nov ln ns rs
        (''instances'' \<in> set (of_group Structural (drifted_fields intended merged))) ids count (g @ nts) s)))"
    if "merge_declared (w_serde w) intended incoming ov DepthNone = Inr (c, nov)" "w_normalize w c = Inr merged"
    for c nov merged nm spawned ln ns rs ids g
  proof -
    have "app_instances merged = app_instances intended"
      using plain_merge_count[OF sd that(1)] w_normalize_keeps(2)[OF that(2)] by simp
    then have "''instances'' \<notin> set (of_group Structural (drifted_fields intended merged))"
      using count_not_drifted[of intended merged] by (simp add: of_group_def)
    then have "route_count w nm (''instances'' \<in> set (of_group Structural (drifted_fields intended merged))) spawned merged s =
        (Inr (app_instances spawned, []), s)" by (simp add: route_count_def)
    then show ?thesis using reconfigured_settle by simp
  qed
  show ?thesis
  proof (cases "merge_declared (w_serde w) intended incoming ov DepthNone")
    case (Inl m)
    then show ?thesis using Some by (simp add: apply_one_def Let_def intended_def[symmetric] reconfigured_refl)
  next
    case (Inr cn)
    then obtain c nov where m: "merge_declared (w_serde w) intended incoming ov DepthNone = Inr (c, nov)" by (cases cn) simp
    show ?thesis
    proof (cases "w_normalize w c")
      case (Inl e)
      then show ?thesis using Some m by (simp add: apply_one_def Let_def intended_def[symmetric] reconfigured_refl)
    next
      case (Inr merged)
      show ?thesis
      proof (cases "e_dog (sl_entry slot) = None")
        case True
        show ?thesis
          unfolding apply_one_def Let_def Some option.case intended_def[symmetric] m Inr sum.case prod.case True simp_thms if_False
          by (rule step[OF m Inr])
      next
        case False
        then show ?thesis using Some by (simp add: apply_one_def Let_def reconfigured_refl)
      qed
    qed
  qed
qed

lemma plain_apply_each:
  assumes "serde_ok (w_serde w)" "serde_counts (w_serde w)"
  shows "reconfigured s (snd (snd (apply_each w DepthNone store apps changes s)))"
proof (induction apps arbitrary: changes s)
  case (Cons incoming apps)
  show ?case using reconfigured_trans[OF plain_apply_one[OF assms] Cons.IH] by (simp add: Let_def split_beta)
qed (simp add: reconfigured_refl)

text \<open>
  C10. A plain load changes configs and nothing else. Loading a Flockfile without a reset, whatever
  it declares and whichever apps of it are refused, spawns and kills nothing, answers no other
  caller, moves no reload, restart or instance count: every slot keeps its process and its status,
  and all that reaches the outside is limits and workers of processes that were already running.
\<close>

theorem plain_load_touches_no_process:
  assumes "serde_ok (w_serde w)" "serde_counts (w_serde w)"
  shows "reconfigured s (snd (handle_apply_config w apps DepthNone s))"
  using reconfigured_trans[OF plain_apply_each[OF assms] reconfigured_tables(2)]
  by (auto simp: handle_apply_config_def Let_def split_beta reconfigured_refl split: sum.splits)

theorem plain_load_touches_no_process_witness:
  "reconfigured (one (up tuned 0 0 Online RNone False) [])
    (snd (handle_apply_config (demo\<lparr> w_serde := web_serde \<rparr>) [web_file] DepthNone (one (up tuned 0 0 Online RNone False) [])))"
proof -
  have "app_instances c = 1" if "to_object web_serde c = Inr obj" for c obj
    using that by (auto simp: web_serde_def table_serde_def web_file_def merged_web_def tuned_def minimal_def split: if_splits)
  then have "serde_counts web_serde" by (simp add: serde_counts_def)
  moreover have "serde_ok web_serde" by (simp add: web_serde_def table_serde_ok)
  ultimately show ?thesis by (intro plain_load_touches_no_process) simp_all
qed

subsection \<open>Instances that differ\<close>

lemma herd_drift: "drifted_fields herd herd_srv = [''cwd'']"
proof -
  have "herd \<noteq> herd_srv" using herd_distinct(1) by auto
  moreover have "filter (\<lambda>(key, agree). \<not> agree) (field_agreement herd herd_srv) = [(''cwd'', False)]"
    unfolding field_agreement_def by (simp add: herd_srv_def) (simp add: herd_def api_def minimal_def)
  ultimately show ?thesis by (simp add: drifted_fields_def)
qed

text \<open>
  A live edit forgets what a sibling is still waiting for. Two instances run, a new working
  directory is parked on both, and the first is restarted into it; the second, still in the old
  one, reports the field as pending. Editing a field that applies live then overwrites the second
  instance's spec with the first one's: its process is the same, it still runs in the old
  directory, and nothing reports it any more.
\<close>

lemma live_edit_forgets_a_parked_field:
  "\<exists>s. reached False (map (Pair demo) herd_path) s \<and>
    (let s' = snd (turn demo (MCommand (CSetSheepField ''api'' ''max_restarts'' (JNumber ''9'') Dropped)) s) in
     map_option (\<lambda>sl. (e_pid (sl_entry sl), pending_fields (sl_entry sl))) (get_slot s 1) = Some (Some 101, [''cwd'']) \<and>
     map_option (\<lambda>sl. (e_pid (sl_entry sl), pending_fields (sl_entry sl))) (get_slot s' 1) = Some (Some 101, []) \<and>
     spawns_of 1 (out s') = spawns_of 1 (out s))"
  by (rule visited_reached[OF herd_split])
    (simp add: exec exec_pane waits_def moved_def pending_fields_def herd_drift drifted_fields_empty)

end
