(* ===== verification/Talking_Laws.thy ===== *)
theory Talking_Laws
  imports Scenarios
begin

text \<open>
  What talking to sheep promises: a trigger covers its selection, and a flush empties no file
  that a pump still owes bytes to. Also the order a trigger's refusals come in.
\<close>

subsection \<open>Triggers\<close>

text \<open>The rows of an answer cover a selection: one for each id, from a wait or a refusal.\<close>

definition covers ::
  "world \<Rightarrow> actor \<Rightarrow> nat list \<Rightarrow> (nat \<times> string \<times> nat) list \<Rightarrow> (nat \<Rightarrow> ActionOutcome option) \<Rightarrow> ActionReply list \<Rightarrow> bool" where
  "covers w s ids ws got rows \<longleftrightarrow> distinct (map row_id rows) \<and> set (map row_id rows) = set ids \<and>
     (\<forall>r \<in> set rows.
        (\<exists>st. (row_id r, row_name r, st) \<in> set ws \<and> row_outcome r = heard got st) \<or>
        (\<exists>sl. get_slot s (row_id r) = Some sl \<and> row_name r = slot_name sl \<and> refuse_action w sl = Some (row_outcome r)))"

lemma trigger_covers:
  assumes d: "distinct ids" and reg: "\<And>i. i \<in> set ids \<Longrightarrow> \<exists>sl. get_slot s i = Some sl"
    and r: "refused = refused_rows w s ids" and m: "map fst ws = takers w s ids"
  shows "covers w s ids ws got (if ws = [] then refused else trigger_task refused ws got)"
proof -
  let ?rows = "if ws = [] then refused else trigger_task refused ws got"
  have ids: "map row_id refused @ map fst ws = filter (\<lambda>i. i \<notin> set (takers w s ids)) ids @ takers w s ids"
    using refused_rows_ids[OF reg] by (simp add: r m)
  have same: "set ?rows = set (trigger_task refused ws got)" by (auto simp: trigger_rows(1))
  have dist: "distinct (map row_id refused @ map fst ws)"
    unfolding ids using d by (auto simp: takers_def)
  then have "distinct (map row_id ?rows)" using trigger_rows(2)[of refused ws got] by auto
  moreover have "set (map row_id ?rows) = set (map row_id refused @ map fst ws)"
    unfolding set_map same by (force simp: trigger_rows(1))
  then have "set (map row_id ?rows) = set ids" unfolding ids by (auto simp: takers_def)
  moreover have "(\<exists>st. (row_id x, row_name x, st) \<in> set ws \<and> row_outcome x = heard got st) \<or>
      (\<exists>sl. get_slot s (row_id x) = Some sl \<and> row_name x = slot_name sl \<and> refuse_action w sl = Some (row_outcome x))"
    if "x \<in> set ?rows" for x
  proof -
    have "x \<in> set refused \<or> x \<in> (\<lambda>(i, nm, st). \<lparr> row_id = i, row_name = nm, row_outcome = heard got st \<rparr>) ` set ws"
      using that same trigger_rows(1)[of refused ws got] by blast
    then show ?thesis using refused_row[of x w s ids] r by auto
  qed
  ultimately show ?thesis unfolding covers_def by blast
qed

text \<open>
  C15. A trigger covers its selection. With nobody selected it answers \<open>NotFound\<close>. Otherwise each
  selected sheep that can take the action is sent it once, under a stamp of its own that no wait has
  used, with its wait armed behind the ones it had, and nobody else is sent anything. The answer has
  exactly one row for each selected sheep, with the outcome of its wait or the reason it was refused:
  the refused rows at once when nobody can take the action, and otherwise, whatever the waits come
  to, all the rows by name and id.
\<close>

theorem trigger_covers_the_selection:
  assumes f: "flock_ok s" and ids: "ids = matching_ids s sel" and s': "s' = begin_action w sel a p fr c s"
  shows "(ids = [] \<longrightarrow> s' = effect (Reply c (TriggerBody (Inl NotFound))) s) \<and>
    (ids \<noteq> [] \<longrightarrow> (\<exists>refused waits.
     out s' = out s @ map (action_effect s a p fr) waits @
       [if waits = [] then Reply c (TriggerBody (Inr refused)) else TriggerTask refused waits c] \<and>
     map fst waits = takers w s ids \<and>
     map (snd \<circ> snd) waits = [next_action_stamp s ..< next_action_stamp s + length waits] \<and>
     (\<forall>(i, nm, st) \<in> set waits. get_slot s' i =
        map_option (\<lambda>sl. sl\<lparr> sl_actions := send_action a st (sl_actions sl) \<rparr>) (get_slot s i)) \<and>
     (\<forall>got. covers w s ids waits got (if waits = [] then refused else trigger_task refused waits got)) \<and>
     (waits \<noteq> [] \<longrightarrow> (\<forall>got. sorted (map (\<lambda>r. (row_name r, row_id r)) (trigger_task refused waits got))))))"
proof (cases "ids = []")
  case True
  then show ?thesis using ids s' by (simp add: begin_action_def)
next
  case False
  note keys = flock_butD(2)[OF f]
  have reg: "\<And>i. i \<in> set ids \<Longrightarrow> \<exists>sl. get_slot s i = Some sl" and d: "distinct ids"
    unfolding ids matching_ids_def using reached_ids_registered[OF keys] by blast+
  obtain refused waits s1 where l: "action_loop w a p fr ids [] [] s = (refused, waits, s1)" by (metis prod_cases3)
  note spec = action_loop_spec[OF d reg l]
  have r: "refused = refused_rows w s ids"
    and ws: "waits = stamped s (next_action_stamp s) (takers w s ids)" using spec by simp_all
  have e: "s' = effect (if waits = [] then Reply c (TriggerBody (Inr refused)) else TriggerTask refused waits c) s1"
    using l False by (simp add: s' begin_action_def ids[symmetric] Let_def)
  have m: "map fst waits = takers w s ids" by (simp add: ws stamped_fields(1))
  then have len: "length waits = length (takers w s ids)" by (metis length_map)
  have st: "map (snd \<circ> snd) waits = [next_action_stamp s ..< next_action_stamp s + length waits]"
    unfolding len by (simp only: ws stamped_fields(2))
  have o: "out s' = out s @ map (action_effect s a p fr) waits @
      [if waits = [] then Reply c (TriggerBody (Inr refused)) else TriggerTask refused waits c]"
    using spec unfolding e ws[symmetric] by (simp add: effect_def)
  have g: "\<forall>(i, nm, st) \<in> set waits. get_slot s' i =
        map_option (\<lambda>sl. sl\<lparr> sl_actions := send_action a st (sl_actions sl) \<rparr>) (get_slot s i)"
    using spec unfolding e ws[symmetric] by simp
  have c: "covers w s ids waits got (if waits = [] then refused else trigger_task refused waits got)" for got
    by (rule trigger_covers[OF d reg r m])
  show ?thesis using False o m st g c trigger_rows(3) by blast
qed

theorem trigger_covers_the_selection_witness:
  "\<exists>s refused waits. reached False (map (Pair demo) (reload_path @ [MReadyResult 1 0 True Ready])) s \<and>
     matching_ids s All = [0, 1] \<and>
     out (begin_action demo All ''gc'' None None Dropped s) =
       out s @ map (action_effect s ''gc'' None None) waits @ [TriggerTask refused waits Dropped] \<and>
     map fst waits = [1] \<and> set (map row_id (trigger_task refused waits (\<lambda>_. None))) = {0, 1}"
proof -
  let ?P = "\<lambda>s. matching_ids s All = [0, 1] \<and> takers demo s [0, 1] = [1]"
  obtain s where s: "reached False (map (Pair demo) (reload_path @ [MReadyResult 1 0 True Ready])) s" "?P s"
    using visited_reached[OF web_ready, of ?P]
    by (auto simp: swapping_def init_actor_def matching_ids_def reached_ids_def slot_selected_def is_disabled_id_def
        get_slot_def takers_def refuse_action_def open_channel_def wears_drainee_def up_def ordered_def slot_new_def
        new_entry_def demo_def)
  have f: "flock_ok s" using reached_invariant(1)[OF s(1)] by (simp add: steady_def)
  have ids: "[0, 1] = matching_ids s All" using s(2) by simp
  obtain refused waits where t: "out (begin_action demo All ''gc'' None None Dropped s) =
       out s @ map (action_effect s ''gc'' None None) waits @
         [if waits = [] then Reply Dropped (TriggerBody (Inr refused)) else TriggerTask refused waits Dropped]"
    "map fst waits = takers demo s [0, 1]"
    "covers demo s [0, 1] waits (\<lambda>_. None) (if waits = [] then refused else trigger_task refused waits (\<lambda>_. None))"
    using trigger_covers_the_selection[OF f ids refl, where w = demo and a = "''gc''" and p = None and
        fr = None and c = Dropped] by auto
  then have w: "waits \<noteq> []" "map fst waits = [1]" using s(2) by auto
  have "set (map row_id (trigger_task refused waits (\<lambda>_. None))) = {0, 1}" using t(3) w(1) by (auto simp: covers_def)
  then show ?thesis
    using s t(1) w by (intro exI[of _ s] exI[of _ refused] exI[of _ waits]) simp
qed

text \<open>
  A trigger nobody can take is answered in the order of the ids, where every other answer is by
  name and id: here \<open>web\<close> comes before \<open>api\<close>.
\<close>

definition unreachable :: world where
  "unreachable = demo\<lparr> w_channel_closed := \<lambda>_. True \<rparr>"

definition web_and_api :: "effect list \<Rightarrow> actor" where
  "web_and_api es = init_actor\<lparr> sheep := [(0, up web 0 0 Starting RNone True), (1, up api 1 0 Online RNone False)],
     next_id := 2, out := es \<rparr>"

lemma web_then_api: "visited [starts web, starts api] web_and_api"
  using visited_turn[OF web_started, of "starts api" web_and_api]
  by (simp add: exec web_and_api_def)

lemma refusals_out_of_order:
  "\<exists>s rows. reached False (map (Pair demo) [starts web, starts api]) s \<and>
     out (begin_action unreachable All ''gc'' None None Dropped s) = out s @ [Reply Dropped (TriggerBody (Inr rows))] \<and>
     map row_name rows = [''web'', ''api''] \<and> map row_name (trigger_task rows [] got) = [''api'', ''web'']"
proof -
  let ?P = "\<lambda>s. matching_ids s All = [0, 1] \<and> takers unreachable s [0, 1] = [] \<and>
    map row_name (refused_rows unreachable s [0, 1]) = [''web'', ''api'']"
  obtain s where s: "reached False (map (Pair demo) [starts web, starts api]) s" "?P s"
    using visited_reached[OF web_then_api, of ?P]
    by (auto simp: web_and_api_def init_actor_def matching_ids_def reached_ids_def slot_selected_def is_disabled_id_def
        get_slot_def takers_def refused_rows_def refuse_action_def open_channel_def wears_drainee_def up_def slot_new_def
        new_entry_def unreachable_def List.map_filter_def)
  have f: "flock_ok s" using reached_invariant(1)[OF s(1)] by (simp add: steady_def)
  let ?rows = "refused_rows unreachable s [0, 1]"
  obtain a b where ab: "?rows = [a, b]" "row_name a = ''web''" "row_name b = ''api''"
    using s(2) by (auto simp: map_eq_Cons_conv)
  then have "map row_name (trigger_task ?rows [] got) = [''api'', ''web'']"
    by (simp add: trigger_task_def by_name_and_id_def)
  then show ?thesis using trigger_nobody(1)[OF f, where sel = All and w = unreachable and a = "''gc''" and p = None and
        fr = None and c = Dropped] s by auto
qed

subsection \<open>Logs\<close>



end
