(* ===== verification/Outbox.thy ===== *)
theory Outbox
  imports Shep_Prelude
begin

text \<open>
  The queue between an app's threads and the one thread that writes
  (\<open>shep-channel/src/outbox.rs\<close>) and the messages it holds (\<open>wire.rs\<close>).

  Every operation holds the one lock for its whole body, so it is a function on the state behind
  the lock. An operation that waits on a condition variable returns \<open>None\<close> when its condition
  does not hold: the thread parks, and the call happens again when the state has moved. The
  \<open>f64\<close> a sample carries is never looked at; its type is a parameter.
\<close>

subsection \<open>Messages\<close>

datatype MetricType = Gauge | Counter

datatype LambLabel = LambLabel string

datatype 'v ChildMessage =
    ChReady
  | ChMetric string 'v "MetricType option" "(string \<times> string) list" "string option"
  | ChActionReply string string "u64 option"
  | ChLambLabel u32 LambLabel
  | ChNote string 'v

fun is_lossy :: "'v ChildMessage \<Rightarrow> bool" where
  "is_lossy (ChMetric _ _ _ _ _) = True"
| "is_lossy (ChNote _ _) = True"
| "is_lossy _ = False"

datatype ChannelError = ChIo | ChMalformed string | ChUnusable string | ChClosed | ChTimedOut | ChAlreadyTaken

datatype Drain = DrainEmpty | DrainStopped | DrainTimedOut

subsection \<open>The queue\<close>

definition DEFAULT_CAPACITY :: nat where
  "DEFAULT_CAPACITY = 1024"

definition MAX_BATCH :: nat where
  "MAX_BATCH = 64"

definition usize_max :: nat where
  "usize_max = 2 ^ 64 - 1"

record 'v Outbox =
  ob_queue :: "'v ChildMessage list"
  ob_dropped :: u64
  ob_closed :: bool
  ob_in_flight :: nat
  ob_stopped :: bool
  ob_capacity :: nat

definition outbox_new :: "nat \<Rightarrow> 'v Outbox" where
  "outbox_new cap =
     \<lparr> ob_queue = [], ob_dropped = 0, ob_closed = False, ob_in_flight = 0, ob_stopped = False,
       ob_capacity = cap \<rparr>"

definition count_drop :: "'v Outbox \<Rightarrow> 'v Outbox" where
  "count_drop b = b\<lparr> ob_dropped := (if ob_dropped b = - 1 then - 1 else ob_dropped b + 1) \<rparr>"

fun evict :: "'v ChildMessage list \<Rightarrow> 'v ChildMessage list option" where
  "evict [] = None"
| "evict (m # ms) = (if is_lossy m then Some ms else map_option ((#) m) (evict ms))"

definition push_lossy :: "'v ChildMessage \<Rightarrow> 'v Outbox \<Rightarrow> 'v Outbox" where
  "push_lossy m b =
     (if ob_closed b then count_drop b
      else if ob_capacity b = 0 then count_drop b
      else if ob_capacity b \<le> length (ob_queue b)
      then (case evict (ob_queue b) of
              None \<Rightarrow> count_drop b
            | Some q \<Rightarrow> (count_drop b)\<lparr> ob_queue := q @ [m] \<rparr>)
      else b\<lparr> ob_queue := ob_queue b @ [m] \<rparr>)"

definition push_blocking :: "'v ChildMessage \<Rightarrow> 'v Outbox \<Rightarrow> ((ChannelError + unit) \<times> 'v Outbox) option" where
  "push_blocking m b =
     (if ob_capacity b = 0 then Some (Inl ChClosed, b)
      else if \<not> ob_closed b \<and> ob_capacity b \<le> length (ob_queue b) then None
      else if ob_closed b then Some (Inl ChClosed, b)
      else Some (Inr (), b\<lparr> ob_queue := ob_queue b @ [m] \<rparr>))"

definition take_batch :: "'v Outbox \<Rightarrow> ((bool \<times> 'v ChildMessage list) \<times> 'v Outbox) option" where
  "take_batch b =
     (if ob_queue b = [] \<and> \<not> ob_closed b then None
      else if ob_queue b = [] then Some ((False, []), b)
      else
        (let taken = min (length (ob_queue b)) MAX_BATCH;
             batch = take taken (ob_queue b)
         in Some ((True, batch),
              b\<lparr> ob_queue := drop taken (ob_queue b),
                 ob_in_flight := min usize_max (ob_in_flight b + length batch) \<rparr>)))"

definition wrote :: "nat \<Rightarrow> 'v Outbox \<Rightarrow> 'v Outbox" where
  "wrote count b = b\<lparr> ob_in_flight := ob_in_flight b - count \<rparr>"

definition outbox_close :: "'v Outbox \<Rightarrow> 'v Outbox" where
  "outbox_close b = b\<lparr> ob_closed := True \<rparr>"

definition outbox_stop :: "'v Outbox \<Rightarrow> 'v Outbox" where
  "outbox_stop b = b\<lparr> ob_stopped := True, ob_closed := True \<rparr>"

text \<open>One turn of \<open>drain\<close>'s loop, \<open>elapsed\<close> after the call; \<open>None\<close> waits on \<open>emptied\<close>.\<close>

definition drain :: "duration \<Rightarrow> duration \<Rightarrow> 'v Outbox \<Rightarrow> Drain option" where
  "drain timeout elapsed b =
     (if ob_queue b = [] \<and> ob_in_flight b = 0 then Some DrainEmpty
      else if ob_stopped b then Some DrainStopped
      else if timeout \<le> elapsed then Some DrainTimedOut
      else None)"

definition ob_pending :: "'v Outbox \<Rightarrow> nat" where
  "ob_pending b = length (ob_queue b) + ob_in_flight b"

subsection \<open>What an eviction costs\<close>

definition kept :: "'v ChildMessage list \<Rightarrow> 'v ChildMessage list" where
  "kept = filter (\<lambda>m. \<not> is_lossy m)"

definition samples :: "'v ChildMessage list \<Rightarrow> nat" where
  "samples ms = length (filter is_lossy ms)"

lemma kept_simps [simp]:
  "kept [] = []" "kept (m # ms) = (if is_lossy m then kept ms else m # kept ms)"
  "kept (xs @ ys) = kept xs @ kept ys"
  by (simp_all add: kept_def)

lemma samples_simps [simp]:
  "samples [] = 0" "samples (m # ms) = (if is_lossy m then 1 else 0) + samples ms"
  "samples (xs @ ys) = samples xs + samples ys"
  by (simp_all add: samples_def)

lemma take_drop_kept [simp]: "kept (take n xs) @ kept (drop n xs) = kept xs"
  by (simp flip: kept_simps(3))

lemma take_drop_samples [simp]: "samples (take n xs) + samples (drop n xs) = samples xs"
  by (simp flip: samples_simps(3))

lemma evict_Some:
  "evict ms = Some q \<Longrightarrow> kept q = kept ms \<and> samples ms = Suc (samples q) \<and> length ms = Suc (length q)"
  by (induction ms arbitrary: q) (auto split: if_splits)

lemma evict_None: "evict ms = None \<longleftrightarrow> samples ms = 0"
  by (induction ms) auto

lemma count_drop_fields [simp]:
  "ob_queue (count_drop b) = ob_queue b" "ob_closed (count_drop b) = ob_closed b"
  "ob_in_flight (count_drop b) = ob_in_flight b" "ob_stopped (count_drop b) = ob_stopped b"
  "ob_capacity (count_drop b) = ob_capacity b"
  by (simp_all add: count_drop_def)

lemma count_drop_exact: "unat (ob_dropped b) < 2 ^ 64 - 1 \<Longrightarrow> unat (ob_dropped (count_drop b)) = Suc (unat (ob_dropped b))"
  by (auto simp: count_drop_def unat_word_ariths unsigned_minus_1_eq_mask mask_eq_exp_minus_1)

lemma push_lossy_fields [simp]:
  "ob_closed (push_lossy m b) = ob_closed b" "ob_in_flight (push_lossy m b) = ob_in_flight b"
  "ob_stopped (push_lossy m b) = ob_stopped b" "ob_capacity (push_lossy m b) = ob_capacity b"
  by (simp_all add: push_lossy_def split: option.splits)

lemma push_lossy_kept: "is_lossy m \<Longrightarrow> kept (ob_queue (push_lossy m b)) = kept (ob_queue b)"
  by (auto simp: push_lossy_def dest: evict_Some split: option.splits)

lemma push_lossy_length: "length (ob_queue b) \<le> ob_capacity b \<Longrightarrow> length (ob_queue (push_lossy m b)) \<le> ob_capacity b"
  by (auto simp: push_lossy_def dest: evict_Some split: option.splits)

lemma push_lossy_samples:
  "is_lossy m \<Longrightarrow> unat (ob_dropped b) < 2 ^ 64 - 1 \<Longrightarrow>
    samples (ob_queue (push_lossy m b)) + unat (ob_dropped (push_lossy m b)) =
      Suc (samples (ob_queue b) + unat (ob_dropped b))"
  using count_drop_exact[of b] by (auto simp: push_lossy_def dest: evict_Some split: option.splits)

lemma push_blocking_Some:
  "push_blocking m b = Some (Inr (), b') \<Longrightarrow> b' = b\<lparr> ob_queue := ob_queue b @ [m] \<rparr> \<and> length (ob_queue b) < ob_capacity b \<and> \<not> ob_closed b"
  "push_blocking m b = Some (Inl e, b') \<Longrightarrow> b' = b \<and> e = ChClosed \<and> (ob_capacity b = 0 \<or> ob_closed b)"
  by (auto simp: push_blocking_def split: if_splits)

lemma take_batch_Some:
  "take_batch b = Some ((True, batch), b') \<Longrightarrow> ob_in_flight b = 0 \<Longrightarrow>
    ob_queue b = batch @ ob_queue b' \<and> batch \<noteq> [] \<and> length batch \<le> MAX_BATCH \<and> ob_in_flight b' = length batch \<and>
    ob_closed b' = ob_closed b \<and> ob_stopped b' = ob_stopped b \<and> ob_capacity b' = ob_capacity b \<and> ob_dropped b' = ob_dropped b"
  "take_batch b = Some ((False, batch), b') \<Longrightarrow> b' = b \<and> ob_queue b = [] \<and> ob_closed b"
  by (auto simp: take_batch_def Let_def MAX_BATCH_def usize_max_def min_def split: if_splits)

lemma take_batch_None: "take_batch b = None \<longleftrightarrow> ob_queue b = [] \<and> \<not> ob_closed b"
  by (simp add: take_batch_def Let_def)

end
