(* ===== verification/App_Channel.thy ===== *)
theory App_Channel
  imports Outbox Core_Types "HOL-Library.Multiset"
begin

text \<open>
  The channel of an app (\<open>shep-channel/src\<close>: \<open>dispatch.rs\<close>, \<open>loops.rs\<close>, \<open>serve.rs\<close>): the reader
  thread that answers the shepherd, the threads its handlers run on, the writer thread that
  drains the outbox onto the transport, and the app's own threads on the \<open>Shepherd\<close> handle.

  The threads interleave: a step is one locked operation of one thread, and a step of a thread
  that would wait is not enabled. A handler is code of the app: a parameter, whose answer also
  depends on a state \<open>'w\<close> of the app that every step may choose. What is not the channel's is in
  the steps' labels too: which message arrives, whether a thread can be spawned, whether a write
  fails and how much of the batch it had passed on.
\<close>

subsection \<open>Dispatch\<close>

datatype PanicPayload = PayloadStr string | PayloadString string | PayloadOther

datatype 'r Called = Returned 'r | Unwound PanicPayload

type_synonym 'w ActionFn = "'w \<Rightarrow> string option \<Rightarrow> string \<Rightarrow> string option \<Rightarrow> string Called"
type_synonym 'w ShutdownFn = "'w \<Rightarrow> unit Called"

record 'w Dispatch =
  di_actions :: "string \<rightharpoonup> 'w ActionFn"
  di_shutdown :: "'w ShutdownFn option"

datatype 'v Outcome =
    OutReply "'v ChildMessage"
  | OutHandled
  | OutUnhandledShutdown
  | OutIgnored
  | OutShutdownFailed string

datatype 'w Resolved =
    ResAction "'w ActionFn" string "string option" "string option" u64
  | ResUnknownAction string u64
  | ResShutdown "'w ShutdownFn"
  | ResUnhandledShutdown
  | ResIgnored

definition dispatch_new :: "'w Dispatch" where
  "dispatch_new = \<lparr> di_actions = Map.empty, di_shutdown = None \<rparr>"

definition register_action :: "string \<Rightarrow> ('w \<Rightarrow> string option \<Rightarrow> string \<Rightarrow> string Called) \<Rightarrow> 'w Dispatch \<Rightarrow> 'w Dispatch" where
  "register_action nm handler d = d\<lparr> di_actions := (di_actions d)(nm \<mapsto> (\<lambda>w params nm _. handler w params nm)) \<rparr>"

definition register_caller_action :: "string \<Rightarrow> 'w ActionFn \<Rightarrow> 'w Dispatch \<Rightarrow> 'w Dispatch" where
  "register_caller_action nm handler d = d\<lparr> di_actions := (di_actions d)(nm \<mapsto> handler) \<rparr>"

definition register_shutdown :: "'w ShutdownFn \<Rightarrow> 'w Dispatch \<Rightarrow> 'w Dispatch" where
  "register_shutdown handler d = d\<lparr> di_shutdown := Some handler \<rparr>"

fun dispatch_resolve :: "'w Dispatch \<Rightarrow> ShepherdMessage \<Rightarrow> 'w Resolved" where
  "dispatch_resolve d ShShutdown =
     (case di_shutdown d of Some handler \<Rightarrow> ResShutdown handler | None \<Rightarrow> ResUnhandledShutdown)"
| "dispatch_resolve d (ShAction nm params caller i) =
     (case di_actions d nm of
        Some handler \<Rightarrow> ResAction handler nm params caller i
      | None \<Rightarrow> ResUnknownAction nm i)"
| "dispatch_resolve d (ShLambSignalled _ _) = ResIgnored"

fun panic_text :: "PanicPayload \<Rightarrow> string" where
  "panic_text (PayloadStr text) = text"
| "panic_text (PayloadString text) = text"
| "panic_text PayloadOther = ''panicked with a non-string payload''"

fun run_resolved :: "'w \<Rightarrow> 'w Resolved \<Rightarrow> 'v Outcome" where
  "run_resolved w (ResAction handler nm params caller i) =
     OutReply (ChActionReply nm
       (case handler w params nm caller of
          Returned body \<Rightarrow> body
        | Unwound payload \<Rightarrow> ''action handler failed: '' @ panic_text payload) (Some i))"
| "run_resolved w (ResUnknownAction nm i) =
     OutReply (ChActionReply nm (''unknown action: '' @ nm) (Some i))"
| "run_resolved w (ResShutdown handler) =
     (case handler w of Returned _ \<Rightarrow> OutHandled | Unwound payload \<Rightarrow> OutShutdownFailed (panic_text payload))"
| "run_resolved w ResUnhandledShutdown = OutUnhandledShutdown"
| "run_resolved w ResIgnored = OutIgnored"

subsection \<open>The threads\<close>

definition MAX_CONCURRENT_HANDLERS :: nat where
  "MAX_CONCURRENT_HANDLERS = 32"

definition UNHANDLED_SHUTDOWN_ADVICE :: string where
  "UNHANDLED_SHUTDOWN_ADVICE =
     ''the shepherd sent shutdown and no on_shutdown handler is registered. This '' @
     ''process will be killed when kill_timeout expires. Register one to stop gracefully.''"

datatype 'v Writer = Taking | Writing "'v ChildMessage list" | Returned_with "'v ChildMessage list"

datatype ('v, 'w) Reader =
    Reading
  | Joining
  | Answering "'w Resolved"
  | Replying "'v ChildMessage"
  | Ending
  | Ended

datatype ('v, 'w) Handler = Running "'w Resolved" | Pushing "'v ChildMessage" | Finished

text \<open>
  The last four fields record what happened: the messages a blocking push took, the ones it
  refused, the actions read off the wire, and the number of samples offered.
\<close>

record ('v, 'w) Chan =
  c_box :: "'v Outbox"
  c_wire :: "'v ChildMessage list"
  c_writer :: "'v Writer"
  c_reader :: "('v, 'w) Reader"
  c_handlers :: "('v, 'w) Handler list"
  c_dispatch :: "'w Dispatch"
  c_warned_malformed :: bool
  c_warnings :: "string list"
  c_accepted :: "'v ChildMessage list"
  c_refused :: "'v ChildMessage list"
  c_asked :: "(string \<times> u64) list"
  c_sampled :: nat

definition channel_start :: "bool \<Rightarrow> ('v, 'w) Chan" where
  "channel_start reader_spawned =
     \<lparr> c_box = outbox_new DEFAULT_CAPACITY, c_wire = [], c_writer = Taking,
       c_reader = (if reader_spawned then Reading else Ended), c_handlers = [], c_dispatch = dispatch_new,
       c_warned_malformed = False, c_warnings = [], c_accepted = [], c_refused = [], c_asked = [], c_sampled = 0 \<rparr>"

definition chan_warn :: "string \<Rightarrow> ('v, 'w) Chan \<Rightarrow> ('v, 'w) Chan" where
  "chan_warn message c = c\<lparr> c_warnings := c_warnings c @ [message] \<rparr>"

text \<open>A blocking push of a thread that goes on by \<open>k\<close>; \<open>None\<close> while it waits for room.\<close>

definition chan_push :: "'v ChildMessage \<Rightarrow> (bool \<Rightarrow> ('v, 'w) Chan \<Rightarrow> ('v, 'w) Chan) \<Rightarrow> ('v, 'w) Chan \<Rightarrow> ('v, 'w) Chan option" where
  "chan_push m k c =
     (case push_blocking m (c_box c) of
        None \<Rightarrow> None
      | Some (Inr _, b) \<Rightarrow> Some (k True (c\<lparr> c_box := b, c_accepted := c_accepted c @ [m] \<rparr>))
      | Some (Inl _, b) \<Rightarrow> Some (k False (c\<lparr> c_box := b, c_refused := c_refused c @ [m] \<rparr>)))"

definition chan_sample :: "'v ChildMessage \<Rightarrow> ('v, 'w) Chan \<Rightarrow> ('v, 'w) Chan" where
  "chan_sample m c = c\<lparr> c_box := push_lossy m (c_box c), c_sampled := Suc (c_sampled c) \<rparr>"

text \<open>The calls of the \<open>Shepherd\<close> handle.\<close>

definition shepherd_ready :: "('v, 'w) Chan \<Rightarrow> ('v, 'w) Chan option" where
  "shepherd_ready = chan_push ChReady (\<lambda>_ c. c)"

definition label_lamb :: "u32 \<Rightarrow> LambLabel \<Rightarrow> ('v, 'w) Chan \<Rightarrow> ('v, 'w) Chan option" where
  "label_lamb pid label = chan_push (ChLambLabel pid label) (\<lambda>_ c. c)"

definition metric_with ::
  "string \<Rightarrow> 'v \<Rightarrow> MetricType option \<times> (string \<times> string) list \<times> string option \<Rightarrow> ('v, 'w) Chan \<Rightarrow> ('v, 'w) Chan" where
  "metric_with nm v options =
     chan_sample (case options of (kind, labels, help) \<Rightarrow> ChMetric nm v kind labels help)"

definition metric :: "string \<Rightarrow> 'v \<Rightarrow> ('v, 'w) Chan \<Rightarrow> ('v, 'w) Chan" where
  "metric nm v = chan_sample (ChMetric nm v None [] None)"

definition note_call :: "string \<Rightarrow> 'v \<Rightarrow> ('v, 'w) Chan \<Rightarrow> ('v, 'w) Chan" where
  "note_call nm v = chan_sample (ChNote nm v)"

definition flush :: "duration \<Rightarrow> duration \<Rightarrow> ('v, 'w) Chan \<Rightarrow> (ChannelError + unit) option" where
  "flush timeout elapsed c =
     (case drain timeout elapsed (c_box c) of
        None \<Rightarrow> None
      | Some DrainEmpty \<Rightarrow> Some (Inr ())
      | Some DrainStopped \<Rightarrow> Some (Inl ChClosed)
      | Some DrainTimedOut \<Rightarrow> Some (Inl ChTimedOut))"

definition is_active :: "('v, 'w) Chan \<Rightarrow> bool" where
  "is_active c \<longleftrightarrow> \<not> ob_closed (c_box c)"

lemmas shepherd_calls [simp] = shepherd_ready_def label_lamb_def metric_with_def metric_def note_call_def

fun is_action :: "'w Resolved \<Rightarrow> bool" where
  "is_action (ResAction _ _ _ _ _) = True"
| "is_action _ = False"

definition runs_off_reader :: "'w Resolved \<Rightarrow> nat \<Rightarrow> bool" where
  "runs_off_reader resolved running \<longleftrightarrow> is_action resolved \<and> running < MAX_CONCURRENT_HANDLERS"

text \<open>The reader resolves a message and hands it to a thread of its own, or keeps it.\<close>

definition take_up :: "bool \<Rightarrow> ShepherdMessage \<Rightarrow> ('v, 'w) Chan \<Rightarrow> ('v, 'w) Chan" where
  "take_up spawned message c =
     (let resolved = dispatch_resolve (c_dispatch c) message in
      if runs_off_reader resolved (length (c_handlers c)) \<and> spawned
      then c\<lparr> c_handlers := c_handlers c @ [Running resolved], c_reader := Reading \<rparr>
      else c\<lparr> c_reader := Answering resolved \<rparr>)"

definition asked_by :: "ShepherdMessage \<Rightarrow> (string \<times> u64) list" where
  "asked_by message = (case message of ShAction nm _ _ i \<Rightarrow> [(nm, i)] | _ \<Rightarrow> [])"

definition reader_took :: "bool \<Rightarrow> ShepherdMessage \<Rightarrow> ('v, 'w) Chan \<Rightarrow> ('v, 'w) Chan" where
  "reader_took spawned message c =
     (let c = c\<lparr> c_handlers := filter (\<lambda>h. h \<noteq> Finished) (c_handlers c), c_asked := c_asked c @ asked_by message \<rparr> in
      if message = ShShutdown then c\<lparr> c_reader := Joining \<rparr> else take_up spawned message c)"

fun answered :: "'v Outcome \<Rightarrow> ('v, 'w) Chan \<Rightarrow> ('v, 'w) Chan" where
  "answered (OutReply reply) c = c\<lparr> c_reader := Replying reply \<rparr>"
| "answered OutHandled c = c\<lparr> c_reader := Reading \<rparr>"
| "answered OutIgnored c = c\<lparr> c_reader := Reading \<rparr>"
| "answered OutUnhandledShutdown c = (chan_warn UNHANDLED_SHUTDOWN_ADVICE c)\<lparr> c_reader := Reading \<rparr>"
| "answered (OutShutdownFailed message) c =
     (chan_warn (''shutdown handler panicked: '' @ message) c)\<lparr> c_reader := Reading \<rparr>"

definition malformed :: "string \<Rightarrow> ('v, 'w) Chan \<Rightarrow> ('v, 'w) Chan" where
  "malformed message c =
     (if c_warned_malformed c then c
      else chan_warn (''malformed frame from the shepherd: '' @ message) (c\<lparr> c_warned_malformed := True \<rparr>))"

definition joined :: "('v, 'w) Chan \<Rightarrow> bool" where
  "joined c \<longleftrightarrow> list_all (\<lambda>h. h = Finished) (c_handlers c)"

datatype ('v, 'w) Label =
    AppReady
  | AppLabelLamb u32 LambLabel
  | AppMetric string 'v
  | AppMetricWith string 'v "MetricType option \<times> (string \<times> string) list \<times> string option"
  | AppNote string 'v
  | OnAction string "'w \<Rightarrow> string option \<Rightarrow> string \<Rightarrow> string Called"
  | OnActionWithCaller string "'w ActionFn"
  | OnShutdown "'w ShutdownFn"
  | ReaderReads bool ShepherdMessage
  | ReaderMalformed string
  | ReaderEnd
  | ReaderJoined
  | ReaderRuns 'w
  | ReaderReplies
  | ReaderCloses
  | HandlerRuns nat 'w
  | HandlerPushes nat
  | WriterTakes
  | WriterWrote
  | WriterFails nat

definition set_handler :: "nat \<Rightarrow> ('v, 'w) Handler \<Rightarrow> ('v, 'w) Chan \<Rightarrow> ('v, 'w) Chan" where
  "set_handler i h c = c\<lparr> c_handlers := (c_handlers c)[i := h] \<rparr>"

fun handler_ran :: "nat \<Rightarrow> 'v Outcome \<Rightarrow> ('v, 'w) Chan \<Rightarrow> ('v, 'w) Chan" where
  "handler_ran i (OutReply reply) c = set_handler i (Pushing reply) c"
| "handler_ran i _ c = set_handler i Finished c"

definition writer_takes :: "('v, 'w) Chan \<Rightarrow> ('v, 'w) Chan option" where
  "writer_takes c =
     (case take_batch (c_box c) of
        None \<Rightarrow> None
      | Some ((True, batch), b) \<Rightarrow> Some (c\<lparr> c_box := b, c_writer := Writing batch \<rparr>)
      | Some ((False, _), b) \<Rightarrow> Some (c\<lparr> c_box := outbox_stop b, c_writer := Returned_with [] \<rparr>))"

definition reader_closes :: "('v, 'w) Chan \<Rightarrow> ('v, 'w) Chan" where
  "reader_closes c = c\<lparr> c_handlers := [], c_box := outbox_close (c_box c), c_reader := Ended \<rparr>"

fun chan_step :: "('v, 'w) Label \<Rightarrow> ('v, 'w) Chan \<Rightarrow> ('v, 'w) Chan option" where
  "chan_step AppReady c = shepherd_ready c"
| "chan_step (AppLabelLamb pid label) c = label_lamb pid label c"
| "chan_step (AppMetric nm v) c = Some (metric nm v c)"
| "chan_step (AppMetricWith nm v options) c = Some (metric_with nm v options c)"
| "chan_step (AppNote nm v) c = Some (note_call nm v c)"
| "chan_step (OnAction nm handler) c = Some (c\<lparr> c_dispatch := register_action nm handler (c_dispatch c) \<rparr>)"
| "chan_step (OnActionWithCaller nm handler) c = Some (c\<lparr> c_dispatch := register_caller_action nm handler (c_dispatch c) \<rparr>)"
| "chan_step (OnShutdown handler) c = Some (c\<lparr> c_dispatch := register_shutdown handler (c_dispatch c) \<rparr>)"
| "chan_step (ReaderReads spawned message) c =
     (if c_reader c = Reading then Some (reader_took spawned message c) else None)"
| "chan_step (ReaderMalformed message) c =
     (if c_reader c = Reading then Some (malformed message c) else None)"
| "chan_step ReaderEnd c = (if c_reader c = Reading then Some (c\<lparr> c_reader := Ending \<rparr>) else None)"
| "chan_step ReaderJoined c =
     (if c_reader c = Joining \<and> joined c then Some (take_up False ShShutdown (c\<lparr> c_handlers := [] \<rparr>)) else None)"
| "chan_step (ReaderRuns w) c =
     (case c_reader c of Answering resolved \<Rightarrow> Some (answered (run_resolved w resolved) c) | _ \<Rightarrow> None)"
| "chan_step ReaderReplies c =
     (case c_reader c of
        Replying reply \<Rightarrow> chan_push reply (\<lambda>ok c. c\<lparr> c_reader := (if ok then Reading else Ending) \<rparr>) c
      | _ \<Rightarrow> None)"
| "chan_step ReaderCloses c =
     (if c_reader c = Ending \<and> joined c then Some (reader_closes c) else None)"
| "chan_step (HandlerRuns i w) c =
     (if i < length (c_handlers c)
      then (case c_handlers c ! i of Running resolved \<Rightarrow> Some (handler_ran i (run_resolved w resolved) c) | _ \<Rightarrow> None)
      else None)"
| "chan_step (HandlerPushes i) c =
     (if i < length (c_handlers c)
      then (case c_handlers c ! i of
              Pushing reply \<Rightarrow> chan_push reply (\<lambda>_. set_handler i Finished) c
            | _ \<Rightarrow> None)
      else None)"
| "chan_step WriterTakes c = (if c_writer c = Taking then writer_takes c else None)"
| "chan_step WriterWrote c =
     (case c_writer c of
        Writing batch \<Rightarrow>
          Some (c\<lparr> c_wire := c_wire c @ batch, c_box := wrote (length batch) (c_box c), c_writer := Taking \<rparr>)
      | _ \<Rightarrow> None)"
| "chan_step (WriterFails n) c =
     (case c_writer c of
        Writing batch \<Rightarrow>
          Some (c\<lparr> c_wire := c_wire c @ take n batch, c_box := outbox_stop (c_box c), c_writer := Returned_with (drop n batch) \<rparr>)
      | _ \<Rightarrow> None)"

inductive chan_reached :: "('v, 'w) Chan \<Rightarrow> bool" where
  start: "chan_reached (channel_start spawned)"
| step: "chan_reached c \<Longrightarrow> chan_step l c = Some c' \<Longrightarrow> chan_reached c'"

fun chan_run :: "('v, 'w) Label list \<Rightarrow> ('v, 'w) Chan \<Rightarrow> ('v, 'w) Chan option" where
  "chan_run [] c = Some c"
| "chan_run (l # ls) c = (case chan_step l c of None \<Rightarrow> None | Some c \<Rightarrow> chan_run ls c)"

lemma chan_run_reached: "chan_run ls c = Some c' \<Longrightarrow> chan_reached c \<Longrightarrow> chan_reached c'"
  by (induction ls arbitrary: c) (auto split: option.splits intro: chan_reached.step)

lemma chan_run_append: "chan_run (xs @ ys) c = (case chan_run xs c of None \<Rightarrow> None | Some c \<Rightarrow> chan_run ys c)"
  by (induction xs arbitrary: c) (auto split: option.splits)

subsection \<open>What is where\<close>

definition held :: "('v, 'w) Chan \<Rightarrow> 'v ChildMessage list" where
  "held c = (case c_writer c of Taking \<Rightarrow> [] | Writing batch \<Rightarrow> batch | Returned_with left \<Rightarrow> left)"

definition in_transit :: "('v, 'w) Chan \<Rightarrow> 'v ChildMessage list" where
  "in_transit c = c_wire c @ held c @ ob_queue (c_box c)"

fun reply_stamp :: "'v ChildMessage \<Rightarrow> (string \<times> u64) multiset" where
  "reply_stamp (ChActionReply nm _ (Some i)) = {#(nm, i)#}"
| "reply_stamp _ = {#}"

definition stamps :: "'v ChildMessage list \<Rightarrow> (string \<times> u64) multiset" where
  "stamps ms = sum_list (map reply_stamp ms)"

fun is_reply :: "'v ChildMessage \<Rightarrow> bool" where
  "is_reply (ChActionReply _ _ (Some _)) = True"
| "is_reply _ = False"

fun owed_for :: "'w Resolved \<Rightarrow> (string \<times> u64) multiset" where
  "owed_for (ResAction _ nm _ _ i) = {#(nm, i)#}"
| "owed_for (ResUnknownAction nm i) = {#(nm, i)#}"
| "owed_for _ = {#}"

fun handler_owes :: "('v, 'w) Handler \<Rightarrow> (string \<times> u64) multiset" where
  "handler_owes (Running resolved) = owed_for resolved"
| "handler_owes (Pushing reply) = reply_stamp reply"
| "handler_owes Finished = {#}"

fun reader_owes :: "('v, 'w) Reader \<Rightarrow> (string \<times> u64) multiset" where
  "reader_owes (Answering resolved) = owed_for resolved"
| "reader_owes (Replying reply) = reply_stamp reply"
| "reader_owes _ = {#}"

definition owes :: "('v, 'w) Chan \<Rightarrow> (string \<times> u64) multiset" where
  "owes c = reader_owes (c_reader c) + sum_list (map handler_owes (c_handlers c))"

fun handler_ok :: "('v, 'w) Handler \<Rightarrow> bool" where
  "handler_ok (Running resolved) = is_action resolved"
| "handler_ok (Pushing reply) = is_reply reply"
| "handler_ok Finished = True"

fun reader_ok :: "('v, 'w) Reader \<Rightarrow> bool" where
  "reader_ok (Replying reply) = is_reply reply"
| "reader_ok _ = True"

definition write_failed :: "('v, 'w) Chan \<Rightarrow> bool" where
  "write_failed c \<longleftrightarrow> ob_stopped (c_box c) \<and> 0 < ob_in_flight (c_box c)"

subsection \<open>Invariants\<close>

definition writer_ok :: "('v, 'w) Chan \<Rightarrow> bool" where
  "writer_ok c \<longleftrightarrow>
     ob_capacity (c_box c) = DEFAULT_CAPACITY \<and> length (ob_queue (c_box c)) \<le> DEFAULT_CAPACITY \<and>
     (case c_writer c of
        Taking \<Rightarrow> ob_in_flight (c_box c) = 0 \<and> \<not> ob_stopped (c_box c)
      | Writing batch \<Rightarrow> ob_in_flight (c_box c) = length batch \<and> batch \<noteq> [] \<and> \<not> ob_stopped (c_box c)
      | Returned_with left \<Rightarrow>
          ob_stopped (c_box c) \<and> ob_closed (c_box c) \<and> length left \<le> ob_in_flight (c_box c) \<and>
          (ob_in_flight (c_box c) = 0 \<longrightarrow> ob_queue (c_box c) = []))"

definition replies_ok :: "('v, 'w) Chan \<Rightarrow> bool" where
  "replies_ok c \<longleftrightarrow> reader_ok (c_reader c) \<and> (\<forall>h \<in> set (c_handlers c). handler_ok h) \<and>
     mset (c_asked c) = stamps (c_accepted c) + stamps (c_refused c) + owes c"

definition delivery_ok :: "('v, 'w) Chan \<Rightarrow> bool" where
  "delivery_ok c \<longleftrightarrow> kept (in_transit c) = c_accepted c"

definition samples_ok :: "('v, 'w) Chan \<Rightarrow> bool" where
  "samples_ok c \<longleftrightarrow>
     (c_sampled c < 2 ^ 64 \<longrightarrow> samples (in_transit c) + unat (ob_dropped (c_box c)) = c_sampled c)"

definition closing_ok :: "('v, 'w) Chan \<Rightarrow> bool" where
  "closing_ok c \<longleftrightarrow>
     (ob_closed (c_box c) \<longrightarrow> c_reader c = Ended \<or> write_failed c) \<and>
     (stamps (c_refused c) \<noteq> {#} \<longrightarrow> write_failed c) \<and> (c_reader c = Ended \<longrightarrow> c_handlers c = [])"

definition chan_ok :: "('v, 'w) Chan \<Rightarrow> bool" where
  "chan_ok c \<longleftrightarrow> writer_ok c \<and> replies_ok c \<and> delivery_ok c \<and> samples_ok c \<and> closing_ok c"

lemmas chan_ok_defs = writer_ok_def replies_ok_def delivery_ok_def samples_ok_def closing_ok_def

lemma stamps_simps [simp]:
  "stamps [] = {#}" "stamps (m # ms) = reply_stamp m + stamps ms" "stamps (xs @ ys) = stamps xs + stamps ys"
  by (simp_all add: stamps_def)

lemma reply_kept: "is_reply m \<Longrightarrow> \<not> is_lossy m"
  by (cases m) auto

lemma run_owed:
  "run_resolved w resolved = OutReply reply \<Longrightarrow> is_reply reply \<and> reply_stamp reply = owed_for resolved"
  "\<forall>reply. run_resolved w resolved \<noteq> OutReply reply \<Longrightarrow> owed_for resolved = {#}"
  by (cases resolved; force split: Called.splits)+

lemma run_action: "is_action resolved \<Longrightarrow> \<exists>reply. run_resolved w resolved = OutReply reply"
  by (cases resolved) auto

lemma owed_asked: "owed_for (dispatch_resolve d message) = mset (asked_by message)"
  by (cases message) (auto simp: asked_by_def split: option.splits)

lemma start_ok: "chan_ok (channel_start spawned)"
  by (simp add: chan_ok_def chan_ok_defs channel_start_def outbox_new_def in_transit_def held_def owes_def write_failed_def)

text \<open>A blocking push, by what its thread was holding.\<close>

lemma push_cases:
  assumes "chan_push m k c = Some c'"
  obtains (taken) "c' = k True (c\<lparr> c_box := (c_box c)\<lparr> ob_queue := ob_queue (c_box c) @ [m] \<rparr>, c_accepted := c_accepted c @ [m] \<rparr>)"
      "length (ob_queue (c_box c)) < ob_capacity (c_box c)" "\<not> ob_closed (c_box c)"
  | (refused) "c' = k False (c\<lparr> c_refused := c_refused c @ [m] \<rparr>)" "ob_capacity (c_box c) = 0 \<or> ob_closed (c_box c)"
proof (cases "push_blocking m (c_box c)")
  case None
  then show ?thesis using assms by (simp add: chan_push_def)
next
  case (Some p)
  obtain r b where p: "p = (r, b)" by (cases p)
  show ?thesis
  proof (cases r)
    case (Inr u)
    then show ?thesis using assms Some p push_blocking_Some(1)[of m "c_box c" b] by (intro taken) (simp_all add: chan_push_def)
  next
    case (Inl e)
    then show ?thesis using assms Some p push_blocking_Some(2)[of m "c_box c" e b] by (intro refused) (auto simp: chan_push_def)
  qed
qed

subsection \<open>Every step keeps the invariants\<close>

lemma sum_list_update:
  fixes f :: "'a \<Rightarrow> 'b::comm_monoid_add"
  shows "i < length xs \<Longrightarrow> sum_list (map f (xs[i := x])) + f (xs ! i) = sum_list (map f xs) + f x"
  by (induction xs arbitrary: i) (auto simp: ac_simps split: nat.splits)

lemma owes_set_handler:
  "i < length (c_handlers c) \<Longrightarrow> handler_owes h = handler_owes (c_handlers c ! i) \<Longrightarrow> owes (set_handler i h c) = owes c"
  using sum_list_update[of i "c_handlers c" handler_owes h] by (simp add: owes_def set_handler_def)

lemma owes_finished:
  "i < length (c_handlers c) \<Longrightarrow> owes (set_handler i Finished c) + handler_owes (c_handlers c ! i) = owes c"
  using sum_list_update[of i "c_handlers c" handler_owes Finished] by (simp add: owes_def set_handler_def ac_simps)

lemma owes_unfinished: "sum_list (map handler_owes (filter (\<lambda>h. h \<noteq> Finished) hs)) = sum_list (map handler_owes hs)"
  by (induction hs) auto

lemma owes_all_finished: "list_all (\<lambda>h. h = Finished) hs \<Longrightarrow> sum_list (map handler_owes hs) = {#}"
  by (induction hs) auto

lemma owes_joined: "joined c \<Longrightarrow> owes c = reader_owes (c_reader c)"
  by (simp add: joined_def owes_def owes_all_finished)

lemma transit_simps [simp]:
  "in_transit (c\<lparr> c_reader := r \<rparr>) = in_transit c" "in_transit (c\<lparr> c_handlers := hs \<rparr>) = in_transit c"
  "in_transit (c\<lparr> c_dispatch := d \<rparr>) = in_transit c" "in_transit (c\<lparr> c_asked := a \<rparr>) = in_transit c"
  "in_transit (c\<lparr> c_accepted := ms \<rparr>) = in_transit c" "in_transit (c\<lparr> c_refused := ms \<rparr>) = in_transit c"
  "in_transit (c\<lparr> c_warnings := ws \<rparr>) = in_transit c" "in_transit (c\<lparr> c_warned_malformed := wm \<rparr>) = in_transit c"
  "in_transit (c\<lparr> c_sampled := n \<rparr>) = in_transit c"
  "in_transit (c\<lparr> c_box := b \<rparr>) = c_wire c @ held c @ ob_queue b"
  "held (c\<lparr> c_box := b \<rparr>) = held c"
  by (simp_all add: in_transit_def held_def)

text \<open>Steps that only move a message between the threads.\<close>

definition same_box :: "('v, 'w) Chan \<Rightarrow> ('v, 'w) Chan \<Rightarrow> bool" where
  "same_box c c' \<longleftrightarrow> c_box c' = c_box c \<and> c_writer c' = c_writer c \<and> c_wire c' = c_wire c \<and>
     c_accepted c' = c_accepted c \<and> c_refused c' = c_refused c \<and> c_sampled c' = c_sampled c"

lemma same_box_ok:
  assumes "chan_ok c" "same_box c c'" "replies_ok c'" "c_reader c \<noteq> Ended" "c_reader c' \<noteq> Ended"
  shows "chan_ok c'"
proof -
  have "writer_ok c'" using assms(1,2) by (cases "c_writer c") (simp_all add: chan_ok_def writer_ok_def same_box_def)
  moreover have "delivery_ok c'" "samples_ok c'" "closing_ok c'"
    using assms(1,2,4,5)
    by (simp_all add: chan_ok_def delivery_ok_def samples_ok_def closing_ok_def same_box_def in_transit_def held_def write_failed_def)
  ultimately show ?thesis using assms(3) by (simp add: chan_ok_def)
qed

lemma take_up_replies:
  assumes "reader_ok (c_reader c)" "\<forall>h \<in> set (c_handlers c). handler_ok h"
    "mset (c_asked c) = stamps (c_accepted c) + stamps (c_refused c) + sum_list (map handler_owes (c_handlers c)) + mset (asked_by message)"
  shows "replies_ok (take_up spawned message c)"
  using assms owed_asked[of "c_dispatch c" message]
  by (auto simp: take_up_def replies_ok_def Let_def owes_def runs_off_reader_def)

lemma take_up_same: "same_box c (take_up spawned message c)"
  by (simp add: take_up_def same_box_def Let_def)

lemma take_up_reader: "c_reader (take_up spawned message c) \<noteq> Ended"
  by (simp add: take_up_def Let_def)

lemma reader_took_ok:
  assumes "chan_ok c" "c_reader c = Reading"
  shows "chan_ok (reader_took spawned message c)"
proof -
  let ?c = "c\<lparr> c_handlers := filter (\<lambda>h. h \<noteq> Finished) (c_handlers c), c_asked := c_asked c @ asked_by message \<rparr>"
  have r: "replies_ok c" using assms(1) by (simp add: chan_ok_def)
  then have "replies_ok (take_up spawned message ?c)"
    using assms(2) by (intro take_up_replies) (auto simp: replies_ok_def owes_def owes_unfinished)
  moreover have "replies_ok (?c\<lparr> c_reader := Joining \<rparr>)" if "message = ShShutdown"
    using r assms(2) that by (auto simp: replies_ok_def owes_def owes_unfinished asked_by_def)
  ultimately have "replies_ok (reader_took spawned message c)" by (simp add: reader_took_def Let_def)
  moreover have "same_box c (reader_took spawned message c)" "c_reader (reader_took spawned message c) \<noteq> Ended"
    using take_up_same[of ?c spawned message] take_up_reader[of spawned message ?c] by (auto simp: reader_took_def Let_def same_box_def)
  ultimately show ?thesis using same_box_ok[OF assms(1)] assms(2) by simp
qed

lemma joined_ok:
  assumes "chan_ok c" "c_reader c = Joining" "joined c"
  shows "chan_ok (take_up False ShShutdown (c\<lparr> c_handlers := [] \<rparr>))"
proof (rule same_box_ok[OF assms(1)])
  show "replies_ok (take_up False ShShutdown (c\<lparr> c_handlers := [] \<rparr>))"
    using assms owes_joined[OF assms(3)] by (intro take_up_replies) (auto simp: chan_ok_def replies_ok_def asked_by_def)
qed (use take_up_same[of "c\<lparr> c_handlers := [] \<rparr>" False ShShutdown] take_up_reader assms(2) in \<open>auto simp: same_box_def\<close>)

lemma answered_ok:
  assumes "chan_ok c" "c_reader c = Answering resolved"
  shows "chan_ok (answered (run_resolved w resolved) c)"
proof (rule same_box_ok[OF assms(1)])
  have r: "replies_ok c" using assms(1) by (simp add: chan_ok_def)
  show "replies_ok (answered (run_resolved w resolved) c)"
    using r run_owed[of w resolved] assms(2)
    by (cases "run_resolved w resolved :: 'a Outcome") (auto simp: replies_ok_def owes_def chan_warn_def)
qed (use assms(2) in \<open>cases "run_resolved w resolved :: 'a Outcome"; simp add: same_box_def chan_warn_def\<close>)+

lemma handler_ran_ok:
  fixes c :: "('v, 'w) Chan"
  assumes "chan_ok c" "i < length (c_handlers c)" "c_handlers c ! i = Running resolved"
  shows "chan_ok (handler_ran i (run_resolved w resolved) c)"
proof (rule same_box_ok[OF assms(1)])
  have r: "replies_ok c" using assms(1) by (simp add: chan_ok_def)
  have h: "handler_ok (c_handlers c ! i)" using r assms(2) by (simp add: replies_ok_def)
  then obtain reply :: "'v ChildMessage" where reply: "run_resolved w resolved = OutReply reply" using run_action[of resolved w] assms(3) by auto
  note o = run_owed(1)[OF reply]
  have "owes (set_handler i (Pushing reply) c) = owes c" using o assms(2,3) by (intro owes_set_handler) auto
  moreover have "\<forall>h \<in> set ((c_handlers c)[i := Pushing reply]). handler_ok h"
    using r o by (auto simp: replies_ok_def dest: set_update_subset_insert[THEN subsetD])
  ultimately show "replies_ok (handler_ran i (run_resolved w resolved) c)"
    using r reply by (simp add: replies_ok_def set_handler_def)
  show "same_box c (handler_ran i (run_resolved w resolved) c)" using reply by (simp add: same_box_def set_handler_def)
  show "c_reader c \<noteq> Ended" using assms by (auto simp: chan_ok_def closing_ok_def)
  then show "c_reader (handler_ran i (run_resolved w resolved) c) \<noteq> Ended" using reply by (simp add: set_handler_def)
qed

text \<open>
  A blocking push of a message by a thread that owes its stamp until it is over, and the stamp
  of an app's own message is nothing.
\<close>

definition pushes :: "'v ChildMessage \<Rightarrow> (bool \<Rightarrow> ('v, 'w) Chan \<Rightarrow> ('v, 'w) Chan) \<Rightarrow> ('v, 'w) Chan \<Rightarrow> bool" where
  "pushes m k c \<longleftrightarrow> \<not> is_lossy m \<and> (reply_stamp m \<noteq> {#} \<longrightarrow> c_reader c \<noteq> Ended) \<and>
     (\<forall>ok b acc ref. let c1 = c\<lparr> c_box := b, c_accepted := acc, c_refused := ref \<rparr>; c' = k ok c1 in
        same_box c1 c' \<and> c_asked c' = c_asked c \<and> reader_ok (c_reader c') \<and> (\<forall>h \<in> set (c_handlers c'). handler_ok h) \<and>
        owes c' + reply_stamp m = owes c \<and>
        (c_reader c' = Ended \<longleftrightarrow> c_reader c = Ended) \<and> (c_handlers c = [] \<longrightarrow> c_handlers c' = []))"

lemma pushes_message:
  assumes "pushes m k c"
  shows "\<not> is_lossy m" "reply_stamp m \<noteq> {#} \<longrightarrow> c_reader c \<noteq> Ended"
  using assms unfolding pushes_def Let_def by blast+

lemma pushesD:
  assumes "pushes m k c"
  shows "same_box (c\<lparr> c_box := b, c_accepted := acc, c_refused := ref \<rparr>) (k ok (c\<lparr> c_box := b, c_accepted := acc, c_refused := ref \<rparr>))"
    "c_asked (k ok (c\<lparr> c_box := b, c_accepted := acc, c_refused := ref \<rparr>)) = c_asked c"
    "reader_ok (c_reader (k ok (c\<lparr> c_box := b, c_accepted := acc, c_refused := ref \<rparr>)))"
    "\<forall>h \<in> set (c_handlers (k ok (c\<lparr> c_box := b, c_accepted := acc, c_refused := ref \<rparr>))). handler_ok h"
    "owes (k ok (c\<lparr> c_box := b, c_accepted := acc, c_refused := ref \<rparr>)) + reply_stamp m = owes c"
    "c_reader (k ok (c\<lparr> c_box := b, c_accepted := acc, c_refused := ref \<rparr>)) = Ended \<longleftrightarrow> c_reader c = Ended"
    "c_handlers c = [] \<longrightarrow> c_handlers (k ok (c\<lparr> c_box := b, c_accepted := acc, c_refused := ref \<rparr>)) = []"
  using assms unfolding pushes_def Let_def by blast+

lemma push_replies:
  assumes ok: "replies_ok c" and p: "pushes m k c"
    and c': "c' = k r (c\<lparr> c_box := b, c_accepted := acc, c_refused := ref \<rparr>)"
    and st: "stamps acc + stamps ref = stamps (c_accepted c) + stamps (c_refused c) + reply_stamp m"
  shows "replies_ok c'"
proof -
  note d = pushesD[OF p, where b = b and acc = acc and ref = ref and ok = r, folded c']
  have "c_accepted c' = acc" "c_refused c' = ref" using d(1) by (simp_all add: same_box_def)
  moreover have "mset (c_asked c) = stamps (c_accepted c) + stamps (c_refused c) + (owes c' + reply_stamp m)"
    using ok d(5) by (simp add: replies_ok_def)
  ultimately show ?thesis using d(2,3,4) st by (simp add: replies_ok_def ac_simps)
qed

lemma push_taken_ok:
  assumes ok: "chan_ok c" and p: "pushes m k c"
    and c': "c' = k True (c\<lparr> c_box := (c_box c)\<lparr> ob_queue := ob_queue (c_box c) @ [m] \<rparr>, c_accepted := c_accepted c @ [m], c_refused := c_refused c \<rparr>)"
    and room: "length (ob_queue (c_box c)) < ob_capacity (c_box c)" "\<not> ob_closed (c_box c)"
  shows "chan_ok c'"
proof -
  note d = pushesD[OF p, where b = "(c_box c)\<lparr> ob_queue := ob_queue (c_box c) @ [m] \<rparr>" and acc = "c_accepted c @ [m]" and ref = "c_refused c" and ok = True, folded c']
  note e = pushes_message[OF p]
  have "replies_ok c'" by (rule push_replies[OF _ p c']) (use ok in \<open>simp_all add: chan_ok_def\<close>)
  moreover have "writer_ok c'"
    using ok d(1) room by (cases "c_writer c") (simp_all add: chan_ok_def writer_ok_def same_box_def)
  moreover have "delivery_ok c'" "samples_ok c'"
    using ok e(1) d(1) by (auto simp add: chan_ok_def delivery_ok_def samples_ok_def same_box_def in_transit_def held_def)
  moreover have "closing_ok c'"
    using ok d(1,6,7) room by (auto simp: chan_ok_def closing_ok_def same_box_def write_failed_def)
  ultimately show ?thesis by (simp add: chan_ok_def)
qed

lemma push_refused_ok:
  assumes ok: "chan_ok c" and p: "pushes m k c"
    and c': "c' = k False (c\<lparr> c_box := c_box c, c_accepted := c_accepted c, c_refused := c_refused c @ [m] \<rparr>)"
    and closed: "ob_closed (c_box c)"
  shows "chan_ok c'"
proof -
  note d = pushesD[OF p, where b = "c_box c" and acc = "c_accepted c" and ref = "c_refused c @ [m]" and ok = False, folded c']
  note e = pushes_message[OF p]
  have "replies_ok c'" by (rule push_replies[OF _ p c']) (use ok in \<open>simp_all add: chan_ok_def\<close>)
  moreover have "writer_ok c'"
    using ok d(1) by (cases "c_writer c") (simp_all add: chan_ok_def writer_ok_def same_box_def)
  moreover have "delivery_ok c'" "samples_ok c'"
    using ok d(1) by (auto simp add: chan_ok_def delivery_ok_def samples_ok_def same_box_def in_transit_def held_def)
  moreover have "closing_ok c'"
    using ok e(2) d(1,6,7) closed by (auto simp: chan_ok_def closing_ok_def same_box_def write_failed_def)
  ultimately show ?thesis by (simp add: chan_ok_def)
qed

lemma push_ok:
  assumes ok: "chan_ok c" and p: "pushes m k c" and c': "chan_push m k c = Some c'"
  shows "chan_ok c'"
  using c'
proof (cases rule: push_cases)
  case taken
  then show ?thesis by (intro push_taken_ok[OF ok p]) simp_all
next
  case refused
  moreover have "ob_capacity (c_box c) \<noteq> 0" using ok by (simp add: chan_ok_def writer_ok_def DEFAULT_CAPACITY_def)
  ultimately show ?thesis by (intro push_refused_ok[OF ok p]) simp_all
qed

lemma app_pushes: "chan_ok c \<Longrightarrow> \<not> is_lossy m \<Longrightarrow> reply_stamp m = {#} \<Longrightarrow> pushes m (\<lambda>_ c. c) c"
  by (simp add: pushes_def same_box_def Let_def chan_ok_def replies_ok_def owes_def)

lemma reader_pushes:
  "chan_ok c \<Longrightarrow> c_reader c = Replying m \<Longrightarrow> pushes m (\<lambda>ok c. c\<lparr> c_reader := (if ok then Reading else Ending) \<rparr>) c"
  using reply_kept[of m] by (auto simp add: pushes_def same_box_def Let_def chan_ok_def replies_ok_def owes_def)

lemma handler_pushes:
  assumes "chan_ok c" "i < length (c_handlers c)" "c_handlers c ! i = Pushing m"
  shows "pushes m (\<lambda>_. set_handler i Finished) c"
proof -
  have r: "replies_ok c" using assms(1) by (simp add: chan_ok_def)
  then have "handler_ok (c_handlers c ! i)" using assms(2) by (simp add: replies_ok_def)
  then have "\<not> is_lossy m" using assms(3) reply_kept by simp
  moreover have "c_reader c \<noteq> Ended" using assms by (auto simp: chan_ok_def closing_ok_def)
  moreover have "\<forall>h \<in> set ((c_handlers c)[i := Finished]). handler_ok h"
    using r by (auto simp: replies_ok_def dest: set_update_subset_insert[THEN subsetD])
  moreover have "sum_list (map handler_owes ((c_handlers c)[i := Finished])) + reply_stamp m = sum_list (map handler_owes (c_handlers c))"
    using sum_list_update[of i "c_handlers c" handler_owes Finished] assms(2,3) by simp
  ultimately show ?thesis using r
    by (auto simp add: pushes_def same_box_def Let_def set_handler_def replies_ok_def owes_def ac_simps)
qed

text \<open>Steps of the writer, and samples.\<close>

definition same_threads :: "('v, 'w) Chan \<Rightarrow> ('v, 'w) Chan \<Rightarrow> bool" where
  "same_threads c c' \<longleftrightarrow> c_reader c' = c_reader c \<and> c_handlers c' = c_handlers c \<and> c_asked c' = c_asked c \<and>
     c_accepted c' = c_accepted c \<and> c_refused c' = c_refused c"

lemma same_threads_ok:
  assumes ok: "chan_ok c" and t: "same_threads c c'" and w: "writer_ok c'" and k: "kept (in_transit c') = kept (in_transit c)"
    and s: "samples_ok c'" and cl: "ob_closed (c_box c') \<longrightarrow> ob_closed (c_box c) \<or> write_failed c'"
      "write_failed c \<longrightarrow> write_failed c'"
  shows "chan_ok c'"
proof -
  have "replies_ok c'" using ok t by (simp add: chan_ok_def replies_ok_def same_threads_def owes_def)
  moreover have "delivery_ok c'" using ok t k by (simp add: chan_ok_def delivery_ok_def same_threads_def)
  moreover have "closing_ok c'" using ok t cl by (auto simp: chan_ok_def closing_ok_def same_threads_def)
  ultimately show ?thesis using w s by (simp add: chan_ok_def)
qed

lemma sample_ok:
  assumes ok: "chan_ok c" and m: "is_lossy m"
  shows "chan_ok (chan_sample m c)"
proof (rule same_threads_ok[OF ok])
  let ?b = "push_lossy m (c_box c)"
  have w: "writer_ok c" "samples_ok c" using ok by (simp_all add: chan_ok_def)
  have q: "ob_queue (c_box c) = [] \<Longrightarrow> ob_closed (c_box c) \<Longrightarrow> ob_queue ?b = []" by (simp add: push_lossy_def)
  show "writer_ok (chan_sample m c)"
    using w(1) q push_lossy_length[of "c_box c" m] by (cases "c_writer c") (simp_all add: writer_ok_def chan_sample_def)
  show "kept (in_transit (chan_sample m c)) = kept (in_transit c)"
    using push_lossy_kept[OF m, of "c_box c"] by (simp add: chan_sample_def in_transit_def held_def)
  show "samples_ok (chan_sample m c)"
  proof (cases "Suc (c_sampled c) < 2 ^ 64")
    case True
    have eq: "samples (in_transit c) + unat (ob_dropped (c_box c)) = c_sampled c" using True w(2) by (simp add: samples_ok_def)
    then have "unat (ob_dropped (c_box c)) < 2 ^ 64 - 1" using True by linarith
    then show ?thesis using push_lossy_samples[OF m, of "c_box c"] eq
      by (simp add: samples_ok_def chan_sample_def in_transit_def held_def)
  qed (simp add: samples_ok_def chan_sample_def)
qed (simp_all add: same_threads_def chan_sample_def write_failed_def)

lemma take_ok:
  assumes ok: "chan_ok c" and t: "c_writer c = Taking" and c': "writer_takes c = Some c'"
  shows "chan_ok c'"
proof -
  have w: "writer_ok c" using ok by (simp add: chan_ok_def)
  obtain more batch b where r: "take_batch (c_box c) = Some ((more, batch), b)"
    using c' by (auto simp: writer_takes_def split: option.splits)
  show ?thesis
  proof (cases more)
    case True
    then have e: "c' = c\<lparr> c_box := b, c_writer := Writing batch \<rparr>" using c' r by (simp add: writer_takes_def)
    have f: "ob_in_flight (c_box c) = 0" using w t by (simp add: writer_ok_def)
    have q: "take_batch (c_box c) = Some ((True, batch), b)" using r True by simp
    note q = take_batch_Some(1)[OF q f]
    have tr: "in_transit c' = in_transit c" using e t q by (simp add: in_transit_def held_def)
    show ?thesis
      by (rule same_threads_ok[OF ok])
        (use ok w e t q tr in \<open>auto simp: same_threads_def writer_ok_def chan_ok_def samples_ok_def write_failed_def\<close>)
  next
    case False
    then have e: "c' = c\<lparr> c_box := outbox_stop b, c_writer := Returned_with [] \<rparr>" using c' r by (simp add: writer_takes_def)
    have q: "take_batch (c_box c) = Some ((False, batch), b)" using r False by simp
    note q = take_batch_Some(2)[OF q]
    have tr: "in_transit c' = in_transit c" using e t q by (simp add: in_transit_def held_def outbox_stop_def)
    show ?thesis
      by (rule same_threads_ok[OF ok])
        (use ok w e t q tr in \<open>auto simp: same_threads_def writer_ok_def chan_ok_def samples_ok_def write_failed_def outbox_stop_def\<close>)
  qed
qed

lemma wrote_ok:
  assumes ok: "chan_ok c" and t: "c_writer c = Writing batch"
    and c': "c' = c\<lparr> c_wire := c_wire c @ batch, c_box := wrote (length batch) (c_box c), c_writer := Taking \<rparr>"
  shows "chan_ok c'"
proof -
  have tr: "in_transit c' = in_transit c" using c' t by (simp add: in_transit_def held_def wrote_def)
  show ?thesis
    by (rule same_threads_ok[OF ok])
      (use ok c' t tr in \<open>auto simp: same_threads_def writer_ok_def chan_ok_def samples_ok_def write_failed_def wrote_def\<close>)
qed

lemma fails_ok:
  assumes ok: "chan_ok c" and t: "c_writer c = Writing batch"
    and c': "c' = c\<lparr> c_wire := c_wire c @ take n batch, c_box := outbox_stop (c_box c), c_writer := Returned_with (drop n batch) \<rparr>"
  shows "chan_ok c'"
proof -
  have tr: "in_transit c' = in_transit c" using c' t by (simp add: in_transit_def held_def outbox_stop_def)
  show ?thesis
    by (rule same_threads_ok[OF ok])
      (use ok c' t tr in \<open>auto simp: same_threads_def writer_ok_def chan_ok_def samples_ok_def write_failed_def outbox_stop_def\<close>)
qed

lemma closes_ok:
  assumes ok: "chan_ok c" and r: "c_reader c = Ending" "joined c"
  shows "chan_ok (reader_closes c)"
proof -
  have "replies_ok (reader_closes c)" using ok r owes_joined[OF r(2)] by (simp add: chan_ok_def replies_ok_def reader_closes_def owes_def)
  moreover have "writer_ok (reader_closes c)"
    using ok by (cases "c_writer c") (simp_all add: chan_ok_def writer_ok_def reader_closes_def outbox_close_def)
  moreover have "delivery_ok (reader_closes c)" "samples_ok (reader_closes c)" "closing_ok (reader_closes c)"
    using ok by (simp_all add: chan_ok_def delivery_ok_def samples_ok_def closing_ok_def reader_closes_def outbox_close_def
        write_failed_def in_transit_def held_def)
  ultimately show ?thesis by (simp add: chan_ok_def)
qed

lemma dispatch_ok:
  assumes "chan_ok c"
  shows "chan_ok (c\<lparr> c_dispatch := d \<rparr>)"
proof (rule same_threads_ok[OF assms])
  show "writer_ok (c\<lparr> c_dispatch := d \<rparr>)" using assms by (cases "c_writer c") (simp_all add: chan_ok_def writer_ok_def)
qed (use assms in \<open>simp_all add: same_threads_def chan_ok_def samples_ok_def write_failed_def\<close>)

lemma reader_ends: "chan_ok c \<Longrightarrow> c_reader c = Reading \<Longrightarrow> chan_ok (c\<lparr> c_reader := Ending \<rparr>)"
  by (rule same_box_ok[of c]) (simp_all add: same_box_def chan_ok_def replies_ok_def owes_def)

lemma malformed_ok: "chan_ok c \<Longrightarrow> c_reader c = Reading \<Longrightarrow> chan_ok (malformed message c)"
  by (rule same_box_ok[of c]) (simp_all add: same_box_def chan_ok_def replies_ok_def owes_def malformed_def chan_warn_def)

lemma step_ok:
  assumes ok: "chan_ok c" and st: "chan_step l c = Some c'"
  shows "chan_ok c'"
proof (cases l)
  case AppReady
  then show ?thesis using st push_ok[OF ok app_pushes[OF ok, of ChReady]] by simp
next
  case (AppLabelLamb pid label)
  then show ?thesis using st push_ok[OF ok app_pushes[OF ok, of "ChLambLabel pid label"]] by simp
next
  case (ReaderReads spawned message)
  then show ?thesis using st reader_took_ok[OF ok] by (auto split: if_splits)
next
  case ReaderJoined
  then show ?thesis using st joined_ok[OF ok] by (simp split: if_splits)
next
  case (ReaderRuns w)
  then show ?thesis using st answered_ok[OF ok] by (auto split: Reader.splits)
next
  case ReaderReplies
  then obtain reply where r: "c_reader c = Replying reply"
    "chan_push reply (\<lambda>ok c. c\<lparr> c_reader := (if ok then Reading else Ending) \<rparr>) c = Some c'"
    using st by (cases "c_reader c") simp_all
  then show ?thesis using push_ok[OF ok reader_pushes[OF ok r(1)]] by simp
next
  case (HandlerRuns i w)
  then show ?thesis using st handler_ran_ok[OF ok] by (auto split: if_splits Handler.splits)
next
  case (HandlerPushes i)
  then obtain reply where r: "i < length (c_handlers c)" "c_handlers c ! i = Pushing reply"
    "chan_push reply (\<lambda>_. set_handler i Finished) c = Some c'"
    using st by (cases "c_handlers c ! i") (simp_all split: if_splits)
  then show ?thesis using push_ok[OF ok handler_pushes[OF ok r(1,2)]] by simp
next
  case WriterTakes
  then show ?thesis using st take_ok[OF ok] by (simp split: if_splits)
next
  case WriterWrote
  then show ?thesis using st wrote_ok[OF ok _ refl] by (cases "c_writer c") auto
next
  case (WriterFails n)
  then show ?thesis using st fails_ok[OF ok _ refl] by (cases "c_writer c") auto
qed (use st ok sample_ok[OF ok] dispatch_ok[OF ok] reader_ends[OF ok] malformed_ok[OF ok] closes_ok[OF ok] in
    \<open>auto split: if_splits\<close>)

lemma reached_ok: "chan_reached c \<Longrightarrow> chan_ok c"
  by (induction rule: chan_reached.induct) (auto intro: start_ok step_ok)

subsection \<open>The writer gets to the end of the queue\<close>

lemma empty_transit:
  assumes "writer_ok c" "ob_queue (c_box c) = []" "ob_in_flight (c_box c) = 0"
  shows "in_transit c = c_wire c"
  using assms by (cases "c_writer c") (auto simp: in_transit_def held_def writer_ok_def)

lemma writer_round:
  assumes ok: "chan_ok c" and t: "c_writer c = Taking" and q: "ob_queue (c_box c) \<noteq> []"
  shows "\<exists>c'. chan_run [WriterTakes, WriterWrote] c = Some c' \<and> chan_ok c' \<and> c_writer c' = Taking \<and>
    length (ob_queue (c_box c')) = length (ob_queue (c_box c)) - MAX_BATCH \<and> c_accepted c' = c_accepted c"
proof -
  obtain more batch b where r: "take_batch (c_box c) = Some ((more, batch), b)"
    using q take_batch_None[of "c_box c"] by (cases "take_batch (c_box c)") auto
  have m: more using r q by (cases more) (auto dest: take_batch_Some(2))
  let ?c1 = "c\<lparr> c_box := b, c_writer := Writing batch \<rparr>"
  have s1: "chan_step WriterTakes c = Some ?c1" using t r m by (simp add: writer_takes_def)
  obtain c' where s2: "chan_step WriterWrote ?c1 = Some c'" "c_writer c' = Taking" "c_box c' = wrote (length batch) b" "c_accepted c' = c_accepted c"
    by simp
  have "length (ob_queue b) = length (ob_queue (c_box c)) - MAX_BATCH"
    using r m q by (auto simp: take_batch_def Let_def)
  moreover have "chan_ok c'" using step_ok[OF step_ok[OF ok s1] s2(1)] .
  ultimately show ?thesis using s1 s2 by (intro exI[of _ c']) (simp add: wrote_def)
qed

lemma rounds: "0 < n \<Longrightarrow> (n - 64 + 63) div 64 + 1 \<le> (n + 63) div (64 :: nat)"
proof (cases "64 \<le> n")
  case True
  then obtain k where "n = k + 64" by (metis le_add_diff_inverse2)
  then show ?thesis using div_add_self2[of 64 "k + 63"] by (simp add: ac_simps)
next
  case False
  assume "0 < n"
  then have "0 < (n + 63) div 64" by (subst div_greater_zero_iff) simp
  then show ?thesis using False by simp
qed

lemma writer_empties:
  assumes "chan_ok c" "c_writer c = Taking"
  shows "\<exists>ls c'. set ls \<subseteq> {WriterTakes, WriterWrote} \<and> length ls \<le> 2 * ((length (ob_queue (c_box c)) + 63) div 64) \<and>
    chan_run ls c = Some c' \<and> chan_ok c' \<and> c_writer c' = Taking \<and> ob_queue (c_box c') = [] \<and> c_accepted c' = c_accepted c"
  using assms
proof (induction "length (ob_queue (c_box c))" arbitrary: c rule: less_induct)
  case less
  show ?case
  proof (cases "ob_queue (c_box c) = []")
    case True
    then show ?thesis using less.prems by (intro exI[of _ "[]"] exI[of _ c]) simp
  next
    case False
    obtain c1 where c1: "chan_run [WriterTakes, WriterWrote] c = Some c1" "chan_ok c1" "c_writer c1 = Taking"
      "length (ob_queue (c_box c1)) = length (ob_queue (c_box c)) - MAX_BATCH" "c_accepted c1 = c_accepted c"
      using writer_round[OF less.prems False] by blast
    have "length (ob_queue (c_box c1)) < length (ob_queue (c_box c))" using False c1(4) by (simp add: MAX_BATCH_def)
    from less.hyps[OF this c1(2,3)] obtain ls c' where ls: "set ls \<subseteq> {WriterTakes, WriterWrote}"
      "length ls \<le> 2 * ((length (ob_queue (c_box c1)) + 63) div 64)" "chan_run ls c1 = Some c'" "chan_ok c'"
      "c_writer c' = Taking" "ob_queue (c_box c') = []" "c_accepted c' = c_accepted c1" by blast
    have "(length (ob_queue (c_box c)) - 64 + 63) div 64 + 1 \<le> (length (ob_queue (c_box c)) + 63) div 64"
      using False by (intro rounds) simp
    then have "length (WriterTakes # WriterWrote # ls) \<le> 2 * ((length (ob_queue (c_box c)) + 63) div 64)"
      using ls(2) c1(4) by (simp add: MAX_BATCH_def)
    moreover have "chan_run (WriterTakes # WriterWrote # ls) c = Some c'"
      using c1(1) ls(3) chan_run_append[of "[WriterTakes, WriterWrote]" ls c] by simp
    ultimately show ?thesis using ls c1(5) by (intro exI[of _ "WriterTakes # WriterWrote # ls"] exI[of _ c']) simp
  qed
qed

lemma stamps_kept: "stamps (kept ms) = stamps ms"
proof (induction ms)
  case (Cons m ms)
  then show ?case by (cases m) auto
qed simp

subsection \<open>Properties\<close>

text \<open>
  C7. Nothing that must arrive is lost, repeated or reordered. Whatever the threads interleave,
  the messages blocking pushes took are, in the order they took them, the ones on the wire, the
  ones in the writer's hands and the ones queued, samples aside; and a flush that succeeds
  has them all on the wire.
\<close>

theorem accepted_messages_arrive:
  assumes "chan_reached c"
  shows "kept (c_wire c @ held c @ ob_queue (c_box c)) = c_accepted c
    \<and> (flush timeout elapsed c = Some (Inr ()) \<longrightarrow> kept (c_wire c) = c_accepted c)"
proof -
  have ok: "writer_ok c" "kept (in_transit c) = c_accepted c"
    using reached_ok[OF assms] by (simp_all add: chan_ok_def delivery_ok_def)
  moreover have "kept (c_wire c) = c_accepted c" if "flush timeout elapsed c = Some (Inr ())"
    using that empty_transit[OF ok(1)] ok(2) by (simp add: flush_def drain_def split: if_splits)
  ultimately show ?thesis by (simp add: in_transit_def)
qed

definition gc_path :: "(unit, unit) Label list" where
  "gc_path =
    [OnAction ''gc'' (\<lambda>_ _ _. Returned ''ok''), AppNote ''n'' (), ReaderReads True (ShAction ''gc'' None None 7),
     AppReady, HandlerRuns 0 (), HandlerPushes 0, WriterTakes, WriterWrote, ReaderEnd, ReaderCloses, WriterTakes]"

definition gc_end :: "(unit, unit) Chan" where
  "gc_end =
    \<lparr> c_box = \<lparr> ob_queue = [], ob_dropped = 0, ob_closed = True, ob_in_flight = 0, ob_stopped = True, ob_capacity = 1024 \<rparr>,
      c_wire = [ChNote ''n'' (), ChReady, ChActionReply ''gc'' ''ok'' (Some 7)], c_writer = Returned_with [],
      c_reader = Ended, c_handlers = [],
      c_dispatch = \<lparr> di_actions = [''gc'' \<mapsto> (\<lambda>_ _ _ _. Returned ''ok'')], di_shutdown = None \<rparr>,
      c_warned_malformed = False, c_warnings = [], c_accepted = [ChReady, ChActionReply ''gc'' ''ok'' (Some 7)],
      c_refused = [], c_asked = [(''gc'', 7)], c_sampled = 1 \<rparr>"

lemmas chan_exec = channel_start_def outbox_new_def DEFAULT_CAPACITY_def dispatch_new_def register_action_def chan_sample_def
  push_lossy_def chan_push_def push_blocking_def reader_took_def take_up_def runs_off_reader_def MAX_CONCURRENT_HANDLERS_def
  asked_by_def set_handler_def writer_takes_def take_batch_def MAX_BATCH_def usize_max_def wrote_def joined_def reader_closes_def
  outbox_close_def outbox_stop_def

lemma gc_run: "chan_run gc_path (channel_start True) = Some gc_end"
  by (simp add: gc_path_def gc_end_def chan_exec)

lemma gc_reached: "chan_reached gc_end"
  using chan_run_reached[OF gc_run chan_reached.start] .

theorem accepted_messages_arrive_witness:
  "kept (c_wire gc_end) = [ChReady, ChActionReply ''gc'' ''ok'' (Some 7)]"
  using accepted_messages_arrive[OF gc_reached, of 0 0] by (simp add: gc_end_def flush_def drain_def)

text \<open>
  C8. Every action is answered exactly once. When the reader has ended and the writer has
  returned with nothing unwritten, the replies on the wire are, each with the name and the id of
  its action, exactly those to the actions read: none dropped by a full queue, a panicking
  handler, an unknown name, a shutdown or the end of the stream, and none sent twice.
\<close>

theorem every_action_answered_once:
  assumes "chan_reached c" "c_reader c = Ended" "c_writer c = Returned_with left" "ob_in_flight (c_box c) = 0"
  shows "stamps (c_wire c) = mset (c_asked c)"
proof -
  have ok: "writer_ok c" "replies_ok c" "kept (in_transit c) = c_accepted c" "closing_ok c"
    using reached_ok[OF assms(1)] by (simp_all add: chan_ok_def delivery_ok_def)
  have "ob_queue (c_box c) = []" using ok(1) assms(3,4) by (simp add: writer_ok_def)
  then have "kept (c_wire c) = c_accepted c" using empty_transit[OF ok(1) _ assms(4)] ok(3) by simp
  moreover have "c_handlers c = []" "stamps (c_refused c) = {#}"
    using ok(4) assms(2,4) by (simp_all add: closing_ok_def write_failed_def)
  moreover have "owes c = {#}" using assms(2) calculation(2) by (simp add: owes_def)
  ultimately show ?thesis using ok(2) stamps_kept[of "c_wire c"] by (simp add: replies_ok_def)
qed

theorem every_action_answered_once_witness: "stamps (c_wire gc_end) = {#(''gc'', 7)#}"
  using every_action_answered_once[OF gc_reached, of "[]"] by (simp add: gc_end_def)

text \<open>
  Samples are bounded and accounted for. The queue never holds more than its capacity, and
  the samples on the wire, held, queued and counted as dropped add up to the ones offered, as
  long as that number fits the counter.
\<close>

lemma samples_accounted:
  assumes "chan_reached c"
  shows "length (ob_queue (c_box c)) \<le> DEFAULT_CAPACITY
    \<and> (c_sampled c < 2 ^ 64 \<longrightarrow>
        samples (c_wire c) + samples (held c) + samples (ob_queue (c_box c)) + unat (ob_dropped (c_box c)) = c_sampled c)"
  using reached_ok[OF assms] by (auto simp: chan_ok_def samples_ok_def writer_ok_def in_transit_def)

text \<open>
  A full queue parks nobody for good. When a blocking push waits, the writer has not
  returned and is not waiting itself: one take, after the write in progress if there is one,
  makes the room, and then the push is taken.
\<close>

lemma waiting_push_is_released:
  assumes "chan_reached c" "push_blocking m (c_box c) = None"
  shows "\<exists>ls \<in> {[WriterTakes], [WriterWrote, WriterTakes]}. \<exists>c' b'.
    chan_run ls c = Some c' \<and> push_blocking m (c_box c') = Some (Inr (), b')"
proof -
  have w: "writer_ok c" using reached_ok[OF assms(1)] by (simp add: chan_ok_def)
  have f: "\<not> ob_closed (c_box c)" "DEFAULT_CAPACITY \<le> length (ob_queue (c_box c))" "ob_capacity (c_box c) = DEFAULT_CAPACITY"
    using assms(2) w by (auto simp: push_blocking_def writer_ok_def split: if_splits)
  then have full: "length (ob_queue (c_box c)) = 1024" using w by (simp add: writer_ok_def DEFAULT_CAPACITY_def)
  then have ne: "ob_queue (c_box c) \<noteq> []" by auto
  show ?thesis
  proof (cases "c_writer c")
    case Taking
    then show ?thesis using f full ne
      by (simp add: writer_takes_def take_batch_def Let_def push_blocking_def DEFAULT_CAPACITY_def MAX_BATCH_def)
  next
    case (Writing batch)
    then show ?thesis using f full ne
      by (simp add: writer_takes_def take_batch_def Let_def push_blocking_def DEFAULT_CAPACITY_def MAX_BATCH_def wrote_def)
  next
    case (Returned_with left)
    then show ?thesis using w f by (simp add: writer_ok_def)
  qed
qed

definition readies :: "nat \<Rightarrow> (unit, unit) Chan" where
  "readies n = (channel_start True)\<lparr> c_box := (outbox_new 1024)\<lparr> ob_queue := replicate n ChReady \<rparr>, c_accepted := replicate n ChReady \<rparr>"

lemma readies_reached: "n \<le> 1024 \<Longrightarrow> chan_reached (readies n)"
proof (induction n)
  case 0
  have "readies 0 = channel_start True" by (simp add: readies_def channel_start_def outbox_new_def DEFAULT_CAPACITY_def)
  then show ?case by (simp add: chan_reached.start)
next
  case (Suc n)
  have "chan_step AppReady (readies n) = Some (readies (Suc n))"
    using Suc.prems by (simp add: readies_def chan_exec replicate_append_same)
  from chan_reached.step[OF _ this] Suc show ?case by simp
qed

text \<open>
  C9. A flush ends. As long as the transport takes what is written, the writer by itself reaches
  an empty outbox, in at most two steps per 64 messages queued and one for a write in progress;
  a flush then succeeds, with everything accepted on the wire.
\<close>

theorem flush_completes:
  assumes "chan_reached c" "\<not> ob_stopped (c_box c)"
  shows "\<exists>ls c'. set ls \<subseteq> {WriterTakes, WriterWrote} \<and> length ls \<le> 2 * ((length (ob_queue (c_box c)) + 63) div 64) + 1 \<and>
    chan_run ls c = Some c' \<and> flush timeout elapsed c' = Some (Inr ()) \<and> kept (c_wire c') = c_accepted c"
proof -
  note ok = reached_ok[OF assms(1)]
  have fin: "flush timeout elapsed c' = Some (Inr ()) \<and> kept (c_wire c') = c_accepted c"
    if "chan_ok c'" "c_writer c' = Taking" "ob_queue (c_box c') = []" "c_accepted c' = c_accepted c" for c'
    using that empty_transit[of c'] by (simp add: chan_ok_def writer_ok_def delivery_ok_def flush_def drain_def)
  show ?thesis
  proof (cases "c_writer c")
    case Taking
    obtain ls c' where "set ls \<subseteq> {WriterTakes, WriterWrote}" "length ls \<le> 2 * ((length (ob_queue (c_box c)) + 63) div 64)"
      "chan_run ls c = Some c'" "chan_ok c'" "c_writer c' = Taking" "ob_queue (c_box c') = []" "c_accepted c' = c_accepted c"
      using writer_empties[OF ok Taking] by blast
    then show ?thesis using fin[of c'] by (intro exI[of _ ls] exI[of _ c']) simp
  next
    case (Writing batch)
    then obtain c1 where c1: "chan_step WriterWrote c = Some c1" "c_writer c1 = Taking" "c_accepted c1 = c_accepted c"
      "ob_queue (c_box c1) = ob_queue (c_box c)" by (simp add: wrote_def)
    obtain ls c' where "set ls \<subseteq> {WriterTakes, WriterWrote}" "length ls \<le> 2 * ((length (ob_queue (c_box c)) + 63) div 64)"
      "chan_run ls c1 = Some c'" "chan_ok c'" "c_writer c' = Taking" "ob_queue (c_box c') = []" "c_accepted c' = c_accepted c1"
      using writer_empties[OF step_ok[OF ok c1(1)] c1(2)] c1(4) by auto
    then show ?thesis using fin[of c'] c1 by (intro exI[of _ "WriterWrote # ls"] exI[of _ c']) simp
  next
    case (Returned_with left)
    then show ?thesis using ok assms(2) by (simp add: chan_ok_def writer_ok_def)
  qed
qed

theorem flush_completes_witness:
  "\<exists>c c'. chan_run [AppReady] (channel_start True) = Some (c :: (unit, unit) Chan) \<and>
    flush 0 0 c' = Some (Inr ()) \<and> kept (c_wire (c' :: (unit, unit) Chan)) = [ChReady]"
proof -
  obtain c :: "(unit, unit) Chan" where c: "chan_run [AppReady] (channel_start True) = Some c" "c_accepted c = [ChReady]"
    "\<not> ob_stopped (c_box c)" by (simp add: chan_exec)
  from flush_completes[OF chan_run_reached[OF c(1) chan_reached.start] c(3), of 0 0] c(1,2) show ?thesis by metis
qed

end
