(* ===== verification/Ansi_Lines.thy ===== *)
theory Ansi_Lines
  imports Shep_Prelude
begin

text \<open>
  The filter between a pty's master and the line reader (\<open>shep-daemon/src/tokio_runner/ansi.rs\<close>):
  escape sequences removed, line ends normalised, invalid UTF-8 replaced, over reads that may
  end anywhere. \<open>core::str::from_utf8\<close> is the standard library's validation, with the length it
  reports for an invalid sequence. The inner reader is the list of chunks its reads return.
\<close>


subsection \<open>The state machine\<close>

definition STRING_LIMIT :: nat where
  "STRING_LIMIT = 4096"

definition LINE_BREAKING_FINALS :: "u8 list" where
  "LINE_BREAKING_FINALS = map of_char ''ABCDEFGHJKXadef`''"

datatype ansi_state = Ground | Escape | EscapeIntermediate | Csi | Text bool nat | TextEscape

record Scan =
  sc_state :: ansi_state
  sc_cr_pending :: bool
  sc_line_has_text :: bool

definition break_line :: "Scan \<times> u8 list \<Rightarrow> Scan \<times> u8 list" where
  "break_line = (\<lambda>(s, text).
     if sc_line_has_text s then (s\<lparr> sc_line_has_text := False \<rparr>, text @ [0x0a]) else (s, text))"

definition settle_cr :: "Scan \<times> u8 list \<Rightarrow> Scan \<times> u8 list" where
  "settle_cr = (\<lambda>(s, text).
     if sc_cr_pending s then break_line (s\<lparr> sc_cr_pending := False \<rparr>, text) else (s, text))"

text \<open>The C0 controls a log drops, and DEL.\<close>

definition silent :: "u8 \<Rightarrow> bool" where
  "silent b \<longleftrightarrow> b \<le> 0x08 \<or> 0x0b \<le> b \<and> b \<le> 0x0c \<or> 0x0e \<le> b \<and> b \<le> 0x1a \<or> 0x1c \<le> b \<and> b \<le> 0x1f \<or> b = 0x7f"

definition ground :: "u8 \<Rightarrow> Scan \<times> u8 list \<Rightarrow> Scan \<times> u8 list" where
  "ground b = (\<lambda>(s, text).
     if b = 0x0d then (s\<lparr> sc_cr_pending := True \<rparr>, text)
     else if b = 0x0a then (s\<lparr> sc_cr_pending := False, sc_line_has_text := False \<rparr>, text @ [0x0a])
     else if b = 0x1b then (case settle_cr (s, text) of (s, text) \<Rightarrow> (s\<lparr> sc_state := Escape \<rparr>, text))
     else if silent b then (s, text)
     else (case settle_cr (s, text) of (s, text) \<Rightarrow>
             (if b \<noteq> 0x09 \<and> b \<noteq> 0x20 then s\<lparr> sc_line_has_text := True \<rparr> else s, text @ [b])))"

definition to_ground :: "u8 \<Rightarrow> Scan \<times> u8 list \<Rightarrow> Scan \<times> u8 list" where
  "to_ground b = (\<lambda>(s, text). ground b (s\<lparr> sc_state := Ground \<rparr>, text))"

definition step_escape :: "u8 \<Rightarrow> Scan \<times> u8 list \<Rightarrow> Scan \<times> u8 list" where
  "step_escape b = (\<lambda>(s, text).
     if b = 0x5b then (s\<lparr> sc_state := Csi \<rparr>, text)
     else if b = 0x5d then (s\<lparr> sc_state := Text True 0 \<rparr>, text)
     else if b = 0x50 \<or> b = 0x58 \<or> b = 0x5e \<or> b = 0x5f then (s\<lparr> sc_state := Text False 0 \<rparr>, text)
     else if 0x20 \<le> b \<and> b \<le> 0x2f then (s\<lparr> sc_state := EscapeIntermediate \<rparr>, text)
     else if b = 0x1b then (s, text)
     else if 0x30 \<le> b \<and> b \<le> 0x7e then (s\<lparr> sc_state := Ground \<rparr>, text)
     else to_ground b (s, text))"

definition step_byte :: "u8 \<Rightarrow> Scan \<times> u8 list \<Rightarrow> Scan \<times> u8 list" where
  "step_byte b = (\<lambda>(s, text).
     case sc_state s of
       Ground \<Rightarrow> ground b (s, text)
     | Escape \<Rightarrow> step_escape b (s, text)
     | EscapeIntermediate \<Rightarrow>
         if 0x20 \<le> b \<and> b \<le> 0x2f then (s, text)
         else if 0x30 \<le> b \<and> b \<le> 0x7e then (s\<lparr> sc_state := Ground \<rparr>, text)
         else to_ground b (s, text)
     | Csi \<Rightarrow>
         if 0x20 \<le> b \<and> b \<le> 0x3f then (s, text)
         else if 0x40 \<le> b \<and> b \<le> 0x7e
         then (if b \<in> set LINE_BREAKING_FINALS
               then break_line (settle_cr (s\<lparr> sc_state := Ground \<rparr>, text))
               else (s\<lparr> sc_state := Ground \<rparr>, text))
         else if b = 0x1b then (s\<lparr> sc_state := Escape \<rparr>, text)
         else to_ground b (s, text)
     | Text bell_ends seen \<Rightarrow>
         if b = 0x07 \<and> bell_ends then (s\<lparr> sc_state := Ground \<rparr>, text)
         else if b = 0x1b then (s\<lparr> sc_state := TextEscape \<rparr>, text)
         else if STRING_LIMIT \<le> seen then to_ground b (s, text)
         else (s\<lparr> sc_state := Text bell_ends (seen + 1) \<rparr>, text)
     | TextEscape \<Rightarrow>
         if b = 0x5c then (s\<lparr> sc_state := Ground \<rparr>, text)
         else step_escape b (s\<lparr> sc_state := Escape \<rparr>, text))"

subsection \<open>UTF-8\<close>

text \<open>The first character of a byte string: its width, the length of what is invalid, or cut short.\<close>

datatype utf8_unit = UChar nat | UBad nat | UShort

definition cont :: "u8 \<Rightarrow> bool" where
  "cont b \<longleftrightarrow> 0x80 \<le> b \<and> b \<le> 0xbf"

definition second_of_three :: "u8 \<Rightarrow> u8 \<Rightarrow> bool" where
  "second_of_three b c \<longleftrightarrow>
     (if b = 0xe0 then 0xa0 \<le> c \<and> c \<le> 0xbf else if b = 0xed then 0x80 \<le> c \<and> c \<le> 0x9f else cont c)"

definition second_of_four :: "u8 \<Rightarrow> u8 \<Rightarrow> bool" where
  "second_of_four b c \<longleftrightarrow>
     (if b = 0xf0 then 0x90 \<le> c \<and> c \<le> 0xbf else if b = 0xf4 then 0x80 \<le> c \<and> c \<le> 0x8f else cont c)"

text \<open>What the bytes after a leading byte must be; \<open>None\<close> for a byte that leads nothing.\<close>

definition needs :: "u8 \<Rightarrow> (u8 \<Rightarrow> bool) list option" where
  "needs b =
     (if b < 0x80 then Some []
      else if 0xc2 \<le> b \<and> b \<le> 0xdf then Some [cont]
      else if 0xe0 \<le> b \<and> b \<le> 0xef then Some [second_of_three b, cont]
      else if 0xf0 \<le> b \<and> b \<le> 0xf4 then Some [second_of_four b, cont, cont]
      else None)"

fun tail_unit :: "nat \<Rightarrow> (u8 \<Rightarrow> bool) list \<Rightarrow> u8 list \<Rightarrow> utf8_unit" where
  "tail_unit k [] bs = UChar k"
| "tail_unit k (p # ps) [] = UShort"
| "tail_unit k (p # ps) (b # bs) = (if p b then tail_unit (Suc k) ps bs else UBad k)"

definition unit_of :: "u8 \<Rightarrow> u8 list \<Rightarrow> utf8_unit" where
  "unit_of b bs = (case needs b of None \<Rightarrow> UBad 1 | Some ps \<Rightarrow> tail_unit 1 ps bs)"

lemma tail_unit_bounds:
  "tail_unit k ps bs = UChar w \<Longrightarrow> k \<le> w \<and> w \<le> k + length bs"
  "tail_unit k ps bs = UBad w \<Longrightarrow> k \<le> w \<and> w \<le> k + length bs"
  by (induction k ps bs rule: tail_unit.induct) (auto split: if_splits)

lemma unit_bounds:
  "unit_of b bs = UChar w \<Longrightarrow> 0 < w \<and> w \<le> Suc (length bs)"
  "unit_of b bs = UBad w \<Longrightarrow> 0 < w \<and> w \<le> Suc (length bs)"
  using tail_unit_bounds[of 1 _ bs w] by (fastforce simp: unit_of_def split: option.splits)+

function from_utf8 :: "u8 list \<Rightarrow> (nat \<times> nat option) + unit" where
  "from_utf8 [] = Inr ()"
| "from_utf8 (b # bs) =
     (case unit_of b bs of
        UChar w \<Rightarrow>
          (case from_utf8 (drop w (b # bs)) of
             Inr _ \<Rightarrow> Inr ()
           | Inl (valid_up_to, error_len) \<Rightarrow> Inl (w + valid_up_to, error_len))
      | UBad w \<Rightarrow> Inl (0, Some w)
      | UShort \<Rightarrow> Inl (0, None))"
  by pat_completeness auto

termination
  by (relation "measure length") (auto dest: unit_bounds(1))

definition REPLACEMENT :: "u8 list" where
  "REPLACEMENT = [0xef, 0xbf, 0xbd]"

text \<open>\<open>decode\<close>: what it appends to \<open>ready\<close>, and what it carries over.\<close>

lemma from_utf8_bounds: "from_utf8 bs = Inl (v, e) \<Longrightarrow> v < length bs \<and> (\<forall>w. e = Some w \<longrightarrow> 0 < w \<and> v + w \<le> length bs)"
proof (induction bs arbitrary: v rule: from_utf8.induct)
  case (2 b bs)
  show ?case
  proof (cases "unit_of b bs")
    case (UChar w)
    obtain v' where v': "from_utf8 (drop w (b # bs)) = Inl (v', e)" "v = w + v'"
      using "2.prems" UChar by (auto split: sum.splits)
    then show ?thesis using "2.IH"[OF UChar v'(1)] unit_bounds(1)[OF UChar] by auto
  next
    case (UBad w)
    then show ?thesis using "2.prems" unit_bounds(2)[OF UBad] by auto
  qed (use "2.prems" in auto)
qed simp

lemma decode_shrinks: "from_utf8 rest = Inl (v, Some w) \<Longrightarrow> length rest - (w + v) < length rest"
  using from_utf8_bounds[of rest v "Some w"] by auto

function decode_loop :: "bool \<Rightarrow> u8 list \<Rightarrow> u8 list \<Rightarrow> u8 list \<times> u8 list" where
  "decode_loop final rest ready =
     (case from_utf8 rest of
        Inr _ \<Rightarrow> (ready @ rest, [])
      | Inl (valid_up_to, error_len) \<Rightarrow>
          (let valid = take valid_up_to rest; after = drop valid_up_to rest; ready = ready @ valid in
           case error_len of
             Some skip \<Rightarrow> decode_loop final (drop skip after) (ready @ REPLACEMENT)
           | None \<Rightarrow> if final then (ready @ REPLACEMENT, []) else (ready, after)))"
  by auto

termination
  by (relation "measure (\<lambda>(final, rest, ready). length rest)") (auto dest: decode_shrinks)

declare decode_loop.simps [simp del]

subsection \<open>The filter\<close>

record AnsiLines =
  al_scan :: Scan
  al_carry :: "u8 list"
  al_ready :: "u8 list"
  al_sent :: nat
  al_eof :: bool

definition ansi_new :: AnsiLines where
  "ansi_new =
     \<lparr> al_scan = \<lparr> sc_state = Ground, sc_cr_pending = False, sc_line_has_text = False \<rparr>, al_carry = [], al_ready = [],
       al_sent = 0, al_eof = False \<rparr>"

definition decode :: "u8 list \<Rightarrow> bool \<Rightarrow> AnsiLines \<Rightarrow> AnsiLines" where
  "decode text final a =
     (case decode_loop final (al_carry a @ text) (al_ready a) of
        (ready, carry) \<Rightarrow> a\<lparr> al_ready := ready, al_carry := carry \<rparr>)"

definition scan_bytes :: "u8 list \<Rightarrow> Scan \<times> u8 list \<Rightarrow> Scan \<times> u8 list" where
  "scan_bytes = fold step_byte"

text \<open>One read of the inner reader: \<open>filled\<close> is what it returned, nothing at the end.\<close>

definition ansi_took :: "u8 list \<Rightarrow> AnsiLines \<Rightarrow> AnsiLines" where
  "ansi_took filled a =
     (let a = a\<lparr> al_ready := [], al_sent := 0 \<rparr>;
          (s, text) = (if filled = [] then settle_cr (al_scan a, []) else (al_scan a, []));
          (s, text) = scan_bytes filled (s, text);
          a = a\<lparr> al_scan := s, al_eof := al_eof a \<or> filled = [] \<rparr>
      in decode text (al_eof a) a)"

fun refill :: "u8 list list \<Rightarrow> AnsiLines \<Rightarrow> u8 list list \<times> AnsiLines" where
  "refill [] a = (if al_sent a = length (al_ready a) \<and> \<not> al_eof a then ([], ansi_took [] a) else ([], a))"
| "refill (c # cs) a =
     (if al_sent a = length (al_ready a) \<and> \<not> al_eof a then refill cs (ansi_took c a) else (c # cs, a))"

definition poll_read :: "nat \<Rightarrow> u8 list list \<times> AnsiLines \<Rightarrow> u8 list \<times> u8 list list \<times> AnsiLines" where
  "poll_read remaining = (\<lambda>(chunks, a).
     (case refill chunks a of
        (chunks, a) \<Rightarrow>
          (let pending = drop (al_sent a) (al_ready a);
               count = min (length pending) remaining
           in (take count pending, chunks, a\<lparr> al_sent := al_sent a + count \<rparr>))))"

text \<open>What a caller reads with buffers of these sizes.\<close>

fun polls :: "nat list \<Rightarrow> u8 list list \<times> AnsiLines \<Rightarrow> u8 list" where
  "polls [] st = []"
| "polls (n # ns) st = (case poll_read n st of (out, st) \<Rightarrow> out @ polls ns st)"

subsection \<open>Scanning is a transducer\<close>

text \<open>Every step appends to \<open>text\<close> what it would write to an empty one.\<close>

definition appends :: "(Scan \<times> u8 list \<Rightarrow> Scan \<times> u8 list) \<Rightarrow> bool" where
  "appends f \<longleftrightarrow> (\<forall>s t. f (s, t) = (fst (f (s, [])), t @ snd (f (s, []))))"

lemma appendsD: "appends f \<Longrightarrow> f (s, t) = (fst (f (s, [])), t @ snd (f (s, [])))"
  unfolding appends_def by blast

lemma break_line_appends: "appends break_line"
  by (simp add: appends_def break_line_def)

lemma settle_cr_appends: "appends settle_cr"
  by (simp add: appends_def settle_cr_def break_line_def)

lemma ground_appends: "appends (ground b)"
  by (simp add: appends_def ground_def settle_cr_def break_line_def)

lemma appendsI: "(\<And>s t. f (s, t) = (fst (f (s, [])), t @ snd (f (s, [])))) \<Longrightarrow> appends f"
  unfolding appends_def by blast

lemma to_ground_appends: "appends (to_ground b)"
proof (rule appendsI)
  fix s t
  show "to_ground b (s, t) = (fst (to_ground b (s, [])), t @ snd (to_ground b (s, [])))"
    using appendsD[OF ground_appends, of b "s\<lparr> sc_state := Ground \<rparr>" t] by (simp add: to_ground_def)
qed

lemma step_escape_appends: "appends (step_escape b)"
proof (rule appendsI)
  fix s t
  show "step_escape b (s, t) = (fst (step_escape b (s, [])), t @ snd (step_escape b (s, [])))"
    using appendsD[OF to_ground_appends, of b s t] by (simp add: step_escape_def)
qed

lemma breaking_appends: "appends (\<lambda>st. break_line (settle_cr st))"
  by (simp add: appends_def break_line_def settle_cr_def)

lemma step_byte_appends: "appends (step_byte b)"
proof (rule appendsI)
  fix s t
  show "step_byte b (s, t) = (fst (step_byte b (s, [])), t @ snd (step_byte b (s, [])))"
    using appendsD[OF to_ground_appends, of b s t] appendsD[OF ground_appends, of b s t]
      appendsD[OF step_escape_appends, of b s t] appendsD[OF step_escape_appends, of b "s\<lparr> sc_state := Escape \<rparr>" t]
      appendsD[OF breaking_appends, of "s\<lparr> sc_state := Ground \<rparr>" t]
    by (cases "sc_state s") (simp_all add: step_byte_def)
qed

lemma scan_bytes_appends: "appends (scan_bytes bs)"
proof (induction bs)
  case (Cons b bs)
  show ?case
  proof (rule appendsI)
    fix s t
    obtain s1 t1 where 1: "step_byte b (s, []) = (s1, t1)" by (cases "step_byte b (s, [])")
    have "step_byte b (s, t) = (s1, t @ t1)" using appendsD[OF step_byte_appends, of b s t] 1 by simp
    then show "scan_bytes (b # bs) (s, t) = (fst (scan_bytes (b # bs) (s, [])), t @ snd (scan_bytes (b # bs) (s, [])))"
      using 1 appendsD[OF Cons, of s1 "t @ t1"] appendsD[OF Cons, of s1 t1] by (simp add: scan_bytes_def)
  qed
qed (simp add: appends_def scan_bytes_def)

lemma scan_bytes_append: "scan_bytes (xs @ ys) st = scan_bytes ys (scan_bytes xs st)"
  by (simp add: scan_bytes_def)

text \<open>The text of the rest of a stream, from a state of the machine.\<close>

definition text_from :: "Scan \<Rightarrow> u8 list \<Rightarrow> u8 list" where
  "text_from s bs = snd (settle_cr (scan_bytes bs (s, [])))"

lemma text_from_append:
  "text_from s (xs @ ys) = snd (scan_bytes xs (s, [])) @ text_from (fst (scan_bytes xs (s, []))) ys"
proof -
  obtain s1 t1 where 1: "scan_bytes xs (s, []) = (s1, t1)" by (cases "scan_bytes xs (s, [])")
  obtain s2 t2 where 2: "scan_bytes ys (s1, []) = (s2, t2)" by (cases "scan_bytes ys (s1, [])")
  have "scan_bytes ys (s1, t1) = (s2, t1 @ t2)" using appendsD[OF scan_bytes_appends, of ys s1 t1] 2 by simp
  then show ?thesis
    using 1 2 appendsD[OF settle_cr_appends, of s2 "t1 @ t2"] appendsD[OF settle_cr_appends, of s2 t2]
    by (simp add: text_from_def scan_bytes_append)
qed

subsection \<open>Decoding character by character\<close>

function lossy :: "bool \<Rightarrow> u8 list \<Rightarrow> u8 list \<times> u8 list" where
  "lossy final [] = ([], [])"
| "lossy final (b # bs) =
     (case unit_of b bs of
        UChar w \<Rightarrow> (take w (b # bs) @ fst (lossy final (drop w (b # bs))), snd (lossy final (drop w (b # bs))))
      | UBad w \<Rightarrow> (REPLACEMENT @ fst (lossy final (drop w (b # bs))), snd (lossy final (drop w (b # bs))))
      | UShort \<Rightarrow> if final then (REPLACEMENT, []) else ([], b # bs))"
  by pat_completeness auto

termination
  by (relation "measure (\<lambda>(final, bs). length bs)") (auto dest: unit_bounds)

lemma lossy_valid: "from_utf8 bs = Inr () \<Longrightarrow> lossy final bs = (bs, [])"
  by (induction bs rule: from_utf8.induct) (auto split: utf8_unit.splits sum.splits)

lemma lossy_bad:
  "from_utf8 bs = Inl (v, Some w) \<Longrightarrow>
    lossy final bs = (take v bs @ REPLACEMENT @ fst (lossy final (drop w (drop v bs))), snd (lossy final (drop w (drop v bs))))"
proof (induction bs arbitrary: v rule: from_utf8.induct)
  case (2 b bs)
  show ?case
  proof (cases "unit_of b bs")
    case (UChar k)
    obtain v' where v': "from_utf8 (drop k (b # bs)) = Inl (v', Some w)" "v = k + v'"
      using "2.prems" UChar by (auto split: sum.splits)
    show ?thesis using "2.IH"[OF UChar v'(1)] UChar v'(2) by (simp add: take_add add.commute del: take_Cons drop_Cons)
  qed (use "2.prems" in auto)
qed simp

lemma lossy_short:
  "from_utf8 bs = Inl (v, None) \<Longrightarrow>
    lossy final bs = (if final then (take v bs @ REPLACEMENT, []) else (take v bs, drop v bs))"
proof (induction bs arbitrary: v rule: from_utf8.induct)
  case (2 b bs)
  show ?case
  proof (cases "unit_of b bs")
    case (UChar k)
    obtain v' where v': "from_utf8 (drop k (b # bs)) = Inl (v', None)" "v = k + v'"
      using "2.prems" UChar by (auto split: sum.splits)
    show ?thesis using "2.IH"[OF UChar v'(1)] UChar v'(2) by (simp add: take_add add.commute del: take_Cons drop_Cons)
  qed (use "2.prems" in auto)
qed simp

lemma decode_loop_lossy: "decode_loop final rest ready = (ready @ fst (lossy final rest), snd (lossy final rest))"
proof (induction final rest ready rule: decode_loop.induct)
  case (1 final rest ready)
  show ?case
  proof (cases "from_utf8 rest")
    case (Inr u)
    then show ?thesis using lossy_valid[of rest final] decode_loop.simps[of final rest ready] by simp
  next
    case (Inl p)
    obtain v e where p: "p = (v, e)" by (cases p)
    show ?thesis
    proof (cases e)
      case None
      then show ?thesis using Inl p lossy_short[of rest v final] decode_loop.simps[of final rest ready] by (simp add: Let_def)
    next
      case (Some w)
      note bad = lossy_bad[of rest v w final]
      show ?thesis
        using 1[OF Inl p[symmetric] refl refl refl Some] Inl p Some bad decode_loop.simps[of final rest ready] by (simp add: Let_def)
    qed
  qed
qed

text \<open>A cut inside a character is carried over it.\<close>

lemma tail_unit_append: "tail_unit k ps bs \<noteq> UShort \<Longrightarrow> tail_unit k ps (bs @ ys) = tail_unit k ps bs"
  by (induction k ps bs rule: tail_unit.induct) auto

lemma unit_of_append: "unit_of b bs \<noteq> UShort \<Longrightarrow> unit_of b (bs @ ys) = unit_of b bs"
  by (auto simp: unit_of_def tail_unit_append split: option.splits)

lemma lossy_append:
  "lossy final (xs @ ys) =
     (fst (lossy False xs) @ fst (lossy final (snd (lossy False xs) @ ys)), snd (lossy final (snd (lossy False xs) @ ys)))"
proof (induction "False" xs rule: lossy.induct)
  case (2 b bs)
  show ?case
  proof (cases "unit_of b bs")
    case (UChar w)
    then show ?thesis
      using 2(1)[OF UChar] unit_of_append[of b bs ys] unit_bounds(1)[OF UChar] by (simp add: drop_Cons' take_Cons')
  next
    case (UBad w)
    then show ?thesis
      using 2(3)[OF UBad] unit_of_append[of b bs ys] unit_bounds(2)[OF UBad] by (simp add: drop_Cons' take_Cons')
  qed simp
qed simp

subsection \<open>What is still to be read\<close>

definition to_come :: "u8 list list \<Rightarrow> AnsiLines \<Rightarrow> u8 list" where
  "to_come chunks a = drop (al_sent a) (al_ready a) @
     (if al_eof a then [] else fst (lossy True (al_carry a @ text_from (al_scan a) (concat chunks))))"

lemma took_more:
  assumes "c \<noteq> []" "\<not> al_eof a" "al_sent a = length (al_ready a)"
  shows "to_come cs (ansi_took c a) = to_come (c # cs) a" "\<not> al_eof (ansi_took c a)" "al_sent (ansi_took c a) = 0"
proof -
  obtain s t where st: "scan_bytes c (al_scan a, []) = (s, t)" by (cases "scan_bytes c (al_scan a, [])")
  obtain out carry where l: "lossy False (al_carry a @ t) = (out, carry)" by (cases "lossy False (al_carry a @ t)")
  have e: "ansi_took c a = a\<lparr> al_ready := out, al_sent := 0, al_scan := s, al_carry := carry \<rparr>"
    using assms st l by (simp add: ansi_took_def decode_def decode_loop_lossy)
  show "to_come cs (ansi_took c a) = to_come (c # cs) a"
    using assms st l lossy_append[of True "al_carry a @ t" "text_from s (concat cs)"] text_from_append[of "al_scan a" c "concat cs"]
    by (simp add: e to_come_def)
qed (use assms in \<open>simp_all add: ansi_took_def decode_def split_beta Let_def\<close>)

lemma took_end:
  assumes "\<not> al_eof a" "al_sent a = length (al_ready a)"
  shows "to_come [] (ansi_took [] a) = to_come [] a" "al_eof (ansi_took [] a)" "al_sent (ansi_took [] a) = 0"
  using assms by (simp_all add: ansi_took_def decode_def decode_loop_lossy to_come_def text_from_def scan_bytes_def split_beta Let_def)

definition reading_ok :: "u8 list list \<Rightarrow> AnsiLines \<Rightarrow> bool" where
  "reading_ok chunks a \<longleftrightarrow> al_sent a \<le> length (al_ready a) \<and> [] \<notin> set chunks"

lemma refill_spec:
  assumes "reading_ok chunks a" "refill chunks a = (chunks', a')"
  shows "to_come chunks' a' = to_come chunks a \<and> reading_ok chunks' a' \<and> (al_sent a' < length (al_ready a') \<or> al_eof a')"
  using assms
proof (induction chunks a rule: refill.induct)
  case (1 a)
  show ?case
  proof (cases "al_sent a = length (al_ready a) \<and> \<not> al_eof a")
    case True
    then show ?thesis using 1 took_end[of a] by (auto simp: reading_ok_def)
  qed (use 1 in \<open>auto simp: reading_ok_def\<close>)
next
  case (2 c cs a)
  show ?case
  proof (cases "al_sent a = length (al_ready a) \<and> \<not> al_eof a")
    case True
    have c: "c \<noteq> []" using "2.prems"(1) by (auto simp: reading_ok_def)
    have "reading_ok cs (ansi_took c a)"
      using "2.prems"(1) took_more(3)[OF c, of a] True by (simp add: reading_ok_def)
    then show ?thesis using 2 True took_more(1)[OF c, of a cs] by simp
  qed (use 2 in \<open>auto simp: reading_ok_def\<close>)
qed

lemma poll_read_spec:
  assumes "reading_ok chunks a" "poll_read n (chunks, a) = (out, chunks', a')"
  shows "out @ to_come chunks' a' = to_come chunks a" "reading_ok chunks' a'" "0 < n \<longrightarrow> out = [] \<longrightarrow> to_come chunks a = []"
proof -
  obtain cs b where r: "refill chunks a = (cs, b)" by (cases "refill chunks a")
  note spec = refill_spec[OF assms(1) r]
  let ?p = "drop (al_sent b) (al_ready b)" and ?k = "min (length (drop (al_sent b) (al_ready b))) n"
  have e: "out = take ?k ?p" "chunks' = cs" "a' = b\<lparr> al_sent := al_sent b + ?k \<rparr>"
    using assms(2) r by (simp_all add: poll_read_def Let_def)
  have "take ?k ?p @ drop (al_sent b + ?k) (al_ready b) = ?p"
    using append_take_drop_id[of ?k ?p] by (simp add: add.commute)
  then have "out @ to_come chunks' a' = to_come cs b" by (simp add: e to_come_def flip: append_assoc)
  then show "out @ to_come chunks' a' = to_come chunks a" using spec by simp
  show "reading_ok chunks' a'" using spec e by (auto simp: reading_ok_def)
  show "0 < n \<longrightarrow> out = [] \<longrightarrow> to_come chunks a = []"
    using spec e by (auto simp: to_come_def reading_ok_def)
qed

lemma polls_spec:
  "reading_ok chunks a \<Longrightarrow> \<forall>n \<in> set ns. 0 < n \<Longrightarrow> length (to_come chunks a) \<le> length ns \<Longrightarrow> polls ns (chunks, a) = to_come chunks a"
proof (induction ns arbitrary: chunks a)
  case (Cons n ns)
  obtain out cs b where p: "poll_read n (chunks, a) = (out, cs, b)" by (cases "poll_read n (chunks, a)")
  note spec = poll_read_spec[OF Cons.prems(1) p]
  have "length (to_come cs b) \<le> length ns"
  proof (cases "out = []")
    case True
    then show ?thesis using spec(1,3) Cons.prems(2) by auto
  next
    case False
    then have "0 < length out" by simp
    moreover have "length out + length (to_come cs b) \<le> Suc (length ns)" using spec(1) Cons.prems(3) by (metis length_append length_Cons)
    ultimately show ?thesis by linarith
  qed
  then show ?case using Cons spec p by simp
qed simp

subsection \<open>What comes out\<close>

definition plain_text :: "u8 list \<Rightarrow> u8 list" where
  "plain_text bs = fst (lossy True (text_from (al_scan ansi_new) bs))"

definition loud :: "u8 \<Rightarrow> bool" where
  "loud b \<longleftrightarrow> 0x20 \<le> b \<and> b \<noteq> 0x7f \<or> b = 0x0a \<or> b = 0x09"

lemma loud_iff: "loud b \<longleftrightarrow> \<not> silent b \<and> b \<noteq> 0x0d \<and> b \<noteq> 0x1b"
  by (auto simp: loud_def silent_def word_le_nat_alt word_unat_eq_iff)

definition writes_loud :: "(Scan \<times> u8 list \<Rightarrow> Scan \<times> u8 list) \<Rightarrow> bool" where
  "writes_loud f \<longleftrightarrow> (\<forall>s t. list_all loud t \<longrightarrow> list_all loud (snd (f (s, t))))"

lemma newline_loud [simp]: "loud 0x0a"
  by (simp add: loud_def)

lemma settle_cr_loud: "writes_loud settle_cr" "writes_loud (\<lambda>st. break_line (settle_cr st))"
  by (simp_all add: writes_loud_def settle_cr_def break_line_def)

lemma ground_loud: "writes_loud (ground b)"
  using loud_iff[of b] by (auto simp: writes_loud_def ground_def settle_cr_def break_line_def)

lemma step_escape_loud: "writes_loud (to_ground b)" "writes_loud (step_escape b)"
  using ground_loud[of b] by (auto simp: writes_loud_def to_ground_def step_escape_def)

lemma step_byte_loud: "writes_loud (step_byte b)"
  unfolding writes_loud_def
proof (intro allI impI)
  fix s :: Scan and t assume "list_all loud t"
  then show "list_all loud (snd (step_byte b (s, t)))"
    using ground_loud[of b] step_escape_loud[of b] settle_cr_loud
    by (cases "sc_state s") (simp_all add: writes_loud_def step_byte_def)
qed

lemma scan_loud: "list_all loud (snd st) \<Longrightarrow> list_all loud (snd (scan_bytes bs st))"
proof (induction bs arbitrary: st)
  case (Cons b bs)
  have "list_all loud (snd (step_byte b st))" using Cons.prems step_byte_loud[of b] by (cases st) (simp add: writes_loud_def)
  then show ?case using Cons.IH by (simp add: scan_bytes_def)
qed (simp add: scan_bytes_def)

lemma text_from_loud: "list_all loud (text_from s bs)"
proof -
  obtain s' t where st: "scan_bytes bs (s, []) = (s', t)" by (cases "scan_bytes bs (s, [])")
  have "list_all loud t" using scan_loud[of "(s, [])" bs] st by simp
  then show ?thesis using settle_cr_loud(1) st by (simp add: text_from_def writes_loud_def)
qed

lemma lossy_loud: "list_all loud bs \<Longrightarrow> list_all loud (fst (lossy final bs))"
proof (induction final bs rule: lossy.induct)
  case (2 final b bs)
  have r: "list_all loud REPLACEMENT" by (simp add: REPLACEMENT_def loud_def)
  have sub: "list_all loud (take w (b # bs))" "list_all loud (drop w (b # bs))" for w
    using "2.prems" set_take_subset[of w "b # bs"] set_drop_subset[of w "b # bs"] unfolding list_all_iff by blast+
  show ?case
  proof (cases "unit_of b bs")
    case (UChar w)
    then show ?thesis using 2(1)[OF UChar sub(2)] sub(1)[of w] by simp
  next
    case (UBad w)
    then show ?thesis using 2(3)[OF UBad sub(2)] r by simp
  next
    case UShort
    then show ?thesis using r by simp
  qed
qed simp

lemma tail_unit_take: "tail_unit k ps bs = UChar w \<Longrightarrow> tail_unit k ps (take (w - k) bs @ ys) = UChar w"
proof (induction k ps bs rule: tail_unit.induct)
  case (3 k p ps b bs)
  then have "p b" "tail_unit (Suc k) ps bs = UChar w" by (simp_all split: if_splits)
  then show ?case using 3 tail_unit_bounds(1)[of "Suc k" ps bs w] by (simp add: take_Cons')
qed simp_all

lemma unit_of_take: "unit_of b bs = UChar w \<Longrightarrow> unit_of b (take (w - 1) bs @ ys) = UChar w"
  using tail_unit_take[of 1] by (auto simp: unit_of_def split: option.splits)

lemma from_utf8_char:
  assumes "unit_of b bs = UChar w" "from_utf8 ys = Inr ()"
  shows "from_utf8 (take w (b # bs) @ ys) = Inr ()"
proof -
  note w = unit_bounds(1)[OF assms(1)]
  have "take w (b # bs) = b # take (w - 1) bs" using w by (simp add: take_Cons')
  moreover have "drop w (b # take (w - 1) bs @ ys) = ys" using w by (cases w) (simp_all add: min_absorb2)
  ultimately show ?thesis using unit_of_take[OF assms(1), of ys] assms(2) by simp
qed

lemma replacement_utf8: "from_utf8 ys = Inr () \<Longrightarrow> from_utf8 (REPLACEMENT @ ys) = Inr ()"
  using from_utf8_char[where b = "0xef" and bs = "[0xbf, 0xbd]" and w = 3 and ys = ys] by (simp add: REPLACEMENT_def unit_of_def needs_def second_of_three_def cont_def)

lemma lossy_utf8: "from_utf8 (fst (lossy True bs)) = Inr ()"
proof (induction True bs rule: lossy.induct)
  case (2 b bs)
  show ?case
  proof (cases "unit_of b bs")
    case (UChar w)
    then show ?thesis using from_utf8_char[OF UChar 2(1)[OF UChar]] by simp
  next
    case (UBad w)
    then show ?thesis using replacement_utf8[OF 2(3)[OF UBad]] by simp
  next
    case UShort
    then show ?thesis using replacement_utf8[of "[]"] by simp
  qed
qed simp

lemma scan_plain:
  "list_all loud bs \<Longrightarrow> sc_state s = Ground \<Longrightarrow> \<not> sc_cr_pending s \<Longrightarrow>
    \<exists>s'. scan_bytes bs (s, t) = (s', t @ bs) \<and> \<not> sc_cr_pending s'"
proof (induction bs arbitrary: s t)
  case (Cons b bs)
  have "\<not> silent b" "b \<noteq> 0x0d" "b \<noteq> 0x1b" using Cons.prems(1) loud_iff by simp_all
  then have "\<exists>s'. step_byte b (s, t) = (s', t @ [b]) \<and> sc_state s' = Ground \<and> \<not> sc_cr_pending s'"
    using Cons.prems(2,3) by (cases "b = 0x0a") (simp_all add: step_byte_def ground_def settle_cr_def)
  then obtain s' where "step_byte b (s, t) = (s', t @ [b])" "sc_state s' = Ground" "\<not> sc_cr_pending s'" by blast
  then show ?case using Cons.IH[of s' "t @ [b]"] Cons.prems(1) by (simp add: scan_bytes_def)
qed (simp add: scan_bytes_def)

lemma plain_fixed:
  assumes "list_all loud bs" "from_utf8 bs = Inr ()"
  shows "plain_text bs = bs"
proof -
  obtain s' where "scan_bytes bs (al_scan ansi_new, []) = (s', bs)" "\<not> sc_cr_pending s'"
    using scan_plain[OF assms(1), of "al_scan ansi_new" "[]"] by (auto simp: ansi_new_def)
  then have "text_from (al_scan ansi_new) bs = bs" by (simp add: text_from_def settle_cr_def)
  then show ?thesis using lossy_valid[OF assms(2), of True] by (simp add: plain_text_def)
qed

subsection \<open>Properties\<close>

text \<open>
  C30. Where a read ends does not matter. However the bytes of a pty are cut into reads, and
  whatever the sizes of the buffers they are polled into, the caller reads the same text: the
  one obtained from the whole stream at once. A sequence or a character cut by a read boundary
  is neither lost nor passed on in part.
\<close>

theorem ansi_reads_do_not_matter:
  assumes "[] \<notin> set chunks" "\<forall>n \<in> set sizes. 0 < n" "length (plain_text (concat chunks)) \<le> length sizes"
  shows "polls sizes (chunks, ansi_new) = plain_text (concat chunks)"
proof -
  have "to_come chunks ansi_new = plain_text (concat chunks)" by (simp add: to_come_def plain_text_def ansi_new_def)
  moreover have "reading_ok chunks ansi_new" using assms(1) by (simp add: reading_ok_def ansi_new_def)
  ultimately show ?thesis using polls_spec[of chunks ansi_new sizes] assms by simp
qed

definition bright :: "u8 list list" where
  "bright = [[0x68, 0xc3], [0xa9, 0x1b], [0x5b, 0x31], [0x6d, 0x21, 0x0d], [0x0a]]"

lemma bright_plain: "plain_text (concat bright) = [0x68, 0xc3, 0xa9, 0x21, 0x0a]"
  by code_simp

theorem ansi_reads_do_not_matter_witness:
  "polls [1, 1, 2, 1, 1] (bright, ansi_new) = [0x68, 0xc3, 0xa9, 0x21, 0x0a]"
  using ansi_reads_do_not_matter[of bright "[1, 1, 2, 1, 1]"] unfolding bright_plain by (simp add: bright_def)

text \<open>
  C31. What comes out is plain text: valid UTF-8 with no control byte but newline and tab, so no
  escape survives. A stream passes unchanged exactly when it is plain text already, so nothing of
  plain text is dropped, and filtering twice changes nothing.
\<close>

theorem ansi_output_is_plain:
  "from_utf8 (plain_text bs) = Inr ()
    \<and> list_all (\<lambda>b. b = 0x0a \<or> b = 0x09 \<or> 0x20 \<le> b \<and> b \<noteq> 0x7f) (plain_text bs)
    \<and> (plain_text bs = bs \<longleftrightarrow>
         from_utf8 bs = Inr () \<and> list_all (\<lambda>b. b = 0x0a \<or> b = 0x09 \<or> 0x20 \<le> b \<and> b \<noteq> 0x7f) bs)
    \<and> plain_text (plain_text bs) = plain_text bs"
proof -
  have loud: "loud = (\<lambda>b. b = 0x0a \<or> b = 0x09 \<or> 0x20 \<le> b \<and> b \<noteq> 0x7f)" by (auto simp: loud_def fun_eq_iff)
  have l: "list_all loud (plain_text bs)" unfolding plain_text_def by (rule lossy_loud[OF text_from_loud])
  have u: "from_utf8 (plain_text bs) = Inr ()" unfolding plain_text_def by (rule lossy_utf8)
  have "plain_text bs = bs \<longleftrightarrow> from_utf8 bs = Inr () \<and> list_all loud bs"
    using l u plain_fixed[of bs] by metis
  then show ?thesis using l u plain_fixed[OF l u] unfolding loud by blast
qed

end
