(* ===== verification/Spec2Isabelle.thy ===== *)
theory Spec2Isabelle
  imports Quiescence Lifecycle_Laws Config_Laws Talking_Laws Boot_Plan App_Channel Ansi_Lines
begin

text \<open>
  A verification development of shep, a process manager in Rust. A daemon (the shepherd) starts,
  restarts, reloads, scales and stops processes (sheep) as a Flockfile says; apps talk back to it
  over a channel; operators edit and reload configs while everything runs. Paths below are under
  \<open>src/crates/\<close>.

  \<^bold>\<open>The parts of the program and how they meet.\<close> \<open>shep-core\<close> holds what every part shares: value
  grammars, the config of an app, its normalization, the boot order, templates and secrets, and
  the stores on disk. \<open>shep-daemon\<close> is an actor: one mailbox, one state, one handler per message.
  A command or an event (an exit, a timer, a readiness verdict, an action's reply) is taken off
  the mailbox, handled to the end, and its effects go out: processes spawned, kill ladders
  started, replies sent, events broadcast. An app's config passes through normalization before
  the actor sees it, through spawn assembly when a process is started, and through the merge when
  a Flockfile is loaded over a running app. Each exit is decided by the restart brain. \<open>shep-channel\<close>
  is the library an app links to talk to the shepherd: a queue and three kinds of threads.

  \<^bold>\<open>How the theories correspond to the code.\<close>
  \<^item> \<open>Shep_Prelude\<close>: machine integers as words, \<open>Result\<close> as a sum, strings as bytes, association
    lists for ordered maps, and the locale \<open>finite_map\<close> that the actor's tables satisfy.
  \<^item> \<open>Values\<close>, \<open>Core_Types\<close>, \<open>Selector\<close>, \<open>App_Config\<close>: \<open>values.rs\<close>, \<open>status.rs\<close>, \<open>kill_signal.rs\<close>,
    \<open>selector.rs\<close> and \<open>config/app\<close> of \<open>shep-core\<close>. The locale \<open>textual_value\<close> is the round trip
    between a grammar and its printer.
  \<^item> \<open>Boot_Graph\<close>, \<open>Boot_Knots\<close>, \<open>Boot_Plan\<close>: \<open>config/graph.rs\<close>, the definitions, Tarjan's
    components, and the plan.
  \<^item> \<open>Template\<close>, \<open>Probe_Target\<close>, \<open>Net_Addr\<close>, \<open>Cron_Rules\<close>, \<open>Normalize\<close>: \<open>config/template.rs\<close>,
    \<open>secrets/\<close>, \<open>config/probe.rs\<close>, \<open>config/cron.rs\<close>, \<open>config/level.rs\<close>, \<open>config/normalize/\<close>, and
    the socket addresses of the standard library that validation parses.
  \<^item> \<open>Stores\<close>: \<open>versioned_file.rs\<close>, \<open>atomic_file.rs\<close>, \<open>kv.rs\<close>, \<open>overrides.rs\<close>, \<open>secrets/store.rs\<close>. The
    locale \<open>versioned_store\<close> is interpreted by all three stores.
  \<^item> \<open>Config_Merge\<close>: \<open>supervisor/config_merge.rs\<close> and \<open>config/apply.rs\<close>.
  \<^item> \<open>Brain\<close>, \<open>Assemble\<close>, \<open>Action_Waits\<close>: \<open>brain.rs\<close>, \<open>backoff.rs\<close>, \<open>entry.rs\<close>, \<open>probes/ready.rs\<close>,
    \<open>kill.rs\<close>; \<open>assemble/\<close>; \<open>supervisor/manual.rs\<close>. The locale \<open>reply_matching\<close> is the queue of
    owed answers that the waits refine.
  \<^item> \<open>Flock\<close>, \<open>Lifecycle\<close>, \<open>Reload\<close>, \<open>Exits\<close>, \<open>Starting_Flock\<close>, \<open>Config_Loads\<close>, \<open>Talking\<close>,
    \<open>Supervisor\<close>: the actor of \<open>supervisor/\<close>, its state first and its dispatch last. The record \<open>actor\<close> is the
    struct \<open>Actor\<close> with the trace of its effects; a handler is a function from state to state;
    \<open>handle_command\<close>, \<open>handle_msg\<close> and \<open>turn\<close> are the dispatch and one turn of \<open>run\<close>.
  \<^item> \<open>Progress\<close>, \<open>Quiescence\<close>, \<open>Lifecycle_Laws\<close>, \<open>Config_Laws\<close>, \<open>Talking_Laws\<close>: laws of whole runs
    and handlers. \<open>Scenarios\<close> has the concrete host, apps and runs they are applied to.
  \<^item> \<open>Log_Files\<close>: \<open>tokio_runner/log_file.rs\<close>, the handle a pump appends to a log through.
  \<^item> \<open>Outbox\<close>, \<open>App_Channel\<close>: \<open>shep-channel/src\<close>, as a step relation over the interleavings.
  \<^item> \<open>Ansi_Lines\<close>: \<open>tokio_runner/ansi.rs\<close>.

  \<^bold>\<open>What the lemmas show.\<close>
  \<^item> Runs of the daemon: \<open>reached late h s\<close> holds of a state the run loop reaches on the history \<open>h\<close> of
    worlds and messages, from what \<open>build_actor\<close> makes of any builder and any override store. Each
    handler theory proves that its handlers keep the invariant (\<open>flock_ok\<close>, \<open>pend_ok\<close>), never fail
    an \<open>expect\<close>, balance spawns against exits, keep the deferred replies and only add to the trace;
    \<open>Supervisor\<close> puts them together by rule induction. Any message may come at any time, with two
    promises of the senders (\<open>sound\<close>): a dog's config asks for at most one instance, and reading back
    the JSON of a config reads its name. One message does break the invariant, the verdict on a
    replacement that is no longer running while its job still waits for it (\<open>late_verdict\<close>): the index
    \<open>late\<close> says whether one came, and the laws of runs are for runs without one. A daemon that
    begins by adopting the flock of a predecessor is not covered.
  \<^item> Shutdown and callers: every shutdown ends and every deferred caller is answered, once the
    processes waited on have exited, in whatever order and whatever comes between the exits; nothing
    but a scale starts a process after a shutdown has begun.
  \<^item> Configs: what normalization accepts it accepts unchanged, instances do not share a log, the
    boot plan respects dependencies, knots are exactly the cycles, secrets of another environment
    do not show, a probe's request cannot be split.
  \<^item> Loads and panes: a load is idempotent and keeps an operator's edits, a refused edit is no
    edit, a reset undoes a set, a plain load touches no process.
  \<^item> Talking to sheep: a trigger answers for every sheep it selects, once; a flush writes out every
    pump that writes to one of the files before it truncates any, so they end empty.
  \<^item> Log files: the lines of a log land in order, across flushes and rotations.
  \<^item> Stores: a newer or unreadable file is never overwritten, a batch of override changes lands whole
    or not at all, an error of the secret store says what was stored.
  \<^item> Channel: accepted messages arrive in order, every action is answered once, a flush ends.
  \<^item> Runs that end otherwise than a comment says are lemmas too: \<open>delete_respawns\<close>,
    \<open>scale_while_closing\<close>, \<open>verified_panics\<close>, \<open>verified_wedges\<close>, \<open>verifying_exit_trips_assertion\<close>, \<open>backoff_edges\<close>,
    \<open>live_edit_forgets_a_parked_field\<close>, \<open>flush_failure_reads_as_nothing_written\<close>,
    \<open>refusals_out_of_order\<close>.

  \<^bold>\<open>Parameters.\<close> What the code calls and does not contain is an argument. \<open>world\<close> is what one turn
  meets: clock, passwd lookup, environment, secret views, sockets, the process runner, faults of
  the store files, file metadata, cgroup rewrites, the hash that seals a table, what a process's
  channel, stdin and terminal take. \<open>platform\<close> is the
  target and the crates behind validation: globset, regex, croner, the time zone names, the
  floating-point check of a core count. \<open>serde\<close> is the JSON of a config. Handlers of an app and the
  transport are parameters of the channel. Theorems that rely on one of them name what they rely
  on; \<open>Scenarios\<close> has instances for which all of it holds.

  \<^bold>\<open>Fuel and bounds.\<close> Tarjan's recursion carries as fuel the number of nodes, and the walk that
  closes a cycle the number of members and one: \<open>Boot_Knots\<close> proves both enough. Every other
  recursion ends by its measure or structure. Counters of the actor (ids, epochs, stamps) are
  natural numbers: the code only increments them. Where wrap-around can be reached (durations,
  sizes, backoff, store arithmetic) the integers keep their width.

  \<^bold>\<open>Not modelled, and why.\<close> The Flockfile's TOML and JSON, the frames of the RPC server and of the
  channel, and the JSON of the stores are serde's. The process runner, cgroups, the sweep,
  privileges and the handover across \<open>execve\<close> are operating-system work around the state modelled
  here. The client library, the command line, the terminal UI and the dogs are I/O and
  presentation. Of the actor's commands, \<open>HandoverSnapshot\<close> alone is not dispatched; it
  changes no lifecycle state.
\<close>

section \<open>What the supervisor keeps\<close>

text \<open>
  C1. Every state the run loop reaches is in order: the ids and the app names of the reload jobs
  are distinct; a slot either runs a process and holds every handle to it in a status that says
  so, or holds none and rests; a reload job names ids of its own app and its drainee wears the
  marker; and every deferred reply waits on running processes whose exits are claimed. The daemon
  may have been built with anything and met any messages, under the two promises of \<open>sound\<close>; the one
  exception is a run in which a verification's verdict came for a replacement that was no longer
  running (\<open>late\<close>).
\<close>

theorem reached_in_order:
  assumes "reached late h s"
  shows "late \<or> flock_ok s \<and> pend_ok {} s"
  using reached_late[OF assms] by (auto simp: steady_def)

theorem reached_in_order_witness:
  "\<exists>s. reached False (map (Pair demo) (reload_path @ [MReadyResult 1 0 True Ready])) s \<and>
    length (sheep s) = 2 \<and> reloads s \<noteq> [] \<and> flock_ok s \<and> pend_ok {} s"
proof -
  obtain s where s: "reached False (map (Pair demo) (reload_path @ [MReadyResult 1 0 True Ready])) s"
    "length (sheep s) = 2 \<and> reloads s \<noteq> []"
    using visited_reached[OF web_ready, of "\<lambda>s. length (sheep s) = 2 \<and> reloads s \<noteq> []"]
    by (auto simp: swapping_def)
  then show ?thesis using reached_in_order[OF s(1)] by blast
qed

text \<open>
  C2. An \<open>expect\<close> of the supervisor fails only in a run in which a verification's verdict came for a
  replacement that was no longer running.
\<close>

theorem reached_not_panicked:
  assumes "reached late h s" "panicked s"
  shows "late"
  using reached_late[OF assms(1)] assms(2) by blast

theorem reached_not_panicked_witness:
  "\<exists>late s. reached late (map (Pair demo) (crash_path @ [MCommand (CDelete All Dropped)] @ [MExited 1 crash])
      @ [(demo, MReloadVerified ''web'' 1 Ready)]) s \<and> panicked s \<and> late"
proof -
  let ?m = "MReloadVerified ''web'' 1 Ready"
  obtain s where s: "reached False (map (Pair demo) (crash_path @ [MCommand (CDelete All Dropped)] @ [MExited 1 crash])) s"
    "panicked (snd (turn demo ?m s))"
    using visited_reached[OF web_gone, of "\<lambda>s. panicked (snd (turn demo ?m s))"] by (auto simp: exec)
  have r: "reached (False \<or> late_verdict ?m s)
      (map (Pair demo) (crash_path @ [MCommand (CDelete All Dropped)] @ [MExited 1 crash]) @ [(demo, ?m)])
      (snd (turn demo ?m s))"
    by (rule reached_turn[OF s(1) _ surjective_pairing]) simp
  from reached_not_panicked[OF r s(2)] r s(2) show ?thesis by blast
qed

text \<open>
  C3. At most one process runs under an id at any time: the supervisor has started under it at
  most one process more than it has been told of exits, and none more when it holds the id as
  not running. The scope is that of C1.
\<close>

theorem one_process_per_id:
  assumes "reached late h s"
  shows "late \<or> spawns_of i (out s) \<le> exits i h + (if running s i then 1 else 0)"
proof (cases late)
  case False
  have "balance i s \<le> int (exits i h)" using reached_late[OF assms False] by simp
  then show ?thesis by (auto simp: balance_def)
qed simp

theorem one_process_per_id_witness:
  "\<exists>s. reached False (map (Pair demo) crash_path) s \<and> running s 1 \<and> spawns_of 1 (out s) \<le> 2"
proof -
  obtain s where s: "reached False (map (Pair demo) crash_path) s" "running s 1"
    using visited_reached[OF web_unmarked, of "\<lambda>s. running s 1"]
    by (auto simp: swapping_def running_def get_slot_def up_def crashed_def upd_entry_def)
  moreover have "exits 1 (map (Pair demo) crash_path) = 1"
    by (simp add: exits_def crash_path_def reload_path_def)
  ultimately show ?thesis using one_process_per_id[OF s(1), of 1] by auto
qed

text \<open>
  C5. A caller whose answer is deferred gets it. In whatever messages follow, commands, timers,
  verdicts and other exits among them, once every process the reply waits on has exited its caller
  has been sent the rows gathered before followed by those of the exits, unless a shutdown stopped
  the run loop first. The messages keep the promises of \<open>sound\<close> and no verdict among them is late.
\<close>

theorem exits_answer_every_caller:
  assumes "reached False h s" "timely msgs s" "p \<in> set (pending_replies s)" "set (pr_remaining p) \<subseteq> exit_ids msgs"
  shows "stops msgs s \<or> (\<exists>q. pr_reply q = pr_reply p \<and> prefix (pr_results p) (pr_results q) \<and>
    answer_of q \<in> set (drop (length (out s)) (out (run msgs s))))"
  using exits_answer[OF reached_invariant(1)[OF assms(1)] assms(2-4)] by (auto simp: heir_def since_def)

theorem exits_answer_every_caller_witness:
  "\<exists>s. reached False (map (Pair demo) delete_path) s \<and>
    (\<exists>body. Reply Dropped body \<in> set (drop (length (out s)) (out (run [(demo, MReady 0), (demo, MExited 0 crash)] s))))"
proof -
  let ?p = "\<lparr> pr_remaining = [0], pr_results = [], pr_reply = RIds Dropped \<rparr>"
  let ?msgs = "[(demo, MReady 0), (demo, MExited 0 crash)]"
  have P: "pending_replies (db_doomed es) = [?p] \<and> \<not> stops ?msgs (db_doomed es)" for es
    by (simp add: exec db_doomed_def db_draining_def handle_ready_signal_def)
  obtain s where s: "reached False (map (Pair demo) delete_path) s" "pending_replies s = [?p] \<and> \<not> stops ?msgs s"
    using visited_reached[OF db_deleted, of "\<lambda>s. pending_replies s = [?p] \<and> \<not> stops ?msgs s", OF P] by blast
  have t: "timely ?msgs s" "?p \<in> set (pending_replies s)" "set (pr_remaining ?p) \<subseteq> exit_ids ?msgs"
    using s(2) by simp_all
  obtain q where "pr_reply q = RIds Dropped" "answer_of q \<in> set (drop (length (out s)) (out (run ?msgs s)))"
    using exits_answer_every_caller[OF s(1) t] s(2) unfolding PendingReply.select_convs by blast
  then have "\<exists>body. Reply Dropped body \<in> set (drop (length (out s)) (out (run ?msgs s)))" by auto
  then show ?thesis using s(1) by blast
qed

text \<open>
  C4. A shutdown ends: from any state reached, whatever messages follow the shutdown, the run loop
  has stopped once every process that was running has exited, in any order and amid any other
  messages. The messages keep the promises of \<open>sound\<close> and no verdict among them is late.
\<close>

theorem shutdown_terminates:
  assumes "reached False h s" "timely ((w, MCommand (CShutdown c)) # msgs) s" "\<forall>i. running s i \<longrightarrow> i \<in> exit_ids msgs"
  shows "stops ((w, MCommand (CShutdown c)) # msgs) s"
proof (cases "fst (begin_shutdown c s)")
  case False
  let ?s = "snd (turn w (MCommand (CShutdown c)) s)"
  note st = reached_invariant(1)[OF assms(1)]
  have e: "steady (snd (begin_shutdown c s))" by (rule evolves_steady[OF begin_shutdown_evolves[OF st]])
  have "pending_replies ?s = pending_replies (snd (begin_shutdown c s))"
    using turn_pending[of w "MCommand (CShutdown c)" s] e by simp
  then obtain p where "p \<in> set (pending_replies ?s)" "is_shutdown (pr_reply p)" "set (pr_remaining p) \<subseteq> exit_ids msgs"
    using begin_shutdown_waits[OF st False] assms(3) by auto
  moreover have "steady ?s"
    using turn_steady(1)[OF st _ _ surjective_pairing, of w "MCommand (CShutdown c)"] by simp
  ultimately show ?thesis using exits_answer[of ?s msgs p] assms(2) by auto
qed simp

theorem shutdown_terminates_witness:
  "\<exists>s. reached False (map (Pair demo) [starts api]) s \<and> running s 0 \<and>
    stops [(demo, MCommand (CShutdown Dropped)), (demo, starts api), (demo, MExited 0 crash)] s"
proof -
  obtain s where s: "reached False (map (Pair demo) [starts api]) s" "\<forall>i. running s i \<longleftrightarrow> i = 0"
    using visited_reached[OF api_started, of "\<lambda>s. \<forall>i. running s i \<longleftrightarrow> i = 0"]
    by (auto simp: one_running)
  have t: "timely [(demo, MCommand (CShutdown Dropped)), (demo, starts api), (demo, MExited 0 crash)] s"
    "\<forall>i. running s i \<longrightarrow> i \<in> exit_ids [(demo, starts api), (demo, MExited 0 crash)]"
    using s(2) by simp_all
  show ?thesis using shutdown_terminates[OF s(1) t] s by blast
qed

text \<open>
  C6. Once a shutdown has begun, no process is started by whatever follows it: commands of
  callers, timers that were already running, readiness verdicts, exits of processes with a
  restart pending. The one message left out is a scale.
\<close>

theorem shutdown_starts_nothing:
  assumes "\<forall>(w, msg) \<in> set msgs. \<forall>nm n c. msg \<noteq> MCommand (CScale nm n c)"
  shows "spawns_of k (out (run ((w, MCommand (CShutdown c)) # msgs) s)) = spawns_of k (out s)"
proof -
  let ?s = "snd (turn w (MCommand (CShutdown c)) s)"
  have "spawns_of k (out ?s) = spawns_of k (out s) \<and> closing ?s" by (rule shutdown_closes)
  moreover have "spawns_of k (out (run msgs ?s)) = spawns_of k (out ?s)"
    using closing_run[OF assms] calculation by blast
  ultimately show ?thesis by (simp add: split_beta)
qed

theorem shutdown_starts_nothing_witness:
  "spawns_of 0 (out (run [(demo, MCommand (CShutdown Dropped)), (demo, starts api), (demo, MRestartDue 0 0)] init_actor)) = 0"
  using shutdown_starts_nothing[of "[(demo, starts api), (demo, MRestartDue 0 0)]" 0 demo Dropped init_actor]
  by (simp add: init_actor_def)

section \<open>Runs that end badly\<close>

text \<open>
  A scale is not refused by a daemon that is shutting down: its new process runs, and the
  shutdown does not wait for it.
\<close>

lemma scale_while_closing:
  "\<exists>s. reached False (map (Pair demo) [starts api, MCommand (CShutdown Dropped)]) s \<and> shutting_down s \<and>
    running (snd (turn demo (MCommand (CScale ''api'' 2 Dropped)) s)) 1"
  by (rule visited_reached[OF api_closed]) (simp add: exec api_closing_def running_def api_rescales template_free_spawn)

text \<open>
  Deleting an app whose serial reload is draining it: the drainee's exit still starts the
  replacement, because the delete marker has been taken by the time it is looked for.
\<close>

lemma delete_respawns:
  "\<exists>s. reached False (map (Pair demo) delete_path) s \<and>
    (let s' = snd (turn demo (MExited 0 crash) s) in running s' 1 \<and> get_slot s' 0 = None)"
  by (rule visited_reached[OF db_deleted])
    (simp add: exec db_doomed_def db_draining_def running_def)

text \<open>
  A replacement that exits while it is being verified is still \<open>Online\<close> in its own slot, so the
  assertion that it cannot be fails in a debug build.
\<close>

lemma verifying_exit_trips_assertion:
  "\<exists>s. reached False (map (Pair demo) (reload_path @ [MReadyResult 1 0 True Ready] @ [MExited 0 crash])) s \<and>
    debug_failed (snd (turn demo (MExited 1 crash) s))"
  by (rule visited_reached[OF web_verifying]) (simp add: exec)

text \<open>
  A replacement that crashed and was respawned while its drainee drained has lost its marker,
  so its later exit does not end the swap. When its row has been deleted meanwhile, the verdict of
  the verification fails an \<open>expect\<close>.
\<close>

lemma verified_panics:
  "\<exists>s. reached False (map (Pair demo) (crash_path @ [MCommand (CDelete All Dropped)] @ [MExited 1 crash])) s \<and>
    panicked (snd (turn demo (MReloadVerified ''web'' 1 Ready) s))"
  by (rule visited_reached[OF web_gone]) (simp add: exec)

text \<open>
  When that replacement's row has not been deleted, a verdict that it did not answer turns a
  row with nothing running into \<open>Starting\<close>, and its own restart timer no longer starts it.
\<close>

lemma verified_wedges:
  "\<exists>s. reached False (map (Pair demo) (crash_path @ [MExited 1 crash])) s \<and>
    (let s' = snd (turn demo (MReloadVerified ''web'' 1 TimedOut) s) in
     map_option slot_status (get_slot s' 1) = Some Starting \<and> \<not> running s' 1 \<and>
     handle_restart_due demo 1 1 s' = s')"
  by (rule visited_reached[OF web_waiting]) (simp add: exec running_def)

end
